(* ===== verification/Prelude.thy ===== *)
theory Prelude
  imports Main "HOL-Library.Word"
begin

text \<open>
  What every theory of the development shares: the results of operations that can throw,
  sizes at the width of \<open>size_t\<close>, the byte image of a machine integer on a little-endian
  host, and small facts on lists, options and words that the components' proofs use as
  rewrite rules.
\<close>

unbundle bit_operations_syntax

named_theorems layout_simps "lengths and contents of byte images"
named_theorems result_simps "unfolding of sequenced results"

section \<open>Results of operations that can throw\<close>

text \<open>
  The exceptions the code throws (\<open>std::out_of_range\<close>, \<open>std::length_error\<close>,
  \<open>std::bad_alloc\<close>, \<open>std::logic_error\<close>, \<open>std::system_error\<close>, \<open>std::bad_function_call\<close>), and
  \<open>Undefined\<close> where the C++ has no defined behaviour (a read or write outside the storage
  an operation was given): a model that reaches such a point says so instead of picking a
  value.
\<close>

datatype cxx_error = OutOfRange | LengthError | BadAlloc | LogicError | SystemError | BadFunctionCall | Undefined

type_synonym 'a result = "cxx_error + 'a"

definition andthen :: "'a result \<Rightarrow> ('a \<Rightarrow> 'b result) \<Rightarrow> 'b result" where
  "andthen r f = (case r of Inl e \<Rightarrow> Inl e | Inr a \<Rightarrow> f a)"

lemma andthen_simps [simp, result_simps]:
  "andthen (Inl e) f = Inl e"
  "andthen (Inr a) f = f a"
  by (simp_all add: andthen_def)

lemma andthen_Inr_iff [result_simps]:
  "andthen r f = Inr b \<longleftrightarrow> (\<exists>a. r = Inr a \<and> f a = Inr b)"
  by (cases r) auto

lemma andthen_assoc: "andthen (andthen r f) g = andthen r (\<lambda>a. andthen (f a) g)"
  by (cases r) auto

definition succeeds :: "'a result \<Rightarrow> bool" where
  "succeeds r \<longleftrightarrow> (case r of Inl _ \<Rightarrow> False | Inr _ \<Rightarrow> True)"

lemma succeeds_simps [simp]: "succeeds (Inr a)" "\<not> succeeds (Inl e)"
  by (simp_all add: succeeds_def)

section \<open>Sizes\<close>

text \<open>
  Sizes are natural numbers below \<open>2 ^ 64\<close>; the sums the code forms in \<open>size_t\<close> wrap, so
  they are written with \<open>size_add\<close>.
\<close>

definition size_add :: "nat \<Rightarrow> nat \<Rightarrow> nat" where
  "size_add a b = (a + b) mod 2 ^ 64"

definition size_mul :: "nat \<Rightarrow> nat \<Rightarrow> nat" where
  "size_mul a b = (a * b) mod 2 ^ 64"

lemma size_add_small [simp]: "a + b < 2 ^ 64 \<Longrightarrow> size_add a b = a + b"
  by (simp add: size_add_def)

lemma size_mul_small [simp]: "a * b < 2 ^ 64 \<Longrightarrow> size_mul a b = a * b"
  by (simp add: size_mul_def)

lemma size_add_0 [simp]: "a < 2 ^ 64 \<Longrightarrow> size_add a 0 = a"
  by (simp add: size_add_def)

text \<open>An \<open>int\<close> result computed at 32 bits, two's complement.\<close>

definition to_int32 :: "int \<Rightarrow> int" where
  "to_int32 i = signed_take_bit 31 i"

lemma to_int32_id [simp]: "- (2 ^ 31) \<le> i \<Longrightarrow> i < 2 ^ 31 \<Longrightarrow> to_int32 i = i"
  unfolding to_int32_def by (rule signed_take_bit_int_eq_self) auto

lemma to_int32_range: "- (2 ^ 31) \<le> to_int32 i" "to_int32 i < 2 ^ 31"
  unfolding to_int32_def
  using signed_take_bit_int_greater_eq_minus_exp [of 31 i] signed_take_bit_int_less_exp [of 31 i]
  by auto

text \<open>\<open>yasio::clamp\<close>.\<close>

definition clamp :: "int \<Rightarrow> int \<Rightarrow> int \<Rightarrow> int" where
  "clamp v lo hi = (if v < lo then lo else if hi < v then hi else v)"

lemma clamp_range: "lo \<le> hi \<Longrightarrow> lo \<le> clamp v lo hi \<and> clamp v lo hi \<le> hi"
  by (auto simp: clamp_def)

lemma clamp_id [simp]: "lo \<le> v \<Longrightarrow> v \<le> hi \<Longrightarrow> clamp v lo hi = v"
  by (auto simp: clamp_def)

section \<open>Bytes\<close>

type_synonym byte = "8 word"

text \<open>
  The bytes of an integer in the memory of a little-endian host (what \<open>memcpy\<close> from the
  integer copies, lowest address first), and the integer such bytes hold.
\<close>

definition le_bytes :: "nat \<Rightarrow> 'a::len word \<Rightarrow> byte list" where
  "le_bytes n w = map (\<lambda>i. ucast (drop_bit (8 * i) w)) [0..<n]"

fun le_word :: "byte list \<Rightarrow> 'a::len word" where
  "le_word [] = 0"
| "le_word (b # bs) = ucast b OR push_bit 8 (le_word bs)"

lemma length_le_bytes [simp, layout_simps]: "length (le_bytes n w) = n"
  by (simp add: le_bytes_def)

lemma bit_le_word:
  "bit (le_word bs :: 'a::len word) k \<longleftrightarrow>
     k < LENGTH('a) \<and> k div 8 < length bs \<and> bit (bs ! (k div 8)) (k mod 8)"
proof (induction bs arbitrary: k)
  case Nil
  then show ?case by simp
next
  case (Cons b bs)
  show ?case
  proof (cases "k < 8")
    case True
    then show ?thesis by (auto simp: bit_simps)
  next
    case False
    then have "k div 8 = Suc ((k - 8) div 8)" "k mod 8 = (k - 8) mod 8"
      by (simp_all add: le_div_geq le_mod_geq)
    with False show ?thesis
      by (auto simp: bit_simps Cons.IH dest: bit_imp_le_length)
  qed
qed

lemma le_word_le_bytes:
  "le_word (le_bytes n w) = take_bit (8 * n) (w :: 'a::len word)"
proof (rule bit_word_eqI)
  fix k assume "k < LENGTH('a)"
  have "k div 8 < n \<longleftrightarrow> k < 8 * n" by (simp add: div_less_iff_less_mult mult.commute)
  moreover have "8 * (k div 8) + k mod 8 = k" by simp
  ultimately show "bit (le_word (le_bytes n w) :: 'a word) k \<longleftrightarrow> bit (take_bit (8 * n) w) k"
    using \<open>k < LENGTH('a)\<close> by (auto simp: bit_le_word le_bytes_def bit_simps)
qed

lemma le_word_le_bytes_full [simp]:
  "LENGTH('a) \<le> 8 * n \<Longrightarrow> le_word (le_bytes n w) = (w :: 'a::len word)"
  by (simp add: le_word_le_bytes take_bit_word_eq_self)

lemma le_bytes_le_word [simp]:
  "8 * length bs \<le> LENGTH('a) \<Longrightarrow> le_bytes (length bs) (le_word bs :: 'a::len word) = bs"
proof (rule nth_equalityI)
  fix i assume len: "8 * length bs \<le> LENGTH('a)" and "i < length (le_bytes (length bs) (le_word bs :: 'a word))"
  then have i: "i < length bs" by simp
  show "le_bytes (length bs) (le_word bs :: 'a word) ! i = bs ! i"
  proof (rule bit_word_eqI)
    fix k assume k: "k < LENGTH(8)"
    then have "(8 * i + k) div 8 = i" "(8 * i + k) mod 8 = k" "8 * i + k < LENGTH('a)"
      using i len by auto
    with i k show "bit (le_bytes (length bs) (le_word bs :: 'a word) ! i) k = bit (bs ! i) k"
      by (simp add: le_bytes_def bit_simps bit_le_word)
  qed
qed simp

section \<open>Lists\<close>

text \<open>\<open>memcpy\<close> of \<open>d\<close> onto the storage \<open>m\<close> at offset \<open>k\<close>, for a copy that stays inside.\<close>

definition splice :: "nat \<Rightarrow> 'a list \<Rightarrow> 'a list \<Rightarrow> 'a list" where
  "splice k d m = take k m @ d @ drop (k + length d) m"

lemma length_splice [simp, layout_simps]:
  "k + length d \<le> length m \<Longrightarrow> length (splice k d m) = length m"
  by (simp add: splice_def)

lemma splice_Nil [simp]: "splice k [] m = m"
  by (simp add: splice_def)

lemma take_splice_end [simp]:
  "k + length d \<le> length m \<Longrightarrow> n = k + length d \<Longrightarrow> take n (splice k d m) = take k m @ d"
  by (simp add: splice_def)

lemma take_splice: 
  "k + length d \<le> n \<Longrightarrow> n \<le> length m \<Longrightarrow> take n (splice k d m) = splice k d (take n m)"
  by (simp add: splice_def take_drop)

text \<open>The position of the first element that satisfies a test, \<open>std::find_if\<close>.\<close>

fun find_index :: "('a \<Rightarrow> bool) \<Rightarrow> 'a list \<Rightarrow> nat option" where
  "find_index p [] = None"
| "find_index p (x # xs) = (if p x then Some 0 else map_option Suc (find_index p xs))"

lemma find_index_Some:
  "find_index p xs = Some i \<Longrightarrow> i < length xs \<and> p (xs ! i) \<and> (\<forall>j < i. \<not> p (xs ! j))"
proof (induction xs arbitrary: i)
  case (Cons x xs)
  then show ?case by (cases i) (auto simp: less_Suc_eq_0_disj split: if_splits)
qed simp

lemma find_index_None [simp]: "find_index p xs = None \<longleftrightarrow> (\<forall>x \<in> set xs. \<not> p x)"
  by (induction xs) auto

section \<open>Sums over numbered objects\<close>

lemma sum_upd:
  assumes "(i::nat) < n"
  shows "(\<Sum>k<n. f ((g(i := l)) k) :: int) = (\<Sum>k<n. f (g k)) - f (g i) + f l"
proof -
  have r: "(\<Sum>k<n. h k) = h i + (\<Sum>k\<in>{..<n} - {i}. h k)" for h :: "nat \<Rightarrow> int"
    using assms by (simp add: sum.remove)
  have "(\<Sum>k\<in>{..<n} - {i}. f ((g(i := l)) k)) = (\<Sum>k\<in>{..<n} - {i}. f (g k))" by (rule sum.cong) auto
  then show ?thesis using r [of "\<lambda>k. f ((g(i := l)) k)"] r [of "\<lambda>k. f (g k)"] by simp
qed

end
