(* ===== verification/Endian.thy ===== *)
theory Endian
  imports Prelude
begin

text \<open>
  Byte order conversion, \<open>yasio/endian_portable.hpp\<close>: the swap macros, the conversion
  functions selected by the width of the integer type, the conversions of 1 to 4 byte integers
  (\<open>host_to_network(int, int)\<close>), the two \<open>convert_traits\<close>, and the bit-field helpers of
  namespace \<open>bits\<close>.  The host is little-endian (\<open>YASIO_LITTLE_ENDIAN\<close>).
\<close>

section \<open>The swap macros\<close>

definition SWAP_SHORT :: "16 word \<Rightarrow> 16 word" where
  "SWAP_SHORT s = (drop_bit 8 s AND 0x00ff) OR (push_bit 8 s AND 0xff00)"

definition SWAP_LONG :: "32 word \<Rightarrow> 32 word" where
  "SWAP_LONG l =
     (drop_bit 24 l AND 0x000000FF) OR
     (drop_bit 8 l AND 0x0000FF00) OR
     (push_bit 8 l AND 0x00FF0000) OR
     (push_bit 24 l AND 0xFF000000)"

definition SWAP_LONGLONG :: "64 word \<Rightarrow> 64 word" where
  "SWAP_LONGLONG l =
     (drop_bit 56 l AND 0x00000000000000FF) OR
     (drop_bit 40 l AND 0x000000000000FF00) OR
     (drop_bit 24 l AND 0x0000000000FF0000) OR
     (drop_bit 8 l AND 0x00000000FF000000) OR
     (push_bit 8 l AND 0x000000FF00000000) OR
     (push_bit 24 l AND 0x0000FF0000000000) OR
     (push_bit 40 l AND 0x00FF000000000000) OR
     (push_bit 56 l AND 0xFF00000000000000)"

definition htonll :: "64 word \<Rightarrow> 64 word" where
  "htonll v = SWAP_LONGLONG v"

definition ntohll :: "64 word \<Rightarrow> 64 word" where
  "ntohll v = SWAP_LONGLONG v"

text \<open>
  The system's \<open>htons\<close> and \<open>htonl\<close> (and their inverses, which are the same functions)
  reverse the bytes of their argument on a little-endian host.
\<close>

definition bswap :: "'a::len word \<Rightarrow> 'a word" where
  "bswap w = le_word (rev (le_bytes (LENGTH('a) div 8) w))"

abbreviation htons :: "16 word \<Rightarrow> 16 word" where "htons \<equiv> bswap"
abbreviation htonl :: "32 word \<Rightarrow> 32 word" where "htonl \<equiv> bswap"

lemma le_bytes_bswap [layout_simps]:
  assumes "8 dvd LENGTH('a)"
  shows "le_bytes (LENGTH('a) div 8) (bswap w) = rev (le_bytes (LENGTH('a) div 8) (w :: 'a::len word))"
proof -
  let ?bs = "rev (le_bytes (LENGTH('a) div 8) w)"
  have "8 * length ?bs \<le> LENGTH('a)" by simp
  then have "le_bytes (length ?bs) (le_word ?bs :: 'a word) = ?bs" by (rule le_bytes_le_word)
  then show ?thesis by (simp add: bswap_def)
qed

lemma bswap_bswap: "8 dvd LENGTH('a) \<Longrightarrow> bswap (bswap w) = (w :: 'a::len word)"
  unfolding bswap_def [of "bswap w"] by (simp add: le_bytes_bswap)

section \<open>Conversion by width\<close>

text \<open>
  \<open>byte_order_impl<_Ty, sizeof(_Ty)>\<close> is specialised for 1, 2, 4 and 8 bytes; \<open>float\<close> and
  \<open>double\<close> are swapped through the 4 and 8 byte integers that hold their representation.
\<close>

definition host_to_network :: "'a::len word \<Rightarrow> 'a word" where
  "host_to_network v =
     (if LENGTH('a) = 8 then v
      else if LENGTH('a) = 16 then ucast (htons (ucast v))
      else if LENGTH('a) = 32 then ucast (htonl (ucast v))
      else if LENGTH('a) = 64 then ucast (htonll (ucast v))
      else v)"

definition network_to_host :: "'a::len word \<Rightarrow> 'a word" where
  "network_to_host v =
     (if LENGTH('a) = 8 then v
      else if LENGTH('a) = 16 then ucast (htons (ucast v))
      else if LENGTH('a) = 32 then ucast (htonl (ucast v))
      else if LENGTH('a) = 64 then ucast (ntohll (ucast v))
      else v)"

definition float_host_to_network :: "32 word \<Rightarrow> 32 word" where
  "float_host_to_network v = SWAP_LONG v"

definition double_host_to_network :: "64 word \<Rightarrow> 64 word" where
  "double_host_to_network v = SWAP_LONGLONG v"

definition host_to_network_n :: "32 word \<Rightarrow> nat \<Rightarrow> 32 word" where
  "host_to_network_n value sz =
     (let netval = host_to_network value
      in if sz < 4 then drop_bit ((4 - sz) * 8) netval else netval)"

definition network_to_host_n :: "32 word \<Rightarrow> nat \<Rightarrow> 32 word" where
  "network_to_host_n value sz =
     (let hostval = network_to_host value
      in if sz < 4 then drop_bit ((4 - sz) * 8) hostval else hostval)"

section \<open>convert\_traits\<close>

datatype convert_tag = network_convert_tag | host_convert_tag

fun ct_to :: "convert_tag \<Rightarrow> 'a::len word \<Rightarrow> 'a word" where
  "ct_to network_convert_tag v = host_to_network v"
| "ct_to host_convert_tag v = v"

fun ct_from :: "convert_tag \<Rightarrow> 'a::len word \<Rightarrow> 'a word" where
  "ct_from network_convert_tag v = network_to_host v"
| "ct_from host_convert_tag v = v"

fun ct_toint :: "convert_tag \<Rightarrow> 32 word \<Rightarrow> nat \<Rightarrow> 32 word" where
  "ct_toint network_convert_tag v sz = host_to_network_n v sz"
| "ct_toint host_convert_tag v sz = v"

fun ct_fromint :: "convert_tag \<Rightarrow> 32 word \<Rightarrow> nat \<Rightarrow> 32 word" where
  "ct_fromint network_convert_tag v sz = network_to_host_n v sz"
| "ct_fromint host_convert_tag v sz = v"

section \<open>Bit fields\<close>

definition bits_wmask_table :: "byte list list" where
  "bits_wmask_table =
     [[0xFE],
      [0xFD, 0xFC],
      [0xFB, 0xF9, 0xF8],
      [0xF7, 0xF3, 0xF1, 0xF0],
      [0xEF, 0xE7, 0xE3, 0xE1, 0xE0],
      [0xDF, 0xCF, 0xC7, 0xC3, 0xC1, 0xC0],
      [0xBF, 0x9F, 0x8F, 0x87, 0x83, 0x81, 0x80],
      [0x7F, 0x3F, 0x1F, 0x0F, 0x07, 0x03, 0x01, 0x00]]"

definition bits_rmask_table :: "byte list" where
  "bits_rmask_table = [0x01, 0x03, 0x07, 0x0F, 0x1F, 0x3F, 0x7F, 0xFF]"

text \<open>The condition both helpers assert; outside it they index past their tables.\<close>

definition bits_args_ok :: "nat \<Rightarrow> nat \<Rightarrow> bool" where
  "bits_args_ok pos bits \<longleftrightarrow> 0 < bits \<and> bits \<le> pos + 1 \<and> pos < 8"

definition set_bits_value :: "byte \<Rightarrow> nat \<Rightarrow> byte \<Rightarrow> nat \<Rightarrow> byte result" where
  "set_bits_value b pos v bits =
     (if bits_args_ok pos bits
      then Inr ((b AND bits_wmask_table ! pos ! (bits - 1)) OR push_bit (pos + 1 - bits) v)
      else Inl Undefined)"

definition get_bits_value :: "byte \<Rightarrow> nat \<Rightarrow> nat \<Rightarrow> byte result" where
  "get_bits_value b pos bits =
     (if bits_args_ok pos bits
      then Inr (drop_bit (pos + 1 - bits) (b AND bits_rmask_table ! pos))
      else Inl Undefined)"

section \<open>Facts\<close>

lemma byte_masks:
  "(0x00ff :: 16 word) = mask 8" "(0xff00 :: 16 word) = push_bit 8 (mask 8)"
  "(0x000000FF :: 32 word) = mask 8" "(0x0000FF00 :: 32 word) = push_bit 8 (mask 8)"
  "(0x00FF0000 :: 32 word) = push_bit 16 (mask 8)" "(0xFF000000 :: 32 word) = push_bit 24 (mask 8)"
  "(0x00000000000000FF :: 64 word) = mask 8" "(0x000000000000FF00 :: 64 word) = push_bit 8 (mask 8)"
  "(0x0000000000FF0000 :: 64 word) = push_bit 16 (mask 8)" "(0x00000000FF000000 :: 64 word) = push_bit 24 (mask 8)"
  "(0x000000FF00000000 :: 64 word) = push_bit 32 (mask 8)" "(0x0000FF0000000000 :: 64 word) = push_bit 40 (mask 8)"
  "(0x00FF000000000000 :: 64 word) = push_bit 48 (mask 8)" "(0xFF00000000000000 :: 64 word) = push_bit 56 (mask 8)"
  by (simp_all add: mask_eq_exp_minus_1 push_bit_eq_mult)

lemma bit_byte_index:
  assumes "k < 8 * n"
  obtains q r where "k = 8 * q + r" "q < n" "r < (8 :: nat)"
proof
  show "k = 8 * (k div 8) + k mod 8" by simp
  show "k div 8 < n" using assms by (simp add: div_less_iff_less_mult mult.commute)
qed simp

lemma bit_bswap:
  assumes "q < LENGTH('a) div 8" "r < 8"
  shows "bit (bswap w) (8 * q + r) = bit (w :: 'a::len word) (8 * (LENGTH('a) div 8 - 1 - q) + r)"
proof -
  have "8 * q + r < LENGTH('a)" using assms by auto
  then show ?thesis using assms
    by (simp add: bswap_def bit_le_word rev_nth le_bytes_def bit_simps)
qed

lemma SWAP_LONG_bswap: "SWAP_LONG v = bswap v"
proof (rule bit_word_eqI)
  fix k assume "k < LENGTH(32)"
  then have "k < 8 * 4" by simp
  then obtain q r where k: "k = 8 * q + r" "q < 4" "r < (8 :: nat)" by (rule bit_byte_index)
  from k(2) consider "q = 0" | "q = 1" | "q = 2" | "q = 3" by linarith
  moreover have "bit (bswap v) k = bit v (8 * (3 - q) + r)"
    using bit_bswap [of q r v] k by simp
  ultimately show "bit (SWAP_LONG v) k = bit (bswap v) k"
    using k by cases (simp_all add: SWAP_LONG_def byte_masks bit_simps)
qed
lemma SWAP_SHORT_bswap: "SWAP_SHORT v = bswap v"
proof (rule bit_word_eqI)
  fix k assume "k < LENGTH(16)"
  then have "k < 8 * 2" by simp
  then obtain q r where k: "k = 8 * q + r" "q < 2" "r < (8 :: nat)" by (rule bit_byte_index)
  from k(2) consider "q = 0" | "q = 1"  by linarith
  moreover have "bit (bswap v) k = bit v (8 * (1 - q) + r)"
    using bit_bswap [of q r v] k by simp
  ultimately show "bit (SWAP_SHORT v) k = bit (bswap v) k"
    using k by cases (simp_all add: SWAP_SHORT_def byte_masks bit_simps)
qed
lemma SWAP_LONGLONG_bswap: "SWAP_LONGLONG v = bswap v"
proof (rule bit_word_eqI)
  fix k assume "k < LENGTH(64)"
  then have "k < 8 * 8" by simp
  then obtain q r where k: "k = 8 * q + r" "q < 8" "r < (8 :: nat)" by (rule bit_byte_index)
  from k(2) consider "q = 0" | "q = 1" | "q = 2" | "q = 3" | "q = 4" | "q = 5" | "q = 6" | "q = 7" by linarith
  moreover have "bit (bswap v) k = bit v (8 * (7 - q) + r)"
    using bit_bswap [of q r v] k by simp
  ultimately show "bit (SWAP_LONGLONG v) k = bit (bswap v) k"
    using k by cases (simp_all add: SWAP_LONGLONG_def byte_masks bit_simps)
qed
text \<open>The bytes of an integer in network order, most significant first.\<close>

definition be_bytes :: "nat \<Rightarrow> 'a::len word \<Rightarrow> byte list" where
  "be_bytes n w = rev (le_bytes n w)"

lemma length_be_bytes [simp, layout_simps]: "length (be_bytes n w) = n"
  by (simp add: be_bytes_def)

definition wire_width :: "'a::len word \<Rightarrow> bool" where
  "wire_width w \<longleftrightarrow> LENGTH('a) \<in> {8, 16, 32, 64}"

lemma bswap_byte: "LENGTH('a) = 8 \<Longrightarrow> bswap w = (w :: 'a::len word)"
proof (rule bit_word_eqI)
  assume w: "LENGTH('a) = 8"
  fix k assume "k < LENGTH('a)"
  with w show "bit (bswap w) k = bit w k" using bit_bswap [of 0 k w] by simp
qed

lemma ucast_bswap_ucast:
  assumes "LENGTH('a) = LENGTH('b)"
  shows "ucast (bswap (ucast w :: 'b::len word)) = bswap (w :: 'a::len word)"
proof -
  have "le_bytes n (ucast w :: 'b word) = le_bytes n w" for n
    using assms by (auto simp: le_bytes_def intro!: bit_word_eqI simp: bit_simps) (metis bit_imp_le_length)
  moreover have "ucast (le_word bs :: 'b word) = (le_word bs :: 'a word)" for bs
    using assms by (auto intro!: bit_word_eqI simp: bit_simps bit_le_word)
  ultimately show ?thesis using assms by (simp add: bswap_def)
qed

lemma host_to_network_bswap: "wire_width v \<Longrightarrow> host_to_network v = bswap v"
  by (auto simp: wire_width_def host_to_network_def htonll_def SWAP_LONGLONG_bswap
      ucast_bswap_ucast bswap_byte)

lemma network_to_host_eq: "network_to_host v = host_to_network v"
  by (simp add: network_to_host_def host_to_network_def htonll_def ntohll_def)

lemma network_to_host_inverse: "network_to_host (host_to_network v) = (v :: 'a::len word)"
proof (cases "wire_width v")
  case True
  then have "8 dvd LENGTH('a)" "wire_width (bswap v)" by (auto simp: wire_width_def)
  with True show ?thesis by (simp add: network_to_host_eq host_to_network_bswap bswap_bswap)
next
  case False
  then show ?thesis by (simp add: network_to_host_def host_to_network_def wire_width_def)
qed

lemma wire_width_dvd: "wire_width (v :: 'a::len word) \<Longrightarrow> 8 dvd LENGTH('a)"
  by (auto simp: wire_width_def)

lemma le_bytes_host_to_network:
  fixes v :: "'a::len word"
  assumes "wire_width v"
  shows "le_bytes (LENGTH('a) div 8) (host_to_network v) = be_bytes (LENGTH('a) div 8) v"
  using assms by (simp add: host_to_network_bswap be_bytes_def le_bytes_bswap wire_width_dvd)

lemma ct_from_to [simp]: "ct_from tag (ct_to tag v) = v"
  by (cases tag) (simp_all add: network_to_host_inverse)

text \<open>Integers of 1 to 4 bytes.\<close>

lemma take_le_bytes: "n \<le> k \<Longrightarrow> take n (le_bytes k w) = le_bytes n w"
  by (simp add: le_bytes_def take_map)

lemma le_bytes_drop_bit: "le_bytes n (drop_bit (8 * k) w) = drop k (le_bytes (n + k) w)"
  by (rule nth_equalityI) (simp_all add: le_bytes_def drop_map algebra_simps)

lemma host_to_network_n_bytes:
  assumes "n \<le> 4"
  shows "take n (le_bytes 4 (host_to_network_n v n)) = be_bytes n v"
proof -
  have bs: "le_bytes 4 (bswap v) = rev (le_bytes 4 v)"
    using le_bytes_bswap [where 'a = 32] by simp
  have "host_to_network_n v n = drop_bit (8 * (4 - n)) (bswap v)"
    using assms by (simp add: host_to_network_n_def Let_def host_to_network_bswap wire_width_def mult.commute)
  then have "take n (le_bytes 4 (host_to_network_n v n)) = drop (4 - n) (le_bytes 4 (bswap v))"
    using assms by (simp add: take_le_bytes le_bytes_drop_bit [of n "4 - n"])
  also have "\<dots> = rev (take n (le_bytes 4 v))"
    using assms by (simp add: bs drop_rev)
  finally show ?thesis using assms by (simp add: take_le_bytes be_bytes_def)
qed

lemma network_to_host_n_le_word:
  assumes "length bs \<le> 4"
  shows "network_to_host_n (le_word bs) (length bs) = le_word (rev bs)"
proof (rule bit_word_eqI)
  let ?n = "length bs"
  fix k assume "k < LENGTH(32)"
  then have "k < 8 * 4" by simp
  then obtain q r where k: "k = 8 * q + r" "q < 4" "r < (8 :: nat)" by (rule bit_byte_index)
  have "network_to_host_n (le_word bs) ?n = drop_bit (8 * (4 - ?n)) (bswap (le_word bs))"
    using assms by (simp add: network_to_host_n_def Let_def network_to_host_eq host_to_network_bswap
        wire_width_def mult.commute)
  then have "bit (network_to_host_n (le_word bs) ?n) k = bit (bswap (le_word bs :: 32 word)) (8 * (q + (4 - ?n)) + r)"
    using k by (simp add: bit_simps algebra_simps)
  also have "\<dots> = (q < ?n \<and> bit (bs ! (?n - 1 - q)) r)"
  proof (cases "q < ?n")
    case True
    then have "q + (4 - ?n) < 4" "8 * (?n - Suc q) + r < 32" "?n - Suc q < ?n" using assms k by auto
    then show ?thesis using True assms k bit_bswap [of "q + (4 - ?n)" r "le_word bs :: 32 word"]
      by (simp add: bit_le_word)
  next
    case False
    then have "\<not> 8 * (q + (4 - ?n)) + r < LENGTH(32)" using k assms by simp
    then show ?thesis using False by (simp add: bit_word.rep_eq)
  qed
  also have "\<dots> = bit (le_word (rev bs) :: 32 word) k"
    using k by (auto simp: bit_le_word rev_nth)
  finally show "bit (network_to_host_n (le_word bs) ?n) k = bit (le_word (rev bs) :: 32 word) k" .
qed

lemma le_word_rev_be_bytes [simp]: "le_word (rev (be_bytes n w)) = take_bit (8 * n) w"
  by (simp add: be_bytes_def le_word_le_bytes)

text \<open>
  A 1 to 4 byte integer comes back as its low bytes: a negative one is not sign-extended.
\<close>

lemma ct_fromint_toint:
  assumes "n \<le> 4"
  shows "ct_fromint tag (le_word (take n (le_bytes 4 (ct_toint tag v n)))) n = take_bit (8 * n) v"
proof (cases tag)
  case network_convert_tag
  then show ?thesis
    using assms network_to_host_n_le_word [of "be_bytes n v"] by (simp add: host_to_network_n_bytes)
next
  case host_convert_tag
  then show ?thesis using assms by (simp add: take_le_bytes le_word_le_bytes)
qed

lemma take_bit_unat_less: "unat w < 2 ^ n \<Longrightarrow> take_bit n w = w"
  by (simp add: word_unat_eq_iff unsigned_take_bit_eq take_bit_nat_eq_self)

section \<open>Interface of the streams\<close>

text \<open>
  What a binary writer and a binary reader rely on: the reader's conversion undoes the
  writer's, for the integers they exchange whole and for the 1 to 4 byte ones.
\<close>

locale wire_convention =
  fixes to_wire from_wire :: "'a::len word \<Rightarrow> 'a word"
    and toint fromint :: "32 word \<Rightarrow> nat \<Rightarrow> 32 word"
  assumes from_to: "from_wire (to_wire v) = v"
    and fromint_toint: "n \<le> 4 \<Longrightarrow>
      fromint (le_word (take n (le_bytes 4 (toint i n)))) n = take_bit (8 * n) i"
begin

lemma load_store: "LENGTH('a) \<le> 8 * n \<Longrightarrow> from_wire (le_word (le_bytes n (to_wire v))) = v"
  by (simp add: from_to)

lemma load_store_n:
  assumes "n \<le> 4" "unat i < 2 ^ (8 * n)"
  shows "fromint (le_word (take n (le_bytes 4 (toint i n)))) n = i"
proof -
  from assms(2) have "take_bit (8 * n) i = i"
    by (rule take_bit_unat_less)
  then show ?thesis using assms(1) by (simp add: fromint_toint)
qed

end

interpretation network: wire_convention
  "ct_to network_convert_tag" "ct_from network_convert_tag"
  "ct_toint network_convert_tag" "ct_fromint network_convert_tag"
  by unfold_locales (simp_all add: ct_fromint_toint del: ct_to.simps ct_from.simps ct_toint.simps ct_fromint.simps)

interpretation host: wire_convention
  "ct_to host_convert_tag" "ct_from host_convert_tag"
  "ct_toint host_convert_tag" "ct_fromint host_convert_tag"
  by unfold_locales (simp_all add: ct_fromint_toint del: ct_to.simps ct_from.simps ct_toint.simps ct_fromint.simps)

lemma traits_convention: "wire_convention (ct_to tag) (ct_from tag) (ct_toint tag) (ct_fromint tag)"
  by (cases tag) (simp_all add: network.wire_convention_axioms host.wire_convention_axioms)

section \<open>Bit fields\<close>

lemma bits_wmask_table_nth:
  assumes "bits_args_ok pos bits"
  shows "bits_wmask_table ! pos ! (bits - Suc 0) = NOT (push_bit (Suc pos - bits) (mask bits))"
proof -
  have "pos \<in> {0, 1, 2, 3, 4, 5, 6, 7}" "bits \<in> {1, 2, 3, 4, 5, 6, 7, 8}"
    using assms by (auto simp: bits_args_ok_def)
  with assms show ?thesis
    by (auto simp: bits_args_ok_def bits_wmask_table_def mask_eq_exp_minus_1 push_bit_eq_mult
        not_eq_complement)
qed

lemma bits_rmask_table_nth: "pos < 8 \<Longrightarrow> bits_rmask_table ! pos = mask (Suc pos)"
proof -
  assume "pos < 8"
  then have "pos \<in> {0, 1, 2, 3, 4, 5, 6, 7}" by auto
  then show ?thesis by (auto simp: bits_rmask_table_def mask_eq_exp_minus_1)
qed

text \<open>
  Reading a field back gives what was stored, and no bit outside the field changes, when the
  value fits the field.
\<close>

lemma get_set_bits_value:
  assumes "bits_args_ok pos bits" "unat v < 2 ^ bits"
  shows "andthen (set_bits_value b pos v bits) (\<lambda>b'. get_bits_value b' pos bits) = Inr v"
proof -
  obtain sh where sh: "Suc pos = sh + bits" "sh + bits \<le> 8"
    using assms(1) by (auto simp: bits_args_ok_def dest: le_Suc_ex)
  have "bit (take_bit bits v) i \<Longrightarrow> i < bits" for i by (simp add: bit_simps)
  then have v: "bit v i \<Longrightarrow> i < bits" for i using take_bit_unat_less [OF assms(2)] by simp
  have "drop_bit sh ((b AND NOT (push_bit sh (mask bits)) OR push_bit sh v) AND mask (sh + bits)) = v"
  proof (rule bit_word_eqI)
    fix n assume "n < LENGTH(8)"
    moreover have "bit v n \<Longrightarrow> n < bits \<and> sh + n < 8" using v [of n] sh(2) by auto
    ultimately show "bit (drop_bit sh ((b AND NOT (push_bit sh (mask bits)) OR push_bit sh v) AND mask (sh + bits))) n = bit v n"
      by (auto simp: bit_simps)
  qed
  then show ?thesis
    using assms(1) sh by (simp add: set_bits_value_def get_bits_value_def bits_wmask_table_nth
        bits_rmask_table_nth bits_args_ok_def)
qed

lemma set_bits_value_frame:
  assumes "set_bits_value b pos v bits = Inr b'" "unat v < 2 ^ bits"
    and "i < pos + 1 - bits \<or> pos < i"
  shows "bit b' i = bit b i"
proof -
  have ok: "bits_args_ok pos bits"
    using assms(1) by (auto simp: set_bits_value_def split: if_splits)
  have "bit (take_bit bits v) i \<Longrightarrow> i < bits" for i by (simp add: bit_simps)
  then have v: "bit v i \<Longrightarrow> i < bits" for i using take_bit_unat_less [OF assms(2)] by simp
  have "b' = (b AND NOT (push_bit (pos + 1 - bits) (mask bits))) OR push_bit (pos + 1 - bits) v"
    using assms(1) ok by (simp add: set_bits_value_def bits_wmask_table_nth)
  then show ?thesis
    using assms(3) ok v [of "i - (pos + 1 - bits)"]
    by (auto simp: bit_simps bits_args_ok_def dest: bit_imp_le_length)
qed

section \<open>Properties\<close>

text \<open>
  An integer of 1, 2, 4 or 8 bytes converted with \<open>host_to_network\<close> and stored in the
  memory of the little-endian host is laid out in network order, and \<open>network_to_host\<close>
  recovers it.
\<close>

theorem network_order_image:
  fixes v :: "'a::len word"
  assumes "wire_width v"
  shows "le_bytes (LENGTH('a) div 8) (host_to_network v) = be_bytes (LENGTH('a) div 8) v \<and>
    network_to_host (host_to_network v) = v"
  using assms by (simp add: le_bytes_host_to_network network_to_host_inverse)

theorem network_order_image_witness:
  "le_bytes 4 (host_to_network (0x01020304 :: 32 word)) = [1, 2, 3, 4]"
proof -
  have "wire_width (0x01020304 :: 32 word)" by (simp add: wire_width_def)
  from network_order_image [OF this] have
    "le_bytes 4 (host_to_network (0x01020304 :: 32 word)) = be_bytes 4 (0x01020304 :: 32 word)"
    by simp
  also have "\<dots> = [1, 2, 3, 4]" by (simp add: be_bytes_def le_bytes_def upt_conv_Cons)
  finally show ?thesis .
qed

text \<open>
  With either \<open>convert_traits\<close>, an integer written in 1 to 4 bytes reads back as its low
  bytes zero-extended, and in network order those bytes go out most significant first.
\<close>

theorem short_integer_roundtrip:
  assumes "n \<le> 4"
  shows "ct_fromint tag (le_word (take n (le_bytes 4 (ct_toint tag v n)))) n = take_bit (8 * n) v \<and>
    take n (le_bytes 4 (ct_toint network_convert_tag v n)) = be_bytes n v"
  using assms by (simp add: ct_fromint_toint host_to_network_n_bytes)

theorem short_integer_roundtrip_witness:
  "ct_fromint network_convert_tag (le_word (take 3 (le_bytes 4 (ct_toint network_convert_tag (- 1) 3)))) 3
     = 0xFFFFFF"
proof -
  have "3 \<le> (4 :: nat)" by simp
  from short_integer_roundtrip [OF this, of network_convert_tag "- 1", THEN conjunct1]
  have "ct_fromint network_convert_tag (le_word (take 3 (le_bytes 4 (ct_toint network_convert_tag (- 1) 3)))) 3
    = take_bit (8 * 3) (- 1)" .
  then show ?thesis by (simp add: mask_eq_exp_minus_1)
qed

text \<open>
  Storing a value that fits a bit field and reading the field back gives the value, and
  every bit of the byte outside the field keeps its value.
\<close>

theorem bit_field_roundtrip:
  assumes "bits_args_ok pos bits" "unat v < 2 ^ bits"
  shows "\<exists>b'. set_bits_value b pos v bits = Inr b' \<and> get_bits_value b' pos bits = Inr v \<and>
    (\<forall>i. i < pos + 1 - bits \<or> pos < i \<longrightarrow> bit b' i = bit b i)"
proof -
  obtain b' where b': "set_bits_value b pos v bits = Inr b'"
    using assms(1) by (simp add: set_bits_value_def)
  then show ?thesis
    using get_set_bits_value [OF assms, of b] set_bits_value_frame [OF b' assms(2)] by auto
qed

theorem bit_field_roundtrip_witness:
  "\<exists>b'. set_bits_value 0xFF 5 2 3 = Inr b' \<and> get_bits_value b' 5 3 = Inr 2 \<and>
    (\<forall>i. i < 3 \<or> 5 < i \<longrightarrow> bit b' i = bit (0xFF :: byte) i)"
  using bit_field_roundtrip [of 5 3 2 "0xFF"] by (simp add: bits_args_ok_def)

end
