(* ===== verification/PodVector.thy ===== *)
theory PodVector
  imports Prelude
begin

text \<open>
  The container \<open>pod_vector\<close> (\<open>yasio/pod_vector.hpp\<close>) with the default \<open>buffer_allocator\<close>
  (\<open>yasio/buffer_alloc.hpp\<close>).  The storage is a block of cells; a cell that was never written
  holds \<open>None\<close>, since \<open>resize\<close> and \<open>expand\<close> leave new elements uninitialised.  The element
  size and the answers of the system's heap are parameters (\<open>pv_env\<close>).
\<close>

section \<open>State\<close>

record pv_env =
  env_sizeof :: nat
  env_heap :: "nat \<Rightarrow> bool"  \<comment> \<open>whether \<open>realloc\<close> provides a block of that many bytes\<close>

record 'a pod_vector =
  pv_first :: "'a option list option"  \<comment> \<open>\<open>_Myfirst\<close>: the block, \<open>None\<close> for \<open>nullptr\<close>\<close>
  pv_size :: nat
  pv_res :: nat

definition pv_empty :: "'a pod_vector" where
  "pv_empty = \<lparr>pv_first = None, pv_size = 0, pv_res = 0\<rparr>"

definition pv_block :: "'a pod_vector \<Rightarrow> 'a option list" where
  "pv_block v = (case pv_first v of None \<Rightarrow> [] | Some b \<Rightarrow> b)"

definition max_size :: "pv_env \<Rightarrow> nat" where
  "max_size env = (2 ^ 64 - 1) div env_sizeof env"

section \<open>Allocation and growth\<close>

text \<open>\<open>::realloc(block, new_size * sizeof(value_type))\<close>: the product is formed in \<open>size_t\<close>.\<close>

definition reallocate :: "pv_env \<Rightarrow> 'a option list \<Rightarrow> nat \<Rightarrow> 'a option list option" where
  "reallocate env blk new_size =
     (let bytes = size_mul new_size (env_sizeof env);
          cells = bytes div env_sizeof env
      in if env_heap env bytes
         then Some (take cells blk @ replicate (cells - length blk) None)
         else None)"

definition calculate_growth :: "pv_env \<Rightarrow> 'a pod_vector \<Rightarrow> nat \<Rightarrow> nat" where
  "calculate_growth env v new_size =
     (let old_cap = pv_res v; max_cap = max_size env
      in if old_cap > max_cap - old_cap div 2 then max_cap
         else let geometric = old_cap + old_cap div 2
              in if geometric < new_size then new_size else geometric)"

datatype policy = At_least | Exactly

definition new_capacity :: "pv_env \<Rightarrow> policy \<Rightarrow> 'a pod_vector \<Rightarrow> nat \<Rightarrow> nat" where
  "new_capacity env pol v n = (case pol of Exactly \<Rightarrow> n | At_least \<Rightarrow> calculate_growth env v n)"

definition Reallocate :: "pv_env \<Rightarrow> policy \<Rightarrow> 'a pod_vector \<Rightarrow> nat \<Rightarrow> 'a pod_vector result" where
  "Reallocate env pol v n =
     (let new_cap = new_capacity env pol v n
      in case reallocate env (pv_block v) new_cap of
           Some newvec \<Rightarrow> Inr (v\<lparr>pv_first := Some newvec, pv_res := new_cap\<rparr>)
         | None \<Rightarrow> Inl BadAlloc)"

definition Eos :: "'a pod_vector \<Rightarrow> nat \<Rightarrow> 'a pod_vector" where
  "Eos v n = v\<lparr>pv_size := n\<rparr>"

definition Resize_reallocate :: "pv_env \<Rightarrow> policy \<Rightarrow> 'a pod_vector \<Rightarrow> nat \<Rightarrow> 'a pod_vector result" where
  "Resize_reallocate env pol v n = andthen (Reallocate env pol v n) (\<lambda>v'. Inr (Eos v' n))"

definition Tidy :: "'a pod_vector \<Rightarrow> 'a pod_vector" where
  "Tidy v = (case pv_first v of None \<Rightarrow> v
     | Some _ \<Rightarrow> v\<lparr>pv_first := None, pv_size := 0, pv_res := 0\<rparr>)"

text \<open>
  Writes into the block.  A write that leaves the block is \<open>Undefined\<close>.  \<open>std::copy_n\<close> on
  overlapping ranges is the library's \<open>memmove\<close> for the trivially copyable elements.
\<close>

definition store :: "'a pod_vector \<Rightarrow> nat \<Rightarrow> 'a option list \<Rightarrow> 'a pod_vector result" where
  "store v k xs =
     (if k + length xs \<le> length (pv_block v)
      then Inr (v\<lparr>pv_first := (case pv_first v of None \<Rightarrow> None | Some b \<Rightarrow> Some (splice k xs b))\<rparr>)
      else Inl Undefined)"

definition copy_within :: "'a pod_vector \<Rightarrow> nat \<Rightarrow> nat \<Rightarrow> nat \<Rightarrow> 'a pod_vector result" where
  "copy_within v from n to' = store v to' (take n (drop from (pv_block v)))"

section \<open>Size and capacity\<close>

definition pv_resize :: "pv_env \<Rightarrow> 'a pod_vector \<Rightarrow> nat \<Rightarrow> 'a pod_vector result" where
  "pv_resize env v new_size =
     (if pv_res v < new_size then Resize_reallocate env Exactly v new_size
      else Inr (Eos v new_size))"

definition pv_expand :: "pv_env \<Rightarrow> 'a pod_vector \<Rightarrow> nat \<Rightarrow> 'a pod_vector result" where
  "pv_expand env v count =
     (let new_size = size_add (pv_size v) count
      in if pv_res v < new_size then Resize_reallocate env At_least v new_size
         else Inr (Eos v new_size))"

definition pv_shrink_to_fit :: "pv_env \<Rightarrow> 'a pod_vector \<Rightarrow> 'a pod_vector result" where
  "pv_shrink_to_fit env v =
     (if pv_size v \<noteq> pv_res v
      then if pv_size v = 0 then Inr (Tidy v) else Reallocate env Exactly v (pv_size v)
      else Inr v)"

definition pv_reserve :: "pv_env \<Rightarrow> 'a pod_vector \<Rightarrow> nat \<Rightarrow> 'a pod_vector result" where
  "pv_reserve env v new_cap =
     (if pv_res v < new_cap then Reallocate env Exactly v new_cap else Inr v)"

definition pv_resize_fill :: "pv_env \<Rightarrow> 'a pod_vector \<Rightarrow> nat \<Rightarrow> 'a \<Rightarrow> 'a pod_vector result" where
  "pv_resize_fill env v new_size x =
     (let old_size = pv_size v
      in if old_size \<noteq> new_size
         then andthen (pv_resize env v new_size) (\<lambda>v'.
                if old_size < new_size
                then store v' old_size (replicate (new_size - old_size) (Some x))
                else Inr v')
         else Inr v)"

definition pv_expand_fill :: "pv_env \<Rightarrow> 'a pod_vector \<Rightarrow> nat \<Rightarrow> 'a \<Rightarrow> 'a pod_vector result" where
  "pv_expand_fill env v count x =
     (if count \<noteq> 0
      then let old_size = pv_size v
           in andthen (pv_expand env v count) (\<lambda>v'. store v' old_size (replicate count (Some x)))
      else Inr v)"

definition pv_clear :: "'a pod_vector \<Rightarrow> 'a pod_vector" where
  "pv_clear v = v\<lparr>pv_size := 0\<rparr>"

text \<open>\<open>reset\<close>: every element is overwritten with the zero representation \<open>z\<close>.\<close>

definition pv_reset :: "pv_env \<Rightarrow> 'a \<Rightarrow> 'a pod_vector \<Rightarrow> nat \<Rightarrow> 'a pod_vector result" where
  "pv_reset env z v new_size =
     andthen (pv_resize env v new_size) (\<lambda>v'. store v' 0 (replicate (pv_size v') (Some z)))"

section \<open>Insertion\<close>

definition Emplace_back_reallocate :: "pv_env \<Rightarrow> 'a pod_vector \<Rightarrow> 'a \<Rightarrow> 'a pod_vector result" where
  "Emplace_back_reallocate env v x =
     (let oldsize = pv_size v
      in if oldsize = max_size env then Inl LengthError
         else andthen (Resize_reallocate env At_least v (oldsize + 1)) (\<lambda>v'. store v' oldsize [Some x]))"

definition pv_emplace_back :: "pv_env \<Rightarrow> 'a pod_vector \<Rightarrow> 'a \<Rightarrow> 'a pod_vector result" where
  "pv_emplace_back env v x =
     (if pv_size v < pv_res v
      then andthen (store v (pv_size v) [Some x]) (\<lambda>v'. Inr (v'\<lparr>pv_size := pv_size v + 1\<rparr>))
      else Emplace_back_reallocate env v x)"

text \<open>\<open>append(first, last)\<close>; the range \<open>xs\<close> does not lie inside the vector itself.\<close>

definition pv_append :: "pv_env \<Rightarrow> 'a pod_vector \<Rightarrow> 'a list \<Rightarrow> 'a pod_vector result" where
  "pv_append env v xs =
     (if xs \<noteq> []
      then let count = length xs
           in if count > 1
              then let old_size = pv_size v
                   in andthen (pv_expand env v count) (\<lambda>v'. store v' old_size (map Some xs))
              else pv_emplace_back env v (hd xs)
      else Inr v)"

definition pv_append_fill :: "pv_env \<Rightarrow> 'a pod_vector \<Rightarrow> nat \<Rightarrow> 'a \<Rightarrow> 'a pod_vector result" where
  "pv_append_fill env v count x = pv_expand_fill env v count x"

text \<open>\<open>insert(pos, first, last)\<close> and \<open>insert(pos, count, val)\<close>, \<open>pos\<close> as an offset.\<close>

definition pv_insert :: "pv_env \<Rightarrow> 'a pod_vector \<Rightarrow> nat \<Rightarrow> 'a list \<Rightarrow> 'a pod_vector result" where
  "pv_insert env v pos xs =
     (if \<not> pos \<le> pv_size v then Inl OutOfRange
      else if xs \<noteq> []
      then if pos = pv_size v then pv_append env v xs
           else let count = length xs
                in andthen (pv_expand env v count) (\<lambda>v1.
                     let mlast = pv_size v1; move_to = pos + count
                     in andthen (copy_within v1 pos (mlast - move_to) move_to) (\<lambda>v2.
                          store v2 pos (map Some xs)))
      else Inr v)"

definition pv_insert_fill :: "pv_env \<Rightarrow> 'a pod_vector \<Rightarrow> nat \<Rightarrow> nat \<Rightarrow> 'a \<Rightarrow> 'a pod_vector result" where
  "pv_insert_fill env v pos count x =
     (if \<not> pos \<le> pv_size v then Inl OutOfRange
      else if count \<noteq> 0
      then if pos = pv_size v then pv_append_fill env v count x
           else andthen (pv_expand env v count) (\<lambda>v1.
                  let mlast = pv_size v1; move_to = pos + count
                  in andthen (copy_within v1 pos (mlast - move_to) move_to) (\<lambda>v2.
                       store v2 pos (replicate count (Some x))))
      else Inr v)"

text \<open>
  \<open>emplace(pos, val)\<close> has two bodies, chosen by the language version: before C++20 it opens a
  gap, from C++20 on it appends and rotates the new element into place.
\<close>

definition pv_emplace :: "pv_env \<Rightarrow> 'a pod_vector \<Rightarrow> nat \<Rightarrow> 'a \<Rightarrow> 'a pod_vector result" where
  "pv_emplace env v pos x =
     (if \<not> pos \<le> pv_size v then Inl OutOfRange
      else if pos = pv_size v then pv_emplace_back env v x
      else andthen (pv_expand env v 1) (\<lambda>v1.
             let mlast = pv_size v1; move_to = pos + 1
             in andthen (copy_within v1 pos (mlast - move_to) move_to) (\<lambda>v2.
                  store v2 pos [Some x])))"

definition pv_emplace_cxx20 :: "pv_env \<Rightarrow> 'a pod_vector \<Rightarrow> nat \<Rightarrow> 'a \<Rightarrow> 'a pod_vector result" where
  "pv_emplace_cxx20 env v pos x =
     (if \<not> pos \<le> pv_size v then Inl OutOfRange
      else andthen (pv_emplace_back env v x) (\<lambda>v1.
             let e = pv_size v1; cells = take e (pv_block v1)
             in store v1 pos (drop (e - 1) cells @ take (e - 1 - pos) (drop pos cells))))"

section \<open>Removal and access\<close>

definition pv_erase :: "'a pod_vector \<Rightarrow> nat \<Rightarrow> 'a pod_vector result" where
  "pv_erase v pos =
     (if \<not> pos < pv_size v then Inl OutOfRange
      else andthen (copy_within v (pos + 1) (pv_size v - (pos + 1)) pos) (\<lambda>v'.
             Inr (v'\<lparr>pv_size := pv_size v - 1\<rparr>)))"

definition pv_erase_range :: "'a pod_vector \<Rightarrow> nat \<Rightarrow> nat \<Rightarrow> 'a pod_vector result" where
  "pv_erase_range v first last' =
     (if \<not> (first \<le> last' \<and> last' \<le> pv_size v) then Inl OutOfRange
      else andthen (copy_within v last' (pv_size v - last') first) (\<lambda>v'.
             Inr (v'\<lparr>pv_size := first + (pv_size v - last')\<rparr>)))"

definition pv_at :: "'a pod_vector \<Rightarrow> nat \<Rightarrow> 'a option result" where
  "pv_at v index = (if index < pv_size v then Inr (pv_block v ! index) else Inl OutOfRange)"

definition pv_front :: "'a pod_vector \<Rightarrow> 'a option result" where
  "pv_front v = (if pv_size v \<noteq> 0 then Inr (pv_block v ! 0) else Inl OutOfRange)"

definition pv_back :: "'a pod_vector \<Rightarrow> 'a option result" where
  "pv_back v = (if pv_size v \<noteq> 0 then Inr (pv_block v ! (pv_size v - 1)) else Inl OutOfRange)"

definition pv_index_of :: "'a pod_vector \<Rightarrow> 'a \<Rightarrow> int" where
  "pv_index_of v x =
     (case find_index (\<lambda>c. c = Some x) (take (pv_size v) (pv_block v)) of
        Some i \<Rightarrow> int i | None \<Rightarrow> -1)"

definition pv_detach_abi :: "'a pod_vector \<Rightarrow> 'a option list option \<times> nat \<times> 'a pod_vector" where
  "pv_detach_abi v = (pv_first v, pv_size v, v\<lparr>pv_first := None, pv_size := 0, pv_res := 0\<rparr>)"

definition pv_attach_abi :: "'a pod_vector \<Rightarrow> 'a option list option \<Rightarrow> nat \<Rightarrow> 'a pod_vector" where
  "pv_attach_abi v ptr len = (Tidy v)\<lparr>pv_first := ptr, pv_size := len, pv_res := len\<rparr>"

text \<open>
  \<open>assign\<close> from another range clears the vector before it reserves: an exception leaves it
  empty, so the state is returned with the outcome.
\<close>

definition pv_assign :: "pv_env \<Rightarrow> 'a pod_vector \<Rightarrow> 'a list \<Rightarrow> cxx_error option \<times> 'a pod_vector" where
  "pv_assign env v xs =
     (let v0 = v\<lparr>pv_size := 0\<rparr>
      in if xs \<noteq> []
         then case andthen (pv_resize env v0 (length xs)) (\<lambda>v1. store v1 0 (map Some xs)) of
                Inr v2 \<Rightarrow> (None, v2)
              | Inl e \<Rightarrow> (Some e, v0)
         else (None, v0))"

text \<open>The free functions \<open>erase\<close> and \<open>erase_if\<close>, over \<open>std::remove_if\<close>.\<close>

definition pv_erase_if :: "'a pod_vector \<Rightarrow> ('a option \<Rightarrow> bool) \<Rightarrow> 'a pod_vector result" where
  "pv_erase_if v pred =
     (let kept = filter (\<lambda>c. \<not> pred c) (take (pv_size v) (pv_block v))
      in andthen (store v 0 kept) (\<lambda>v'. pv_erase_range v' (length kept) (pv_size v')))"


section \<open>Invariant and abstraction\<close>

definition pv_ok :: "pv_env \<Rightarrow> 'a pod_vector \<Rightarrow> bool" where
  "pv_ok env v \<longleftrightarrow> 0 < env_sizeof env \<and> length (pv_block v) = pv_res v \<and>
     pv_size v \<le> pv_res v \<and> pv_res v \<le> max_size env"

definition pv_elems :: "'a pod_vector \<Rightarrow> 'a option list" where
  "pv_elems v = take (pv_size v) (pv_block v)"

definition heap_available :: "pv_env \<Rightarrow> bool" where
  "heap_available env \<longleftrightarrow> (\<forall>n. env_heap env n)"

lemma pv_block_simps [simp]:
  "pv_block (v\<lparr>pv_size := n\<rparr>) = pv_block v"
  "pv_block (v\<lparr>pv_res := n\<rparr>) = pv_block v"
  "pv_block (v\<lparr>pv_first := Some b\<rparr>) = b"
  "pv_block (v\<lparr>pv_first := None\<rparr>) = []"
  by (simp_all add: pv_block_def)

lemma pv_empty_ok [simp]: "0 < env_sizeof env \<Longrightarrow> pv_ok env pv_empty"
  by (simp add: pv_ok_def pv_empty_def pv_block_def)

lemma pv_elems_empty [simp]: "pv_elems pv_empty = []"
  by (simp add: pv_elems_def pv_empty_def)

lemma length_pv_elems [simp]: "pv_ok env v \<Longrightarrow> length (pv_elems v) = pv_size v"
  by (simp add: pv_ok_def pv_elems_def)

lemma max_size_less: "max_size env < 2 ^ 64"
  unfolding max_size_def by (rule le_less_trans [OF div_le_dividend]) simp

lemma max_size_mult: "n \<le> max_size env \<Longrightarrow> n * env_sizeof env < 2 ^ 64"
proof -
  assume "n \<le> max_size env"
  then have "n * env_sizeof env \<le> (2 ^ 64 - 1) div env_sizeof env * env_sizeof env"
    by (simp add: max_size_def)
  also have "\<dots> \<le> 2 ^ 64 - 1" by (rule div_times_less_eq_dividend)
  finally show ?thesis by simp
qed

lemma reallocate_eq:
  assumes "n \<le> max_size env" "0 < env_sizeof env"
  shows "reallocate env blk n =
    (if env_heap env (n * env_sizeof env) then Some (take n blk @ replicate (n - length blk) None) else None)"
  using assms max_size_mult [OF assms(1)] by (simp add: reallocate_def Let_def)

lemma calculate_growth_bounds:
  assumes "pv_ok env v" "n \<le> max_size env"
  shows "n \<le> calculate_growth env v n" "calculate_growth env v n \<le> max_size env"
  using assms by (auto simp: calculate_growth_def Let_def pv_ok_def)

section \<open>Facts on the building blocks\<close>

lemma new_capacity_bounds:
  assumes "pv_ok env v" "n \<le> max_size env"
  shows "n \<le> new_capacity env pol v n" "new_capacity env pol v n \<le> max_size env"
  using assms calculate_growth_bounds [OF assms] by (cases pol; simp add: new_capacity_def)+

lemma Reallocate_eq:
  assumes "pv_ok env v" "n \<le> max_size env"
  shows "Reallocate env pol v n =
    (let cap = new_capacity env pol v n; b = pv_block v
     in if env_heap env (cap * env_sizeof env)
        then Inr (v\<lparr>pv_first := Some (take cap b @ replicate (cap - length b) None), pv_res := cap\<rparr>)
        else Inl BadAlloc)"
  using assms reallocate_eq [OF new_capacity_bounds(2) [OF assms, of pol], of "pv_block v"]
  by (simp add: Reallocate_def Let_def pv_ok_def)

lemma Reallocate_Inr:
  assumes "pv_ok env v" "n \<le> max_size env" "pv_size v \<le> n" "Reallocate env pol v n = Inr v'"
  shows "pv_ok env v' \<and> pv_elems v' = pv_elems v \<and> pv_size v' = pv_size v \<and> n \<le> pv_res v'"
  using assms new_capacity_bounds [OF assms(1,2), of pol]
  by (auto simp: Reallocate_eq Let_def pv_ok_def pv_elems_def min_def split: if_splits)

lemma Reallocate_succeeds:
  assumes "pv_ok env v" "n \<le> max_size env" "heap_available env"
  shows "succeeds (Reallocate env pol v n)"
  using assms by (simp add: Reallocate_eq Let_def heap_available_def)

lemma succeeds_andthen: "succeeds (andthen r f) \<longleftrightarrow> (\<exists>a. r = Inr a \<and> succeeds (f a))"
  by (cases r) auto

lemma succeedsD: "succeeds r \<Longrightarrow> \<exists>a. r = Inr a"
  by (cases r) auto

text \<open>\<open>expand\<close> and \<open>resize\<close> keep the old elements and expose uninitialised ones behind them.\<close>

lemma resized:
  assumes "pv_ok env v" "n \<le> max_size env" "pv_size v \<le> n"
    and "(if pv_res v < n then Resize_reallocate env pol v n else Inr (Eos v n)) = Inr v'"
  shows "pv_ok env v' \<and> pv_size v' = n \<and> take (pv_size v) (pv_block v') = pv_elems v"
proof (cases "pv_res v < n")
  case True
  then obtain v1 where v1: "Reallocate env pol v n = Inr v1" "v' = Eos v1 n"
    using assms(4) by (auto simp: Resize_reallocate_def andthen_Inr_iff)
  show ?thesis using Reallocate_Inr [OF assms(1-3) v1(1)] v1(2)
    by (auto simp: pv_ok_def Eos_def pv_elems_def)
next
  case False
  then show ?thesis using assms by (auto simp: pv_ok_def Eos_def pv_elems_def)
qed

lemma resized_succeeds:
  assumes "pv_ok env v" "n \<le> max_size env" "heap_available env"
  shows "succeeds (if pv_res v < n then Resize_reallocate env pol v n else Inr (Eos v n))"
  using Reallocate_succeeds [OF assms, of pol]
  by (auto simp: Resize_reallocate_def succeeds_andthen dest: succeedsD)

lemma pv_expand_Inr:
  assumes "pv_ok env v" "pv_size v + count \<le> max_size env" "pv_expand env v count = Inr v'"
  shows "pv_ok env v' \<and> pv_size v' = pv_size v + count \<and> take (pv_size v) (pv_block v') = pv_elems v"
  using assms max_size_less [of env]
  by (intro resized) (auto simp: pv_expand_def Let_def)

lemma pv_expand_succeeds:
  assumes "pv_ok env v" "pv_size v + count \<le> max_size env" "heap_available env"
  shows "succeeds (pv_expand env v count)"
  using assms max_size_less [of env] resized_succeeds [of env v "pv_size v + count" At_least]
  by (simp add: pv_expand_def Let_def)

lemma store_Inr:
  assumes "store v k xs = Inr v'"
  shows "pv_block v' = splice k xs (pv_block v) \<and> pv_size v' = pv_size v \<and> pv_res v' = pv_res v
    \<and> k + length xs \<le> length (pv_block v)"
  using assms by (cases "pv_first v") (auto simp: store_def pv_block_def splice_def split: if_splits)

lemma store_succeeds [simp]: "succeeds (store v k xs) \<longleftrightarrow> k + length xs \<le> length (pv_block v)"
  by (simp add: store_def)

lemma store_ok: "pv_ok env v \<Longrightarrow> store v k xs = Inr v' \<Longrightarrow> pv_ok env v'"
  by (drule store_Inr) (auto simp: pv_ok_def)

section \<open>What each operation does to the elements\<close>

definition yields :: "pv_env \<Rightarrow> 'a pod_vector \<Rightarrow> 'a option list \<Rightarrow> bool" where
  "yields env v es \<longleftrightarrow> pv_ok env v \<and> pv_elems v = es"

lemma emplace_back_room:
  assumes "pv_ok env v" "pv_size v < pv_res v"
  shows "\<exists>v'. pv_emplace_back env v x = Inr v' \<and> yields env v' (pv_elems v @ [Some x]) \<and> pv_res v' = pv_res v"
proof -
  have "pv_size v + length [Some x] \<le> length (pv_block v)" using assms by (simp add: pv_ok_def)
  then have "succeeds (store v (pv_size v) [Some x])" by simp
  from succeedsD [OF this] obtain v1 where v1: "store v (pv_size v) [Some x] = Inr v1" by blast
  from assms store_Inr [OF v1] show ?thesis
    by (auto simp: pv_emplace_back_def v1 yields_def pv_ok_def pv_elems_def)
qed

lemma emplace_back_Inr:
  assumes "pv_ok env v" "pv_emplace_back env v x = Inr v'"
  shows "yields env v' (pv_elems v @ [Some x])"
proof (cases "pv_size v < pv_res v")
  case True
  then show ?thesis using emplace_back_room [OF assms(1) True, of x] assms(2) by auto
next
  case False
  then have full: "pv_res v = pv_size v" using assms(1) by (simp add: pv_ok_def)
  with False assms obtain v1 where
    "pv_size v \<noteq> max_size env" and
    v1: "Resize_reallocate env At_least v (pv_size v + 1) = Inr v1" "store v1 (pv_size v) [Some x] = Inr v'"
    by (auto simp: pv_emplace_back_def Emplace_back_reallocate_def Let_def andthen_Inr_iff split: if_splits)
  then have "pv_size v + 1 \<le> max_size env" using assms(1) full by (simp add: pv_ok_def)
  from resized [OF assms(1) this, where pol = At_least and v' = v1] v1(1) full
  have "pv_ok env v1 \<and> pv_size v1 = pv_size v + 1 \<and> take (pv_size v) (pv_block v1) = pv_elems v" by simp
  then show ?thesis using store_Inr [OF v1(2)] store_ok [OF _ v1(2)]
    by (auto simp: yields_def pv_elems_def)
qed

lemma emplace_back_succeeds:
  assumes "pv_ok env v" "pv_size v + 1 \<le> max_size env" "heap_available env"
  shows "succeeds (pv_emplace_back env v x)"
proof (cases "pv_size v < pv_res v")
  case True
  then show ?thesis using emplace_back_room [OF assms(1) True, of x] by auto
next
  case False
  then have full: "pv_res v = pv_size v" using assms(1) by (simp add: pv_ok_def)
  have "succeeds (if pv_res v < pv_size v + 1 then Resize_reallocate env At_least v (pv_size v + 1)
    else Inr (Eos v (pv_size v + 1)))"
    by (rule resized_succeeds) (use assms in auto)
  then obtain v1 where v1: "Resize_reallocate env At_least v (pv_size v + 1) = Inr v1"
    using full by (auto dest: succeedsD)
  with resized [OF assms(1,2), where pol = At_least and v' = v1] full
  have "pv_ok env v1" "pv_size v1 = pv_size v + 1" by auto
  then show ?thesis using False v1 assms(2) by (simp add: pv_emplace_back_def Emplace_back_reallocate_def Let_def pv_ok_def)
qed

text \<open>Opening a gap of \<open>length ys\<close> cells at \<open>pos\<close> and filling it.\<close>

lemma gap_fill:
  assumes ok: "pv_ok env v" and pos: "pos \<le> pv_size v" and room: "pv_size v + length ys \<le> max_size env"
    and v1: "pv_expand env v (length ys) = Inr v1"
    and v2: "copy_within v1 pos (pv_size v1 - (pos + length ys)) (pos + length ys) = Inr v2"
    and v': "store v2 pos ys = Inr v'"
  shows "yields env v' (take pos (pv_elems v) @ ys @ drop pos (pv_elems v))"
proof -
  have 1: "pv_ok env v1" "pv_size v1 = pv_size v + length ys" "take (pv_size v) (pv_block v1) = pv_elems v"
    using pv_expand_Inr [OF ok room v1] by auto
  have len: "pv_size v + length ys \<le> length (pv_block v1)" using 1(1,2) by (simp add: pv_ok_def)
  have moved: "take (pv_size v - pos) (drop pos (pv_block v1)) = drop pos (pv_elems v)"
    using 1(3) by (metis drop_take)
  have 2: "pv_block v2 = splice (pos + length ys) (drop pos (pv_elems v)) (pv_block v1)" "pv_size v2 = pv_size v1"
    using v2 1(2) moved by (auto simp: copy_within_def dest: store_Inr)
  have 3: "pv_block v' = splice pos ys (pv_block v2)" "pv_size v' = pv_size v2"
    using store_Inr [OF v'] by auto
  have "pv_ok env v'" using 1(1) v2 v' by (auto simp: copy_within_def dest: store_ok)
  moreover have "pv_elems v' = take pos (pv_block v1) @ ys @ drop pos (pv_elems v)"
    using pos len ok by (simp add: pv_elems_def [of v'] 2 3 1(2) splice_def)
  moreover have "take pos (pv_block v1) = take pos (pv_elems v)"
    using 1(3) pos by (metis min.absorb1 take_take)
  ultimately show ?thesis by (simp add: yields_def)
qed

lemma gap_fill_succeeds:
  assumes "pv_ok env v" "pos \<le> pv_size v" "pv_size v + length ys \<le> max_size env" "heap_available env"
  shows "succeeds (andthen (pv_expand env v (length ys)) (\<lambda>v1.
    andthen (copy_within v1 pos (pv_size v1 - (pos + length ys)) (pos + length ys)) (\<lambda>v2. store v2 pos ys)))"
proof -
  obtain v1 where v1: "pv_expand env v (length ys) = Inr v1"
    using pv_expand_succeeds [OF assms(1,3,4)] by (auto dest: succeedsD)
  have 1: "pv_ok env v1" "pv_size v1 = pv_size v + length ys" using pv_expand_Inr [OF assms(1,3) v1] by auto
  then have "succeeds (copy_within v1 pos (pv_size v1 - (pos + length ys)) (pos + length ys))"
    using assms(2) by (auto simp: copy_within_def pv_ok_def min_def simp flip: length_0_conv)
  from succeedsD [OF this]
  obtain v2 where v2: "copy_within v1 pos (pv_size v1 - (pos + length ys)) (pos + length ys) = Inr v2" by blast
  have "length (pv_block v2) = length (pv_block v1)"
    using store_Inr [OF v2 [unfolded copy_within_def]] by auto
  moreover have "pos + length ys \<le> length (pv_block v1)" using 1 assms(2) by (auto simp: pv_ok_def)
  ultimately show ?thesis by (simp add: v1 v2)
qed

lemma append_Inr:
  assumes "pv_ok env v" "pv_size v + length xs \<le> max_size env" "pv_append env v xs = Inr v'"
  shows "yields env v' (pv_elems v @ map Some xs)"
proof (cases "length xs > 1")
  case True
  then obtain v1 where v1: "pv_expand env v (length xs) = Inr v1" "store v1 (pv_size v) (map Some xs) = Inr v'"
    using assms(3) by (auto simp: pv_append_def Let_def andthen_Inr_iff split: if_splits)
  then show ?thesis using pv_expand_Inr [OF assms(1,2) v1(1)] store_Inr [OF v1(2)] store_ok [OF _ v1(2)]
    by (auto simp: yields_def pv_elems_def)
next
  case False
  then consider "xs = []" | x where "xs = [x]" by (cases xs) auto
  then show ?thesis
  proof cases
    case 1
    then show ?thesis using assms by (simp add: pv_append_def yields_def)
  next
    case 2
    then show ?thesis using assms emplace_back_Inr [of env v x v'] by (simp add: pv_append_def Let_def)
  qed
qed

lemma append_succeeds:
  assumes "pv_ok env v" "pv_size v + length xs \<le> max_size env" "heap_available env"
  shows "succeeds (pv_append env v xs)"
proof (cases "length xs > 1")
  case True
  obtain v1 where v1: "pv_expand env v (length xs) = Inr v1"
    using pv_expand_succeeds [OF assms] by (auto dest: succeedsD)
  then show ?thesis using True pv_expand_Inr [OF assms(1,2) v1] by (auto simp: pv_append_def Let_def pv_ok_def)
next
  case False
  then consider "xs = []" | x where "xs = [x]" by (cases xs) auto
  then show ?thesis using assms emplace_back_succeeds [of env v]
    by cases (simp_all add: pv_append_def Let_def)
qed

lemma expand_fill_Inr:
  assumes "pv_ok env v" "pv_size v + count \<le> max_size env" "pv_expand_fill env v count x = Inr v'"
  shows "yields env v' (pv_elems v @ replicate count (Some x))"
proof (cases "count = 0")
  case False
  then obtain v1 where v1: "pv_expand env v count = Inr v1" "store v1 (pv_size v) (replicate count (Some x)) = Inr v'"
    using assms(3) by (auto simp: pv_expand_fill_def Let_def andthen_Inr_iff)
  then show ?thesis using pv_expand_Inr [OF assms(1,2) v1(1)] store_Inr [OF v1(2)] store_ok [OF _ v1(2)]
    by (auto simp: yields_def pv_elems_def)
qed (use assms in \<open>simp add: pv_expand_fill_def yields_def\<close>)

lemma insert_Inr:
  assumes "pv_ok env v" "pv_size v + length xs \<le> max_size env" "pv_insert env v pos xs = Inr v'"
  shows "pos \<le> pv_size v \<and> yields env v' (take pos (pv_elems v) @ map Some xs @ drop pos (pv_elems v))"
proof (cases "pos < pv_size v \<and> xs \<noteq> []")
  case True
  then show ?thesis
    using assms gap_fill [OF assms(1), of pos "map Some xs"]
    by (auto simp: pv_insert_def Let_def andthen_Inr_iff split: if_splits)
next
  case False
  then show ?thesis using assms append_Inr [OF assms(1,2)]
    by (auto simp: pv_insert_def yields_def split: if_splits)
qed

lemma insert_fill_Inr:
  assumes "pv_ok env v" "pv_size v + count \<le> max_size env" "pv_insert_fill env v pos count x = Inr v'"
  shows "pos \<le> pv_size v \<and>
    yields env v' (take pos (pv_elems v) @ replicate count (Some x) @ drop pos (pv_elems v))"
proof (cases "pos < pv_size v \<and> count \<noteq> 0")
  case True
  then show ?thesis
    using assms gap_fill [OF assms(1), of pos "replicate count (Some x)"]
    by (auto simp: pv_insert_fill_def Let_def andthen_Inr_iff split: if_splits)
next
  case False
  then show ?thesis using assms expand_fill_Inr [OF assms(1,2)]
    by (auto simp: pv_insert_fill_def pv_append_fill_def yields_def split: if_splits)
qed

lemma emplace_Inr:
  assumes "pv_ok env v" "pv_emplace env v pos x = Inr v'" "pv_size v + 1 \<le> max_size env"
  shows "pos \<le> pv_size v \<and> yields env v' (take pos (pv_elems v) @ [Some x] @ drop pos (pv_elems v))"
proof (cases "pos < pv_size v")
  case True
  then show ?thesis
    using assms gap_fill [OF assms(1), of pos "[Some x]"]
    by (auto simp: pv_emplace_def Let_def andthen_Inr_iff split: if_splits)
next
  case False
  then show ?thesis using assms emplace_back_Inr [OF assms(1)]
    by (auto simp: pv_emplace_def split: if_splits)
qed

lemma emplace_cxx20_Inr:
  assumes "pv_ok env v" "pv_emplace_cxx20 env v pos x = Inr v'"
  shows "pos \<le> pv_size v \<and> yields env v' (take pos (pv_elems v) @ [Some x] @ drop pos (pv_elems v))"
proof -
  let ?E = "pv_elems v"
  obtain v1 where pos: "pos \<le> pv_size v" and v1: "pv_emplace_back env v x = Inr v1"
    and v': "store v1 pos (drop (pv_size v1 - 1) (pv_elems v1) @
       take (pv_size v1 - 1 - pos) (drop pos (pv_elems v1))) = Inr v'"
    using assms(2) by (auto simp: pv_emplace_cxx20_def Let_def andthen_Inr_iff pv_elems_def split: if_splits)
  have 1: "pv_ok env v1" "pv_elems v1 = ?E @ [Some x]"
    using emplace_back_Inr [OF assms(1) v1] by (auto simp: yields_def)
  have sz: "pv_size v1 = pv_size v + 1"
    using length_pv_elems [OF 1(1)] length_pv_elems [OF assms(1)] by (simp add: 1(2))
  have E: "length ?E = pv_size v" using assms(1) by simp
  have "store v1 pos (Some x # drop pos ?E) = Inr v'" using v' pos E by (simp add: sz 1(2))
  then have v'': "pv_block v' = splice pos (Some x # drop pos ?E) (pv_block v1)" "pv_size v' = pv_size v + 1" "pv_ok env v'"
    using store_Inr [of v1 pos _ v'] store_ok [OF 1(1)] sz by auto
  have "take pos (pv_block v1) = take pos ?E"
  proof -
    have "take pos (pv_elems v1) = take pos (pv_block v1)" using pos sz by (simp add: pv_elems_def)
    then show ?thesis using pos E by (simp add: 1(2))
  qed
  moreover have "pos + length (Some x # drop pos ?E) = pv_size v + 1" using pos E by simp
  moreover have "pv_size v + 1 \<le> length (pv_block v1)" using 1(1) sz by (simp add: pv_ok_def)
  ultimately show ?thesis using pos v''
    by (simp add: yields_def pv_elems_def [of v'])
qed

lemma erase_range_Inr:
  assumes "pv_ok env v" "pv_erase_range v a b = Inr v'"
  shows "a \<le> b \<and> b \<le> pv_size v \<and> yields env v' (take a (pv_elems v) @ drop b (pv_elems v))"
proof -
  let ?n = "a + (pv_size v - b)"
  obtain v1 where ab: "a \<le> b" "b \<le> pv_size v"
    and v1: "store v a (take (pv_size v - b) (drop b (pv_block v))) = Inr v1"
    and v': "v' = v1\<lparr>pv_size := ?n\<rparr>"
    using assms(2) by (auto simp only: pv_erase_range_def copy_within_def andthen_Inr_iff Inr_Inl_False Inl_Inr_False if_False not_not sum.inject split: if_splits)
  have tail: "take (pv_size v - b) (drop b (pv_block v)) = drop b (pv_elems v)"
    by (simp add: pv_elems_def drop_take)
  have len: "a + length (drop b (pv_elems v)) = ?n" using assms(1) by simp
  have 1: "pv_block v1 = splice a (drop b (pv_elems v)) (pv_block v)" "pv_ok env v1"
      "?n \<le> length (pv_block v)"
    using store_Inr [OF v1] store_ok [OF assms(1) v1] len by (auto simp: tail)
  have "take a (pv_elems v) = take a (pv_block v)" using ab by (simp add: pv_elems_def)
  then have "pv_elems v' = take a (pv_elems v) @ drop b (pv_elems v)"
    unfolding v' pv_elems_def [of "v1\<lparr>pv_size := ?n\<rparr>"] using 1 len by simp
  moreover have "pv_ok env v'"
    using 1(2,3) len assms(1) store_Inr [OF v1] unfolding v' by (auto simp: pv_ok_def)
  ultimately show ?thesis using ab by (simp add: yields_def)
qed

lemma erase_eq_erase_range: "pos < pv_size v \<Longrightarrow> pv_erase v pos = pv_erase_range v pos (pos + 1)"
proof -
  assume "pos < pv_size v"
  then have "pv_size v - 1 = pos + (pv_size v - (pos + 1))" by simp
  with \<open>pos < pv_size v\<close> show ?thesis by (simp add: pv_erase_def pv_erase_range_def)
qed

lemma insert_succeeds:
  assumes "pv_ok env v" "pv_size v + length xs \<le> max_size env" "heap_available env" "pos \<le> pv_size v"
  shows "succeeds (pv_insert env v pos xs)"
  using assms append_succeeds [OF assms(1-3)] gap_fill_succeeds [of env v pos "map Some xs"]
  by (simp add: pv_insert_def Let_def)

lemma expand_fill_succeeds:
  assumes "pv_ok env v" "pv_size v + count \<le> max_size env" "heap_available env"
  shows "succeeds (pv_expand_fill env v count x)"
proof (cases "count = 0")
  case False
  obtain v1 where v1: "pv_expand env v count = Inr v1"
    using pv_expand_succeeds [OF assms] by (auto dest: succeedsD)
  then show ?thesis using False pv_expand_Inr [OF assms(1,2) v1]
    by (auto simp: pv_expand_fill_def Let_def pv_ok_def)
qed (simp add: pv_expand_fill_def)

lemma insert_fill_succeeds:
  assumes "pv_ok env v" "pv_size v + count \<le> max_size env" "heap_available env" "pos \<le> pv_size v"
  shows "succeeds (pv_insert_fill env v pos count x)"
  using assms expand_fill_succeeds [OF assms(1-3)] gap_fill_succeeds [of env v pos "replicate count (Some x)"]
  by (simp add: pv_insert_fill_def pv_append_fill_def Let_def)

lemma emplace_succeeds:
  assumes "pv_ok env v" "pv_size v + 1 \<le> max_size env" "heap_available env" "pos \<le> pv_size v"
  shows "succeeds (pv_emplace env v pos x)"
  using assms emplace_back_succeeds [OF assms(1-3)] gap_fill_succeeds [of env v pos "[Some x]"]
  by (simp add: pv_emplace_def Let_def)

lemma emplace_cxx20_succeeds:
  assumes "pv_ok env v" "pv_size v + 1 \<le> max_size env" "heap_available env" "pos \<le> pv_size v"
  shows "succeeds (pv_emplace_cxx20 env v pos x)"
proof -
  obtain v1 where v1: "pv_emplace_back env v x = Inr v1"
    using emplace_back_succeeds [OF assms(1-3)] by (auto dest: succeedsD)
  have 1: "pv_ok env v1" "length (pv_elems v1) = pv_size v + 1"
    using emplace_back_Inr [OF assms(1) v1] assms(1) by (auto simp: yields_def)
  then have "pv_size v1 = pv_size v + 1" by simp
  with 1(1) assms(4) show ?thesis
    by (simp add: pv_emplace_cxx20_def Let_def v1 pv_ok_def)
qed

lemma erase_range_succeeds:
  assumes "pv_ok env v" "a \<le> b" "b \<le> pv_size v"
  shows "succeeds (pv_erase_range v a b)"
  using assms by (auto simp: pv_erase_range_def copy_within_def succeeds_andthen store_def pv_ok_def min_def)

lemma yields_exI: "succeeds r \<Longrightarrow> (\<And>v'. r = Inr v' \<Longrightarrow> yields env v' es) \<Longrightarrow> \<exists>v'. r = Inr v' \<and> yields env v' es"
  by (auto dest: succeedsD)

lemmas pv_eval = pv_append_def pv_emplace_back_def Emplace_back_reallocate_def Resize_reallocate_def
  Reallocate_def reallocate_def calculate_growth_def new_capacity_def max_size_def pv_block_def
  pv_expand_def pv_insert_def store_def copy_within_def splice_def Eos_def size_add_def size_mul_def Let_def

section \<open>Properties\<close>

definition byte_env :: pv_env where
  "byte_env = \<lparr>env_sizeof = 1, env_heap = (\<lambda>_. True)\<rparr>"

lemma byte_env_simps [simp]:
  "env_sizeof byte_env = 1" "env_heap byte_env n" "heap_available byte_env" "max_size byte_env = 2 ^ 64 - 1"
  by (simp_all add: byte_env_def heap_available_def max_size_def)

text \<open>
  C33: \<open>insert(pos, first, last)\<close> is list insertion.  A position behind the end is refused with
  \<open>std::out_of_range\<close>; otherwise, while the heap provides and the new size stays within
  \<open>max_size\<close>, the result holds the old elements with the range put in at \<open>pos\<close>, whatever the
  capacity was, and satisfies the invariant (block length is the capacity, size within it).
\<close>

theorem insert_is_list_insertion:
  assumes "pv_ok env v" "heap_available env" "pv_size v + length xs \<le> max_size env"
  shows "if pos \<le> pv_size v
    then \<exists>v'. pv_insert env v pos xs = Inr v' \<and> pv_ok env v' \<and>
           pv_elems v' = take pos (pv_elems v) @ map Some xs @ drop pos (pv_elems v)
    else pv_insert env v pos xs = Inl OutOfRange"
proof (cases "pos \<le> pv_size v")
  case True
  from succeedsD [OF insert_succeeds [OF assms(1,3,2) True]]
  obtain v' where "pv_insert env v pos xs = Inr v'" by blast
  with insert_Inr [OF assms(1,3) this] True show ?thesis by (auto simp: yields_def)
qed (simp add: pv_insert_def)

theorem insert_is_list_insertion_witness:
  "let v = \<lparr>pv_first = Some [Some 1, Some 2, None], pv_size = 2, pv_res = 3\<rparr> in
   \<exists>v'. pv_insert byte_env v 1 [7, 8 :: byte] = Inr v' \<and> pv_ok byte_env v' \<and>
     pv_elems v' = [Some 1, Some 7, Some 8, Some 2]"
  using insert_is_list_insertion [of byte_env "\<lparr>pv_first = Some [Some 1, Some 2, None], pv_size = 2, pv_res = 3\<rparr>"
      "[7, 8 :: byte]" 1]
  by (simp add: pv_ok_def pv_block_def pv_elems_def)

text \<open>
  The two bodies of \<open>emplace\<close>, the one compiled before C++20 (open a gap) and the one
  compiled from C++20 on (append, then rotate), refuse the same positions and otherwise leave
  the same elements.
\<close>

theorem emplace_bodies_agree:
  assumes "pv_ok env v" "heap_available env" "pv_size v < max_size env"
  shows "map_sum id pv_elems (pv_emplace env v pos x) = map_sum id pv_elems (pv_emplace_cxx20 env v pos x)"
proof (cases "pos \<le> pv_size v")
  case True
  have room: "pv_size v + 1 \<le> max_size env" using assms(3) by simp
  obtain v1 where "pv_emplace env v pos x = Inr v1"
    using succeedsD [OF emplace_succeeds [OF assms(1) room assms(2) True]] by blast
  moreover obtain v2 where "pv_emplace_cxx20 env v pos x = Inr v2"
    using succeedsD [OF emplace_cxx20_succeeds [OF assms(1) room assms(2) True]] by blast
  ultimately show ?thesis
    using emplace_Inr [OF assms(1) _ room] emplace_cxx20_Inr [OF assms(1)] by (simp add: yields_def)
qed (simp add: pv_emplace_def pv_emplace_cxx20_def)

theorem emplace_bodies_agree_witness:
  "let v = \<lparr>pv_first = Some [Some 1, Some 2], pv_size = 2, pv_res = 2\<rparr> in
   map_sum id pv_elems (pv_emplace byte_env v 1 (9 :: byte)) =
   map_sum id pv_elems (pv_emplace_cxx20 byte_env v 1 9)"
  using emplace_bodies_agree [of byte_env "\<lparr>pv_first = Some [Some 1, Some 2], pv_size = 2, pv_res = 2\<rparr>" 1 "9 :: byte"]
  by (simp add: pv_ok_def pv_block_def)

text \<open>
  \<open>erase(first, last)\<close> removes exactly the elements of the range and keeps the others in
  order, and throws \<open>std::out_of_range\<close> for a range that is not within the elements; it never
  needs the heap.
\<close>

theorem erase_range_removes:
  assumes "pv_ok env v"
  shows "if a \<le> b \<and> b \<le> pv_size v
    then \<exists>v'. pv_erase_range v a b = Inr v' \<and> pv_ok env v' \<and> pv_res v' = pv_res v \<and>
           pv_elems v' = take a (pv_elems v) @ drop b (pv_elems v)
    else pv_erase_range v a b = Inl OutOfRange"
proof (cases "a \<le> b \<and> b \<le> pv_size v")
  case True
  from succeedsD [OF erase_range_succeeds [OF assms, of a b]] True
  obtain v' where v': "pv_erase_range v a b = Inr v'" by blast
  moreover have "pv_res v' = pv_res v"
    using v' by (auto simp: pv_erase_range_def copy_within_def andthen_Inr_iff dest: store_Inr split: if_splits)
  ultimately show ?thesis using erase_range_Inr [OF assms v'] by (auto simp: yields_def)
next
  case False
  then show ?thesis by (simp only: pv_erase_range_def if_False not_False_eq_True if_True)
qed

theorem erase_range_removes_witness:
  "let v = \<lparr>pv_first = Some [Some 1, Some 2, Some 3, None], pv_size = 3, pv_res = 4\<rparr> in
   \<exists>v'. pv_erase_range v 0 2 = Inr v' \<and> pv_elems v' = [Some (3 :: byte)]"
  using erase_range_removes [of byte_env "\<lparr>pv_first = Some [Some 1, Some 2, Some 3, None], pv_size = 3, pv_res = 4\<rparr>" 0 2]
  by (auto simp: pv_ok_def pv_block_def pv_elems_def)

text \<open>
  Geometric growth.  The capacity \<open>_Calculate_growth\<close> asks for covers the requested size,
  is at least one and a half times the old capacity unless it is capped, and never exceeds
  \<open>max_size\<close>, so that the byte count given to \<open>realloc\<close> does not wrap.
\<close>

theorem growth_policy:
  assumes "pv_ok env v" "n \<le> max_size env"
  shows "n \<le> calculate_growth env v n \<and> calculate_growth env v n \<le> max_size env \<and>
    min (pv_res v + pv_res v div 2) (max_size env) \<le> calculate_growth env v n \<and>
    size_mul (calculate_growth env v n) (env_sizeof env) = calculate_growth env v n * env_sizeof env"
proof -
  note b = calculate_growth_bounds [OF assms]
  have "min (pv_res v + pv_res v div 2) (max_size env) \<le> calculate_growth env v n"
    by (auto simp: calculate_growth_def Let_def)
  with b max_size_mult [OF b(2)] show ?thesis by simp
qed

theorem growth_policy_witness:
  "10 \<le> calculate_growth byte_env \<lparr>pv_first = Some (replicate 8 (Some (0 :: byte))), pv_size = 8, pv_res = 8\<rparr> 10"
  using growth_policy [of byte_env "\<lparr>pv_first = Some (replicate 8 (Some (0 :: byte))), pv_size = 8, pv_res = 8\<rparr>" 10]
  by (simp add: pv_ok_def pv_block_def)

text \<open>
  \<open>reserve\<close> does not compare the request with \<open>max_size\<close>.  With elements of two bytes or
  more a request of \<open>2 ^ 63\<close> elements wraps the byte count to zero: an empty vector then
  reports a capacity of \<open>2 ^ 63\<close> over a block with no cell, and the following \<open>push_back\<close>
  writes outside it.
\<close>

theorem reserve_byte_count_wraps:
  "\<exists>v'. pv_reserve \<lparr>env_sizeof = 2, env_heap = (\<lambda>_. True)\<rparr> (pv_empty :: 16 word pod_vector) (2 ^ 63) = Inr v' \<and>
     pv_res v' = 2 ^ 63 \<and> pv_block v' = [] \<and>
     pv_emplace_back \<lparr>env_sizeof = 2, env_heap = (\<lambda>_. True)\<rparr> v' x = Inl Undefined"
  by (simp add: pv_reserve_def Reallocate_def new_capacity_def reallocate_def Let_def size_mul_def
      pv_empty_def pv_block_def pv_emplace_back_def store_def)

end
