(* ===== verification/ObStream.thy ===== *)
theory ObStream
  imports Endian PodVector
begin

text \<open>
  The binary writer (\<open>yasio/obstream.hpp\<close>).  \<open>binary_writer_impl\<close> is a template over a
  conversion trait and a buffer type: the trait is a \<open>convert_tag\<close>, the buffer type a record of
  its member functions (\<open>buffer_ops\<close>), given here for \<open>fixed_buffer_span\<close> and
  \<open>dynamic_buffer_span\<close>.  The contract both buffers satisfy is the locale \<open>output_buffer\<close>; the
  writer's operations are verified once against it.
\<close>

section \<open>The buffers\<close>

text \<open>
  The member functions the writer calls.  A \<open>void*\<close> with its \<open>int\<close> count is the list of bytes
  behind the pointer and the count, which may be larger or negative.
\<close>

record 's buffer_ops =
  op_write_byte :: "byte \<Rightarrow> 's \<Rightarrow> 's result"
  op_write_bytes :: "byte list \<Rightarrow> int \<Rightarrow> 's \<Rightarrow> 's result"
  op_write_bytes_at :: "nat \<Rightarrow> byte list \<Rightarrow> int \<Rightarrow> 's \<Rightarrow> 's result"
  op_fill_bytes :: "nat \<Rightarrow> byte \<Rightarrow> 's \<Rightarrow> 's result"
  op_poke :: "nat \<Rightarrow> byte list \<Rightarrow> 's \<Rightarrow> 's result"  \<comment> \<open>\<open>memcpy(data() + offset, ...)\<close>\<close>
  op_clear :: "'s \<Rightarrow> 's"
  op_length :: "'s \<Rightarrow> nat"
  op_empty :: "'s \<Rightarrow> bool"

text \<open>\<open>static_cast<size_t>\<close> of an \<open>int\<close>.\<close>

definition int_to_size :: "int \<Rightarrow> nat" where
  "int_to_size n = nat (n mod 2 ^ 64)"

lemma int_to_size_nat [simp]: "n < 2 ^ 64 \<Longrightarrow> int_to_size (int n) = n"
  by (simp add: int_to_size_def)

lemma int_to_size_numeral [simp]:
  "int_to_size 0 = 0" "int_to_size 1 = 1" "int_to_size 2 = 2" "int_to_size 3 = 3" "int_to_size 4 = 4" "int_to_size 8 = 8"
  by (simp_all add: int_to_size_def)

record fixed_buffer_span =
  fb_mem :: "byte list"   \<comment> \<open>\<open>[first_, last_)\<close>\<close>
  fb_pos :: nat

definition fb_max_size :: "fixed_buffer_span \<Rightarrow> nat" where
  "fb_max_size s = length (fb_mem s)"

definition fb_write_byte :: "byte \<Rightarrow> fixed_buffer_span \<Rightarrow> fixed_buffer_span result" where
  "fb_write_byte value s =
     (if fb_pos s < fb_max_size s
      then Inr (s\<lparr>fb_mem := (fb_mem s)[fb_pos s := value], fb_pos := fb_pos s + 1\<rparr>)
      else Inr s)"

definition fb_write_bytes_at :: "nat \<Rightarrow> byte list \<Rightarrow> int \<Rightarrow> fixed_buffer_span \<Rightarrow> fixed_buffer_span result" where
  "fb_write_bytes_at offset d n s =
     (let cnt = int_to_size n
      in if size_add offset cnt > fb_max_size s then Inl OutOfRange
         else if offset + cnt \<le> fb_max_size s \<and> cnt \<le> length d
         then Inr (s\<lparr>fb_mem := splice offset (take cnt d) (fb_mem s), fb_pos := size_add (fb_pos s) cnt\<rparr>)
         else Inl Undefined)"

definition fb_write_bytes :: "byte list \<Rightarrow> int \<Rightarrow> fixed_buffer_span \<Rightarrow> fixed_buffer_span result" where
  "fb_write_bytes d n s = (if n > 0 then fb_write_bytes_at (fb_pos s) d n s else Inr s)"

definition fb_fill_bytes :: "nat \<Rightarrow> byte \<Rightarrow> fixed_buffer_span \<Rightarrow> fixed_buffer_span result" where
  "fb_fill_bytes count val s =
     (if size_add count (fb_pos s) > fb_max_size s then Inl OutOfRange
      else if fb_pos s + count \<le> fb_max_size s
      then Inr (s\<lparr>fb_mem := splice (fb_pos s) (replicate count val) (fb_mem s), fb_pos := size_add (fb_pos s) count\<rparr>)
      else Inl Undefined)"

definition fb_poke :: "nat \<Rightarrow> byte list \<Rightarrow> fixed_buffer_span \<Rightarrow> fixed_buffer_span result" where
  "fb_poke offset d s =
     (if offset + length d \<le> fb_max_size s then Inr (s\<lparr>fb_mem := splice offset d (fb_mem s)\<rparr>)
      else Inl Undefined)"

definition fixed_ops :: "fixed_buffer_span buffer_ops" where
  "fixed_ops = \<lparr>op_write_byte = fb_write_byte, op_write_bytes = fb_write_bytes,
     op_write_bytes_at = fb_write_bytes_at, op_fill_bytes = fb_fill_bytes, op_poke = fb_poke,
     op_clear = (\<lambda>s. s\<lparr>fb_pos := 0\<rparr>), op_length = fb_pos, op_empty = (\<lambda>s. fb_mem s = [])\<rparr>"

type_synonym sbyte_buffer = "byte pod_vector"

definition db_write_bytes :: "pv_env \<Rightarrow> byte list \<Rightarrow> int \<Rightarrow> sbyte_buffer \<Rightarrow> sbyte_buffer result" where
  "db_write_bytes env d n s =
     (if n > 0
      then if nat n \<le> length d then pv_insert env s (pv_size s) (take (nat n) d) else Inl Undefined
      else Inr s)"

definition db_write_bytes_at :: "nat \<Rightarrow> byte list \<Rightarrow> int \<Rightarrow> sbyte_buffer \<Rightarrow> sbyte_buffer result" where
  "db_write_bytes_at offset d n s =
     (let cnt = int_to_size n
      in if size_add offset cnt > pv_size s then Inl OutOfRange
         else if offset + cnt \<le> pv_size s \<and> cnt \<le> length d then store s offset (map Some (take cnt d))
         else Inl Undefined)"

definition db_poke :: "nat \<Rightarrow> byte list \<Rightarrow> sbyte_buffer \<Rightarrow> sbyte_buffer result" where
  "db_poke offset d s = store s offset (map Some d)"

definition dynamic_ops :: "pv_env \<Rightarrow> sbyte_buffer buffer_ops" where
  "dynamic_ops env = \<lparr>op_write_byte = (\<lambda>b s. pv_emplace_back env s b), op_write_bytes = db_write_bytes env,
     op_write_bytes_at = db_write_bytes_at,
     op_fill_bytes = (\<lambda>count val s. pv_insert_fill env s (pv_size s) count val), op_poke = db_poke,
     op_clear = pv_clear, op_length = pv_size, op_empty = (\<lambda>s. pv_size s = 0)\<rparr>"

section \<open>The writer\<close>

text \<open>
  \<open>write\<close> and the blobs.  \<open>nbytes\<close> is \<open>sizeof\<close> of the integer type, its bytes are those
  of the converted value in memory.
\<close>

definition nbytes :: "'a::len word \<Rightarrow> nat" where
  "nbytes (v :: 'a word) = LENGTH('a) div 8"

definition write_num :: "'s buffer_ops \<Rightarrow> convert_tag \<Rightarrow> 'a::len word \<Rightarrow> 's \<Rightarrow> 's result" where
  "write_num ops tag value s =
     (let nv = ct_to tag value
      in op_write_bytes ops (le_bytes (nbytes nv) nv) (int (nbytes nv)) s)"

lemma unat_drop_bit_less: "0 < unat v \<Longrightarrow> 0 < n \<Longrightarrow> unat (drop_bit n v) < unat (v :: 'a::len word)"
  unfolding unat_drop_bit_eq drop_bit_eq_div [of n "unat v"]
  by (rule div_less_dividend) (use one_less_power [of "2 :: nat" n] in simp_all)

text \<open>\<open>write_ix_impl\<close>, at 32 or 64 bits; shifting right by seven decreases a value above \<open>0x7f\<close>.\<close>

function write_ix_impl :: "'s buffer_ops \<Rightarrow> 'a::len word \<Rightarrow> 's \<Rightarrow> 's result" where
  "write_ix_impl ops v s =
     (if 0x80 \<le> unat v
      then andthen (op_write_byte ops (ucast (ucast v OR 0x80 :: 32 word)) s) (write_ix_impl ops (drop_bit 7 v))
      else op_write_byte ops (ucast v) s)"
  by pat_completeness auto
termination
  by (relation "measure (\<lambda>(ops, v, s). unat v)") (auto intro: unat_drop_bit_less)

declare write_ix_impl.simps [simp del]

text \<open>\<open>write_ix<_Intty>\<close>: types of eight bytes go through \<open>int64_t\<close>, smaller ones through \<open>int32_t\<close>.\<close>

definition write_ix32 :: "'s buffer_ops \<Rightarrow> int \<Rightarrow> 's \<Rightarrow> 's result" where
  "write_ix32 ops value s = write_ix_impl ops (word_of_int value :: 32 word) s"

definition write_ix64 :: "'s buffer_ops \<Rightarrow> int \<Rightarrow> 's \<Rightarrow> 's result" where
  "write_ix64 ops value s = write_ix_impl ops (word_of_int value :: 64 word) s"

definition write_varint :: "'s buffer_ops \<Rightarrow> convert_tag \<Rightarrow> 32 word \<Rightarrow> int \<Rightarrow> 's \<Rightarrow> 's result" where
  "write_varint ops tag value sz s =
     (let sz = clamp sz 1 4; value = ct_toint tag value (nat sz)
      in op_write_bytes ops (le_bytes 4 value) sz s)"

definition write_bytes_sv :: "'s buffer_ops \<Rightarrow> byte list \<Rightarrow> 's \<Rightarrow> 's result" where
  "write_bytes_sv ops v s = op_write_bytes ops v (to_int32 (int (length v))) s"

definition write_v :: "'s buffer_ops \<Rightarrow> byte list \<Rightarrow> 's \<Rightarrow> 's result" where
  "write_v ops value s =
     (let len = to_int32 (int (length value))
      in andthen (write_ix32 ops len s) (op_write_bytes ops value len))"

text \<open>\<open>write_v_fx<_LenT>\<close>; the length type is that of the (ignored) argument \<open>lent\<close>.\<close>

definition write_v_fx :: "'s buffer_ops \<Rightarrow> convert_tag \<Rightarrow> 'l::len word itself \<Rightarrow> byte list \<Rightarrow> 's \<Rightarrow> 's result" where
  "write_v_fx ops tag lent value s =
     (let sz = to_int32 (int (length value))
      in andthen (write_num ops tag (word_of_int sz :: 'l word) s) (\<lambda>s.
           if sz \<noteq> 0 then op_write_bytes ops value sz s else Inr s))"

definition write_v32 :: "'s buffer_ops \<Rightarrow> convert_tag \<Rightarrow> byte list \<Rightarrow> 's \<Rightarrow> 's result" where
  "write_v32 ops tag = write_v_fx ops tag TYPE(32 word)"

definition write_v16 :: "'s buffer_ops \<Rightarrow> convert_tag \<Rightarrow> byte list \<Rightarrow> 's \<Rightarrow> 's result" where
  "write_v16 ops tag = write_v_fx ops tag TYPE(16 word)"

definition write_v8 :: "'s buffer_ops \<Rightarrow> convert_tag \<Rightarrow> byte list \<Rightarrow> 's \<Rightarrow> 's result" where
  "write_v8 ops tag = write_v_fx ops tag TYPE(8 word)"

text \<open>\<open>fill_bytes(int n, uint8_t val)\<close>, \<open>pwrite\<close> and \<open>swrite\<close> (no bounds are checked there).\<close>

definition fill_bytes :: "'s buffer_ops \<Rightarrow> int \<Rightarrow> byte \<Rightarrow> 's \<Rightarrow> 's result" where
  "fill_bytes ops n val s = op_fill_bytes ops (int_to_size n) val s"

definition pwrite :: "'s buffer_ops \<Rightarrow> convert_tag \<Rightarrow> nat \<Rightarrow> 'a::len word \<Rightarrow> 's \<Rightarrow> 's result" where
  "pwrite ops tag offset value s =
     (let nv = ct_to tag value in op_poke ops offset (le_bytes (nbytes nv) nv) s)"

text \<open>\<open>push<_Intty>\<close> reserves a length field and returns where it is, \<open>pop<_Intty>\<close> fills it in.\<close>

definition push :: "'s buffer_ops \<Rightarrow> 'l::len word itself \<Rightarrow> 's \<Rightarrow> (nat \<times> 's) result" where
  "push ops lent s =
     (let where' = op_length ops s
      in andthen (fill_bytes ops (int (nbytes (0 :: 'l word))) 0 s) (\<lambda>s. Inr (where', s)))"

definition pop :: "'s buffer_ops \<Rightarrow> convert_tag \<Rightarrow> 'l::len word itself \<Rightarrow> nat \<Rightarrow> 's \<Rightarrow> 's result" where
  "pop ops tag lent offset s =
     pwrite ops tag offset
       (word_of_int (int (op_length ops s) - int offset - int (nbytes (0 :: 'l word))) :: 'l word) s"

definition pop_value :: "'s buffer_ops \<Rightarrow> convert_tag \<Rightarrow> nat \<Rightarrow> 'l::len word \<Rightarrow> 's \<Rightarrow> 's result" where
  "pop_value ops tag offset value s = pwrite ops tag offset value s"

section \<open>The writer with a built-in stack\<close>

text \<open>
  The variants compiled with \<open>YASIO_OBS_BUILTIN_STACK\<close>: the offsets are on a stack of the
  writer.  \<open>top\<close> of an empty \<open>std::stack\<close> is undefined.
\<close>

record 's writer =
  w_outs :: 's
  w_stack :: "nat list"

definition on_outs :: "('s \<Rightarrow> 's result) \<Rightarrow> 's writer \<Rightarrow> 's writer result" where
  "on_outs f w = andthen (f (w_outs w)) (\<lambda>s. Inr (w\<lparr>w_outs := s\<rparr>))"

definition push_len :: "'s buffer_ops \<Rightarrow> convert_tag \<Rightarrow> 'l::len word itself \<Rightarrow> 's writer \<Rightarrow> 's writer result" where
  "push_len ops tag lent w =
     on_outs (write_num ops tag (0 :: 'l word)) (w\<lparr>w_stack := op_length ops (w_outs w) # w_stack w\<rparr>)"

definition pop_len :: "'s buffer_ops \<Rightarrow> convert_tag \<Rightarrow> 'l::len word itself \<Rightarrow> 's writer \<Rightarrow> 's writer result" where
  "pop_len ops tag lent w =
     (case w_stack w of
        [] \<Rightarrow> Inl Undefined
      | offset # rest \<Rightarrow>
          on_outs (pwrite ops tag offset
            (word_of_int (int (op_length ops (w_outs w)) - int offset - int (nbytes (0 :: 'l word))) :: 'l word))
            (w\<lparr>w_stack := rest\<rparr>))"

definition pop_len_value :: "'s buffer_ops \<Rightarrow> convert_tag \<Rightarrow> 'l::len word \<Rightarrow> 's writer \<Rightarrow> 's writer result" where
  "pop_len_value ops tag value w =
     (case w_stack w of
        [] \<Rightarrow> Inl Undefined
      | offset # rest \<Rightarrow> on_outs (pwrite ops tag offset value) (w\<lparr>w_stack := rest\<rparr>))"

definition push_sized :: "'s buffer_ops \<Rightarrow> int \<Rightarrow> 's writer \<Rightarrow> 's writer result" where
  "push_sized ops sz w =
     (let sz = clamp sz 1 4; bufsize = op_length ops (w_outs w)
      in on_outs (fill_bytes ops sz 0) (w\<lparr>w_stack := bufsize # w_stack w\<rparr>))"

definition pop_sized_value :: "'s buffer_ops \<Rightarrow> convert_tag \<Rightarrow> 32 word \<Rightarrow> int \<Rightarrow> 's writer \<Rightarrow> 's writer result" where
  "pop_sized_value ops tag value sz w =
     (let sz = clamp sz 1 4
      in case w_stack w of
           [] \<Rightarrow> Inl Undefined
         | offset # rest \<Rightarrow>
             on_outs (op_write_bytes_at ops offset (le_bytes 4 (ct_toint tag value (nat sz))) sz)
               (w\<lparr>w_stack := rest\<rparr>))"

definition pop_sized :: "'s buffer_ops \<Rightarrow> convert_tag \<Rightarrow> int \<Rightarrow> 's writer \<Rightarrow> 's writer result" where
  "pop_sized ops tag sz w =
     (let sz = clamp sz 1 4
      in case w_stack w of
           [] \<Rightarrow> Inl Undefined
         | offset # rest \<Rightarrow>
             pop_sized_value ops tag (word_of_int (int (op_length ops (w_outs w)) - int offset - sz)) sz w)"

definition writer_clear :: "'s buffer_ops \<Rightarrow> 's writer \<Rightarrow> 's writer" where
  "writer_clear ops w = w\<lparr>w_outs := op_clear ops (w_outs w), w_stack := []\<rparr>"

text \<open>\<open>basic_obstream::sub\<close>: a new dynamic stream with a part of the bytes; \<open>write_bytes\<close> takes the count as \<open>int\<close>.\<close>

definition obs_sub :: "pv_env \<Rightarrow> byte list \<Rightarrow> nat \<Rightarrow> nat \<Rightarrow> sbyte_buffer result" where
  "obs_sub env content offset count =
     andthen (pv_reserve env pv_empty 128) (\<lambda>obs.
       let n = length content
       in if offset < n
          then let count = (if count > n - offset then n - offset else count)
               in db_write_bytes env (drop offset content) (to_int32 (int count)) obs
          else Inr obs)"


section \<open>The contract of an output buffer\<close>

text \<open>
  \<open>holds s bs\<close>: the bytes written so far are \<open>bs\<close>; \<open>cap s\<close>: how many bytes the buffer can
  hold, which no operation changes.
\<close>

locale output_buffer =
  fixes ops :: "'s buffer_ops"
    and holds :: "'s \<Rightarrow> byte list \<Rightarrow> bool"
    and cap :: "'s \<Rightarrow> nat"
  assumes cap_less: "cap s < 2 ^ 64"
    and length_holds: "holds s bs \<Longrightarrow> op_length ops s = length bs"
    and write_byte: "holds s bs \<Longrightarrow> length bs < cap s \<Longrightarrow>
      \<exists>s'. op_write_byte ops b s = Inr s' \<and> holds s' (bs @ [b]) \<and> cap s' = cap s"
    and write_bytes: "holds s bs \<Longrightarrow> 0 \<le> n \<Longrightarrow> nat n \<le> length d \<Longrightarrow> length bs + nat n \<le> cap s \<Longrightarrow>
      \<exists>s'. op_write_bytes ops d n s = Inr s' \<and> holds s' (bs @ take (nat n) d) \<and> cap s' = cap s"
    and fill: "holds s bs \<Longrightarrow> length bs + count \<le> cap s \<Longrightarrow>
      \<exists>s'. op_fill_bytes ops count val s = Inr s' \<and> holds s' (bs @ replicate count val) \<and> cap s' = cap s"
    and poke: "holds s bs \<Longrightarrow> offset + length d \<le> length bs \<Longrightarrow>
      \<exists>s'. op_poke ops offset d s = Inr s' \<and> holds s' (splice offset d bs) \<and> cap s' = cap s"
    and clear: "holds s bs \<Longrightarrow> holds (op_clear ops s) [] \<and> cap (op_clear ops s) = cap s"

text \<open>A buffer whose positional write changes nothing but the bytes at the position.\<close>

locale positional_buffer = output_buffer +
  assumes write_bytes_at: "holds s bs \<Longrightarrow> 0 \<le> n \<Longrightarrow> nat n \<le> length d \<Longrightarrow> offset + nat n \<le> length bs \<Longrightarrow>
      \<exists>s'. op_write_bytes_at ops offset d n s = Inr s' \<and> holds s' (splice offset (take (nat n) d) bs) \<and> cap s' = cap s"

definition fb_holds :: "fixed_buffer_span \<Rightarrow> byte list \<Rightarrow> bool" where
  "fb_holds s bs \<longleftrightarrow> fb_pos s \<le> length (fb_mem s) \<and> take (fb_pos s) (fb_mem s) = bs"

definition fb_cap :: "fixed_buffer_span \<Rightarrow> nat" where
  "fb_cap s = (if length (fb_mem s) < 2 ^ 64 then length (fb_mem s) else 0)"

lemma fb_holds_length: "fb_holds s bs \<Longrightarrow> fb_pos s = length bs"
  by (auto simp: fb_holds_def)

lemma fb_write_byte_holds:
  assumes "fb_holds s bs" "length bs < fb_cap s"
  shows "\<exists>s'. fb_write_byte b s = Inr s' \<and> fb_holds s' (bs @ [b]) \<and> fb_cap s' = fb_cap s"
proof -
  have "fb_pos s < length (fb_mem s)" using assms fb_holds_length [OF assms(1)]
    by (simp add: fb_cap_def split: if_splits)
  then show ?thesis using assms
    by (auto simp: fb_write_byte_def fb_max_size_def fb_holds_def fb_cap_def take_Suc_conv_app_nth)
qed

lemma fb_write_bytes_at_ok:
  assumes "fb_holds s bs" "0 \<le> n" "nat n \<le> length d" "offset + nat n \<le> fb_cap s"
  shows "fb_write_bytes_at offset d n s =
    Inr (s\<lparr>fb_mem := splice offset (take (nat n) d) (fb_mem s), fb_pos := size_add (fb_pos s) (nat n)\<rparr>)"
proof -
  have "int_to_size n = nat n" using assms(2,4)
    by (simp add: int_to_size_def fb_cap_def nat_mod_distrib split: if_splits)
  then show ?thesis using assms
    by (simp add: fb_write_bytes_at_def Let_def fb_max_size_def fb_cap_def split: if_splits)
qed

lemma fb_write_bytes_holds:
  assumes "fb_holds s bs" "0 \<le> n" "nat n \<le> length d" "length bs + nat n \<le> fb_cap s"
  shows "\<exists>s'. fb_write_bytes d n s = Inr s' \<and> fb_holds s' (bs @ take (nat n) d) \<and> fb_cap s' = fb_cap s"
proof (cases "n = 0")
  case False
  have "length bs + nat n < 2 ^ 64" "length bs + nat n \<le> length (fb_mem s)"
    using assms(4) by (auto simp: fb_cap_def split: if_splits)
  with False assms fb_write_bytes_at_ok [of s bs n d "length bs"] fb_holds_length [OF assms(1)]
  show ?thesis by (auto simp: fb_write_bytes_def fb_holds_def fb_cap_def)
qed (use assms in \<open>simp add: fb_write_bytes_def\<close>)

lemma fb_fill_bytes_holds:
  assumes "fb_holds s bs" "length bs + count \<le> fb_cap s"
  shows "\<exists>s'. fb_fill_bytes count val s = Inr s' \<and> fb_holds s' (bs @ replicate count val) \<and> fb_cap s' = fb_cap s"
proof -
  have "length bs + count < 2 ^ 64" "length bs + count \<le> length (fb_mem s)"
    using assms(2) by (auto simp: fb_cap_def split: if_splits)
  with assms fb_holds_length [OF assms(1)] show ?thesis
    by (auto simp: fb_fill_bytes_def fb_max_size_def fb_holds_def fb_cap_def add.commute)
qed

lemma fb_poke_holds:
  assumes "fb_holds s bs" "offset + length d \<le> length bs"
  shows "\<exists>s'. fb_poke offset d s = Inr s' \<and> fb_holds s' (splice offset d bs) \<and> fb_cap s' = fb_cap s"
  using assms fb_holds_length [OF assms(1)]
  by (auto simp: fb_poke_def fb_max_size_def fb_holds_def fb_cap_def take_splice)

interpretation fixed: output_buffer fixed_ops fb_holds fb_cap
proof
  show "fb_cap s < 2 ^ 64" for s by (simp add: fb_cap_def)
qed (simp_all add: fixed_ops_def fb_write_byte_holds fb_write_bytes_holds fb_fill_bytes_holds fb_poke_holds
      fb_holds_length, simp_all add: fb_holds_def fb_cap_def)

definition db_holds :: "pv_env \<Rightarrow> sbyte_buffer \<Rightarrow> byte list \<Rightarrow> bool" where
  "db_holds env s bs \<longleftrightarrow> heap_available env \<and> pv_ok env s \<and> pv_elems s = map Some bs"

lemma db_holds_length: "db_holds env s bs \<Longrightarrow> pv_size s = length bs"
  by (metis db_holds_def length_map length_pv_elems)

lemma db_yields: "succeeds r \<Longrightarrow> (\<And>v'. r = Inr v' \<Longrightarrow> yields env v' (map Some es)) \<Longrightarrow> heap_available env \<Longrightarrow>
    \<exists>v'. r = Inr v' \<and> db_holds env v' es"
  using yields_exI [of r env] by (auto simp: db_holds_def yields_def)

lemma db_write_byte_holds:
  assumes "db_holds env s bs" "length bs < max_size env"
  shows "\<exists>s'. pv_emplace_back env s b = Inr s' \<and> db_holds env s' (bs @ [b])"
  using assms db_holds_length [OF assms(1)] emplace_back_Inr [of env s b] emplace_back_succeeds [of env s b]
  by (intro db_yields) (auto simp: db_holds_def)

lemma db_insert_end_holds:
  assumes "db_holds env s bs" "length bs + length d \<le> max_size env"
  shows "\<exists>s'. pv_insert env s (pv_size s) d = Inr s' \<and> db_holds env s' (bs @ d)"
  using assms db_holds_length [OF assms(1)] insert_Inr [of env s d "pv_size s"] insert_succeeds [of env s d "pv_size s"]
  by (intro db_yields) (auto simp: db_holds_def)

lemma db_fill_holds:
  assumes "db_holds env s bs" "length bs + count \<le> max_size env"
  shows "\<exists>s'. pv_insert_fill env s (pv_size s) count val = Inr s' \<and> db_holds env s' (bs @ replicate count val)"
  using assms db_holds_length [OF assms(1)] insert_fill_Inr [of env s count "pv_size s" val]
    insert_fill_succeeds [of env s count "pv_size s" val]
  by (intro db_yields) (auto simp: db_holds_def)

lemma splice_map: "splice k (map f d) (map f m) = map f (splice k d m)"
  by (simp add: splice_def take_map drop_map)

lemma db_store_holds:
  assumes "db_holds env s bs" "offset + length d \<le> length bs"
  shows "\<exists>s'. store s offset (map Some d) = Inr s' \<and> db_holds env s' (splice offset d bs)"
proof -
  have sz: "pv_size s = length bs" "pv_ok env s" "take (length bs) (pv_block s) = map Some bs"
    using assms(1) db_holds_length [OF assms(1)] by (auto simp: db_holds_def pv_elems_def)
  then have le: "length bs \<le> length (pv_block s)" by (simp add: pv_ok_def)
  with assms(2) have "succeeds (store s offset (map Some d))" by simp
  from succeedsD [OF this] obtain s' where s': "store s offset (map Some d) = Inr s'" by blast
  with store_Inr [OF s'] store_ok [OF sz(2) s'] le sz(1,3) assms
  show ?thesis by (auto simp: db_holds_def pv_elems_def take_splice splice_map)
qed

lemma dynamic_buffer: "positional_buffer (dynamic_ops env) (db_holds env) (\<lambda>_. max_size env)"
proof
  fix s bs n and d :: "byte list" and offset :: nat
  assume "db_holds env s bs" "0 \<le> n" "nat n \<le> length d" "length bs + nat n \<le> max_size env"
  then show "\<exists>s'. op_write_bytes (dynamic_ops env) d n s = Inr s' \<and> db_holds env s' (bs @ take (nat n) d) \<and>
      max_size env = max_size env"
    using db_insert_end_holds [of env s bs "take (nat n) d"]
    by (cases "n = 0") (auto simp: dynamic_ops_def db_write_bytes_def)
next
  fix s bs n and d :: "byte list" and offset :: nat
  assume *: "db_holds env s bs" "0 \<le> n" "nat n \<le> length d" "offset + nat n \<le> length bs"
  have "length bs \<le> max_size env" using *(1) db_holds_length [OF *(1)] by (simp add: db_holds_def pv_ok_def)
  then have "offset + nat n < 2 ^ 64" using *(4) max_size_less [of env] by linarith
  then have "int_to_size n = nat n" "size_add offset (nat n) = offset + nat n"
    using *(2) by (auto simp: int_to_size_def nat_mod_distrib)
  with * db_store_holds [of env s bs offset "take (nat n) d"] db_holds_length [OF *(1)]
  show "\<exists>s'. op_write_bytes_at (dynamic_ops env) offset d n s = Inr s' \<and>
      db_holds env s' (splice offset (take (nat n) d) bs) \<and> max_size env = max_size env"
    by (auto simp: dynamic_ops_def db_write_bytes_at_def Let_def)
next
  fix s bs count val
  assume "db_holds env s bs" "length bs + count \<le> max_size env"
  from db_fill_holds [OF this]
  show "\<exists>s'. op_fill_bytes (dynamic_ops env) count val s = Inr s' \<and> db_holds env s' (bs @ replicate count val) \<and>
      max_size env = max_size env"
    by (simp add: dynamic_ops_def)
next
  show "max_size env < 2 ^ 64" by (rule max_size_less)
qed (simp_all add: dynamic_ops_def db_poke_def db_holds_length db_write_byte_holds
      db_store_holds pv_clear_def, auto simp: db_holds_def pv_ok_def pv_elems_def)

interpretation dynamic: positional_buffer "dynamic_ops env" "db_holds env" "\<lambda>_. max_size env" for env
  by (rule dynamic_buffer)

section \<open>What the writer's operations put into a buffer\<close>

text \<open>\<open>emits holds cap f d\<close>: with room for them, \<open>f\<close> appends exactly the bytes \<open>d\<close>.\<close>

definition emits :: "('s \<Rightarrow> byte list \<Rightarrow> bool) \<Rightarrow> ('s \<Rightarrow> nat) \<Rightarrow> ('s \<Rightarrow> 's result) \<Rightarrow> byte list \<Rightarrow> bool" where
  "emits holds cap f d \<longleftrightarrow> (\<forall>s bs. holds s bs \<and> length bs + length d \<le> cap s \<longrightarrow>
     (\<exists>s'. f s = Inr s' \<and> holds s' (bs @ d) \<and> cap s' = cap s))"

lemma emitsI: "(\<And>s bs. holds s bs \<Longrightarrow> length bs + length d \<le> cap s \<Longrightarrow>
    \<exists>s'. f s = Inr s' \<and> holds s' (bs @ d) \<and> cap s' = cap s) \<Longrightarrow> emits holds cap f d"
  by (simp add: emits_def)

lemma emitsD: "emits holds cap f d \<Longrightarrow> holds s bs \<Longrightarrow> length bs + length d \<le> cap s \<Longrightarrow>
    \<exists>s'. f s = Inr s' \<and> holds s' (bs @ d) \<and> cap s' = cap s"
  by (simp add: emits_def)

lemma emits_andthen:
  assumes "emits holds cap f d" "emits holds cap g e"
  shows "emits holds cap (\<lambda>s. andthen (f s) g) (d @ e)"
proof (rule emitsI)
  fix s bs assume s: "holds s bs" "length bs + length (d @ e) \<le> cap s"
  then obtain s1 where s1: "f s = Inr s1" "holds s1 (bs @ d)" "cap s1 = cap s"
    using emitsD [OF assms(1)] by fastforce
  then show "\<exists>s'. andthen (f s) g = Inr s' \<and> holds s' (bs @ d @ e) \<and> cap s' = cap s"
    using emitsD [OF assms(2) s1(2)] s(2) by auto
qed

text \<open>The bytes of each encoding.\<close>

function encode_ix :: "'a::len word \<Rightarrow> byte list" where
  "encode_ix v = (if 0x80 \<le> unat v then (ucast v OR 0x80) # encode_ix (drop_bit 7 v) else [ucast v])"
  by pat_completeness auto
termination
  by (relation "measure unat") (auto intro: unat_drop_bit_less)

declare encode_ix.simps [simp del]

definition encode_int :: "convert_tag \<Rightarrow> 'a::len word \<Rightarrow> byte list" where
  "encode_int tag v = le_bytes (nbytes v) (ct_to tag v)"

definition encode_v :: "byte list \<Rightarrow> byte list" where
  "encode_v d = encode_ix (of_nat (length d) :: 32 word) @ d"

definition encode_v_fx :: "convert_tag \<Rightarrow> 'l::len word itself \<Rightarrow> byte list \<Rightarrow> byte list" where
  "encode_v_fx tag lent d = encode_int tag (of_nat (length d) :: 'l word) @ d"

lemma length_encode_int [simp]: "length (encode_int tag v) = nbytes v"
  by (simp add: encode_int_def)

lemma nbytes_eq [simp]: "nbytes (v :: 'a::len word) = LENGTH('a) div 8"
  by (simp add: nbytes_def)

context output_buffer begin

lemma emits_byte: "emits holds cap (op_write_byte ops b) [b]"
  by (rule emitsI) (use write_byte in simp)

lemma emits_bytes: "0 \<le> n \<Longrightarrow> nat n \<le> length d \<Longrightarrow> emits holds cap (op_write_bytes ops d n) (take (nat n) d)"
  by (rule emitsI) (use write_bytes in simp)

lemma emits_write_num: "emits holds cap (write_num ops tag v) (encode_int tag v)"
  unfolding write_num_def Let_def encode_int_def
  using emits_bytes [of "int (nbytes v)" "le_bytes (nbytes v) (ct_to tag v)"] by simp

lemma emits_ix: "emits holds cap (write_ix_impl ops v) (encode_ix (v :: 'a::len word))"
proof (induction v rule: encode_ix.induct)
  case (1 v)
  show ?case
  proof (cases "0x80 \<le> unat v")
    case True
    have "(ucast (ucast v OR 0x80 :: 32 word) :: byte) = ucast v OR 0x80"
    proof (rule bit_word_eqI)
      fix k assume "k < LENGTH(8)"
      then show "bit (ucast (ucast v OR 0x80 :: 32 word) :: byte) k = bit (ucast v OR 0x80 :: byte) k"
        by (auto simp: bit_simps)
    qed
    then show ?thesis
      using True emits_andthen [OF emits_byte 1 [OF True], of "ucast v OR 0x80"]
      by (simp add: write_ix_impl.simps [of ops v, abs_def] encode_ix.simps [of v] cong: if_cong)
  next
    case False
    then show ?thesis using emits_byte [of "ucast v"]
      by (simp add: write_ix_impl.simps [of ops v, abs_def] encode_ix.simps [of v])
  qed
qed

lemma emits_v:
  assumes "length d < 2 ^ 31"
  shows "emits holds cap (write_v ops d) (encode_v d)"
proof -
  have "to_int32 (int (length d)) = int (length d)" using assms by simp
  then show ?thesis
    using emits_andthen [OF emits_ix [of "of_nat (length d) :: 32 word"] emits_bytes [of "int (length d)" d]]
    by (simp add: write_v_def [abs_def] write_ix32_def encode_v_def)
qed

lemma emits_Nil: "emits holds cap Inr []"
  by (rule emitsI) simp

lemma emits_v_fx:
  assumes "length d < 2 ^ 31"
  shows "emits holds cap (write_v_fx ops tag TYPE('l::len word) d) (encode_v_fx tag TYPE('l word) d)"
proof -
  have "to_int32 (int (length d)) = int (length d)" using assms by simp
  moreover have "emits holds cap (\<lambda>s. if int (length d) \<noteq> 0 then op_write_bytes ops d (int (length d)) s else Inr s) d"
    using emits_bytes [of "int (length d)" d] emits_Nil by (cases "d = []") simp_all
  ultimately show ?thesis
    using emits_andthen [OF emits_write_num [of tag "of_nat (length d) :: 'l word"]]
    by (simp add: write_v_fx_def [abs_def] encode_v_fx_def Let_def cong: if_cong)
qed

lemma emits_fill: "n < 2 ^ 64 \<Longrightarrow> emits holds cap (fill_bytes ops (int n) val) (replicate n val)"
  by (rule emitsI) (use fill in \<open>simp add: fill_bytes_def\<close>)

lemma pwrite_ok:
  assumes "holds s bs" "offset + nbytes v \<le> length bs"
  shows "\<exists>s'. pwrite ops tag offset v s = Inr s' \<and> holds s' (splice offset (encode_int tag v) bs) \<and> cap s' = cap s"
  using poke [OF assms(1), of offset "encode_int tag v"] assms(2)
  by (simp add: pwrite_def Let_def encode_int_def)

text \<open>A body between \<open>push\<close> and \<open>pop\<close> ends up behind a field that holds its length.\<close>

lemma framed:
  fixes lent :: "'l::len word itself"
  assumes body: "emits holds cap body d"
  shows "emits holds cap (\<lambda>s. andthen (push ops lent s) (\<lambda>(where', s). andthen (body s) (pop ops tag lent where')))
    (encode_int tag (of_nat (length d) :: 'l word) @ d)"
proof (rule emitsI)
  let ?n = "LENGTH('l) div 8" and ?L = "encode_int tag (of_nat (length d) :: 'l word)"
  fix s bs assume s: "holds s bs" "length bs + length (?L @ d) \<le> cap s"
  have n: "?n < 2 ^ 64" using s(2) cap_less [of s] by simp
  obtain s1 where s1: "fill_bytes ops (int ?n) 0 s = Inr s1" "holds s1 (bs @ replicate ?n 0)" "cap s1 = cap s"
    using emitsD [OF emits_fill [OF n, of 0] s(1)] s(2) by auto
  obtain s2 where s2: "body s1 = Inr s2" "holds s2 ((bs @ replicate ?n 0) @ d)" "cap s2 = cap s"
    using emitsD [OF body s1(2)] s(2) s1(3) by auto
  obtain s3 where s3: "pwrite ops tag (length bs) (of_nat (length d) :: 'l word) s2 = Inr s3"
      "holds s3 (splice (length bs) ?L ((bs @ replicate ?n 0) @ d))" "cap s3 = cap s2"
    using pwrite_ok [OF s2(2), of "length bs" "of_nat (length d) :: 'l word" tag] by auto
  have "splice (length bs) ?L ((bs @ replicate ?n 0) @ d) = bs @ ?L @ d" by (simp add: splice_def)
  then show "\<exists>s'. andthen (push ops lent s) (\<lambda>(where', s). andthen (body s) (pop ops tag lent where')) = Inr s' \<and>
      holds s' (bs @ ?L @ d) \<and> cap s' = cap s"
    using s1 s2 s3 length_holds [OF s(1)] length_holds [OF s2(2)] by (simp add: push_def pop_def)
qed

end

lemma fixed_ops_simps [simp]:
  "op_write_byte fixed_ops = fb_write_byte" "op_write_bytes fixed_ops = fb_write_bytes"
  "op_write_bytes_at fixed_ops = fb_write_bytes_at" "op_fill_bytes fixed_ops = fb_fill_bytes"
  "op_poke fixed_ops = fb_poke" "op_length fixed_ops = fb_pos"
  by (simp_all add: fixed_ops_def)

lemma length_encode_ix_pos: "encode_ix v \<noteq> []"
  by (subst encode_ix.simps) simp

text \<open>The sized variants of the built-in stack, on a buffer whose positional write is faithful.\<close>

definition encode_sized :: "convert_tag \<Rightarrow> nat \<Rightarrow> 32 word \<Rightarrow> byte list" where
  "encode_sized tag n v = take n (le_bytes 4 (ct_toint tag v n))"

lemma length_encode_sized [simp]: "n \<le> 4 \<Longrightarrow> length (encode_sized tag n v) = n"
  by (simp add: encode_sized_def)

definition sized_frame :: "'s buffer_ops \<Rightarrow> convert_tag \<Rightarrow> nat \<Rightarrow> byte list \<Rightarrow> 's writer \<Rightarrow> 's writer result" where
  "sized_frame ops tag n d w =
     andthen (push_sized ops (int n) w) (\<lambda>w. andthen (on_outs (write_bytes_sv ops d) w) (pop_sized ops tag (int n)))"

context output_buffer begin

lemma emits_sv: "length d < 2 ^ 31 \<Longrightarrow> emits holds cap (write_bytes_sv ops d) d"
  using emits_bytes [of "int (length d)" d] by (simp add: write_bytes_sv_def [abs_def])

lemma sized_frame_body:
  assumes s: "holds (w_outs w) bs" "length bs + (n + length d) \<le> cap (w_outs w)"
    and n: "1 \<le> n" "n \<le> 4" and d: "length d < 2 ^ 31"
  obtains s2 where "holds s2 (bs @ replicate n 0 @ d)" "cap s2 = cap (w_outs w)"
    "sized_frame ops tag n d w = pop_sized ops tag (int n) (w\<lparr>w_stack := length bs # w_stack w, w_outs := s2\<rparr>)"
proof -
  obtain s1 where s1: "fill_bytes ops (int n) 0 (w_outs w) = Inr s1" "holds s1 (bs @ replicate n 0)" "cap s1 = cap (w_outs w)"
    using emitsD [OF emits_fill [of n 0] s(1)] s(2) n by auto
  obtain s2 where s2: "write_bytes_sv ops d s1 = Inr s2" "holds s2 ((bs @ replicate n 0) @ d)" "cap s2 = cap (w_outs w)"
    using emitsD [OF emits_sv [OF d] s1(2)] s(2) s1(3) by auto
  show thesis
    by (rule that [of s2]) (use s1 s2 n length_holds [OF s(1)] in
      \<open>simp_all add: sized_frame_def push_sized_def on_outs_def Let_def clamp_def\<close>)
qed

end

context positional_buffer begin

lemma sized_frame_ok:
  assumes s: "holds (w_outs w) bs" "length bs + (n + length d) \<le> cap (w_outs w)"
    and n: "1 \<le> n" "n \<le> 4" and d: "length d < 2 ^ 31"
  shows "\<exists>s'. sized_frame ops tag n d w = Inr (w\<lparr>w_outs := s'\<rparr>) \<and>
    holds s' (bs @ encode_sized tag n (of_nat (length d)) @ d)"
proof -
  obtain s2 where s2: "holds s2 (bs @ replicate n 0 @ d)" "cap s2 = cap (w_outs w)"
    and eq: "sized_frame ops tag n d w = pop_sized ops tag (int n) (w\<lparr>w_stack := length bs # w_stack w, w_outs := s2\<rparr>)"
    by (rule sized_frame_body [OF assms])
  obtain s3 where "op_write_bytes_at ops (length bs) (le_bytes 4 (ct_toint tag (of_nat (length d)) n)) (int n) s2 = Inr s3"
    "holds s3 (splice (length bs) (encode_sized tag n (of_nat (length d))) (bs @ replicate n 0 @ d))"
    using write_bytes_at [OF s2(1), of "int n" "le_bytes 4 (ct_toint tag (of_nat (length d)) n)" "length bs"] n
    by (auto simp: encode_sized_def)
  moreover have "splice (length bs) (encode_sized tag n (of_nat (length d))) (bs @ replicate n 0 @ d) =
      bs @ encode_sized tag n (of_nat (length d)) @ d"
    using n by (simp add: splice_def)
  ultimately show ?thesis
    using n length_holds [OF s2(1)] by (auto simp: eq pop_sized_def pop_sized_value_def on_outs_def Let_def clamp_def)
qed

end

section \<open>Properties\<close>



lemma fb_write_byte_take:
  assumes "fb_holds s bs" "length (fb_mem s) < 2 ^ 64"
  shows "\<exists>s'. fb_write_byte b s = Inr s' \<and> fb_holds s' (take (length (fb_mem s)) (bs @ [b])) \<and>
    length (fb_mem s') = length (fb_mem s)"
proof (cases "length bs < fb_cap s")
  case True
  from fb_write_byte_holds [OF assms(1) this, of b] show ?thesis using assms True
    by (auto simp: fb_write_byte_def fb_max_size_def fb_cap_def)
next
  case False
  with assms have "length bs = length (fb_mem s)" "fb_pos s = length (fb_mem s)"
    by (auto simp: fb_cap_def fb_holds_def)
  then show ?thesis using assms by (simp add: fb_write_byte_def fb_max_size_def)
qed

text \<open>
  On a fixed buffer a 7-bit encoded integer that does not fit is cut off in silence:
  \<open>write_byte\<close> drops what has no room, so \<open>write_ix\<close> always returns normally and leaves the
  longest prefix of the encoding that fits.
\<close>

theorem fixed_write_ix_cuts_off:
  assumes "fb_holds s bs" "length (fb_mem s) < 2 ^ 64"
  shows "\<exists>s'. write_ix_impl fixed_ops v s = Inr s' \<and>
    fb_holds s' (take (length (fb_mem s)) (bs @ encode_ix v)) \<and> length (fb_mem s') = length (fb_mem s)"
  using assms
proof (induction v arbitrary: s bs rule: encode_ix.induct)
  case (1 v)
  show ?case
  proof (cases "0x80 \<le> unat v")
    case True
    have b: "(ucast (ucast v OR 0x80 :: 32 word) :: byte) = ucast v OR 0x80"
      by (rule bit_word_eqI) (auto simp: bit_simps)
    obtain s1 where s1: "fb_write_byte (ucast v OR 0x80) s = Inr s1"
        "fb_holds s1 (take (length (fb_mem s)) (bs @ [ucast v OR 0x80]))" "length (fb_mem s1) = length (fb_mem s)"
      using fb_write_byte_take [OF 1(2,3)] by blast
    have tk: "take n (take n xs @ ys) = take n (xs @ ys)" for n and xs ys :: "byte list"
      by (simp add: min_def)
    obtain s2 where s2: "write_ix_impl fixed_ops (drop_bit 7 v) s1 = Inr s2"
        "fb_holds s2 (take (length (fb_mem s)) (bs @ (ucast v OR 0x80) # encode_ix (drop_bit 7 v)))"
        "length (fb_mem s2) = length (fb_mem s)"
      using 1(1) [OF True s1(2)] 1(3) s1(3) by (auto simp: tk simp del: take_append)
    show ?thesis
      unfolding write_ix_impl.simps [of _ v] encode_ix.simps [of v] using True s1(1) s2 by (simp add: b)
  next
    case False
    then show ?thesis using fb_write_byte_take [OF 1(2,3), of "ucast v"]
      by (subst write_ix_impl.simps, subst encode_ix.simps) auto
  qed
qed

theorem fixed_write_ix_cuts_off_witness:
  "\<exists>s'. write_ix_impl fixed_ops (0x4000 :: 32 word) \<lparr>fb_mem = [0, 0], fb_pos = 0\<rparr> = Inr s' \<and> fb_holds s' [0x80, 0x80]"
  using fixed_write_ix_cuts_off [of "\<lparr>fb_mem = [0, 0], fb_pos = 0\<rparr>" "[]" "0x4000 :: 32 word"]
  by (auto simp: fb_holds_def encode_ix.simps)

text \<open>
  \<open>push(n)\<close> and \<open>pop(n)\<close> of the built-in stack frame a body on a growing buffer, but not on
  a fixed one: the positional \<open>write_bytes\<close> of \<open>fixed_buffer_span\<close> also advances the write
  position, so that after \<open>pop(n)\<close> the stream is \<open>n\<close> bytes longer than what was written.
\<close>

theorem sized_frame_dynamic_and_fixed:
  assumes n: "1 \<le> n" "n \<le> 4" and d: "length d < 2 ^ 31"
    and w: "db_holds env (w_outs w) bs" "length bs + (n + length d) \<le> max_size env"
    and u: "fb_holds (w_outs u) cs" "length cs + (n + length d) \<le> fb_cap (w_outs u)"
  shows "(\<exists>s'. sized_frame (dynamic_ops env) tag n d w = Inr (w\<lparr>w_outs := s'\<rparr>) \<and>
      pv_elems s' = map Some (bs @ encode_sized tag n (of_nat (length d)) @ d)) \<and>
    (\<exists>s'. sized_frame fixed_ops tag n d u = Inr (u\<lparr>w_outs := s'\<rparr>) \<and>
      op_length fixed_ops s' = size_add (length cs + (n + length d)) n)"
proof
  show "\<exists>s'. sized_frame (dynamic_ops env) tag n d w = Inr (w\<lparr>w_outs := s'\<rparr>) \<and>
      pv_elems s' = map Some (bs @ encode_sized tag n (of_nat (length d)) @ d)"
    using dynamic.sized_frame_ok [OF w n d, of tag] by (auto simp: db_holds_def)
  obtain s2 where s2: "fb_holds s2 (cs @ replicate n 0 @ d)" "fb_cap s2 = fb_cap (w_outs u)"
    and eq: "sized_frame fixed_ops tag n d u = pop_sized fixed_ops tag (int n) (u\<lparr>w_stack := length cs # w_stack u, w_outs := s2\<rparr>)"
    by (rule fixed.sized_frame_body [OF u n d])
  show "\<exists>s'. sized_frame fixed_ops tag n d u = Inr (u\<lparr>w_outs := s'\<rparr>) \<and>
      op_length fixed_ops s' = size_add (length cs + (n + length d)) n"
    using n u(2) s2(2) fb_write_bytes_at_ok [OF s2(1), of "int n" _ "length cs"] fb_holds_length [OF s2(1)]
    by (auto simp: eq pop_sized_def pop_sized_value_def on_outs_def Let_def clamp_def intro!: exI)
qed

theorem sized_frame_dynamic_and_fixed_witness:
  "\<exists>s'. sized_frame fixed_ops network_convert_tag 2 [7] \<lparr>w_outs = \<lparr>fb_mem = replicate 8 0, fb_pos = 0\<rparr>, w_stack = []\<rparr>
      = Inr \<lparr>w_outs = s', w_stack = []\<rparr> \<and> op_length fixed_ops s' = 5"
  using sized_frame_dynamic_and_fixed [of 2 "[7]" byte_env "\<lparr>w_outs = pv_empty, w_stack = []\<rparr>" "[]"
      "\<lparr>w_outs = \<lparr>fb_mem = replicate 8 0, fb_pos = 0\<rparr>, w_stack = []\<rparr>" "[]" network_convert_tag]
  by (simp add: db_holds_def fb_holds_def fb_cap_def)

end
