(* ===== verification/IbStream.thy ===== *)
theory IbStream
  imports ObStream
begin

text \<open>
  The binary reader (\<open>yasio/ibstream.hpp\<close>): a position in a byte range.  Every read goes
  through \<open>consume\<close>, which throws \<open>std::out_of_range\<close> when the range has too few bytes.  The
  round trips with the writer are stated with \<open>parses\<close>: the reader consumes exactly the bytes
  the writer emitted and returns what was written, wherever they stand in the range.
\<close>

section \<open>State\<close>

record reader =
  rd_data :: "byte list"  \<comment> \<open>the memory \<open>first_\<close> points to\<close>
  rd_last :: nat          \<comment> \<open>\<open>last_ - first_\<close>\<close>
  rd_ptr :: int           \<comment> \<open>\<open>ptr_ - first_\<close>\<close>

definition reset :: "byte list \<Rightarrow> nat \<Rightarrow> reader" where
  "reset d n = \<lparr>rd_data = d, rd_last = n, rd_ptr = 0\<rparr>"

definition reader_of_writer :: "byte list \<Rightarrow> int \<Rightarrow> reader" where
  "reader_of_writer content offset = (let r = reset content (length content) in r\<lparr>rd_ptr := rd_ptr r + offset\<rparr>)"

text \<open>\<open>consume\<close>, with the bytes at the returned pointer.\<close>

definition consume :: "nat \<Rightarrow> reader \<Rightarrow> (byte list \<times> reader) result" where
  "consume n r =
     (if rd_ptr r + int n \<le> int (rd_last r)
      then if 0 \<le> rd_ptr r \<and> rd_last r \<le> length (rd_data r)
           then Inr (take n (drop (nat (rd_ptr r)) (rd_data r)), r\<lparr>rd_ptr := rd_ptr r + int n\<rparr>)
           else Inl Undefined
      else Inl OutOfRange)"

section \<open>Integers\<close>

definition read_byte :: "reader \<Rightarrow> (byte \<times> reader) result" where
  "read_byte r = andthen (consume 1 r) (\<lambda>(bs, r). Inr (hd bs, r))"

text \<open>
  The first loop of \<open>read_ix_helper\<close>: \<open>left\<close> bytes that cannot overflow, each bringing seven
  bits.  It ends early with a value (\<open>Inl\<close>) or with the bits so far.
\<close>

fun read_ix_loop :: "nat \<Rightarrow> nat \<Rightarrow> 'a::len word \<Rightarrow> reader \<Rightarrow> (('a word + 'a word) \<times> reader) result" where
  "read_ix_loop 0 shift res r = Inr (Inr res, r)"
| "read_ix_loop (Suc left) shift res r =
     andthen (read_byte r) (\<lambda>(b, r).
       let res = res OR push_bit shift (ucast (b AND 0x7F))
       in if b \<le> 0x7F then Inr (Inl res, r) else read_ix_loop left (shift + 7) res r)"

definition read_ix32 :: "reader \<Rightarrow> (int \<times> reader) result" where
  "read_ix32 r =
     andthen (read_ix_loop 4 0 (0 :: 32 word) r) (\<lambda>(v, r).
       case v of
         Inl res \<Rightarrow> Inr (sint res, r)
       | Inr res \<Rightarrow>
           andthen (read_byte r) (\<lambda>(b, r).
             if b \<le> 0x0f then Inr (sint (res OR push_bit 28 (ucast b)), r) else Inl LogicError))"

definition read_ix64 :: "reader \<Rightarrow> (int \<times> reader) result" where
  "read_ix64 r =
     andthen (read_ix_loop 9 0 (0 :: 64 word) r) (\<lambda>(v, r).
       case v of
         Inl res \<Rightarrow> Inr (sint res, r)
       | Inr res \<Rightarrow>
           andthen (read_byte r) (\<lambda>(b, r).
             if b \<le> 1 then Inr (sint (res OR push_bit 63 (ucast b)), r) else Inl LogicError))"

definition read_varint :: "convert_tag \<Rightarrow> int \<Rightarrow> reader \<Rightarrow> (32 word \<times> reader) result" where
  "read_varint tag sz r =
     (let sz = clamp sz 1 4
      in andthen (consume (nat sz) r) (\<lambda>(bs, r). Inr (ct_fromint tag (le_word bs) (nat sz), r)))"

definition sread :: "convert_tag \<Rightarrow> byte list \<Rightarrow> 'a::len word" where
  "sread tag bs = ct_from tag (le_word (take (nbytes (0 :: 'a word)) bs))"

definition read_num :: "convert_tag \<Rightarrow> reader \<Rightarrow> ('a::len word \<times> reader) result" where
  "read_num tag r = andthen (consume (nbytes (0 :: 'a word)) r) (\<lambda>(bs, r). Inr (sread tag bs, r))"

section \<open>Blobs\<close>

text \<open>\<open>read_bytes(int)\<close>: a count that is not positive yields the empty view, without an error.\<close>

definition read_bytes :: "int \<Rightarrow> reader \<Rightarrow> (byte list \<times> reader) result" where
  "read_bytes len r = (if len > 0 then consume (nat len) r else Inr ([], r))"

text \<open>\<open>read_bytes(std::string&, int)\<close>: the argument keeps its value when the count is not positive.\<close>

definition read_bytes_into :: "byte list \<Rightarrow> int \<Rightarrow> reader \<Rightarrow> (byte list \<times> reader) result" where
  "read_bytes_into oav len r = (if len > 0 then consume (nat len) r else Inr (oav, r))"

definition read_v :: "reader \<Rightarrow> (byte list \<times> reader) result" where
  "read_v r = andthen (read_ix32 r) (\<lambda>(count, r). read_bytes count r)"

definition read_v_fx :: "convert_tag \<Rightarrow> 'l::len word itself \<Rightarrow> reader \<Rightarrow> (byte list \<times> reader) result" where
  "read_v_fx tag lent r =
     andthen (read_num tag r) (\<lambda>(n :: 'l word, r).
       if 0 < n then read_bytes (to_int32 (uint n)) r else Inr ([], r))"

definition read_v32 :: "convert_tag \<Rightarrow> reader \<Rightarrow> (byte list \<times> reader) result" where
  "read_v32 tag = read_v_fx tag TYPE(32 word)"

definition read_v16 :: "convert_tag \<Rightarrow> reader \<Rightarrow> (byte list \<times> reader) result" where
  "read_v16 tag = read_v_fx tag TYPE(16 word)"

definition read_v8 :: "convert_tag \<Rightarrow> reader \<Rightarrow> (byte list \<times> reader) result" where
  "read_v8 tag = read_v_fx tag TYPE(8 word)"

section \<open>Positioning\<close>

definition advance :: "int \<Rightarrow> reader \<Rightarrow> reader" where
  "advance offset r = r\<lparr>rd_ptr := rd_ptr r + offset\<rparr>"

definition advance_v :: "reader \<Rightarrow> reader result" where
  "advance_v r = andthen (read_ix32 r) (\<lambda>(n, r). Inr (advance n r))"

datatype whence = SEEK_SET | SEEK_CUR | SEEK_END | Unknown_whence

definition seek :: "int \<Rightarrow> whence \<Rightarrow> reader \<Rightarrow> int \<times> reader" where
  "seek offset wh r =
     (let p = (case wh of
          SEEK_CUR \<Rightarrow> (let p = rd_ptr r + offset
            in if p < 0 then 0 else if p > int (rd_last r) then int (rd_last r) else p)
        | SEEK_END \<Rightarrow> int (rd_last r) - offset
        | SEEK_SET \<Rightarrow> offset
        | Unknown_whence \<Rightarrow> rd_ptr r)
      in (p, r\<lparr>rd_ptr := p\<rparr>))"

definition range_view :: "nat \<Rightarrow> nat \<Rightarrow> reader \<Rightarrow> byte list" where
  "range_view start end' r =
     (if start \<le> end' \<and> end' \<le> rd_last r then take (end' - start) (drop start (rd_data r)) else [])"

definition eof :: "reader \<Rightarrow> bool" where
  "eof r \<longleftrightarrow> rd_ptr r = int (rd_last r)"

section \<open>Reading what was written\<close>

text \<open>A reader over \<open>pre @ post\<close> that has read \<open>pre\<close>.\<close>

definition reader_at :: "byte list \<Rightarrow> byte list \<Rightarrow> reader" where
  "reader_at pre post = \<lparr>rd_data = pre @ post, rd_last = length (pre @ post), rd_ptr = int (length pre)\<rparr>"

definition parses :: "(reader \<Rightarrow> ('a \<times> reader) result) \<Rightarrow> byte list \<Rightarrow> 'a \<Rightarrow> bool" where
  "parses f d x \<longleftrightarrow> (\<forall>pre post. f (reader_at pre (d @ post)) = Inr (x, reader_at (pre @ d) post))"

lemma parsesD: "parses f d x \<Longrightarrow> f (reader_at pre (d @ post)) = Inr (x, reader_at (pre @ d) post)"
  by (simp add: parses_def)

lemma consume_at [simp]: "length d = n \<Longrightarrow> consume n (reader_at pre (d @ post)) = Inr (d, reader_at (pre @ d) post)"
  by (auto simp: consume_def reader_at_def)

lemma parses_andthen:
  assumes "parses f d x" "parses (g x) e y"
  shows "parses (\<lambda>r. andthen (f r) (\<lambda>(a, r). g a r)) (d @ e) y"
  using assms by (simp add: parses_def)

lemma read_byte_at [simp]: "read_byte (reader_at pre (b # post)) = Inr (b, reader_at (pre @ [b]) post)"
  using consume_at [of "[b]" 1 pre post] by (simp add: read_byte_def)

text \<open>The bytes of the 7-bit encoding.\<close>

lemma byte_le_127: "(b :: byte) \<le> 0x7F \<longleftrightarrow> unat b < 0x80"
  by (auto simp: word_le_nat_alt)

lemma unat_drop_bit_div: "unat (drop_bit n v) = unat v div 2 ^ n"
  unfolding unat_drop_bit_eq by (rule drop_bit_eq_div)

lemma and_127: "(x :: 'a::len word) AND 0x7F = take_bit 7 x"
  by (simp add: take_bit_eq_mask mask_eq_exp_minus_1)

lemma byte_of_small:
  assumes "unat (v :: 'a::len word) < 0x80" "8 \<le> LENGTH('a)"
  shows "unat (ucast v :: byte) = unat v" "ucast ((ucast v :: byte) AND 0x7F) = v"
proof -
  have 7: "take_bit 7 v = v" using assms(1) by (intro take_bit_unat_less) simp
  show "unat (ucast v :: byte) = unat v" using assms(1) by (simp add: unsigned_ucast_eq take_bit_nat_eq_self)
  show "ucast ((ucast v :: byte) AND 0x7F) = v"
    by (subst (2) 7 [symmetric], rule bit_word_eqI) (auto simp: and_127 bit_simps)
qed

lemma byte_of_large:
  assumes "8 \<le> LENGTH('a)"
  shows "\<not> (ucast (v :: 'a::len word) OR 0x80 :: byte) \<le> 0x7F"
    "ucast ((ucast v OR 0x80 :: byte) AND 0x7F) = take_bit 7 v"
proof -
  have "bit (ucast v OR 0x80 :: byte) 7" by (simp add: bit_simps)
  then have "2 ^ 7 \<le> unat (ucast v OR 0x80 :: byte)"
    by (metis bit_iff_odd div_less even_zero linorder_not_le of_nat_0 take_bit_unat_less bit_take_bit_iff less_irrefl)
  then show "\<not> (ucast v OR 0x80 :: byte) \<le> 0x7F" by (simp add: byte_le_127)
  show "ucast ((ucast v OR 0x80 :: byte) AND 0x7F) = take_bit 7 v"
  proof (rule bit_word_eqI)
    fix k assume "k < LENGTH('a)"
    have "bit (0x80 :: byte) k \<longleftrightarrow> k = 7"
      using bit_push_bit_iff [of 7 "1 :: byte" k] by (auto simp: bit_simps)
    then show "bit (ucast ((ucast v OR 0x80 :: byte) AND 0x7F) :: 'a word) k = bit (take_bit 7 v) k"
      using \<open>k < LENGTH('a)\<close> assms by (auto simp: and_127 bit_simps)
  qed
qed

lemma split_take_bits:
  "push_bit s (take_bit n v) OR push_bit (s + n) (take_bit m (drop_bit n v)) = push_bit s (take_bit (n + m) (v :: 'a::len word))"
proof (rule bit_word_eqI)
  fix k assume "k < LENGTH('a)"
  show "bit (push_bit s (take_bit n v) OR push_bit (s + n) (take_bit m (drop_bit n v))) k =
      bit (push_bit s (take_bit (n + m) v)) k"
  proof (cases "s + n \<le> k")
    case True
    then obtain j where "k = s + n + j" using le_Suc_ex by blast
    then show ?thesis by (auto simp: bit_simps)
  next
    case False
    then show ?thesis by (auto simp: bit_simps)
  qed
qed

lemma split_bits: "push_bit s (take_bit n v) OR push_bit (s + n) (drop_bit n v) = push_bit s (v :: 'a::len word)"
  using split_take_bits [of s n v "LENGTH('a)"] by (simp add: take_bit_word_eq_self)

lemma encode_ix_small: "unat v < 0x80 \<Longrightarrow> encode_ix v = [ucast v]"
  by (simp add: encode_ix.simps)

lemma encode_ix_large: "0x80 \<le> unat v \<Longrightarrow> encode_ix v = (ucast v OR 0x80) # encode_ix (drop_bit 7 v)"
  by (simp add: encode_ix.simps [of v])

lemma rejoin_top_byte:
  assumes "unat (drop_bit n v) < 0x80" "8 \<le> LENGTH('a)"
  shows "take_bit n v OR push_bit n (ucast (ucast (drop_bit n v) :: byte)) = (v :: 'a::len word)"
proof -
  have "take_bit 8 (drop_bit n v) = drop_bit n v" using assms(1) by (intro take_bit_unat_less) simp
  moreover have "ucast (ucast (drop_bit n v) :: byte) = take_bit 8 (drop_bit n v)"
    by (rule bit_word_eqI) (auto simp: bit_simps)
  ultimately have "ucast (ucast (drop_bit n v) :: byte) = drop_bit n v" by metis
  then show ?thesis using split_bits [of 0 n v] by simp
qed

lemma read_ix_loop_short:
  assumes "8 \<le> LENGTH('a)" "unat (v :: 'a::len word) < 2 ^ (7 * left)" "0 < left"
  shows "read_ix_loop left shift res (reader_at pre (encode_ix v @ post)) =
    Inr (Inl (res OR push_bit shift v), reader_at (pre @ encode_ix v) post)"
  using assms(2,3)
proof (induction left arbitrary: shift res pre v)
  case (Suc left)
  show ?case
  proof (cases "unat v < 0x80")
    case True
    then show ?thesis using byte_of_small [OF True assms(1)]
      by (simp add: encode_ix_small byte_le_127 Let_def)
  next
    case False
    have "unat (drop_bit 7 v) < 2 ^ (7 * left)"
      using Suc.prems by (simp only: unat_drop_bit_div) (rule less_mult_imp_div_less, simp add: power_add)
    moreover have "0 < left" using Suc.prems False by (cases left) simp_all
    ultimately show ?thesis
      using False Suc.IH [of "drop_bit 7 v"] byte_of_large [OF assms(1), of v] split_bits [of shift 7 v]
      by (simp add: encode_ix_large Let_def or.assoc)
  qed
qed simp

lemma read_ix_loop_long:
  assumes "8 \<le> LENGTH('a)" "2 ^ (7 * left) \<le> unat (v :: 'a::len word)"
  shows "\<exists>d. encode_ix v = d @ encode_ix (drop_bit (7 * left) v) \<and> length d = left \<and>
    (\<forall>shift res pre post. read_ix_loop left shift res (reader_at pre (encode_ix v @ post)) =
      Inr (Inr (res OR push_bit shift (take_bit (7 * left) v)), reader_at (pre @ d) (encode_ix (drop_bit (7 * left) v) @ post)))"
  using assms(2)
proof (induction left arbitrary: v)
  case (Suc left)
  have big: "0x80 \<le> unat v"
    using power_increasing [of 7 "7 * Suc left" "2 :: nat"] Suc.prems by simp
  have "2 ^ (7 * left) \<le> unat (drop_bit 7 v)"
    using Suc.prems by (simp only: unat_drop_bit_div) (simp add: power_add less_eq_div_iff_mult_less_eq)
  from Suc.IH [OF this] obtain d where
    d: "encode_ix (drop_bit 7 v) = d @ encode_ix (drop_bit (7 * left) (drop_bit 7 v))" "length d = left"
    and loop: "\<And>shift res pre post. read_ix_loop left shift res (reader_at pre (encode_ix (drop_bit 7 v) @ post)) =
      Inr (Inr (res OR push_bit shift (take_bit (7 * left) (drop_bit 7 v))),
        reader_at (pre @ d) (encode_ix (drop_bit (7 * left) (drop_bit 7 v)) @ post))"
    by blast
  have dd: "drop_bit (7 * left) (drop_bit 7 v) = drop_bit (7 * Suc left) v" by (simp add: algebra_simps)
  show ?case
    using d loop byte_of_large [OF assms(1), of v] split_take_bits [of _ 7 v "7 * left"]
    by (intro exI [of _ "(ucast v OR 0x80) # d"])
      (simp add: encode_ix_large [OF big] Let_def or.assoc dd add.commute)
qed simp

lemma parses_ix32:
  assumes "- (2 ^ 31) \<le> i" "i < 2 ^ 31"
  shows "parses read_ix32 (encode_ix (word_of_int i :: 32 word)) i"
  unfolding parses_def
proof (intro allI)
  fix pre post
  let ?v = "word_of_int i :: 32 word"
  have i: "sint ?v = i" using assms by (simp only: signed_of_int) (simp add: signed_take_bit_int_eq_self)
  show "read_ix32 (reader_at pre (encode_ix ?v @ post)) = Inr (i, reader_at (pre @ encode_ix ?v) post)"
  proof (cases "unat ?v < 2 ^ 28")
    case True
    then show ?thesis using read_ix_loop_short [of ?v 4 0 0 pre post] by (simp add: read_ix32_def i)
  next
    case False
    then obtain d where d: "encode_ix ?v = d @ encode_ix (drop_bit 28 ?v)"
      and loop: "read_ix_loop 4 0 0 (reader_at pre (encode_ix ?v @ post)) =
        Inr (Inr (take_bit 28 ?v), reader_at (pre @ d) (encode_ix (drop_bit 28 ?v) @ post))"
      using read_ix_loop_long [of 4 ?v] by auto
    have top: "unat (drop_bit 28 ?v) < 16"
      by (simp only: unat_drop_bit_div) (rule less_mult_imp_div_less, rule order.strict_trans2 [OF unsigned_less], simp)
    then have b: "encode_ix (drop_bit 28 ?v) = [ucast (drop_bit 28 ?v)]" by (simp add: encode_ix_small)
    have le: "(ucast (drop_bit 28 ?v) :: byte) \<le> 0x0f"
      using top by (simp add: word_le_nat_alt byte_of_small)
    have "read_ix32 (reader_at pre (encode_ix ?v @ post)) =
      Inr (sint (take_bit 28 ?v OR push_bit 28 (ucast (ucast (drop_bit 28 ?v) :: byte))), reader_at ((pre @ d) @ [ucast (drop_bit 28 ?v)]) post)"
      unfolding read_ix32_def loop by (simp add: b le)
    with i top show ?thesis by (simp add: rejoin_top_byte d b)
  qed
qed

lemma parses_ix64:
  assumes "- (2 ^ 63) \<le> i" "i < 2 ^ 63"
  shows "parses read_ix64 (encode_ix (word_of_int i :: 64 word)) i"
  unfolding parses_def
proof (intro allI)
  fix pre post
  let ?v = "word_of_int i :: 64 word"
  have i: "sint ?v = i" using assms by (simp only: signed_of_int) (simp add: signed_take_bit_int_eq_self)
  show "read_ix64 (reader_at pre (encode_ix ?v @ post)) = Inr (i, reader_at (pre @ encode_ix ?v) post)"
  proof (cases "unat ?v < 2 ^ 63")
    case True
    then show ?thesis using read_ix_loop_short [of ?v 9 0 0 pre post] by (simp add: read_ix64_def i)
  next
    case False
    then obtain d where d: "encode_ix ?v = d @ encode_ix (drop_bit 63 ?v)"
      and loop: "read_ix_loop 9 0 0 (reader_at pre (encode_ix ?v @ post)) =
        Inr (Inr (take_bit 63 ?v), reader_at (pre @ d) (encode_ix (drop_bit 63 ?v) @ post))"
      using read_ix_loop_long [of 9 ?v] by auto
    have top: "unat (drop_bit 63 ?v) < 2"
      by (simp only: unat_drop_bit_div) (rule less_mult_imp_div_less, rule order.strict_trans2 [OF unsigned_less], simp)
    then have b: "encode_ix (drop_bit 63 ?v) = [ucast (drop_bit 63 ?v)]" by (simp add: encode_ix_small)
    have le: "(ucast (drop_bit 63 ?v) :: byte) \<le> 1"
      using top by (simp add: word_le_nat_alt byte_of_small)
    have "read_ix64 (reader_at pre (encode_ix ?v @ post)) =
      Inr (sint (take_bit 63 ?v OR push_bit 63 (ucast (ucast (drop_bit 63 ?v) :: byte))), reader_at ((pre @ d) @ [ucast (drop_bit 63 ?v)]) post)"
      unfolding read_ix64_def loop by (simp add: b le)
    with i top show ?thesis by (simp add: rejoin_top_byte d b)
  qed
qed

lemma parses_num:
  assumes "8 dvd LENGTH('a::len)"
  shows "parses (read_num tag) (encode_int tag (v :: 'a word)) v"
  using assms by (auto simp: parses_def read_num_def sread_def encode_int_def)

lemma parses_varint:
  assumes "1 \<le> n" "n \<le> 4"
  shows "parses (read_varint tag (int n)) (encode_sized tag n v) (take_bit (8 * n) v)"
  using assms ct_fromint_toint [OF assms(2), of tag v]
  by (simp add: parses_def read_varint_def Let_def clamp_def encode_sized_def)

lemma parses_bytes: "parses (read_bytes (int (length d))) d d"
  by (simp add: parses_def read_bytes_def)

lemma parses_v:
  assumes "length d < 2 ^ 31"
  shows "parses read_v (encode_v d) d"
  using parses_andthen [where g = read_bytes, OF parses_ix32 [of "int (length d)"] parses_bytes [of d]] assms
  by (simp add: read_v_def [abs_def] encode_v_def)

lemma parses_v_fx:
  assumes "8 dvd LENGTH('l::len)" "length d < 2 ^ LENGTH('l)" "length d < 2 ^ 31"
  shows "parses (read_v_fx tag TYPE('l word)) (encode_v_fx tag TYPE('l word) d) d"
proof -
  have n: "uint (of_nat (length d) :: 'l word) = int (length d)"
    using assms(2) by (simp add: unsigned_of_nat take_bit_nat_eq_self flip: uint_nat)
  have "0 < (of_nat (length d) :: 'l word) \<longleftrightarrow> 0 < length d"
    using n by (simp add: word_less_def)
  then have "parses (\<lambda>r. if 0 < (of_nat (length d) :: 'l word) then read_bytes (to_int32 (uint (of_nat (length d) :: 'l word))) r
      else Inr ([], r)) d d"
    using parses_bytes [of d] assms(3) by (cases "d = []") (simp_all add: n parses_def)
  from parses_andthen [where g = "\<lambda>(n :: 'l word) r. if 0 < n then read_bytes (to_int32 (uint n)) r else Inr ([], r)",
      OF parses_num [OF assms(1), of tag "of_nat (length d)"] this]
  show ?thesis by (simp add: read_v_fx_def [abs_def] encode_v_fx_def)
qed

section \<open>Interface of the codecs\<close>

text \<open>
  A codec writes a value as some bytes and reads it back; values outside \<open>ok\<close> are not
  represented.  Values written one after another come back one after another.
\<close>

fun read_many :: "(reader \<Rightarrow> ('a \<times> reader) result) \<Rightarrow> nat \<Rightarrow> reader \<Rightarrow> ('a list \<times> reader) result" where
  "read_many f 0 r = Inr ([], r)"
| "read_many f (Suc n) r = andthen (f r) (\<lambda>(x, r). andthen (read_many f n r) (\<lambda>(xs, r). Inr (x # xs, r)))"

fun write_many :: "('a \<Rightarrow> 's \<Rightarrow> 's result) \<Rightarrow> 'a list \<Rightarrow> 's \<Rightarrow> 's result" where
  "write_many f [] s = Inr s"
| "write_many f (x # xs) s = andthen (f x s) (write_many f xs)"

locale codec =
  fixes enc :: "'a \<Rightarrow> byte list"
    and dec :: "reader \<Rightarrow> ('a \<times> reader) result"
    and ok :: "'a \<Rightarrow> bool"
  assumes parses: "ok x \<Longrightarrow> parses dec (enc x) x"
begin

lemma parses_many: "list_all ok xs \<Longrightarrow> parses (read_many dec (length xs)) (concat (map enc xs)) xs"
proof (induction xs)
  case (Cons x xs)
  then show ?case using parses [of x] by (simp add: parses_def)
qed (simp add: parses_def)

lemma enc_inject:
  assumes "ok x" "ok y" "enc x @ r = enc y @ s"
  shows "x = y \<and> r = s"
proof -
  have "Inr (x, reader_at (enc x) r) = dec (reader_at [] (enc x @ r))"
    using parses [OF assms(1)] by (simp add: parses_def)
  also have "\<dots> = Inr (y, reader_at (enc y) s)"
    using parses [OF assms(2)] by (simp add: parses_def assms(3))
  finally show ?thesis using assms(3) by (auto simp: reader_at_def)
qed

end

lemma emits_many:
  assumes "\<And>x. x \<in> set xs \<Longrightarrow> emits holds cap (f x) (enc x)"
  shows "emits holds cap (write_many f xs) (concat (map enc xs))"
  using assms
proof (induction xs)
  case Nil
  show ?case by (rule emitsI) simp
next
  case (Cons x xs)
  have "write_many f (x # xs) = (\<lambda>s. andthen (f x s) (write_many f xs))" by auto
  then show ?case using emits_andthen [of holds cap "f x" "enc x" "write_many f xs" "concat (map enc xs)"] Cons by simp
qed

definition int_in :: "nat \<Rightarrow> int \<Rightarrow> bool" where
  "int_in n i \<longleftrightarrow> - (2 ^ (n - 1)) \<le> i \<and> i < 2 ^ (n - 1)"

interpretation ix32: codec "\<lambda>i. encode_ix (word_of_int i :: 32 word)" read_ix32 "int_in 32"
  by unfold_locales (auto simp: int_in_def intro: parses_ix32)

interpretation ix64: codec "\<lambda>i. encode_ix (word_of_int i :: 64 word)" read_ix64 "int_in 64"
  by unfold_locales (auto simp: int_in_def intro: parses_ix64)

interpretation blob: codec encode_v read_v "\<lambda>d. length d < 2 ^ 31"
  by unfold_locales (rule parses_v)

interpretation num32: codec "encode_int tag :: 32 word \<Rightarrow> byte list" "read_num tag" "\<lambda>_. True" for tag
  by unfold_locales (simp add: parses_num)

interpretation blob8: codec "encode_v_fx tag TYPE(8 word)" "read_v_fx tag TYPE(8 word)" "\<lambda>d. length d < 2 ^ 8" for tag
  by unfold_locales (rule parses_v_fx; simp)

interpretation blob16: codec "encode_v_fx tag TYPE(16 word)" "read_v_fx tag TYPE(16 word)" "\<lambda>d. length d < 2 ^ 16" for tag
  by unfold_locales (rule parses_v_fx; simp)

interpretation blob32: codec "encode_v_fx tag TYPE(32 word)" "read_v_fx tag TYPE(32 word)" "\<lambda>d. length d < 2 ^ 31" for tag
  by unfold_locales (rule parses_v_fx; simp)

section \<open>Bounds of the reads\<close>

definition rd_ok :: "reader \<Rightarrow> bool" where
  "rd_ok r \<longleftrightarrow> rd_last r \<le> length (rd_data r) \<and> 0 \<le> rd_ptr r \<and> rd_ptr r \<le> int (rd_last r)"

text \<open>The reader only ever moves forward inside its range, by at most \<open>n\<close> bytes.\<close>

definition advances :: "nat \<Rightarrow> reader \<Rightarrow> ('a \<times> reader) result \<Rightarrow> bool" where
  "advances n r res \<longleftrightarrow> (case res of
     Inl e \<Rightarrow> e \<noteq> Undefined
   | Inr (_, r') \<Rightarrow> rd_data r' = rd_data r \<and> rd_last r' = rd_last r \<and> rd_ptr r \<le> rd_ptr r' \<and>
       rd_ptr r' \<le> rd_ptr r + int n \<and> rd_ptr r' \<le> int (rd_last r))"

lemma advances_ok: "advances n r (Inr (x, r')) \<Longrightarrow> rd_ok r \<Longrightarrow> rd_ok r'"
  by (auto simp: advances_def rd_ok_def)

lemma advances_consume: "rd_ok r \<Longrightarrow> n \<le> m \<Longrightarrow> advances m r (consume n r)"
  by (auto simp: advances_def consume_def rd_ok_def)

lemma advances_Inr: "rd_ok r \<Longrightarrow> advances n r (Inr (x, r))"
  by (auto simp: advances_def rd_ok_def)

lemma advances_Inl [simp]: "advances n r (Inl e) \<longleftrightarrow> e \<noteq> Undefined"
  by (simp add: advances_def)

lemma advances_andthen:
  assumes "rd_ok r" "advances n r f" "\<And>x r'. f = Inr (x, r') \<Longrightarrow> rd_ok r' \<Longrightarrow> advances m r' (g x r')"
  shows "advances (n + m) r (andthen f (\<lambda>(x, r). g x r))"
proof (cases f)
  case (Inr p)
  then obtain x r' where p: "f = Inr (x, r')" by (cases p) auto
  then have "rd_ok r'" using assms(1,2) by (auto simp: advances_def rd_ok_def)
  from assms(3) [OF p this] show ?thesis using assms(2)
    by (cases "g x r'") (auto simp: p advances_def)
qed (use assms(2) in \<open>simp\<close>)

lemma advances_read_byte: "rd_ok r \<Longrightarrow> advances 1 r (read_byte r)"
  using advances_andthen [where g = "\<lambda>bs r. Inr (hd bs, r)" and m = 0, OF _ advances_consume [OF _ order_refl]]
  by (simp add: read_byte_def advances_Inr)

lemma advances_last:
  assumes "rd_ok r" "\<And>b r'. rd_ok r' \<Longrightarrow> advances 0 r' (g b r')"
  shows "advances 1 r (andthen (read_byte r) (\<lambda>(b, r). g b r))"
  using advances_andthen [OF assms(1) advances_read_byte [OF assms(1)], of 0 g] assms(2) by simp

lemma advances_ix_loop: "rd_ok r \<Longrightarrow> advances left r (read_ix_loop left shift res r)"
proof (induction left arbitrary: shift res r)
  case (Suc left)
  show ?case
    using advances_andthen [OF Suc.prems advances_read_byte [OF Suc.prems],
        of left "\<lambda>b r. let res = res OR push_bit shift (ucast (b AND 0x7F))
          in if b \<le> 0x7F then Inr (Inl res, r) else read_ix_loop left (shift + 7) res r"]
    by (simp add: Let_def Suc.IH advances_Inr)
qed (simp add: advances_Inr)

lemma advances_ix32: "rd_ok r \<Longrightarrow> advances 5 r (read_ix32 r)"
proof -
  assume r: "rd_ok r"
  have "advances 1 r' (case v of Inl res \<Rightarrow> Inr (sint res, r')
       | Inr res \<Rightarrow> andthen (read_byte r') (\<lambda>(b, r). if b \<le> 0x0f then Inr (sint (res OR push_bit 28 (ucast b)), r) else Inl LogicError))"
    if "rd_ok r'" for r' and v :: "32 word + 32 word"
    using that by (auto intro!: advances_last [unfolded One_nat_def] advances_Inr split: sum.split)
  from advances_andthen [where n = 4 and m = 1, OF r advances_ix_loop [OF r] this]
  have "advances (4 + 1) r (read_ix32 r)" unfolding read_ix32_def .
  then show ?thesis by simp
qed

lemma advances_ix64: "rd_ok r \<Longrightarrow> advances 10 r (read_ix64 r)"
proof -
  assume r: "rd_ok r"
  have "advances 1 r' (case v of Inl res \<Rightarrow> Inr (sint res, r')
       | Inr res \<Rightarrow> andthen (read_byte r') (\<lambda>(b, r). if b \<le> 1 then Inr (sint (res OR push_bit 63 (ucast b)), r) else Inl LogicError))"
    if "rd_ok r'" for r' and v :: "64 word + 64 word"
    using that by (auto intro!: advances_last [unfolded One_nat_def] advances_Inr split: sum.split)
  from advances_andthen [where n = 9 and m = 1, OF r advances_ix_loop [OF r] this]
  have "advances (9 + 1) r (read_ix64 r)" unfolding read_ix64_def .
  then show ?thesis by simp
qed

lemma to_int32_high:
  assumes "2 ^ 31 \<le> i" "i < 2 ^ 32"
  shows "to_int32 i = i - 2 ^ 32"
proof -
  have "i div 2147483648 = 1" using assms by simp
  then have "bit i 31" by (simp add: bit_iff_odd)
  moreover have "take_bit 32 i = i" using assms by (intro take_bit_int_eq_self) simp_all
  ultimately show ?thesis by (simp add: to_int32_def signed_take_bit_eq_take_bit_minus)
qed

lemma encode_v_fx8_mod: "encode_v_fx tag TYPE(8 word) d = encode_int tag (of_nat (length d mod 256) :: 8 word) @ d"
proof -
  have "(of_nat (length d) :: 8 word) = of_nat (length d mod 256)"
    by (rule word_of_nat_eq_iff [THEN iffD2]) (simp add: take_bit_eq_mod)
  then show ?thesis by (simp add: encode_v_fx_def)
qed

lemma ix_stops_at_5: 
  assumes "length bs = 5" "\<forall>b \<in> set (take 4 bs). 0x7F < b" "0x0F < bs ! 4"
  shows "read_ix32 (reader_at pre (bs @ post)) = Inl LogicError"
proof -
  obtain a b c d e where bs: "bs = [a, b, c, d, e]" using assms(1)
    by (auto simp: length_Suc_conv eval_nat_numeral)
  then have "\<not> a \<le> 0x7F" "\<not> b \<le> 0x7F" "\<not> c \<le> 0x7F" "\<not> d \<le> 0x7F" "\<not> e \<le> 0x0F"
    using assms(2,3) by (auto simp: eval_nat_numeral not_le)
  then show ?thesis by (simp add: read_ix32_def bs eval_nat_numeral Let_def del: not_le)
qed

lemma length_encode_ix_less: "unat v < 2 ^ (7 * n) \<Longrightarrow> 0 < n \<Longrightarrow> length (encode_ix v) \<le> n"
proof (induction n arbitrary: v)
  case (Suc n)
  show ?case
  proof (cases "unat v < 0x80")
    case False
    have "unat (drop_bit 7 v) < 2 ^ (7 * n)"
      using Suc.prems by (simp only: unat_drop_bit_div) (rule less_mult_imp_div_less, simp add: power_add)
    moreover have "0 < n" using Suc.prems False by (cases n) simp_all
    ultimately show ?thesis using Suc.IH False by (simp add: encode_ix_large)
  qed (simp add: encode_ix_small)
qed simp

section \<open>Properties\<close>

text \<open>
  The 7-bit encoded integers round trip.  Every \<open>int32_t\<close>, negative ones included, is read
  back by \<open>read_ix<int32_t>\<close> from what \<open>write_ix\<close> emits, wherever it stands in the stream and
  whatever follows; so is every \<open>int64_t\<close>.  The encodings take at most 5 and 10 bytes.
\<close>

theorem ix_roundtrip:
  "(int_in 32 i \<longrightarrow> emits (db_holds env) (\<lambda>_. max_size env) (write_ix32 (dynamic_ops env) i) (encode_ix (word_of_int i :: 32 word)) \<and>
     parses read_ix32 (encode_ix (word_of_int i :: 32 word)) i \<and> length (encode_ix (word_of_int i :: 32 word)) \<le> 5) \<and>
   (int_in 64 j \<longrightarrow> emits (db_holds env) (\<lambda>_. max_size env) (write_ix64 (dynamic_ops env) j) (encode_ix (word_of_int j :: 64 word)) \<and>
     parses read_ix64 (encode_ix (word_of_int j :: 64 word)) j \<and> length (encode_ix (word_of_int j :: 64 word)) \<le> 10)"
proof -
  have "length (encode_ix (w :: 32 word)) \<le> 5" for w
    by (rule length_encode_ix_less) (rule less_le_trans [OF unsigned_less], simp_all)
  moreover have "length (encode_ix (w :: 64 word)) \<le> 10" for w
    by (rule length_encode_ix_less) (rule less_le_trans [OF unsigned_less], simp_all)
  moreover have "emits (db_holds env) (\<lambda>_. max_size env) (write_ix32 (dynamic_ops env) i) (encode_ix (word_of_int i :: 32 word))"
    "emits (db_holds env) (\<lambda>_. max_size env) (write_ix64 (dynamic_ops env) j) (encode_ix (word_of_int j :: 64 word))"
    using dynamic.emits_ix by (simp_all add: write_ix32_def [abs_def] write_ix64_def [abs_def])
  ultimately show ?thesis using ix32.parses [of i] ix64.parses [of j] by blast
qed

theorem ix_roundtrip_witness:
  "parses read_ix32 (encode_ix (- 1 :: 32 word)) (- 1) \<and> length (encode_ix (- 1 :: 32 word)) \<le> 5"
  using ix_roundtrip [of "- 1"] by (simp add: int_in_def)

text \<open>
  C31: blobs written one after another with \<open>write_v\<close> to an \<open>obstream\<close> that already holds some
  bytes are read back one after another by \<open>read_v\<close>, by a reader opened on the stream at that
  offset, which ends exactly at the end.
\<close>

theorem blob_stream_roundtrip:
  assumes "db_holds env s bs" "list_all (\<lambda>d. length d < 2 ^ 31) ds"
    and "length bs + length (concat (map encode_v ds)) \<le> max_size env"
  shows "\<exists>s' content r. write_many (write_v (dynamic_ops env)) ds s = Inr s' \<and> pv_elems s' = map Some content \<and>
    read_many read_v (length ds) (reader_of_writer content (int (length bs))) = Inr (ds, r) \<and> eof r"
proof -
  let ?e = "concat (map encode_v ds)"
  have "emits (db_holds env) (\<lambda>_. max_size env) (write_many (write_v (dynamic_ops env)) ds) ?e"
    by (rule emits_many) (use assms(2) dynamic.emits_v in \<open>auto simp: list_all_iff\<close>)
  from emitsD [OF this assms(1,3)] obtain s' where
    s': "write_many (write_v (dynamic_ops env)) ds s = Inr s'" "pv_elems s' = map Some (bs @ ?e)"
    by (auto simp: db_holds_def)
  have "reader_of_writer (bs @ ?e) (int (length bs)) = reader_at bs (?e @ [])"
    by (simp add: reader_of_writer_def reset_def reader_at_def)
  then have "read_many read_v (length ds) (reader_of_writer (bs @ ?e) (int (length bs))) = Inr (ds, reader_at (bs @ ?e) [])"
    using parsesD [OF blob.parses_many [OF assms(2)], of bs "[]"] by simp
  moreover have "eof (reader_at (bs @ ?e) [])" by (simp add: eof_def reader_at_def)
  ultimately show ?thesis using s' by blast
qed

theorem blob_stream_roundtrip_witness:
  "\<exists>s' content r. write_many (write_v (dynamic_ops byte_env)) [[1, 2], [], [3]] pv_empty = Inr s' \<and>
    pv_elems s' = map Some content \<and> read_many read_v 3 (reader_of_writer content 0) = Inr ([[1, 2], [], [3]], r) \<and> eof r"
proof -
  have "length (concat (map encode_v [[1, 2], [], [3]])) = 6" by (simp add: encode_v_def encode_ix.simps)
  then have "\<exists>s' content r. write_many (write_v (dynamic_ops byte_env)) [[1, 2], [], [3]] pv_empty = Inr s' \<and>
    pv_elems s' = map Some content \<and>
    read_many read_v (length [[1, 2], [], [3 :: byte]]) (reader_of_writer content (int (length ([] :: byte list)))) = Inr ([[1, 2], [], [3]], r) \<and> eof r"
    by (intro blob_stream_roundtrip) (simp_all add: db_holds_def)
  moreover have "length [[1, 2], [], [3 :: byte]] = 3" "int (length ([] :: byte list)) = 0" by simp_all
  ultimately show ?thesis by (simp only:)
qed

text \<open>
  \<open>write_v8\<close> does not refuse a blob of 256 bytes or more.  All its bytes are written behind a
  length field reduced modulo 256, and \<open>read_v8\<close> returns that much of it and leaves the rest in
  the stream, to be taken for what follows.
\<close>

theorem v8_truncates_long_blobs:
  assumes "length d < 2 ^ 31"
  shows "emits (db_holds env) (\<lambda>_. max_size env) (write_v8 (dynamic_ops env) tag d) (encode_v_fx tag TYPE(8 word) d) \<and>
    read_v8 tag (reader_at pre (encode_v_fx tag TYPE(8 word) d @ post)) =
      Inr (take (length d mod 256) d,
        reader_at (pre @ encode_int tag (of_nat (length d mod 256) :: 8 word) @ take (length d mod 256) d)
          (drop (length d mod 256) d @ post))"
proof
  show "emits (db_holds env) (\<lambda>_. max_size env) (write_v8 (dynamic_ops env) tag d) (encode_v_fx tag TYPE(8 word) d)"
    unfolding write_v8_def by (rule dynamic.emits_v_fx [OF assms])
  let ?n = "length d mod 256" and ?L = "encode_int tag (of_nat (length d mod 256) :: 8 word)"
  have same: "encode_v_fx tag TYPE(8 word) d @ post = encode_v_fx tag TYPE(8 word) (take ?n d) @ drop ?n d @ post"
    by (simp add: encode_v_fx8_mod)
  have "length (take ?n d) < 2 ^ 8" by (simp add: less_le_trans [OF mod_less_divisor])
  from parsesD [OF blob8.parses [OF this], of tag pre "drop ?n d @ post"]
  show "read_v8 tag (reader_at pre (encode_v_fx tag TYPE(8 word) d @ post)) =
      Inr (take ?n d, reader_at (pre @ ?L @ take ?n d) (drop ?n d @ post))"
    unfolding read_v8_def same by (simp add: encode_v_fx8_mod)
qed

theorem v8_truncates_long_blobs_witness:
  "\<exists>r. read_v8 network_convert_tag (reader_at [] (encode_v_fx network_convert_tag TYPE(8 word) (replicate 257 7) @ []))
     = Inr ([7], r)"
  using v8_truncates_long_blobs [of "replicate 257 7" byte_env network_convert_tag "[]" "[]"]
  by simp

text \<open>
  A length field of \<open>read_v32\<close> with the top bit set is converted to a negative \<open>int\<close>: the
  read returns the empty view and leaves the blob in the stream instead of throwing.
\<close>

theorem v32_negative_length_reads_empty:
  assumes "2 ^ 31 \<le> unat (n :: 32 word)"
  shows "read_v32 tag (reader_at pre (encode_int tag n @ post)) = Inr ([], reader_at (pre @ encode_int tag n) post)"
proof -
  have "int (2 ^ 31) \<le> int (unat n)" using assms by (simp only: of_nat_le_iff)
  then have ge: "2 ^ 31 \<le> uint n" by simp
  have "uint n < 2 ^ 32" using uint_lt2p [of n] by simp
  with ge have "to_int32 (uint n) < 0" by (simp add: to_int32_high)
  then show ?thesis
    using parsesD [OF num32.parses [where tag = tag and x = n, simplified], of pre post] ge
    by (auto simp: read_v32_def read_v_fx_def read_bytes_def word_less_def)
qed

theorem v32_negative_length_reads_empty_witness:
  "read_v32 network_convert_tag (reader_at [] (encode_int network_convert_tag (0xFFFFFFFF :: 32 word) @ [1, 2]))
     = Inr ([], reader_at ([] @ encode_int network_convert_tag (0xFFFFFFFF :: 32 word)) [1, 2])"
  by (rule v32_negative_length_reads_empty) simp

text \<open>
  The bounds of the reader.  From a position inside its range, \<open>read_ix\<close> never reads outside
  the range and never moves by more than 5 (10) bytes: it returns, or throws
  \<open>std::out_of_range\<close> or \<open>std::logic_error\<close>; a fifth byte above \<open>0x0f\<close> behind four
  continuation bytes is always a \<open>std::logic_error\<close>.
\<close>

theorem read_ix_bounds:
  "(rd_ok r \<longrightarrow> advances 5 r (read_ix32 r) \<and> advances 10 r (read_ix64 r)) \<and>
   (length bs = 5 \<and> (\<forall>b \<in> set (take 4 bs). 0x7F < b) \<and> 0x0F < bs ! 4 \<longrightarrow>
      read_ix32 (reader_at pre (bs @ post)) = Inl LogicError)"
  using advances_ix32 advances_ix64 ix_stops_at_5 by blast

theorem read_ix_bounds_witness:
  "advances 5 (reader_at [] [0x80]) (read_ix32 (reader_at [] [0x80])) \<and>
   read_ix32 (reader_at [] ([0xFF, 0xFF, 0xFF, 0xFF, 0x1F] @ [])) = Inl LogicError"
  using read_ix_bounds [of "reader_at [] [0x80]" "[0xFF, 0xFF, 0xFF, 0xFF, 0x1F]" "[]" "[]"]
  by (simp add: rd_ok_def reader_at_def)

end
