(* ===== verification/InetNtop.thy ===== *)
theory InetNtop
  imports Prelude "HOL-Library.Char_ord"
begin

text \<open>
  Conversion of IP addresses to and from text (\<open>yasio/impl/inet_ntop.hpp\<close>, used where the
  system has no \<open>inet_ntop\<close>).  Strings are without their terminating null character;
  \<open>None\<close> is the null pointer of \<open>inet_ntop\<close> and the 0 of \<open>inet_pton\<close>.
\<close>

section \<open>Numerals\<close>

text \<open>\<open>%u\<close> and \<open>%x\<close> of \<open>sprintf\<close>.\<close>

fun format_u :: "nat \<Rightarrow> string" where
  "format_u n = (if n < 10 then [char_of (48 + n)] else format_u (n div 10) @ [char_of (48 + n mod 10)])"

definition xdigit :: "nat \<Rightarrow> char" where
  "xdigit d = ''0123456789abcdef'' ! d"

fun format_x :: "nat \<Rightarrow> string" where
  "format_x n = (if n < 16 then [xdigit n] else format_x (n div 16) @ [xdigit (n mod 16)])"

declare format_u.simps [simp del] format_x.simps [simp del]

section \<open>Formatting\<close>

definition inet_ntop4 :: "byte list \<Rightarrow> nat \<Rightarrow> string option" where
  "inet_ntop4 src sz =
     (let tmp = format_u (unat (src ! 0)) @ ''.'' @ format_u (unat (src ! 1)) @ ''.'' @
                format_u (unat (src ! 2)) @ ''.'' @ format_u (unat (src ! 3))
      in if length tmp \<ge> sz then None else Some tmp)"

text \<open>The longest run of zero words; \<open>base\<close> is -1 while there is none.\<close>

record zero_run =
  run_base :: int
  run_len :: int

definition words6 :: "byte list \<Rightarrow> nat list" where
  "words6 src = map (\<lambda>i. unat (src ! (2 * i)) * 256 + unat (src ! (2 * i + 1))) [0..<8]"

definition close_run :: "zero_run \<Rightarrow> zero_run \<Rightarrow> zero_run" where
  "close_run best cur =
     (if run_base cur \<noteq> -1 \<and> (run_base best = -1 \<or> run_len cur > run_len best) then cur else best)"

fun scan_runs :: "nat list \<Rightarrow> int \<Rightarrow> zero_run \<Rightarrow> zero_run \<Rightarrow> zero_run" where
  "scan_runs [] i best cur =
     (let best = close_run best cur
      in if run_base best \<noteq> -1 \<and> run_len best < 2 then best\<lparr>run_base := -1\<rparr> else best)"
| "scan_runs (w # ws) i best cur =
     (if w = 0
      then scan_runs ws (i + 1) best
             (if run_base cur = -1 then \<lparr>run_base = i, run_len = 1\<rparr> else cur\<lparr>run_len := run_len cur + 1\<rparr>)
      else scan_runs ws (i + 1) (close_run best cur) (cur\<lparr>run_base := -1\<rparr>))"

definition longest_run :: "nat list \<Rightarrow> zero_run" where
  "longest_run ws = scan_runs ws 0 \<lparr>run_base = -1, run_len = 0\<rparr> \<lparr>run_base = -1, run_len = 0\<rparr>"

text \<open>
  The formatting loop: \<open>todo\<close> words are left, \<open>i\<close> is the index of the first.  The embedded IPv4
  tail ends the loop; \<open>tmp\<close> has room for 46 characters.
\<close>

fun format_words :: "byte list \<Rightarrow> nat list \<Rightarrow> zero_run \<Rightarrow> nat \<Rightarrow> nat \<Rightarrow> string \<Rightarrow> string option" where
  "format_words src ws best 0 i acc = Some acc"
| "format_words src ws best (Suc todo) i acc =
     (if run_base best \<noteq> -1 \<and> int i \<ge> run_base best \<and> int i < run_base best + run_len best
      then format_words src ws best todo (i + 1) (if int i = run_base best then acc @ '':'' else acc)
      else let acc = (if i \<noteq> 0 then acc @ '':'' else acc)
           in if i = 6 \<and> run_base best = 0 \<and> (run_len best = 6 \<or> (run_len best = 5 \<and> ws ! 5 = 0xffff))
              then (case inet_ntop4 (drop 12 src) (46 - length acc) of
                      None \<Rightarrow> None | Some t \<Rightarrow> Some (acc @ t))
              else format_words src ws best todo (i + 1) (acc @ format_x (ws ! i)))"

definition inet_ntop6 :: "byte list \<Rightarrow> nat \<Rightarrow> string option" where
  "inet_ntop6 src sz =
     (let ws = words6 src; best = longest_run ws
      in case format_words src ws best 8 0 [] of
           None \<Rightarrow> None
         | Some t \<Rightarrow>
             (let t = (if run_base best \<noteq> -1 \<and> run_base best + run_len best = 8 then t @ '':'' else t)
              in if length t + 1 > sz then None else Some t))"

text \<open>The address families, with the numbers Linux gives them.\<close>

definition AF_UNSPEC :: int where "AF_UNSPEC = 0"
definition AF_UNIX :: int where "AF_UNIX = 1"
definition AF_INET :: int where "AF_INET = 2"
definition AF_INET6 :: int where "AF_INET6 = 10"

lemmas af_defs = AF_UNSPEC_def AF_UNIX_def AF_INET_def AF_INET6_def

definition inet_ntop :: "int \<Rightarrow> byte list \<Rightarrow> nat \<Rightarrow> string option" where
  "inet_ntop fam src sz =
     (if fam = AF_INET then inet_ntop4 src sz else if fam = AF_INET6 then inet_ntop6 src sz else None)"

section \<open>Parsing\<close>

definition is_digit :: "char \<Rightarrow> bool" where
  "is_digit c \<longleftrightarrow> 48 \<le> (of_char c :: nat) \<and> (of_char c :: nat) \<le> 57"

text \<open>
  The loop of \<open>inet_pton4\<close>: \<open>front\<close> are the octets before \<open>tp\<close>, \<open>cur\<close> is \<open>*tp\<close>.
\<close>

fun pton4_loop :: "string \<Rightarrow> bool \<Rightarrow> nat \<Rightarrow> nat list \<Rightarrow> nat \<Rightarrow> (nat list \<times> nat) option" where
  "pton4_loop [] saw_digit octets front cur = (if octets < 4 then None else Some (front, cur))"
| "pton4_loop (ch # src) saw_digit octets front cur =
     (if is_digit ch
      then let newv = cur * 10 + (of_char ch - 48)
           in if saw_digit \<and> cur = 0 then None
              else if newv > 255 then None
              else if \<not> saw_digit
              then if octets + 1 > 4 then None else pton4_loop src True (octets + 1) front newv
              else pton4_loop src saw_digit octets front newv
      else if ch = CHR ''.'' \<and> saw_digit
      then if octets = 4 then None else pton4_loop src False octets (front @ [cur]) 0
      else None)"

definition inet_pton4 :: "string \<Rightarrow> byte list option" where
  "inet_pton4 src =
     (case pton4_loop src False 0 [] 0 of
        None \<Rightarrow> None
      | Some (front, cur) \<Rightarrow> Some (map of_nat (front @ [cur])))"

text \<open>The value of a hexadecimal digit, after \<open>tolower\<close>.\<close>

definition xdigit_value :: "char \<Rightarrow> nat option" where
  "xdigit_value c =
     (let n = (of_char c :: nat); n = (if 65 \<le> n \<and> n \<le> 90 then n + 32 else n)
      in if 48 \<le> n \<and> n \<le> 57 then Some (n - 48) else if 97 \<le> n \<and> n \<le> 102 then Some (n - 87) else None)"

record pton6_state =
  p6_tmp :: "nat list"       \<comment> \<open>the bytes before \<open>tp\<close>\<close>
  p6_colonp :: "nat option"
  p6_saw :: bool
  p6_val :: nat

definition push16 :: "nat \<Rightarrow> nat list \<Rightarrow> nat list" where
  "push16 val tmp = tmp @ [val div 256 mod 256, val mod 256]"

fun pton6_loop :: "string \<Rightarrow> string \<Rightarrow> pton6_state \<Rightarrow> pton6_state option" where
  "pton6_loop [] curtok st = Some st"
| "pton6_loop (ch # src) curtok st =
     (case xdigit_value ch of
        Some d \<Rightarrow>
          let val = p6_val st * 16 + d
          in if val > 0xffff then None else pton6_loop src curtok (st\<lparr>p6_val := val, p6_saw := True\<rparr>)
      | None \<Rightarrow>
          if ch = CHR '':''
          then if \<not> p6_saw st
               then if p6_colonp st \<noteq> None then None
                    else pton6_loop src src (st\<lparr>p6_colonp := Some (length (p6_tmp st))\<rparr>)
               else if src = [] then None
               else if length (p6_tmp st) + 2 > 16 then None
               else pton6_loop src src (st\<lparr>p6_tmp := push16 (p6_val st) (p6_tmp st), p6_saw := False, p6_val := 0\<rparr>)
          else if ch = CHR ''.'' \<and> length (p6_tmp st) + 4 \<le> 16
          then (case inet_pton4 curtok of
                  Some v4 \<Rightarrow> Some (st\<lparr>p6_tmp := p6_tmp st @ map unat v4, p6_saw := False\<rparr>)
                | None \<Rightarrow> None)
          else None)"

text \<open>The shift by hand: \<open>endp[-i] = colonp[n - i]; colonp[n - i] = 0\<close> for \<open>i\<close> from 1 to \<open>n\<close>.\<close>

fun shift_tail :: "nat \<Rightarrow> nat \<Rightarrow> nat \<Rightarrow> nat \<Rightarrow> nat list \<Rightarrow> nat list" where
  "shift_tail 0 i n colonp arr = arr"
| "shift_tail (Suc todo) i n colonp arr =
     shift_tail todo (i + 1) n colonp
       ((arr[16 - i := arr ! (colonp + (n - i))])[colonp + (n - i) := 0])"

definition pton6_finish :: "pton6_state \<Rightarrow> byte list option" where
  "pton6_finish st =
     (if p6_saw st \<and> length (p6_tmp st) + 2 > 16 then None
      else let tmp = (if p6_saw st then push16 (p6_val st) (p6_tmp st) else p6_tmp st)
           in case p6_colonp st of
                Some c \<Rightarrow>
                  if length tmp = 16 then None
                  else let n = length tmp - c
                       in Some (map of_nat (shift_tail n 1 n c (tmp @ replicate (16 - length tmp) 0)))
              | None \<Rightarrow> if length tmp \<noteq> 16 then None else Some (map of_nat tmp))"

definition inet_pton6 :: "string \<Rightarrow> byte list option" where
  "inet_pton6 src =
     (let start = (if src \<noteq> [] \<and> hd src = CHR '':''
                   then if tl src \<noteq> [] \<and> hd (tl src) = CHR '':'' then Some (tl src) else None
                   else Some src)
      in case start of
           None \<Rightarrow> None
         | Some s \<Rightarrow>
             (case pton6_loop s s \<lparr>p6_tmp = [], p6_colonp = None, p6_saw = False, p6_val = 0\<rparr> of
                None \<Rightarrow> None
              | Some st \<Rightarrow> pton6_finish st))"

definition inet_pton :: "int \<Rightarrow> string \<Rightarrow> byte list option" where
  "inet_pton fam src =
     (if fam = AF_INET then inet_pton4 src else if fam = AF_INET6 then inet_pton6 src else None)"

section \<open>The IPv4 conversions\<close>

lemma of_char_digit [simp]: "d < 10 \<Longrightarrow> of_char (char_of (48 + d :: nat)) = (48 + d :: nat)"
  by (simp add: of_char_of)

lemma is_digit_char [simp]: "(d :: nat) < 10 \<Longrightarrow> is_digit (char_of (48 + d))"
  by (simp add: is_digit_def)

lemma digit_char_eq: "is_digit c \<Longrightarrow> char_of (48 + (of_char c - 48) :: nat) = c"
  by (simp add: is_digit_def)

lemma is_digit_value: "is_digit c \<Longrightarrow> of_char c - 48 < (10 :: nat)"
  by (auto simp: is_digit_def)

lemma format_u_digit: "d < 10 \<Longrightarrow> format_u d = [char_of (48 + d)]"
  by (simp add: format_u.simps)

lemma format_u_snoc: "0 < n \<Longrightarrow> d < 10 \<Longrightarrow> format_u (n * 10 + d) = format_u n @ [char_of (48 + d)]"
  by (subst format_u.simps) simp

definition v4_front :: "nat list \<Rightarrow> string" where
  "v4_front ns = concat (map (\<lambda>n. format_u n @ ''.'') ns)"

lemma v4_front_simps [simp]: "v4_front [] = []" "v4_front (ns @ [n]) = v4_front ns @ format_u n @ ''.''"
  by (simp_all add: v4_front_def)

definition v4_inv :: "bool \<Rightarrow> nat \<Rightarrow> nat list \<Rightarrow> nat \<Rightarrow> bool" where
  "v4_inv saw octets front cur \<longleftrightarrow> (\<forall>n \<in> set front. n \<le> 255) \<and> cur \<le> 255 \<and> octets \<le> 4 \<and>
     (if saw then octets = length front + 1 else octets = length front \<and> octets < 4 \<and> cur = 0)"

lemma pton4_loop_sound:
  assumes "pton4_loop s saw octets front cur = Some (front', cur')" "v4_inv saw octets front cur"
  shows "v4_front front @ (if saw then format_u cur else []) @ s = v4_front front' @ format_u cur' \<and>
    length front' = 3 \<and> (\<forall>n \<in> set front'. n \<le> 255) \<and> cur' \<le> 255"
  using assms
proof (induction s arbitrary: saw octets front cur)
  case Nil
  then show ?case by (auto simp: v4_inv_def split: if_splits)
next
  case (Cons ch s)
  let ?d = "of_char ch - 48 :: nat"
  show ?case
  proof (cases "is_digit ch")
    case True
    note d = is_digit_value [OF True] digit_char_eq [OF True]
    show ?thesis
    proof (cases saw)
      case True
      then have "0 < cur" "pton4_loop s True octets front (cur * 10 + ?d) = Some (front', cur')"
          "cur * 10 + ?d \<le> 255"
        using Cons.prems(1) \<open>is_digit ch\<close> by (auto simp: Let_def split: if_splits)
      moreover have "v4_inv True octets front (cur * 10 + ?d)"
        using Cons.prems(2) True \<open>cur * 10 + ?d \<le> 255\<close> by (simp add: v4_inv_def)
      ultimately show ?thesis using Cons.IH [of True octets front "cur * 10 + ?d"] True d by (auto simp: format_u_snoc)
    next
      case False
      then have "pton4_loop s True (octets + 1) front ?d = Some (front', cur')"
        using Cons.prems \<open>is_digit ch\<close> by (auto simp: Let_def v4_inv_def split: if_splits)
      moreover have "v4_inv True (octets + 1) front ?d"
        using Cons.prems(2) False d(1) by (simp add: v4_inv_def)
      ultimately show ?thesis using Cons.IH [of True "octets + 1" front ?d] False d by (auto simp: format_u_digit)
    qed
  next
    case False
    then have saw: "ch = CHR ''.''" "saw" "octets \<noteq> 4"
        and "pton4_loop s False octets (front @ [cur]) 0 = Some (front', cur')"
      using Cons.prems(1) by (auto split: if_splits)
    moreover have "v4_inv False octets (front @ [cur]) 0"
      using Cons.prems(2) saw by (auto simp: v4_inv_def)
    ultimately show ?thesis using Cons.IH [of False octets "front @ [cur]" 0] by auto
  qed
qed

lemma pton4_loop_number:
  "n \<le> 255 \<Longrightarrow> octets < 4 \<Longrightarrow>
    pton4_loop (format_u n @ rest) False octets front 0 = pton4_loop rest True (octets + 1) front n"
proof (induction n arbitrary: rest rule: less_induct)
  case (less n)
  show ?case
  proof (cases "n < 10")
    case True
    with less.prems show ?thesis by (simp add: format_u_digit Let_def)
  next
    case False
    have n: "n = n div 10 * 10 + n mod 10" by simp
    have "format_u n = format_u (n div 10) @ [char_of (48 + n mod 10)]"
      using False format_u_snoc [of "n div 10" "n mod 10"] by simp
    then have "pton4_loop (format_u n @ rest) False octets front 0 =
        pton4_loop (char_of (48 + n mod 10) # rest) True (octets + 1) front (n div 10)"
      using less.IH [of "n div 10"] less.prems False by simp
    also have "\<dots> = pton4_loop rest True (octets + 1) front n"
      using False less.prems n by (simp add: Let_def div_eq_0_iff)
    finally show ?thesis .
  qed
qed

lemma not_digit_dot: "\<not> is_digit CHR ''.''"
  by (simp add: is_digit_def)

definition v4_text :: "byte list \<Rightarrow> string" where
  "v4_text bs = v4_front (map unat (butlast bs)) @ format_u (unat (last bs))"

lemma unat_byte_le: "unat (b :: byte) \<le> 255"
proof -
  have "unat b < 2 ^ LENGTH(8)" by (rule unsigned_less)
  then show ?thesis by simp
qed

lemma inet_pton4_text:
  assumes "length bs = 4"
  shows "inet_pton4 (v4_text bs) = Some bs"
proof -
  obtain a b c d where bs: "bs = [a, b, c, d]"
    using assms by (auto simp: length_Suc_conv eval_nat_numeral)
  have "v4_text bs = format_u (unat a) @ CHR ''.'' # format_u (unat b) @ CHR ''.'' # format_u (unat c) @ CHR ''.'' # format_u (unat d) @ []"
    by (simp add: v4_text_def bs v4_front_def)
  then have "pton4_loop (v4_text bs) False 0 [] 0 = Some ([unat a, unat b, unat c], unat d)"
    by (simp only: pton4_loop_number unat_byte_le) (simp add: pton4_loop_number unat_byte_le not_digit_dot del: append_Nil2)
  then show ?thesis by (simp add: inet_pton4_def bs)
qed

lemma inet_pton4_Some:
  assumes "inet_pton4 s = Some bs"
  shows "length bs = 4 \<and> s = v4_text bs"
proof -
  obtain front cur where fc: "pton4_loop s False 0 [] 0 = Some (front, cur)" "bs = map of_nat (front @ [cur])"
    using assms by (auto simp: inet_pton4_def split: option.splits)
  have *: "s = v4_front front @ format_u cur" "length front = 3" "\<forall>n \<in> set front. n \<le> 255" "cur \<le> 255"
    using pton4_loop_sound [OF fc(1)] by (simp_all add: v4_inv_def)
  have "unat (of_nat n :: byte) = n" if "n \<le> 255" for n
    using that by (simp add: unsigned_of_nat take_bit_nat_eq_self)
  then have "map unat (butlast bs) = front" "unat (last bs) = cur"
    using * by (simp_all add: fc(2) map_idI)
  with * show ?thesis by (simp add: v4_text_def fc(2))
qed

lemma length_format_u: "n \<le> 255 \<Longrightarrow> 1 \<le> length (format_u n) \<and> length (format_u n) \<le> 3"
  by (simp add: format_u.simps [of n] format_u.simps [of "n div 10"] format_u.simps [of "n div 10 div 10"])

lemma length_v4_text: "length bs = 4 \<Longrightarrow> 7 \<le> length (v4_text bs) \<and> length (v4_text bs) \<le> 15"
proof -
  assume "length bs = 4"
  then obtain a b c d where bs: "bs = [a, b, c, d]" by (auto simp: length_Suc_conv eval_nat_numeral)
  show ?thesis using length_format_u [OF unat_byte_le [of a]] length_format_u [OF unat_byte_le [of b]]
      length_format_u [OF unat_byte_le [of c]] length_format_u [OF unat_byte_le [of d]]
    by (simp add: bs v4_text_def v4_front_def)
qed

lemma inet_ntop4_text: "length bs = 4 \<Longrightarrow> inet_ntop4 bs sz = (if length (v4_text bs) < sz then Some (v4_text bs) else None)"
proof -
  assume "length bs = 4"
  then obtain a b c d where bs: "bs = [a, b, c, d]" by (auto simp: length_Suc_conv eval_nat_numeral)
  show ?thesis by (auto simp: inet_ntop4_def v4_text_def v4_front_def bs Let_def)
qed

section \<open>Properties\<close>

text \<open>
  \<open>inet_pton4\<close> and \<open>inet_ntop4\<close> are inverse to each other.  What \<open>inet_ntop4\<close> prints into the
  usual 16 bytes is parsed back to the same address, and the only string \<open>inet_pton4\<close> accepts
  for an address is that one: leading zeros, missing, empty or extra octets, octets above 255
  and stray characters are all refused.
\<close>

theorem v4_text_roundtrip:
  "inet_pton4 s = Some bs \<longleftrightarrow> length bs = 4 \<and> inet_ntop4 bs 16 = Some s"
proof
  assume "inet_pton4 s = Some bs"
  then have "length bs = 4" "s = v4_text bs" by (auto dest: inet_pton4_Some)
  then show "length bs = 4 \<and> inet_ntop4 bs 16 = Some s"
    using length_v4_text [of bs] by (simp add: inet_ntop4_text)
next
  assume "length bs = 4 \<and> inet_ntop4 bs 16 = Some s"
  then show "inet_pton4 s = Some bs"
    by (auto simp: inet_ntop4_text inet_pton4_text split: if_splits)
qed

end
