(* ===== verification/Endpoint.thy ===== *)
theory Endpoint
  imports Endian InetNtop
begin

text \<open>
  The socket address \<open>ip::endpoint\<close> (\<open>yasio/xxsocket.hpp\<close>).  It is a union of the system's
  address structures, so the model is its storage: 32 bytes on Linux, the fields being read and
  written at their offsets (family 0, port 2, IPv4 address 4, IPv6 address 8, scope 24, the
  length byte 28).  The conversions of addresses and the interface index of a zone name are the
  system's, a parameter (\<open>net_env\<close>) that \<open>InetNtop\<close> gives an instance of.
\<close>

section \<open>Storage\<close>

type_synonym endpoint = "byte list"

definition ep_valid :: "endpoint \<Rightarrow> bool" where
  "ep_valid e \<longleftrightarrow> length e = 32"

record net_env =
  ne_pton :: "int \<Rightarrow> string \<Rightarrow> byte list option"
  ne_ntop :: "int \<Rightarrow> byte list \<Rightarrow> nat \<Rightarrow> string option"
  ne_ifindex :: "string \<Rightarrow> 32 word"

definition ep_get :: "nat \<Rightarrow> nat \<Rightarrow> endpoint \<Rightarrow> byte list" where
  "ep_get k n e = take n (drop k e)"

definition ep_put :: "nat \<Rightarrow> byte list \<Rightarrow> endpoint \<Rightarrow> endpoint" where
  "ep_put k bs e = splice k bs e"

definition ep_af :: "endpoint \<Rightarrow> int" where
  "ep_af e = uint (le_word (ep_get 0 2 e) :: 16 word)"

definition ep_set_af :: "int \<Rightarrow> endpoint \<Rightarrow> endpoint" where
  "ep_set_af v e = ep_put 0 (le_bytes 2 (word_of_int v :: 16 word)) e"

definition ep_set_len :: "nat \<Rightarrow> endpoint \<Rightarrow> endpoint" where
  "ep_set_len n e = ep_put 28 [of_nat n] e"

definition ep_len :: "endpoint \<Rightarrow> nat" where
  "ep_len e = unat (e ! 28)"

definition ep_sin_port :: "endpoint \<Rightarrow> 16 word" where
  "ep_sin_port e = le_word (ep_get 2 2 e)"

definition ep_s_addr :: "endpoint \<Rightarrow> 32 word" where
  "ep_s_addr e = le_word (ep_get 4 4 e)"

definition ep_port :: "endpoint \<Rightarrow> 16 word" where
  "ep_port e = network_to_host (ep_sin_port e)"

definition ep_set_port :: "16 word \<Rightarrow> endpoint \<Rightarrow> endpoint" where
  "ep_set_port v e = ep_put 2 (le_bytes 2 (host_to_network v)) e"

definition as_unspec :: "endpoint \<Rightarrow> endpoint" where
  "as_unspec e = ep_set_len 0 (ep_set_af AF_UNSPEC e)"

definition ep_scope_id :: "endpoint \<Rightarrow> 32 word" where
  "ep_scope_id e = (if ep_af e = AF_INET6 then le_word (ep_get 24 4 e) else 0)"

definition ep_set_scope_id :: "32 word \<Rightarrow> endpoint \<Rightarrow> endpoint" where
  "ep_set_scope_id v e = (if ep_af e = AF_INET6 then ep_put 24 (le_bytes 4 v) e else e)"

definition ep_set_addr_v4 :: "32 word \<Rightarrow> endpoint \<Rightarrow> endpoint" where
  "ep_set_addr_v4 addr e =
     ep_set_len 16 (ep_put 4 (le_bytes 4 (host_to_network addr)) (ep_set_af AF_INET e))"

definition ep_addr_v4 :: "endpoint \<Rightarrow> 32 word" where
  "ep_addr_v4 e = (if ep_af e = AF_INET then network_to_host (ep_s_addr e) else 0)"

section \<open>Order\<close>

text \<open>\<open>memcmp\<close> on two storages: the first byte that differs decides.\<close>

fun memcmp_less :: "byte list \<Rightarrow> byte list \<Rightarrow> bool" where
  "memcmp_less (a # as) (b # bs) = (if a < b then True else if b < a then False else memcmp_less as bs)"
| "memcmp_less _ _ = False"

definition ep_key_v4 :: "endpoint \<Rightarrow> nat" where
  "ep_key_v4 e = unat (ep_s_addr e) + unat (ep_sin_port e)"

definition ep_less :: "endpoint \<Rightarrow> endpoint \<Rightarrow> bool" where
  "ep_less lhs rhs =
     (if ep_af lhs = AF_INET then ep_key_v4 lhs < ep_key_v4 rhs else memcmp_less lhs rhs)"

definition ep_eq :: "endpoint \<Rightarrow> endpoint \<Rightarrow> bool" where
  "ep_eq lhs rhs \<longleftrightarrow> \<not> ep_less lhs rhs \<and> \<not> ep_less rhs lhs"

section \<open>Construction\<close>

text \<open>The overloads of \<open>as_in\<close>; \<open>e\<close> is the storage before the call.\<close>

definition as_in_raw :: "int \<Rightarrow> byte list \<Rightarrow> 16 word \<Rightarrow> endpoint \<Rightarrow> endpoint" where
  "as_in_raw family addr_in port e =
     (let e = ep_set_port port (ep_set_af family e)
      in if family = AF_INET then ep_set_len 16 (ep_put 4 (take 4 addr_in) e)
         else if family = AF_INET6 then ep_set_len 28 (ep_put 8 (take 16 addr_in) e)
         else as_unspec e)"

definition as_in6 :: "net_env \<Rightarrow> string \<Rightarrow> 16 word \<Rightarrow> 32 word \<Rightarrow> endpoint \<Rightarrow> endpoint" where
  "as_in6 env ip port scope e =
     (case ne_pton env AF_INET6 ip of
        Some a \<Rightarrow>
          ep_set_len 28 (ep_put 24 (le_bytes 4 scope) (ep_set_port port (ep_set_af AF_INET6 (ep_put 8 a e))))
      | None \<Rightarrow> as_unspec e)"

definition as_in4 :: "net_env \<Rightarrow> string \<Rightarrow> 16 word \<Rightarrow> endpoint \<Rightarrow> endpoint" where
  "as_in4 env ip port e =
     (case ne_pton env AF_INET ip of
        Some a \<Rightarrow> ep_set_len 16 (ep_set_port port (ep_set_af AF_INET (ep_put 4 a e)))
      | None \<Rightarrow> as_unspec e)"

definition as_in_v4 :: "32 word \<Rightarrow> 16 word \<Rightarrow> endpoint \<Rightarrow> endpoint" where
  "as_in_v4 addr port e = ep_set_port port (ep_set_addr_v4 addr e)"

text \<open>\<open>strchr\<close>: the part of the string from the first occurrence on.\<close>

definition strchr :: "string \<Rightarrow> char \<Rightarrow> string option" where
  "strchr s c = (case dropWhile (\<lambda>x. x \<noteq> c) s of [] \<Rightarrow> None | t \<Rightarrow> Some t)"

definition before_char :: "char \<Rightarrow> string \<Rightarrow> string" where
  "before_char c s = takeWhile (\<lambda>x. x \<noteq> c) s"

definition IN_MAX_ADDRSTRLEN :: nat where "IN_MAX_ADDRSTRLEN = 46"

text \<open>
  \<open>parse_in6_zone\<close>: \<open>endptr\<close> as the distance from \<open>ip\<close>.  The zone is looked for in the whole
  rest of the string, also behind \<open>endptr\<close>, and its name is all that follows the percent sign.
\<close>

definition parse_in6_zone :: "net_env \<Rightarrow> string \<Rightarrow> nat option \<Rightarrow> 32 word \<times> string" where
  "parse_in6_zone env ip endptr =
     (let (zone_value, endptr) =
            (case strchr ip (CHR ''%'') of
               Some z \<Rightarrow> (ne_ifindex env (tl z), Some (length ip - length z))
             | None \<Rightarrow> (0, endptr))
      in case endptr of
           Some n \<Rightarrow> (zone_value, take (min n (IN_MAX_ADDRSTRLEN - 1)) ip)
         | None \<Rightarrow> (zone_value, ip))"

definition as_in :: "net_env \<Rightarrow> string \<Rightarrow> 16 word \<Rightarrow> endpoint \<Rightarrow> endpoint" where
  "as_in env ip port e =
     (if strchr ip (CHR '':'') \<noteq> None
      then let (zone, ip) = parse_in6_zone env ip None in as_in6 env ip port zone e
      else as_in4 env ip port e)"

text \<open>\<open>atoi\<close>; a value outside \<open>int\<close> is undefined there.\<close>

fun digits_value :: "string \<Rightarrow> nat \<Rightarrow> nat" where
  "digits_value [] acc = acc"
| "digits_value (c # s) acc = (if is_digit c then digits_value s (acc * 10 + (of_char c - 48)) else acc)"

definition is_space :: "char \<Rightarrow> bool" where
  "is_space c \<longleftrightarrow> (of_char c :: nat) = 32 \<or> (9 \<le> (of_char c :: nat) \<and> (of_char c :: nat) \<le> 13)"

definition atoi :: "string \<Rightarrow> int result" where
  "atoi s =
     (let s = dropWhile is_space s;
          v = (if s \<noteq> [] \<and> hd s = CHR ''-'' then - int (digits_value (tl s) 0)
               else if s \<noteq> [] \<and> hd s = CHR ''+'' then int (digits_value (tl s) 0)
               else int (digits_value s 0))
      in if - (2 ^ 31) \<le> v \<and> v < 2 ^ 31 then Inr v else Inl Undefined)"

text \<open>
  \<open>as_is(const char*)\<close>.  The IPv4 branch copies the part before the colon into an array of
  \<open>IN_MAX_ADDRSTRLEN\<close> bytes without looking at its length.
\<close>

definition as_is_str :: "net_env \<Rightarrow> string \<Rightarrow> endpoint \<Rightarrow> endpoint result" where
  "as_is_str env str_ep e =
     (if str_ep \<noteq> [] \<and> hd str_ep = CHR ''[''
      then let ip = tl str_ep
           in case strchr ip (CHR '']'') of
                Some rbracket \<Rightarrow>
                  if tl rbracket \<noteq> [] \<and> hd (tl rbracket) = CHR '':''
                  then let (zone, addr) = parse_in6_zone env ip (Some (length ip - length rbracket))
                       in andthen (atoi (tl (tl rbracket))) (\<lambda>p. Inr (as_in6 env addr (word_of_int p) zone e))
                  else Inr (as_unspec e)
              | None \<Rightarrow> Inr (as_unspec e)
      else case strchr str_ep (CHR '':'') of
             Some colon \<Rightarrow>
               let addr = before_char (CHR '':'') str_ep
               in if length addr < IN_MAX_ADDRSTRLEN
                  then andthen (atoi (tl colon)) (\<lambda>p. Inr (as_in4 env addr (word_of_int p) e))
                  else Inl Undefined
           | None \<Rightarrow> Inr (as_unspec e))"

text \<open>\<open>ip(const char*)\<close>: the family is set even when the address does not parse.\<close>

definition ep_set_ip :: "net_env \<Rightarrow> string \<Rightarrow> endpoint \<Rightarrow> endpoint" where
  "ep_set_ip env addr e =
     (if strchr addr (CHR '':'') \<noteq> None
      then let e = ep_set_af AF_INET6 e;
               e = (case ne_pton env AF_INET6 addr of Some a \<Rightarrow> ep_put 8 a e | None \<Rightarrow> e)
           in ep_set_len 28 e
      else let e = ep_set_af AF_INET e;
               e = (case ne_pton env AF_INET addr of Some a \<Rightarrow> ep_put 4 a e | None \<Rightarrow> e)
           in ep_set_len 16 e)"

section \<open>Classification and formatting\<close>

definition is_global_in4_addr :: "32 word \<Rightarrow> bool" where
  "is_global_in4_addr a \<longleftrightarrow> \<not> (a AND 0xff = 0x7f) \<and> \<not> (a AND 0xffff = 0xfea9)"

definition is_global_in6_addr :: "byte list \<Rightarrow> bool" where
  "is_global_in6_addr a = (let high = a ! 0 AND 0xf0 in high \<noteq> 0 \<and> high \<noteq> 0xf0)"

definition is_global :: "endpoint \<Rightarrow> bool" where
  "is_global e =
     (if ep_af e = AF_INET then is_global_in4_addr (ep_s_addr e)
      else if ep_af e = AF_INET6 then is_global_in6_addr (ep_get 8 16 e)
      else False)"

definition fmt_no_local :: "32 word" where "fmt_no_local = 1"
definition fmt_no_port :: "32 word" where "fmt_no_port = 2"
definition fmt_no_port_0 :: "32 word" where "fmt_no_port_0 = 4"
definition fmt_no_un_path :: "32 word" where "fmt_no_un_path = 8"
definition fmt_default :: "32 word" where "fmt_default = fmt_no_port_0 OR fmt_no_un_path"

lemmas fmt_defs = fmt_no_local_def fmt_no_port_def fmt_no_port_0_def fmt_no_un_path_def fmt_default_def

definition max_fmt_len :: nat where
  "max_fmt_len = IN_MAX_ADDRSTRLEN + 2 + 6"

text \<open>\<open>format_to(char*, size_t, int)\<close>; \<open>inet_ntop\<close> is not expected to fail (\<open>strlen\<close> of a null pointer).\<close>

definition format_to :: "net_env \<Rightarrow> endpoint \<Rightarrow> nat \<Rightarrow> 32 word \<Rightarrow> string result" where
  "format_to env e buf_len flags =
     (if fmt_no_local AND flags = 0 \<or> is_global e
      then andthen
        (if ep_af e = AF_INET
         then (case ne_ntop env AF_INET (ep_get 4 4 e) buf_len of Some s \<Rightarrow> Inr s | None \<Rightarrow> Inl Undefined)
         else if ep_af e = AF_INET6
         then (case ne_ntop env AF_INET6 (ep_get 8 16 e) (buf_len - 1) of
                 Some s \<Rightarrow> Inr (''['' @ s @ '']'') | None \<Rightarrow> Inl Undefined)
         else Inr [])
        (\<lambda>s. Inr (if s \<noteq> [] \<and> flags AND fmt_no_port = 0 \<and> (flags AND fmt_no_port_0 = 0 \<or> ep_port e \<noteq> 0)
                  then s @ CHR '':'' # format_u (unat (ep_port e)) else s))
      else Inr [])"

definition to_string :: "net_env \<Rightarrow> endpoint \<Rightarrow> 32 word \<Rightarrow> string result" where
  "to_string env e flags = format_to env e max_fmt_len flags"

definition ep_ip :: "net_env \<Rightarrow> endpoint \<Rightarrow> string result" where
  "ep_ip env e = to_string env e (fmt_default OR fmt_no_port)"

text \<open>\<open>format_v4\<close>: the first occurrence of each mark is replaced by its byte of \<open>sin_addr\<close> and \<open>sin_port\<close>.\<close>

fun replace_mark :: "char \<Rightarrow> string \<Rightarrow> string \<Rightarrow> string" where
  "replace_mark m rep (a # b # s) =
     (if a = CHR ''%'' \<and> b = m then rep @ s else a # replace_mark m rep (b # s))"
| "replace_mark m rep s = s"

definition format_v4 :: "endpoint \<Rightarrow> string \<Rightarrow> string" where
  "format_v4 e fmt =
     (let addr_bytes = ep_get 4 4 e @ ep_get 2 2 e
      in foldl (\<lambda>s (idx, m). replace_mark m (format_u (unat (addr_bytes ! idx))) s) fmt
           (zip [0..<6] ''NHLMlh''))"

text \<open>The conversions of \<open>InetNtop\<close>, on a host whose interfaces are given by \<open>ifs\<close>.\<close>

definition compat_env :: "(string \<Rightarrow> 32 word) \<Rightarrow> net_env" where
  "compat_env ifs = \<lparr>ne_pton = inet_pton, ne_ntop = inet_ntop, ne_ifindex = ifs\<rparr>"

section \<open>Facts on the storage\<close>

lemma length_ep_put [simp]: "k + length bs \<le> length e \<Longrightarrow> length (ep_put k bs e) = length e"
  by (simp add: ep_put_def)

lemma ep_get_put_same [simp]: "n = length bs \<Longrightarrow> k + n \<le> length e \<Longrightarrow> ep_get k n (ep_put k bs e) = bs"
  by (simp add: ep_get_def ep_put_def splice_def)

lemma ep_get_put_other:
  assumes "k + n \<le> j \<or> j + length bs \<le> k" "j + length bs \<le> length e"
  shows "ep_get k n (ep_put j bs e) = ep_get k n e"
proof (rule nth_equalityI)
  show "length (ep_get k n (ep_put j bs e)) = length (ep_get k n e)"
    using assms(2) by (simp add: ep_get_def)
  fix i assume "i < length (ep_get k n (ep_put j bs e))"
  then have "i < n" "k + i < length e" using assms(2) by (auto simp: ep_get_def)
  with assms show "ep_get k n (ep_put j bs e) ! i = ep_get k n e ! i"
    by (auto simp: ep_get_def ep_put_def splice_def nth_append)
qed

lemma length_ep_get [simp]: "k + n \<le> length e \<Longrightarrow> length (ep_get k n e) = n"
  by (simp add: ep_get_def)

lemma ep_valid_put [simp]: "k + length bs \<le> 32 \<Longrightarrow> ep_valid e \<Longrightarrow> ep_valid (ep_put k bs e)"
  by (simp add: ep_valid_def)

lemma ep_valid_length [simp]: "ep_valid e \<Longrightarrow> length e = 32"
  by (simp add: ep_valid_def)

lemmas ep_layout = ep_get_put_other ep_set_len_def ep_set_af_def ep_set_port_def ep_af_def ep_sin_port_def
  ep_s_addr_def ep_port_def

lemma ep_af_numbers [simp]:
  "uint (word_of_int AF_INET :: 16 word) = AF_INET" "uint (word_of_int AF_INET6 :: 16 word) = AF_INET6"
  "uint (word_of_int AF_UNSPEC :: 16 word) = AF_UNSPEC" "AF_INET6 \<noteq> AF_INET" "AF_INET \<noteq> AF_INET6"
  "AF_UNSPEC \<noteq> AF_INET" "AF_UNSPEC \<noteq> AF_INET6"
  by (simp_all add: af_defs)

lemma network_to_host_port [simp]: "network_to_host (host_to_network (p :: 16 word)) = p"
  by (rule network_to_host_inverse)

lemma as_in4_fields:
  assumes "ep_valid e" "ne_pton env AF_INET ip = Some a" "length a = 4"
  shows "ep_valid (as_in4 env ip port e) \<and> ep_af (as_in4 env ip port e) = AF_INET \<and>
    ep_get 4 4 (as_in4 env ip port e) = a \<and> ep_port (as_in4 env ip port e) = port"
  using assms by (simp add: as_in4_def ep_layout)

lemma as_in6_fields:
  assumes "ep_valid e" "ne_pton env AF_INET6 ip = Some a" "length a = 16"
  shows "ep_valid (as_in6 env ip port scope e) \<and> ep_af (as_in6 env ip port scope e) = AF_INET6 \<and>
    ep_get 8 16 (as_in6 env ip port scope e) = a \<and> ep_port (as_in6 env ip port scope e) = port \<and>
    ep_scope_id (as_in6 env ip port scope e) = scope"
  using assms by (simp add: as_in6_def ep_scope_id_def ep_layout)

lemma as_unspec_fields: "ep_valid e \<Longrightarrow> ep_valid (as_unspec e) \<and> ep_af (as_unspec e) = AF_UNSPEC"
  by (simp add: as_unspec_def ep_layout)

section \<open>IPv4 endpoints as text\<close>

lemma char_not_in_number: "\<not> is_digit c \<Longrightarrow> c \<notin> set (format_u n)"
proof (induction n rule: format_u.induct)
  case (1 n)
  have d: "char_of (48 + m) \<noteq> c" if "m < 10" for m :: nat
    using is_digit_char [OF that] 1(2) by metis
  show ?case
    by (subst format_u.simps) (use 1 d in \<open>auto dest: sym\<close>)
qed

lemma colon_not_in_v4_text: "CHR '':'' \<notin> set (v4_text a)"
proof -
  have "CHR '':'' \<notin> set (format_u n)" for n by (rule char_not_in_number) (simp add: is_digit_def)
  then show ?thesis by (auto simp: v4_text_def v4_front_def)
qed

lemma format_u_not_Nil: "format_u n \<noteq> []"
  by (subst format_u.simps) simp

lemma v4_text_first: "\<exists>c s. v4_text a = c # s \<and> is_digit c"
proof -
  have f: "\<exists>c s. format_u n = c # s \<and> is_digit c" for n
  proof (induction n rule: format_u.induct)
    case (1 n)
    then show ?case by (subst format_u.simps) (auto simp: is_digit_char)
  qed
  show ?thesis
  proof (cases "butlast a")
    case Nil
    then show ?thesis using f [of "unat (last a)"] by (simp add: v4_text_def v4_front_def)
  next
    case (Cons b bs)
    then show ?thesis using f [of "unat b"] by (auto simp: v4_text_def v4_front_def)
  qed
qed

lemma strchr_append: "c \<notin> set s \<Longrightarrow> strchr (s @ c # t) c = Some (c # t)"
proof -
  assume "c \<notin> set s"
  then have "dropWhile (\<lambda>x. x \<noteq> c) (s @ c # t) = c # t" by (induction s) auto
  then show ?thesis by (simp add: strchr_def)
qed

lemma before_char_append: "c \<notin> set s \<Longrightarrow> before_char c (s @ c # t) = s"
  unfolding before_char_def by (induction s) auto

lemma strchr_None: "c \<notin> set s \<Longrightarrow> strchr s c = None"
proof -
  assume "c \<notin> set s"
  then have "dropWhile (\<lambda>x. x \<noteq> c) s = []" by (induction s) auto
  then show ?thesis unfolding strchr_def by (simp only: list.case)
qed

lemma digits_value_format_u: "digits_value (format_u n @ []) 0 = n"
proof -
  have "digits_value (format_u n @ s) 0 = digits_value s n" for s
  proof (induction n arbitrary: s rule: format_u.induct)
    case (1 n)
    show ?case
    proof (cases "n < 10")
      case True
      then show ?thesis by (simp add: format_u_digit)
    next
      case False
      have "format_u n = format_u (n div 10) @ [char_of (48 + n mod 10)]"
        using False format_u_snoc [of "n div 10" "n mod 10"] by simp
      then show ?thesis using 1 [OF False] by simp
    qed
  qed
  from this [of "[]"] show ?thesis by simp
qed

lemma format_u_first: "\<exists>c s. format_u n = c # s \<and> is_digit c"
proof (induction n rule: format_u.induct)
  case (1 n)
  then show ?case by (subst format_u.simps) auto
qed

lemma atoi_format_u: "n < 2 ^ 31 \<Longrightarrow> atoi (format_u n) = Inr (int n)"
proof -
  assume n: "n < 2 ^ 31"
  obtain c s where c: "format_u n = c # s" "is_digit c" using format_u_first by blast
  then have "\<not> is_space c" "c \<noteq> CHR ''-''" "c \<noteq> CHR ''+''"
    by (auto simp: is_digit_def is_space_def)
  moreover have "digits_value (c # s) 0 = n" using digits_value_format_u [of n] c(1) by simp
  ultimately show ?thesis using n by (simp add: atoi_def c(1) Let_def)
qed


section \<open>Properties\<close>

lemma ep_ip_v4:
  assumes "ep_valid e" "ep_af e = AF_INET"
  shows "to_string (compat_env ifs) e fmt_default =
    Inr (v4_text (ep_get 4 4 e) @ (if ep_port e = 0 then [] else CHR '':'' # format_u (unat (ep_port e))))"
proof -
  have "length (ep_get 4 4 e) = 4" using assms(1) by simp
  then have "inet_ntop4 (ep_get 4 4 e) max_fmt_len = Some (v4_text (ep_get 4 4 e))" "v4_text (ep_get 4 4 e) \<noteq> []"
    using length_v4_text [of "ep_get 4 4 e"] by (auto simp: inet_ntop4_text max_fmt_len_def IN_MAX_ADDRSTRLEN_def)
  then show ?thesis using assms(2)
    by (simp add: to_string_def format_to_def compat_env_def inet_ntop_def fmt_defs)
qed

text \<open>
  C37: an IPv4 endpoint survives its text form.  What \<open>to_string\<close> prints for an endpoint with a
  port (\<open>a.b.c.d:port\<close>) is read by \<open>as_is(const char*)\<close> into an endpoint of the same family,
  address and port, whatever the storage held before.
\<close>

theorem v4_endpoint_text_roundtrip:
  assumes "ep_valid e" "ep_valid e0" "ep_af e = AF_INET" "ep_port e \<noteq> 0"
  shows "\<exists>s e'. to_string (compat_env ifs) e fmt_default = Inr s \<and> as_is_str (compat_env ifs) s e0 = Inr e' \<and>
    ep_af e' = AF_INET \<and> ep_get 4 4 e' = ep_get 4 4 e \<and> ep_port e' = ep_port e"
proof -
  let ?a = "ep_get 4 4 e" and ?p = "format_u (unat (ep_port e))"
  have len: "length ?a = 4" using assms(1) by simp
  let ?s = "v4_text ?a @ CHR '':'' # ?p"
  obtain c r where first: "v4_text ?a = c # r" "is_digit c" using v4_text_first by blast
  then have "\<not> (?s \<noteq> [] \<and> hd ?s = CHR ''['')" by (auto simp: is_digit_def)
  moreover have "strchr ?s (CHR '':'') = Some (CHR '':'' # ?p)" by (rule strchr_append) (rule colon_not_in_v4_text)
  moreover have "before_char (CHR '':'') ?s = v4_text ?a"
    by (rule before_char_append) (rule colon_not_in_v4_text)
  moreover have "length (v4_text ?a) < IN_MAX_ADDRSTRLEN"
    using length_v4_text [OF len] by (simp add: IN_MAX_ADDRSTRLEN_def)
  moreover have "unat (ep_port e) < 2 ^ 31"
    by (rule less_trans [OF unsigned_less]) simp
  ultimately have "as_is_str (compat_env ifs) ?s e0 = Inr (as_in4 (compat_env ifs) (v4_text ?a) (ep_port e) e0)"
    by (simp add: as_is_str_def atoi_format_u Let_def)
  moreover have "ne_pton (compat_env ifs) AF_INET (v4_text ?a) = Some ?a"
    by (simp add: compat_env_def inet_pton_def inet_pton4_text len)
  ultimately show ?thesis
    using as_in4_fields [OF assms(2) _ len, of "compat_env ifs" "v4_text ?a" "ep_port e"]
      ep_ip_v4 [OF assms(1,3), of ifs] assms(4) by auto
qed

definition sample_ep :: endpoint where
  "sample_ep = as_in4 (compat_env (\<lambda>_. 0)) (v4_text [127, 0, 0, 1]) 80 (replicate 32 0)"

theorem v4_endpoint_text_roundtrip_witness:
  "\<exists>s e'. to_string (compat_env (\<lambda>_. 0)) sample_ep fmt_default = Inr s \<and>
    as_is_str (compat_env (\<lambda>_. 0)) s (replicate 32 7) = Inr e' \<and> ep_get 4 4 e' = [127, 0, 0, 1] \<and> ep_port e' = 80"
proof -
  have v: "ep_valid (replicate 32 b)" for b :: byte by (simp add: ep_valid_def)
  have "ne_pton (compat_env (\<lambda>_. 0)) AF_INET (v4_text [127, 0, 0, 1]) = Some [127, 0, 0, 1]"
    by (simp add: compat_env_def inet_pton_def inet_pton4_text)
  from as_in4_fields [OF v this, of 80] have
    "ep_valid sample_ep" "ep_af sample_ep = AF_INET" "ep_get 4 4 sample_ep = [127, 0, 0, 1]" "ep_port sample_ep = 80"
    by (simp_all add: sample_ep_def)
  then show ?thesis
    using v4_endpoint_text_roundtrip [of sample_ep "replicate 32 7" "\<lambda>_. 0", OF _ v] by auto
qed

text \<open>
  \<open>operator<\<close> does not order IPv4 endpoints: it compares the sum of the address and the port
  as they lie in memory, so two endpoints with different addresses and ports are equivalent
  (and one is equal to the other by \<open>operator==\<close>) exactly when these sums agree.
\<close>

theorem v4_order_is_sum:
  assumes "ep_af a = AF_INET" "ep_af b = AF_INET"
  shows "ep_eq a b \<longleftrightarrow> unat (ep_s_addr a) + unat (ep_sin_port a) = unat (ep_s_addr b) + unat (ep_sin_port b)"
  using assms by (auto simp: ep_eq_def ep_less_def ep_key_v4_def)

lemma as_in_v4_fields:
  assumes "ep_valid e"
  shows "ep_valid (as_in_v4 addr port e) \<and> ep_af (as_in_v4 addr port e) = AF_INET \<and>
    ep_sin_port (as_in_v4 addr port e) = host_to_network port \<and> ep_s_addr (as_in_v4 addr port e) = host_to_network addr"
  using assms by (simp add: as_in_v4_def ep_set_addr_v4_def ep_layout)

theorem v4_order_is_sum_witness:
  "ep_eq (as_in_v4 0x0A000001 1 (replicate 32 0)) (as_in_v4 0x0B000001 0xFF00 (replicate 32 0)) \<and>
   ep_addr_v4 (as_in_v4 0x0A000001 1 (replicate 32 0)) \<noteq> ep_addr_v4 (as_in_v4 0x0B000001 0xFF00 (replicate 32 0))"
proof -
  have v: "ep_valid (replicate 32 (0 :: byte))" by (simp add: ep_valid_def)
  have n: "host_to_network (0x0A000001 :: 32 word) = 0x0100000A" "host_to_network (0x0B000001 :: 32 word) = 0x0100000B"
      "host_to_network (1 :: 16 word) = 0x0100" "host_to_network (0xFF00 :: 16 word) = 0x00FF"
    by (simp_all add: host_to_network_bswap wire_width_def flip: SWAP_LONG_bswap SWAP_SHORT_bswap)
      (simp_all add: SWAP_LONG_def SWAP_SHORT_def push_bit_eq_mult drop_bit_eq_div)
  note f = as_in_v4_fields [OF v]
  have "network_to_host (0x0100000A :: 32 word) = 0x0A000001" "network_to_host (0x0100000B :: 32 word) = 0x0B000001"
    using network_to_host_inverse [of "0x0A000001 :: 32 word"] network_to_host_inverse [of "0x0B000001 :: 32 word"]
    by (simp_all add: n)
  then show ?thesis
    by (subst v4_order_is_sum) (simp_all add: f n ep_addr_v4_def)
qed

text \<open>
  The IPv4 branch of \<open>as_is(const char*)\<close> does not bound the address part: a string whose
  first colon stands behind 46 or more other characters writes past its local array.
\<close>

theorem as_is_overflows_address_part:
  assumes "s \<noteq> []" "hd s \<noteq> CHR ''[''" "CHR '':'' \<notin> set s" "46 \<le> length s"
  shows "as_is_str env (s @ CHR '':'' # p) e = Inl Undefined"
proof -
  have "before_char (CHR '':'') (s @ CHR '':'' # p) = s"
    using assms(3) by (rule before_char_append)
  then show ?thesis using assms by (simp add: as_is_str_def strchr_append IN_MAX_ADDRSTRLEN_def Let_def)
qed

theorem as_is_overflows_address_part_witness:
  "as_is_str (compat_env (\<lambda>_. 0)) (replicate 46 (CHR ''a'') @ CHR '':'' # ''80'') (replicate 32 0) = Inl Undefined"
  by (rule as_is_overflows_address_part) simp_all

text \<open>
  In the bracketed form \<open>[address%zone]:port\<close> the zone is resolved with everything behind the
  percent sign, the bracket and the port included, as the interface name, while the address
  and the port are taken properly; only \<open>as_in(address%zone, port)\<close> looks the zone itself up.
\<close>

theorem bracketed_zone_lookup:
  assumes "CHR ''%'' \<notin> set a" "CHR '']'' \<notin> set a" "CHR '']'' \<notin> set z" "length a < 46" "n < 2 ^ 31" "CHR '':'' \<in> set a"
  shows "as_is_str env (CHR ''['' # a @ CHR ''%'' # z @ '']:'' @ format_u n) e =
      Inr (as_in6 env a (of_nat n) (ne_ifindex env (z @ '']:'' @ format_u n)) e) \<and>
    as_in env (a @ CHR ''%'' # z) p e = as_in6 env a p (ne_ifindex env z) e"
proof -
  let ?t = "z @ '']:'' @ format_u n"
  have zone: "parse_in6_zone env (a @ CHR ''%'' # t) x = (ne_ifindex env t, a)" for t x
    using assms(1,4) by (simp add: parse_in6_zone_def strchr_append IN_MAX_ADDRSTRLEN_def)
  have "CHR '']'' \<notin> set (a @ CHR ''%'' # z)" using assms by simp
  from strchr_append [OF this, of "CHR '':'' # format_u n"]
  have "strchr (a @ CHR ''%'' # ?t) (CHR '']'') = Some (CHR '']'' # CHR '':'' # format_u n)" by simp
  then have "as_is_str env (CHR ''['' # a @ CHR ''%'' # ?t) e = Inr (as_in6 env a (of_nat n) (ne_ifindex env ?t) e)"
    by (simp add: as_is_str_def zone atoi_format_u [OF assms(5)] Let_def)
  moreover have "strchr (a @ CHR ''%'' # z) (CHR '':'') \<noteq> None"
    using assms(6) by (auto simp: strchr_def dropWhile_eq_Nil_conv split: list.splits)
  ultimately show ?thesis by (simp add: as_in_def zone)
qed

theorem bracketed_zone_lookup_witness:
  "as_is_str (compat_env (\<lambda>s. if s = ''eth0'' then 2 else 0)) (CHR ''['' # ''fe80::1'' @ CHR ''%'' # ''eth0'' @ '']:'' @ format_u 53) (replicate 32 0)
     = Inr (as_in6 (compat_env (\<lambda>s. if s = ''eth0'' then 2 else 0)) ''fe80::1'' 53 0 (replicate 32 0))"
  using bracketed_zone_lookup [of "''fe80::1''" "''eth0''" 53 "compat_env (\<lambda>s. if s = ''eth0'' then 2 else 0)" "replicate 32 0" 0]
  by (simp add: compat_env_def)

end
