(* ===== verification/ConcurrentQueue.thy ===== *)
theory ConcurrentQueue
  imports Prelude
begin

text \<open>
  The queues between the user's threads and the service thread
  (\<open>yasio/impl/concurrent_queue.hpp\<close>, the build without \<open>YASIO_USE_SPSC_QUEUE\<close>).  The plain queue
  holds the send operations of a transport; the dual queue, which the consumer empties from a
  second list it swaps in, holds the events.  Every operation is one critical section of the
  queue's mutex (\<open>consume\<close>: its swap), so an execution is a sequence of operations.
\<close>

section \<open>The plain queue\<close>

text \<open>\<open>concurrent_queue_primitive\<close>; \<open>peek\<close> of an empty queue is the null item, \<open>pop\<close> of one is undefined.\<close>

type_synonym 'a queue_primitive = "'a list"

definition cq_emplace :: "'a \<Rightarrow> 'a queue_primitive \<Rightarrow> 'a queue_primitive" where
  "cq_emplace x q = q @ [x]"

definition cq_peek :: "'a queue_primitive \<Rightarrow> 'a option" where
  "cq_peek q = (if q \<noteq> [] then Some (hd q) else None)"

definition cq_pop :: "'a queue_primitive \<Rightarrow> 'a queue_primitive result" where
  "cq_pop q = (case q of [] \<Rightarrow> Inl Undefined | x # xs \<Rightarrow> Inr xs)"

definition cq_empty :: "'a queue_primitive \<Rightarrow> bool" where
  "cq_empty q \<longleftrightarrow> q = []"

definition cq_clear :: "'a queue_primitive \<Rightarrow> 'a queue_primitive" where
  "cq_clear q = []"

section \<open>The dual queue\<close>

record 'a dual_queue =
  dq_queue :: "'a queue_primitive"
  dq_deal :: "'a list"

definition dq_new :: "'a dual_queue" where
  "dq_new = \<lparr>dq_queue = [], dq_deal = []\<rparr>"

definition dq_emplace :: "'a \<Rightarrow> 'a dual_queue \<Rightarrow> 'a dual_queue" where
  "dq_emplace x q = q\<lparr>dq_queue := cq_emplace x (dq_queue q)\<rparr>"

text \<open>\<open>empty\<close> is inherited: it looks at the producer's list alone.\<close>

definition dq_empty :: "'a dual_queue \<Rightarrow> bool" where
  "dq_empty q = cq_empty (dq_queue q)"

definition dq_count :: "'a dual_queue \<Rightarrow> nat" where
  "dq_count q = length (dq_queue q) + length (dq_deal q)"

text \<open>
  \<open>consume(count, func)\<close>: the events \<open>func\<close> is called with, in order, and the queue after
  it; the loop stops when the list swapped in is empty.
\<close>

fun dq_consume_loop :: "nat \<Rightarrow> 'a list \<Rightarrow> 'a list \<times> 'a list" where
  "dq_consume_loop (Suc count) (x # deal) = (let (out, rest) = dq_consume_loop count deal in (x # out, rest))"
| "dq_consume_loop count deal = ([], deal)"

definition dq_consume :: "int \<Rightarrow> 'a dual_queue \<Rightarrow> 'a list \<times> 'a dual_queue" where
  "dq_consume count q =
     (if dq_deal q = [] \<and> dq_queue q = [] then ([], q)
      else let q = (if dq_deal q = [] then \<lparr>dq_queue = dq_deal q, dq_deal = dq_queue q\<rparr> else q);
               (out, rest) = dq_consume_loop (nat count) (dq_deal q)
           in (out, q\<lparr>dq_deal := rest\<rparr>))"

definition dq_clear :: "'a dual_queue \<Rightarrow> 'a dual_queue" where
  "dq_clear q = q\<lparr>dq_queue := cq_clear (dq_queue q), dq_deal := []\<rparr>"

section \<open>Interface of an event queue\<close>

locale event_queue =
  fixes emplace :: "'a \<Rightarrow> 'q \<Rightarrow> 'q"
    and consume :: "int \<Rightarrow> 'q \<Rightarrow> 'a list \<times> 'q"
    and contents :: "'q \<Rightarrow> 'a list"
  assumes contents_emplace: "contents (emplace x q) = contents q @ [x]"
    and contents_consume: "consume n q = (out, q') \<Longrightarrow> out @ contents q' = contents q \<and> int (length out) \<le> max 0 n"

datatype 'a queue_op = Produce 'a | Consume int

fun run_ops :: "('a \<Rightarrow> 'q \<Rightarrow> 'q) \<Rightarrow> (int \<Rightarrow> 'q \<Rightarrow> 'a list \<times> 'q) \<Rightarrow> 'a queue_op list \<Rightarrow> 'q \<Rightarrow> 'a list \<times> 'q" where
  "run_ops emplace consume [] q = ([], q)"
| "run_ops emplace consume (Produce x # ops) q = run_ops emplace consume ops (emplace x q)"
| "run_ops emplace consume (Consume n # ops) q =
     (let (out, q) = consume n q; (outs, q) = run_ops emplace consume ops q in (out @ outs, q))"

fun produced :: "'a queue_op list \<Rightarrow> 'a list" where
  "produced [] = []"
| "produced (Produce x # ops) = x # produced ops"
| "produced (Consume n # ops) = produced ops"

context event_queue begin

text \<open>What was delivered followed by what is still queued is what was queued and produced, in order.\<close>

lemma fifo:
  "run_ops emplace consume ops q = (out, q') \<Longrightarrow> out @ contents q' = contents q @ produced ops"
proof (induction ops arbitrary: q out q')
  case (Cons op ops)
  show ?case
  proof (cases op)
    case (Produce x)
    with Cons show ?thesis by (simp add: contents_emplace)
  next
    case (Consume n)
    obtain out1 q1 where q1: "consume n q = (out1, q1)" by fastforce
    obtain out2 q2 where q2: "run_ops emplace consume ops q1 = (out2, q2)" by fastforce
    from Cons.IH [OF q2] contents_consume [OF q1] Cons.prems show ?thesis
      by (auto simp: Consume q1 q2)
  qed
qed simp

end

definition dq_contents :: "'a dual_queue \<Rightarrow> 'a list" where
  "dq_contents q = dq_deal q @ dq_queue q"

lemma dq_consume_loop_eq: "dq_consume_loop n xs = (take n xs, drop n xs)"
  by (induction n xs rule: dq_consume_loop.induct) (simp_all add: Let_def)

lemma dq_consume_eq:
  "dq_consume n q =
     (let d = (if dq_deal q = [] then dq_queue q else dq_deal q);
          p = (if dq_deal q = [] then [] else dq_queue q)
      in (take (nat n) d, \<lparr>dq_queue = p, dq_deal = drop (nat n) d\<rparr>))"
  by (cases q) (simp add: dq_consume_def dq_consume_loop_eq Let_def)

interpretation events: event_queue dq_emplace dq_consume dq_contents
proof
  fix n :: int and q q' :: "'a dual_queue" and out
  assume "dq_consume n q = (out, q')"
  then show "out @ dq_contents q' = dq_contents q \<and> int (length out) \<le> max 0 n"
    by (auto simp: dq_consume_eq dq_contents_def Let_def split: if_splits)
qed (simp add: dq_contents_def dq_emplace_def cq_emplace_def)

section \<open>Properties\<close>

text \<open>
  C32: the event queue is first in, first out, whatever way the producers' \<open>emplace\<close> and the
  consumer's \<open>consume\<close> are interleaved: the events delivered, followed by those still counted by
  \<open>count\<close>, are exactly those produced, in their order; none is lost, repeated or overtaken.
\<close>

theorem event_queue_fifo:
  "let (out, q) = run_ops dq_emplace dq_consume ops dq_new
   in out @ dq_contents q = produced ops \<and> length out + dq_count q = length (produced ops)"
proof (cases "run_ops dq_emplace dq_consume ops (dq_new :: 'a dual_queue)")
  case (Pair out q)
  then have *: "out @ dq_contents q = produced ops"
    using events.fifo [of ops dq_new out q] by (simp add: dq_contents_def dq_new_def)
  have "length out + dq_count q = length (produced ops)"
    unfolding * [symmetric] by (simp add: dq_contents_def dq_count_def)
  with * show ?thesis by (simp add: Pair)
qed

text \<open>
  One call of \<open>consume\<close> with the largest count empties a queue only when nothing was left
  in the consumer's list: events produced since then stay behind, and when there are none
  \<open>empty\<close> reports an empty queue although the consumer's list still holds events.
\<close>

theorem consume_once_may_leave_events:
  assumes "length (dq_deal q) < 2 ^ 31" "length (dq_queue q) < 2 ^ 31"
  shows "dq_contents (snd (dq_consume (2 ^ 31 - 1) q)) = (if dq_deal q = [] then [] else dq_queue q) \<and>
    (dq_empty q \<and> dq_count q \<noteq> 0 \<longleftrightarrow> dq_queue q = [] \<and> dq_deal q \<noteq> [])"
  using assms by (auto simp: dq_consume_eq dq_contents_def Let_def dq_empty_def cq_empty_def dq_count_def)

theorem consume_once_may_leave_events_witness:
  "dq_contents (snd (dq_consume (2 ^ 31 - 1) \<lparr>dq_queue = [2 :: nat], dq_deal = [1]\<rparr>)) = [2]"
  using consume_once_may_leave_events [of "\<lparr>dq_queue = [2 :: nat], dq_deal = [1]\<rparr>"] by simp

end
