(* ===== verification/IoTypes.thy ===== *)
theory IoTypes
  imports Endpoint ConcurrentQueue
begin

text \<open>
  The data the I/O components share: masks and flags, error codes, the states of a connection,
  the records \<open>io_base\<close>, \<open>io_channel\<close> and \<open>io_transport\<close> (\<open>yasio/io_service.hpp\<close>), and the
  events the service fires.  A socket is its native handle while it is open.
\<close>

section \<open>Bit masks\<close>

definition setbits :: "'a::len word \<Rightarrow> 'a word \<Rightarrow> 'a word" where
  "setbits x m = x OR m"

definition clearbits :: "'a::len word \<Rightarrow> 'a word \<Rightarrow> 'a word" where
  "clearbits x m = x AND NOT m"

definition testbits :: "'a::len word \<Rightarrow> 'a word \<Rightarrow> bool" where
  "testbits x m \<longleftrightarrow> x AND m \<noteq> 0"

definition setlobyte :: "32 word \<Rightarrow> 32 word \<Rightarrow> 32 word" where
  "setlobyte x v = (x AND NOT 0xff) OR v"

definition YCM_CLIENT :: "32 word" where "YCM_CLIENT = 1"
definition YCM_SERVER :: "32 word" where "YCM_SERVER = 2"
definition YCM_TCP :: "32 word" where "YCM_TCP = 4"
definition YCM_UDP :: "32 word" where "YCM_UDP = 8"
definition YCM_KCP :: "32 word" where "YCM_KCP = 16"
definition YCM_SSL :: "32 word" where "YCM_SSL = 32"
definition YCM_UDS :: "32 word" where "YCM_UDS = 64"
definition YCK_TCP_CLIENT :: "32 word" where "YCK_TCP_CLIENT = YCM_TCP OR YCM_CLIENT"
definition YCK_TCP_SERVER :: "32 word" where "YCK_TCP_SERVER = YCM_TCP OR YCM_SERVER"
definition YCK_UDP_CLIENT :: "32 word" where "YCK_UDP_CLIENT = YCM_UDP OR YCM_CLIENT"
definition YCK_UDP_SERVER :: "32 word" where "YCK_UDP_SERVER = YCM_UDP OR YCM_SERVER"
definition YCF_REUSEADDR :: "32 word" where "YCF_REUSEADDR = 512"
definition YCF_EXCLUSIVEADDRUSE :: "32 word" where "YCF_EXCLUSIVEADDRUSE = 1024"
definition YCPF_MCAST :: "32 word" where "YCPF_MCAST = 0x20000"
definition YCPF_MCAST_LOOPBACK :: "32 word" where "YCPF_MCAST_LOOPBACK = 0x40000"
definition YCPF_HOST_DIRTY :: "32 word" where "YCPF_HOST_DIRTY = 0x80000"
definition YCPF_PORT_DIRTY :: "32 word" where "YCPF_PORT_DIRTY = 0x100000"
definition YCPF_NEEDS_QUERY :: "32 word" where "YCPF_NEEDS_QUERY = 0x200000"

definition YOPM_OPEN :: "8 word" where "YOPM_OPEN = 1"
definition YOPM_CLOSE :: "8 word" where "YOPM_CLOSE = 2"
definition YSTF_STOP :: "8 word" where "YSTF_STOP = 4"
definition YSTF_FINALIZE :: "8 word" where "YSTF_FINALIZE = 8"

lemmas mask_defs = YCM_CLIENT_def YCM_SERVER_def YCM_TCP_def YCM_UDP_def YCM_KCP_def YCM_SSL_def YCM_UDS_def
  YCK_TCP_CLIENT_def YCK_TCP_SERVER_def YCK_UDP_CLIENT_def YCK_UDP_SERVER_def YCF_REUSEADDR_def
  YCF_EXCLUSIVEADDRUSE_def YCPF_MCAST_def YCPF_MCAST_LOOPBACK_def YCPF_HOST_DIRTY_def YCPF_PORT_DIRTY_def
  YCPF_NEEDS_QUERY_def YOPM_OPEN_def YOPM_CLOSE_def YSTF_STOP_def YSTF_FINALIZE_def

section \<open>Error codes\<close>

text \<open>The numbers of \<open>errno\<close> on Linux, and \<open>yasio::errc\<close>.\<close>

definition EPERM :: int where "EPERM = 1"
definition EINTR :: int where "EINTR = 4"
definition EBADF :: int where "EBADF = 9"
definition EAGAIN :: int where "EAGAIN = 11"
definition EWOULDBLOCK :: int where "EWOULDBLOCK = 11"
definition EMSGSIZE :: int where "EMSGSIZE = 90"
definition ENOBUFS :: int where "ENOBUFS = 105"
definition ETIMEDOUT :: int where "ETIMEDOUT = 110"
definition EINPROGRESS :: int where "EINPROGRESS = 115"
definition ERR_eof :: int where "ERR_eof = -20"
definition ERR_shutdown_by_localhost :: int where "ERR_shutdown_by_localhost = -24"
definition ERR_no_available_address :: int where "ERR_no_available_address = -25"
definition ERR_resolve_host_failed :: int where "ERR_resolve_host_failed = -26"
definition ERR_invalid_packet :: int where "ERR_invalid_packet = -27"

lemmas errno_defs = EPERM_def EINTR_def EBADF_def EAGAIN_def EWOULDBLOCK_def EMSGSIZE_def ENOBUFS_def ETIMEDOUT_def
  EINPROGRESS_def ERR_eof_def ERR_shutdown_by_localhost_def ERR_no_available_address_def
  ERR_resolve_host_failed_def ERR_invalid_packet_def

definition not_send_error :: "int \<Rightarrow> bool" where
  "not_send_error e \<longleftrightarrow> e = EWOULDBLOCK \<or> e = EAGAIN \<or> e = EINTR \<or> e = ENOBUFS"

definition not_recv_error :: "int \<Rightarrow> bool" where
  "not_recv_error e \<longleftrightarrow> e = EWOULDBLOCK \<or> e = EAGAIN \<or> e = EINTR"

section \<open>States\<close>

datatype io_state = CLOSED | RESOLVING | CONNECTING | OPENED

datatype error_stage = NONE | READ | WRITE | OPEN_SOCKET | BIND_SOCKET | LISTEN_SOCKET

record io_base =
  io_id :: nat
  io_socket :: "nat option"  \<comment> \<open>the native handle of an open socket\<close>
  io_error :: int
  io_error_stage :: error_stage
  io_pollout :: bool
  io_state :: io_state
  io_opmask :: "8 word"

definition set_last_errno :: "int \<Rightarrow> error_stage \<Rightarrow> ('a io_base_scheme) \<Rightarrow> 'a io_base_scheme" where
  "set_last_errno error stage b = b\<lparr>io_error := error, io_error_stage := stage\<rparr>"

section \<open>Channels\<close>

record unpack_params =
  max_frame_length :: int
  length_field_offset :: int
  length_field_length :: int
  length_adjustment :: int
  initial_bytes_to_strip :: int
  no_bswap :: int

definition default_uparams :: unpack_params where
  "default_uparams = \<lparr>max_frame_length = 10 * 1024 * 1024, length_field_offset = -1, length_field_length = 4,
     length_adjustment = 0, initial_bytes_to_strip = 0, no_bswap = 0\<rparr>"

record io_channel = io_base +
  ch_properties :: "32 word"
  ch_local_port :: "16 word"
  ch_remote_port :: "16 word"
  ch_query_success_time :: int
  ch_index :: nat
  ch_stream :: bool  \<comment> \<open>\<open>socktype_ == SOCK_STREAM\<close>\<close>
  ch_uparams :: unpack_params
  ch_decode_len :: "(byte list \<Rightarrow> int result) option"  \<comment> \<open>a custom \<open>decode_len_\<close>\<close>
  ch_local_host :: string
  ch_remote_host :: string
  ch_remote_eps :: "endpoint list"
  ch_bytes_transferred :: int
  ch_connect_id :: "32 word"

definition ch_is :: "32 word \<Rightarrow> io_channel \<Rightarrow> bool" where
  "ch_is m ctx \<longleftrightarrow> testbits (ch_properties ctx) m"

definition set_props :: "32 word \<Rightarrow> io_channel \<Rightarrow> io_channel" where
  "set_props m ctx = ctx\<lparr>ch_properties := setbits (ch_properties ctx) m\<rparr>"

definition clear_props :: "32 word \<Rightarrow> io_channel \<Rightarrow> io_channel" where
  "clear_props m ctx = ctx\<lparr>ch_properties := clearbits (ch_properties ctx) m\<rparr>"

definition clear_mutable_flags :: "io_channel \<Rightarrow> io_channel" where
  "clear_mutable_flags ctx = ctx\<lparr>ch_properties := ch_properties ctx AND 0x00ffffff\<rparr>"

definition set_host :: "string \<Rightarrow> io_channel \<Rightarrow> io_channel" where
  "set_host host ctx =
     (if ch_remote_host ctx \<noteq> host then set_props YCPF_HOST_DIRTY (ctx\<lparr>ch_remote_host := host\<rparr>) else ctx)"

definition set_port :: "16 word \<Rightarrow> io_channel \<Rightarrow> io_channel" where
  "set_port port ctx =
     (if port = 0 then ctx
      else if ch_remote_port ctx \<noteq> port then set_props YCPF_PORT_DIRTY (ctx\<lparr>ch_remote_port := port\<rparr>)
      else ctx)"

definition set_address :: "string \<Rightarrow> 16 word \<Rightarrow> io_channel \<Rightarrow> io_channel" where
  "set_address host port ctx = set_port port (set_host host ctx)"

definition new_channel :: "nat \<Rightarrow> nat \<Rightarrow> io_channel" where
  "new_channel ident index =
     \<lparr>io_id = ident, io_socket = None, io_error = 0, io_error_stage = NONE, io_pollout = False, io_state = CLOSED,
      io_opmask = 0, ch_properties = 0, ch_local_port = 0, ch_remote_port = 0, ch_query_success_time = 0,
      ch_index = index, ch_stream = False, ch_uparams = default_uparams, ch_decode_len = None,
      ch_local_host = [], ch_remote_host = [], ch_remote_eps = [], ch_bytes_transferred = 0, ch_connect_id = 0\<rparr>"

section \<open>Transports\<close>

text \<open>A send operation: the bytes, the position reached and the identity of its handler, if any.\<close>

record send_op =
  op_offset :: nat
  op_buffer :: "byte list"
  op_handler :: "nat option"
  op_destination :: "endpoint option"  \<comment> \<open>given for an \<open>io_sendto_op\<close>\<close>

definition yasio_max_rcvbuf :: nat where "yasio_max_rcvbuf = 65536"
definition YASIO_MAX_PDU_BUFFER_SIZE :: int where "YASIO_MAX_PDU_BUFFER_SIZE = 1 * 1024 * 1024"
definition YASIO_UNPACK_MAX_STRIP :: int where "YASIO_UNPACK_MAX_STRIP = 32"

text \<open>\<open>uint16\<close> maximum less the sizes of the IPv4 and UDP headers.\<close>

definition yasio_udp_mss :: nat where "yasio_udp_mss = 65535 - (20 + 8)"

record io_transport = io_base +
  tr_ctx :: nat  \<comment> \<open>index of the channel \<open>ctx_\<close>\<close>
  tr_udp :: bool \<comment> \<open>\<open>io_transport_udp\<close>, else \<open>io_transport_tcp\<close>\<close>
  tr_buffer :: "byte list"
  tr_offset :: int
  tr_expected_size :: int
  tr_expected_packet :: "byte list"
  tr_send_queue :: "send_op queue_primitive"
  tr_connected :: bool
  tr_peer :: "endpoint option"         \<comment> \<open>\<open>None\<close> for \<open>AF_UNSPEC\<close>\<close>
  tr_destination :: "endpoint option"

definition new_transport :: "nat \<Rightarrow> nat \<Rightarrow> bool \<Rightarrow> nat option \<Rightarrow> io_transport" where
  "new_transport ident ctx udp sock =
     \<lparr>io_id = ident, io_socket = sock, io_error = 0, io_error_stage = NONE, io_pollout = False, io_state = OPENED,
      io_opmask = 0, tr_ctx = ctx, tr_udp = udp, tr_buffer = replicate yasio_max_rcvbuf 0, tr_offset = 0,
      tr_expected_size = -1, tr_expected_packet = [], tr_send_queue = [], tr_connected = False, tr_peer = None,
      tr_destination = None\<rparr>"

definition tr_is_open :: "io_transport \<Rightarrow> bool" where
  "tr_is_open t \<longleftrightarrow> io_state t = OPENED \<and> io_socket t \<noteq> None"

section \<open>Events\<close>

datatype event_kind = YEK_ON_OPEN | YEK_ON_CLOSE | YEK_ON_PACKET

record io_event =
  ev_kind :: event_kind
  ev_writable :: bool  \<comment> \<open>the source is a transport\<close>
  ev_status :: int
  ev_cindex :: nat
  ev_source_id :: nat
  ev_packet :: "byte list"

definition channel_event :: "event_kind \<Rightarrow> int \<Rightarrow> io_channel \<Rightarrow> io_event" where
  "channel_event k status ctx = \<lparr>ev_kind = k, ev_writable = False, ev_status = status, ev_cindex = ch_index ctx,
     ev_source_id = io_id ctx, ev_packet = []\<rparr>"

definition transport_event :: "event_kind \<Rightarrow> int \<Rightarrow> io_transport \<Rightarrow> io_event" where
  "transport_event k status t = \<lparr>ev_kind = k, ev_writable = True, ev_status = status, ev_cindex = tr_ctx t,
     ev_source_id = io_id t, ev_packet = []\<rparr>"

definition packet_event :: "byte list \<Rightarrow> io_transport \<Rightarrow> io_event" where
  "packet_event pkt t = \<lparr>ev_kind = YEK_ON_PACKET, ev_writable = True, ev_status = 0, ev_cindex = tr_ctx t,
     ev_source_id = io_id t, ev_packet = pkt\<rparr>"

section \<open>Facts on masks\<close>

lemma testbits_setbits: "testbits (setbits x m) n \<longleftrightarrow> testbits x n \<or> testbits m n"
  by (auto simp: testbits_def setbits_def bit.conj_disj_distrib2 or_eq_0_iff)

lemma testbits_setbits_same [simp]: "m \<noteq> 0 \<Longrightarrow> testbits (setbits x m) m"
  by (simp add: testbits_setbits) (auto simp: testbits_def)

lemma testbits_clearbits_same [simp]: "\<not> testbits (clearbits x m) m"
  by (simp add: testbits_def clearbits_def and.assoc)

end
