(* ===== verification/Unpack.thy ===== *)
theory Unpack
  imports IoTypes
begin

text \<open>
  Receiving on a transport: \<open>io_transport::call_read\<close> and \<open>do_read\<close>, the length-field decoder
  \<open>__builtin_decode_len\<close>, and \<open>io_service::do_read\<close> with \<open>unpack\<close>, which turn the bytes of the
  peer into packets (\<open>yasio/io_service.cpp\<close>).  The system's answer to \<open>recv\<close> is a parameter.
  The packet under construction is the list of the elements of its \<open>pod_vector\<close> (\<open>PodVector\<close>
  proves that insertion there is list insertion).
\<close>

section \<open>Decoding the length of a frame\<close>

text \<open>
  The argument is what the code passes by pointer and count.  The sum with
  \<open>length_adjustment\<close> is an \<open>int\<close> computation: outside its range it is undefined.
\<close>

definition decode_field :: "unpack_params \<Rightarrow> byte list \<Rightarrow> int result" where
  "decode_field up field =
     (let raw = le_word field :: 32 word;
          val = (if no_bswap up = 0 then network_to_host_n raw (nat (length_field_length up)) else raw);
          len = sint val + length_adjustment up
      in if len < - (2 ^ 31) \<or> 2 ^ 31 \<le> len then Inl Undefined
         else Inr (if len > max_frame_length up then -1 else len))"

definition builtin_decode_len :: "unpack_params \<Rightarrow> byte list \<Rightarrow> int result" where
  "builtin_decode_len up d =
     (let loffset = length_field_offset up; lsize = length_field_length up; n = int (length d)
      in if loffset \<ge> 0
         then if \<not> (1 \<le> lsize \<and> lsize \<le> 4) then Inl Undefined
              else if n \<ge> loffset + lsize then decode_field up (take (nat lsize) (drop (nat loffset) d))
              else Inr 0
         else Inr n)"

definition channel_decode :: "io_channel \<Rightarrow> byte list \<Rightarrow> int result" where
  "channel_decode ctx = (case ch_decode_len ctx of Some f \<Rightarrow> f | None \<Rightarrow> builtin_decode_len (ch_uparams ctx))"

section \<open>Reading\<close>

text \<open>What \<open>read_cb_\<close> yields: the bytes received (none: the peer has closed), or an error.\<close>

datatype recv_result = Recvd "byte list" | Recv_fail int

text \<open>\<open>call_read\<close>: the count or status, the error, and the channel with its byte counter.\<close>

definition call_read :: "io_channel \<Rightarrow> recv_result \<Rightarrow> int \<times> int \<times> io_channel" where
  "call_read ctx r =
     (case r of
        Recvd d \<Rightarrow>
          if d \<noteq> [] then (int (length d), 0, ctx\<lparr>ch_bytes_transferred := ch_bytes_transferred ctx + int (length d)\<rparr>)
          else if ch_is YCM_TCP ctx then (-1, ERR_eof, ctx) else (0, 0, ctx)
      | Recv_fail error \<Rightarrow> if not_recv_error error then (0, 0, ctx) else (-1, error, ctx))"

text \<open>
  \<open>io_transport::do_read\<close>: receives behind the first \<open>offset_\<close> bytes of the buffer.  A system
  that delivered more than it was asked for would be undefined.
\<close>

definition transport_do_read ::
  "io_channel \<Rightarrow> recv_result \<Rightarrow> io_transport \<Rightarrow> (int \<times> int \<times> io_channel \<times> io_transport) result" where
  "transport_do_read ctx r t =
     (let (n, error, ctx) = call_read ctx r; off = nat (tr_offset t)
      in case r of
           Recvd d \<Rightarrow>
             if tr_offset t \<ge> 0 \<and> off + length d \<le> length (tr_buffer t)
             then Inr (n, error, ctx, t\<lparr>tr_buffer := splice off d (tr_buffer t)\<rparr>)
             else Inl Undefined
         | Recv_fail _ \<Rightarrow> Inr (n, error, ctx, t))"

text \<open>
  \<open>unpack\<close>: the transport, the packet it completes, and whether the next wait is cancelled.  The
  insertion takes the range from \<open>bytes_to_strip\<close> to \<open>min(bytes_want, bytes_available)\<close>.
\<close>

definition unpack :: "io_transport \<Rightarrow> int \<Rightarrow> int \<Rightarrow> int \<Rightarrow> (io_transport \<times> byte list option \<times> bool) result" where
  "unpack t bytes_want bytes_transferred bytes_to_strip =
     (let bytes_available = bytes_transferred + tr_offset t;
          upto = min bytes_want bytes_available;
          buf = tr_buffer t
      in if bytes_to_strip > upto then Inl OutOfRange
         else if bytes_to_strip < 0 \<or> upto > int (length buf) then Inl Undefined
         else let pkt = tr_expected_packet t @ take (nat (upto - bytes_to_strip)) (drop (nat bytes_to_strip) buf);
                  offset = bytes_available - bytes_want
              in if offset \<ge> 0
                 then Inr (t\<lparr>tr_buffer := (if offset > 0 then splice 0 (take (nat offset) (drop (nat bytes_want) buf)) buf else buf),
                              tr_offset := offset, tr_expected_size := -1, tr_expected_packet := []\<rparr>,
                           Some pkt, offset > 0)
                 else Inr (t\<lparr>tr_offset := 0, tr_expected_packet := pkt\<rparr>, None, False))"

record read_out =
  ro_ok :: bool
  ro_transport :: io_transport
  ro_channel :: io_channel
  ro_packets :: "byte list list"    \<comment> \<open>packet events fired\<close>
  ro_forwarded :: "byte list list"  \<comment> \<open>packets handed to the callback directly\<close>
  ro_no_wait :: bool

definition read_done :: "bool \<Rightarrow> io_channel \<Rightarrow> io_transport \<Rightarrow> read_out" where
  "read_done ok ctx t = \<lparr>ro_ok = ok, ro_transport = t, ro_channel = ctx, ro_packets = [], ro_forwarded = [], ro_no_wait = False\<rparr>"

definition unpacked :: "io_channel \<Rightarrow> (io_transport \<times> byte list option \<times> bool) result \<Rightarrow> read_out result" where
  "unpacked ctx r = andthen r (\<lambda>(t, pkt, no_wait).
     Inr ((read_done True ctx t)\<lparr>ro_packets := (case pkt of None \<Rightarrow> [] | Some p \<Rightarrow> [p]), ro_no_wait := no_wait\<rparr>))"

text \<open>
  \<open>io_service::do_read\<close>, in two parts: what it does with the result of the transport's own \<open>do_read\<close>,
  which is virtual, and the whole for a transport that reads from its socket.
\<close>

definition deliver :: "bool \<Rightarrow> int \<times> int \<times> io_channel \<times> io_transport \<Rightarrow> read_out result" where
  "deliver forward_packet = (\<lambda>(n, error, ctx, t).
     if n \<ge> 0
     then if \<not> forward_packet
          then let bytes_to_strip = initial_bytes_to_strip (ch_uparams ctx)
               in if tr_expected_size t = -1
                  then andthen (channel_decode ctx (take (nat (tr_offset t + n)) (tr_buffer t))) (\<lambda>len.
                    if len > 0
                    then if len < bytes_to_strip
                         then Inr (read_done False ctx (set_last_errno ERR_invalid_packet READ t))
                         else unpacked ctx (unpack (t\<lparr>tr_expected_size := len\<rparr>) len n bytes_to_strip)
                    else if len = 0 then Inr (read_done True ctx (t\<lparr>tr_offset := tr_offset t + n\<rparr>))
                    else Inr (read_done False ctx (set_last_errno ERR_invalid_packet READ t)))
                  else unpacked ctx (unpack t
                         (tr_expected_size t - (int (length (tr_expected_packet t)) + bytes_to_strip)) n 0)
          else Inr ((read_done True ctx t)\<lparr>ro_forwarded := (if n > 0 then [take (nat n) (tr_buffer t)] else [])\<rparr>)
     else Inr (read_done False ctx (set_last_errno error READ t)))"

definition do_read :: "bool \<Rightarrow> io_channel \<Rightarrow> recv_result \<Rightarrow> io_transport \<Rightarrow> read_out result" where
  "do_read forward_packet ctx r t =
     (if io_socket t = None then Inr (read_done False ctx t)
      else andthen (transport_do_read ctx r t) (deliver forward_packet))"

lemma unpack_identity:
  "unpack t a b c = Inr (t', p, w) \<Longrightarrow> io_id t' = io_id t \<and> io_state t' = io_state t \<and> tr_ctx t' = tr_ctx t \<and> io_socket t' = io_socket t \<and>
     tr_send_queue t' = tr_send_queue t \<and> io_pollout t' = io_pollout t \<and> io_opmask t' = io_opmask t"
  by (auto simp: unpack_def Let_def split: if_splits)

lemma deliver_identity:
  assumes "deliver fwd (n, e, ctx, t) = Inr ro"
  shows "io_id (ro_transport ro) = io_id t \<and> io_state (ro_transport ro) = io_state t \<and> tr_ctx (ro_transport ro) = tr_ctx t \<and>
    io_socket (ro_transport ro) = io_socket t \<and> tr_send_queue (ro_transport ro) = tr_send_queue t \<and>
    io_pollout (ro_transport ro) = io_pollout t \<and> io_opmask (ro_transport ro) = io_opmask t \<and> (\<not> fwd \<longrightarrow> ro_forwarded ro = [])"
proof -
  have v: "io_id (ro_transport ro) = io_id t' \<and> io_state (ro_transport ro) = io_state t' \<and> tr_ctx (ro_transport ro) = tr_ctx t' \<and>
      io_socket (ro_transport ro) = io_socket t' \<and> tr_send_queue (ro_transport ro) = tr_send_queue t' \<and>
      io_pollout (ro_transport ro) = io_pollout t' \<and> io_opmask (ro_transport ro) = io_opmask t' \<and> ro_forwarded ro = []" if "unpacked c (unpack t' x y z) = Inr ro" for t' x y z c
    using that by (fastforce simp: unpacked_def andthen_Inr_iff read_done_def dest: unpack_identity)
  show ?thesis using assms
    by (auto simp: deliver_def Let_def andthen_Inr_iff read_done_def set_last_errno_def split: if_splits dest!: v)
qed

lemma deliver_keeps_channel: "deliver fwd (n, e, ctx, t) = Inr ro \<Longrightarrow> ro_channel ro = ctx"
proof -
  have "unpacked ctx r = Inr ro \<Longrightarrow> ro_channel ro = ctx" for r
    by (auto simp: unpacked_def andthen_Inr_iff read_done_def)
  then show "deliver fwd (n, e, ctx, t) = Inr ro \<Longrightarrow> ro_channel ro = ctx"
    by (auto simp: deliver_def Let_def andthen_Inr_iff read_done_def split: if_splits)
qed

lemma transport_do_read_keeps:
  assumes "transport_do_read ctx r t = Inr (n, e, ctx', t')"
  shows "io_id t' = io_id t \<and> io_state t' = io_state t \<and> tr_ctx t' = tr_ctx t \<and> io_socket t' = io_socket t \<and>
    tr_send_queue t' = tr_send_queue t \<and> io_pollout t' = io_pollout t \<and> io_opmask t' = io_opmask t \<and>
    ch_properties ctx' = ch_properties ctx"
  using assms by (auto simp: transport_do_read_def Let_def call_read_def split: if_splits recv_result.splits prod.splits)

text \<open>A read leaves the identity and the state of the connection alone.\<close>

lemma do_read_identity:
  assumes "do_read fwd ctx r t = Inr ro"
  shows "io_id (ro_transport ro) = io_id t \<and> io_state (ro_transport ro) = io_state t \<and> tr_ctx (ro_transport ro) = tr_ctx t \<and>
    io_socket (ro_transport ro) = io_socket t \<and> tr_send_queue (ro_transport ro) = tr_send_queue t \<and>
    io_pollout (ro_transport ro) = io_pollout t \<and> io_opmask (ro_transport ro) = io_opmask t \<and> ch_properties (ro_channel ro) = ch_properties ctx \<and>
    (\<not> fwd \<longrightarrow> ro_forwarded ro = [])"
proof (cases "io_socket t")
  case None
  with assms show ?thesis by (auto simp: do_read_def read_done_def)
next
  case (Some fd)
  with assms obtain n e c2 t2 where t2: "transport_do_read ctx r t = Inr (n, e, c2, t2)" "deliver fwd (n, e, c2, t2) = Inr ro"
    by (auto simp: do_read_def andthen_Inr_iff)
  show ?thesis using transport_do_read_keeps [OF t2(1)] deliver_identity [OF t2(2)] deliver_keeps_channel [OF t2(2)] by simp
qed

section \<open>Successive reads\<close>

text \<open>One read per chunk; an empty chunk is a turn in which nothing has arrived.\<close>

definition arrives :: "byte list \<Rightarrow> recv_result" where
  "arrives d = (if d = [] then Recv_fail EWOULDBLOCK else Recvd d)"

fun run_reads :: "io_channel \<Rightarrow> io_transport \<Rightarrow> byte list list \<Rightarrow> (bool \<times> io_channel \<times> io_transport \<times> byte list list) result" where
  "run_reads ctx t [] = Inr (True, ctx, t, [])"
| "run_reads ctx t (d # ds) =
     andthen (do_read False ctx (arrives d) t) (\<lambda>ro.
       if ro_ok ro
       then andthen (run_reads (ro_channel ro) (ro_transport ro) ds) (\<lambda>(ok, ctx, t, pkts). Inr (ok, ctx, t, ro_packets ro @ pkts))
       else Inr (False, ro_channel ro, ro_transport ro, ro_packets ro))"

section \<open>The abstract parser\<close>

text \<open>
  One turn on the bytes not yet turned into packets: nothing when the header is incomplete or
  the frame is, else the frame without its stripped part; \<open>None\<close> for an invalid packet.
\<close>

definition parse_turn :: "(byte list \<Rightarrow> int result) \<Rightarrow> int \<Rightarrow> byte list \<Rightarrow> (byte list list \<times> byte list) option result" where
  "parse_turn decode strip p = andthen (decode p) (\<lambda>len.
     if len < 0 \<or> (0 < len \<and> len < strip) then Inr None
     else if len = 0 \<or> int (length p) < len then Inr (Some ([], p))
     else Inr (Some ([drop (nat strip) (take (nat len) p)], drop (nat len) p)))"

text \<open>The bytes of the current frame and behind it that a transport holds.\<close>

definition rx_holds :: "(byte list \<Rightarrow> int result) \<Rightarrow> int \<Rightarrow> io_transport \<Rightarrow> byte list \<Rightarrow> bool" where
  "rx_holds decode strip t p \<longleftrightarrow>
     (tr_expected_size t = -1 \<and> tr_expected_packet t = [] \<and> tr_offset t = int (length p) \<and>
        length p \<le> length (tr_buffer t) \<and> take (length p) (tr_buffer t) = p) \<or>
     (tr_expected_size t \<ge> 0 \<and> tr_offset t = 0 \<and> decode p = Inr (tr_expected_size t) \<and>
        strip \<le> int (length p) \<and> strip \<le> tr_expected_size t \<and>
        int (length p) < tr_expected_size t \<and> tr_expected_packet t = drop (nat strip) p)"

section \<open>Interface of a frame decoder\<close>

text \<open>A decoder that needs the first \<open>hdr\<close> bytes of a frame and looks at nothing else.\<close>

locale frame_decoder =
  fixes decode :: "byte list \<Rightarrow> int result"
    and hdr :: nat
  assumes hdr_pos: "0 < hdr"
    and short: "length d < hdr \<Longrightarrow> decode d = Inr 0"
    and stable: "hdr \<le> length d \<Longrightarrow> decode (d @ e) = decode d"
begin

lemma decode_nonzero: "decode p = Inr len \<Longrightarrow> len \<noteq> 0 \<Longrightarrow> hdr \<le> length p"
  using short [of p] by (cases "length p < hdr") auto

lemma decode_append: "decode p = Inr len \<Longrightarrow> len \<noteq> 0 \<Longrightarrow> decode (p @ e) = Inr len"
  using decode_nonzero stable by metis

text \<open>A frame: its header announces its own length.\<close>

definition frame :: "int \<Rightarrow> byte list \<Rightarrow> bool" where
  "frame strip f \<longleftrightarrow> f \<noteq> [] \<and> hdr \<le> length f \<and> decode f = Inr (int (length f)) \<and> strip \<le> int (length f)"

lemma parse_turn_frame:
  "frame strip f \<Longrightarrow> parse_turn decode strip (f @ rest) = Inr (Some ([drop (nat strip) f], rest))"
  using stable [of f rest] by (auto simp: frame_def parse_turn_def)

lemma parse_turn_partial:
  assumes "frame strip f" "p = take k f" "length p < length f"
  shows "parse_turn decode strip p = Inr (Some ([], p))"
proof (cases "length p < hdr")
  case True
  then show ?thesis by (simp add: parse_turn_def short)
next
  case False
  have "decode (p @ drop k f) = decode p" by (rule stable) (use False in simp)
  then have "decode p = decode f" using assms(2) by simp
  with assms(1,3) show ?thesis by (auto simp: parse_turn_def frame_def)
qed

end

section \<open>One read refines one turn of the parser\<close>

lemma call_read_arrives:
  "call_read ctx (arrives d) = (int (length d), 0, if d = [] then ctx
     else ctx\<lparr>ch_bytes_transferred := ch_bytes_transferred ctx + int (length d)\<rparr>)"
  by (simp add: call_read_def arrives_def not_recv_error_def)

lemma channel_decode_transferred [simp]: "channel_decode (ctx\<lparr>ch_bytes_transferred := n\<rparr>) = channel_decode ctx"
  by (simp add: channel_decode_def split: option.split)

lemma transport_do_read_arrives:
  assumes "0 \<le> tr_offset t" "nat (tr_offset t) + length d \<le> length (tr_buffer t)"
  shows "\<exists>ctx'. transport_do_read ctx (arrives d) t =
      Inr (int (length d), 0, ctx', t\<lparr>tr_buffer := splice (nat (tr_offset t)) d (tr_buffer t)\<rparr>) \<and>
    channel_decode ctx' = channel_decode ctx \<and> ch_uparams ctx' = ch_uparams ctx"
  using assms by (cases "d = []") (auto simp: transport_do_read_def call_read_def not_recv_error_def Let_def arrives_def)

lemma take_splice_all: "k + length d \<le> length m \<Longrightarrow> take (k + length d) (splice k d m) = take k m @ d"
  by (rule take_splice_end) simp_all

definition rx_turn :: "io_channel \<Rightarrow> io_transport \<Rightarrow> byte list \<Rightarrow> byte list \<Rightarrow> bool" where
  "rx_turn ctx t p d \<longleftrightarrow>
     (let decode = channel_decode ctx; strip = initial_bytes_to_strip (ch_uparams ctx)
      in case parse_turn decode strip (p @ d) of
           Inl e \<Rightarrow> do_read False ctx (arrives d) t = Inl e
         | Inr None \<Rightarrow> (\<exists>ro. do_read False ctx (arrives d) t = Inr ro \<and> \<not> ro_ok ro \<and>
             io_error (ro_transport ro) = ERR_invalid_packet \<and> ro_packets ro = [])
         | Inr (Some (pkts, p')) \<Rightarrow> (\<exists>ro. do_read False ctx (arrives d) t = Inr ro \<and> ro_ok ro \<and> ro_packets ro = pkts \<and>
             rx_holds decode strip (ro_transport ro) p' \<and> io_socket (ro_transport ro) \<noteq> None \<and>
             length (tr_buffer (ro_transport ro)) = length (tr_buffer t) \<and>
             channel_decode (ro_channel ro) = decode \<and> ch_uparams (ro_channel ro) = ch_uparams ctx))"

definition rx_fresh :: "io_transport \<Rightarrow> byte list \<Rightarrow> bool" where
  "rx_fresh t p \<longleftrightarrow> tr_expected_size t = -1 \<and> tr_expected_packet t = [] \<and> tr_offset t = int (length p) \<and>
     length p \<le> length (tr_buffer t) \<and> take (length p) (tr_buffer t) = p"

definition same_rx :: "io_transport \<Rightarrow> io_transport \<Rightarrow> bool" where
  "same_rx t t' \<longleftrightarrow> io_socket t' = io_socket t \<and> length (tr_buffer t') = length (tr_buffer t)"

lemma unpack_turn:
  assumes q: "take (length q) (tr_buffer t) = q" "length q \<le> length (tr_buffer t)" "n + tr_offset t = int (length q)"
    and strip: "strip \<le> want" "strip \<le> length q" and want: "0 < want"
  shows "\<exists>t' pkt no_wait. unpack t (int want) n (int strip) = Inr (t', pkt, no_wait) \<and> same_rx t t' \<and>
    (if want \<le> length q
     then pkt = Some (tr_expected_packet t @ drop strip (take want q)) \<and> rx_fresh t' (drop want q)
     else pkt = None \<and> tr_expected_size t' = tr_expected_size t \<and> tr_offset t' = 0 \<and>
       tr_expected_packet t' = tr_expected_packet t @ drop strip q)"
proof -
  let ?u = "min want (length q)"
  have upto: "min (int want) (int (length q)) = int ?u" by simp
  have cut: "take (?u - strip) (drop strip (tr_buffer t)) = drop strip (take ?u q)"
    using q(1) by (metis drop_take min.cobounded2 min_def take_take)
  have sizes: "\<not> int strip > int ?u" "\<not> int ?u > int (length (tr_buffer t))" using strip q(2) by simp_all
  have nats: "nat (int ?u - int strip) = ?u - strip" by simp
  let ?t = "t\<lparr>tr_buffer := (if length q - want > 0 then splice 0 (take (length q - want) (drop want (tr_buffer t))) (tr_buffer t) else tr_buffer t),
        tr_offset := int (length q - want), tr_expected_size := -1, tr_expected_packet := []\<rparr>"
  have eq: "unpack t (int want) n (int strip) =
      (let pkt = tr_expected_packet t @ drop strip (take ?u q); offset = int (length q) - int want
       in if offset \<ge> 0
          then Inr (t\<lparr>tr_buffer := (if offset > 0 then splice 0 (take (nat offset) (drop want (tr_buffer t))) (tr_buffer t) else tr_buffer t),
                     tr_offset := offset, tr_expected_size := -1, tr_expected_packet := []\<rparr>, Some pkt, offset > 0)
          else Inr (t\<lparr>tr_offset := 0, tr_expected_packet := pkt\<rparr>, None, False))"
    unfolding unpack_def Let_def q(3) upto nats nat_int cut using sizes by simp
  show ?thesis
  proof (cases "want \<le> length q")
    case True
    have off: "int (length q) - int want = int (length q - want)" using True by simp
    have len: "length (take (length q - want) (drop want (tr_buffer t))) = length q - want" using q(2) True by simp
    have rest: "take (length q - want) (drop want (tr_buffer t)) = drop want q" using q(1) by (metis drop_take)
    have le: "length q - want \<le> length (tr_buffer t)" using q(2) by linarith
    have "rx_fresh ?t (drop want q)" using len le True by (simp add: rx_fresh_def rest)
    moreover have "same_rx t ?t" using len le by (simp add: same_rx_def)
    moreover have "unpack t (int want) n (int strip) =
        Inr (?t, Some (tr_expected_packet t @ drop strip (take want q)), length q - want > 0)"
    proof -
      define k where "k = length q - want"
      show ?thesis unfolding eq Let_def off k_def [symmetric] nat_int using True by simp
    qed
    ultimately show ?thesis using True by metis
  next
    case False
    then have "unpack t (int want) n (int strip) =
        Inr (t\<lparr>tr_offset := 0, tr_expected_packet := tr_expected_packet t @ drop strip q\<rparr>, None, False)"
      unfolding eq Let_def by simp
    then show ?thesis using False by (auto simp: same_rx_def)
  qed
qed


definition rx_waiting :: "(byte list \<Rightarrow> int result) \<Rightarrow> nat \<Rightarrow> io_transport \<Rightarrow> byte list \<Rightarrow> bool" where
  "rx_waiting decode strip t p \<longleftrightarrow> tr_expected_size t > int (length p) \<and> tr_offset t = 0 \<and>
     decode p = Inr (tr_expected_size t) \<and> strip \<le> length p \<and> tr_expected_packet t = drop strip p"

lemma rx_holds_cases: "rx_holds decode (int strip) t p \<longleftrightarrow> rx_fresh t p \<or> rx_waiting decode strip t p"
  by (auto simp: rx_holds_def rx_fresh_def rx_waiting_def)

lemma do_read_unfold:
  assumes "io_socket t \<noteq> None" "transport_do_read ctx (arrives d) t = Inr (int (length d), 0, ctx', t1)"
  shows "do_read False ctx (arrives d) t =
    (let n = int (length d); bytes_to_strip = initial_bytes_to_strip (ch_uparams ctx')
     in if tr_expected_size t1 = -1
        then andthen (channel_decode ctx' (take (nat (tr_offset t1 + n)) (tr_buffer t1))) (\<lambda>len.
          if len > 0
          then if len < bytes_to_strip
               then Inr (read_done False ctx' (set_last_errno ERR_invalid_packet READ t1))
               else unpacked ctx' (unpack (t1\<lparr>tr_expected_size := len\<rparr>) len n bytes_to_strip)
          else if len = 0 then Inr (read_done True ctx' (t1\<lparr>tr_offset := tr_offset t1 + n\<rparr>))
          else Inr (read_done False ctx' (set_last_errno ERR_invalid_packet READ t1)))
        else unpacked ctx' (unpack t1 (tr_expected_size t1 - (int (length (tr_expected_packet t1)) + bytes_to_strip)) n 0))"
  using assms by (cases "io_socket t") (simp_all add: do_read_def deliver_def Let_def)

lemma set_last_errno_simps [simp]:
  "io_error (set_last_errno e s b) = e" "io_error_stage (set_last_errno e s b) = s"
  "io_state (set_last_errno e s b) = io_state b" "io_socket (set_last_errno e s b) = io_socket b"
  by (simp_all add: set_last_errno_def)

context frame_decoder begin

lemma rx_turn_fresh:
  assumes dec: "channel_decode ctx = decode" and strip: "initial_bytes_to_strip (ch_uparams ctx) = int strip" "strip \<le> hdr"
    and t: "io_socket t \<noteq> None" "rx_fresh t p" and fits: "length p + length d \<le> length (tr_buffer t)"
  shows "rx_turn ctx t p d"
proof -
  let ?t = "t\<lparr>tr_buffer := splice (length p) d (tr_buffer t)\<rparr>" and ?q = "p @ d"
  note fresh = t(2) [unfolded rx_fresh_def]
  obtain ctx' where rd: "transport_do_read ctx (arrives d) t = Inr (int (length d), 0, ctx', ?t)"
    and ctx': "channel_decode ctx' = decode" "ch_uparams ctx' = ch_uparams ctx"
    using transport_do_read_arrives [of t d ctx] fresh fits dec by auto
  define t1 where "t1 = ?t"
  have t1: "take (length ?q) (tr_buffer t1) = ?q" "length (tr_buffer t1) = length (tr_buffer t)" "io_socket t1 = io_socket t"
      "tr_expected_size t1 = -1" "tr_expected_packet t1 = []" "tr_offset t1 = int (length p)" "length ?q \<le> length (tr_buffer t1)"
    using fits fresh by (simp_all add: t1_def take_splice_all)
  have off: "nat (tr_offset t1 + int (length d)) = length ?q" using t1(6) by simp
  note read = do_read_unfold [OF t(1) rd, folded t1_def, unfolded Let_def off t1(1) ctx' strip(1)]
  show ?thesis
  proof (cases "decode ?q")
    case (Inl e)
    then show ?thesis by (simp add: rx_turn_def read t1(4) dec parse_turn_def)
  next
    case (Inr n)
    consider "n < 0 \<or> (0 < n \<and> n < int strip)" | "n = 0" | "0 < n" "int strip \<le> n" by linarith
    then show ?thesis
    proof cases
      case 1
      then show ?thesis
        by (auto simp: rx_turn_def read t1(4) dec strip(1) parse_turn_def Inr Let_def read_done_def)
    next
      case 2
      have "rx_fresh (t1\<lparr>tr_offset := tr_offset t1 + int (length d)\<rparr>) ?q"
        using t1 by (simp add: rx_fresh_def)
      with 2 t1 t(1) ctx' show ?thesis
        by (simp add: rx_turn_def read dec strip(1) parse_turn_def Inr read_done_def rx_holds_cases)
    next
      case 3
      define w where "w = nat n"
      have w: "n = int w" "0 < w" "strip \<le> w" using 3 by (simp_all add: w_def)
      have hl: "strip \<le> length ?q" using decode_nonzero [OF Inr] 3(1) strip(2) by linarith
      let ?t2 = "t1\<lparr>tr_expected_size := n\<rparr>"
      obtain t' pkt nw where u: "unpack ?t2 (int w) (int (length d)) (int strip) = Inr (t', pkt, nw)" "same_rx ?t2 t'"
        "if w \<le> length ?q
         then pkt = Some (tr_expected_packet ?t2 @ drop strip (take w ?q)) \<and> rx_fresh t' (drop w ?q)
         else pkt = None \<and> tr_expected_size t' = tr_expected_size ?t2 \<and> tr_offset t' = 0 \<and>
           tr_expected_packet t' = tr_expected_packet ?t2 @ drop strip ?q"
        using unpack_turn [of ?q ?t2 "int (length d)" strip w] t1 w hl by auto
      have rd2: "do_read False ctx (arrives d) t = unpacked ctx' (Inr (t', pkt, nw))"
        using 3 u(1) by (simp add: read t1(4) Inr w(1))
      show ?thesis
      proof (cases "w \<le> length ?q")
        case True
        then show ?thesis using u(2,3) 3 t1 t(1) ctx' dec strip(1) w
          by (simp add: rx_turn_def rd2 unpacked_def parse_turn_def Inr read_done_def rx_holds_cases same_rx_def)
      next
        case False
        then have "rx_waiting decode strip t' ?q"
          using u(3) t1 hl Inr w by (simp add: rx_waiting_def)
        then show ?thesis using False u(2,3) 3 t1 t(1) ctx' dec strip(1) w
          by (simp add: rx_turn_def rd2 unpacked_def parse_turn_def Inr read_done_def rx_holds_cases same_rx_def)
      qed
    qed
  qed
qed

lemma rx_turn_waiting:
  assumes dec: "channel_decode ctx = decode" and strip: "initial_bytes_to_strip (ch_uparams ctx) = int strip" "strip \<le> hdr"
    and t: "io_socket t \<noteq> None" "rx_waiting decode strip t p" and fits: "length d \<le> length (tr_buffer t)"
  shows "rx_turn ctx t p d"
proof -
  let ?t = "t\<lparr>tr_buffer := splice 0 d (tr_buffer t)\<rparr>"
  note wt = t(2) [unfolded rx_waiting_def]
  obtain ctx' where rd: "transport_do_read ctx (arrives d) t = Inr (int (length d), 0, ctx', ?t)"
    and ctx': "channel_decode ctx' = decode" "ch_uparams ctx' = ch_uparams ctx"
    using transport_do_read_arrives [of t d ctx] wt fits dec by auto
  define t1 where "t1 = ?t"
  have t1: "take (length d) (tr_buffer t1) = d" "length (tr_buffer t1) = length (tr_buffer t)" "io_socket t1 = io_socket t"
      "tr_expected_size t1 = tr_expected_size t" "tr_expected_packet t1 = drop strip p" "tr_offset t1 = 0" "length d \<le> length (tr_buffer t1)"
    using fits wt by (simp_all add: t1_def)
  define w where "w = nat (tr_expected_size t)"
  have w: "tr_expected_size t = int w" "length p < w" "strip \<le> length p" "decode p = Inr (int w)"
    using wt by (auto simp: w_def zless_nat_eq_int_zless)
  have want: "tr_expected_size t1 - (int (length (tr_expected_packet t1)) + int strip) = int (w - length p)"
    using w t1(4,5) by simp
  obtain t' pkt nw where u: "unpack t1 (int (w - length p)) (int (length d)) (int 0) = Inr (t', pkt, nw)" "same_rx t1 t'"
    "if w - length p \<le> length d
     then pkt = Some (tr_expected_packet t1 @ drop 0 (take (w - length p) d)) \<and> rx_fresh t' (drop (w - length p) d)
     else pkt = None \<and> tr_expected_size t' = tr_expected_size t1 \<and> tr_offset t' = 0 \<and>
       tr_expected_packet t' = tr_expected_packet t1 @ drop 0 d"
    using unpack_turn [of d t1 "int (length d)" 0 "w - length p"] t1 w by auto
  have "tr_expected_size t1 \<noteq> -1" using t1(4) w by simp
  then have rd2: "do_read False ctx (arrives d) t = unpacked ctx' (Inr (t', pkt, nw))"
    using do_read_unfold [OF t(1) rd, folded t1_def] u(1) by (simp add: want ctx' strip(1))
  have Inr: "decode (p @ d) = Inr (int w)" using decode_append [OF w(4)] w(2) by simp
  have len: "0 < w" "int strip \<le> int w" using w by simp_all
  show ?thesis
  proof (cases "w - length p \<le> length d")
    case True
    then have le: "w \<le> length p + length d" by simp
    have "drop strip p @ take (w - length p) d = drop strip (take w (p @ d))" using w by simp
    then show ?thesis using u(2,3) True le t1 t(1) ctx' dec strip(1) w len
      by (simp add: rx_turn_def rd2 unpacked_def parse_turn_def Inr read_done_def rx_holds_cases same_rx_def)
  next
    case False
    then have "rx_waiting decode strip t' (p @ d)" using u(3) t1 Inr w by (simp add: rx_waiting_def)
    moreover have "int (length p) + int (length d) < int w" using False by simp
    ultimately show ?thesis using False u(2,3) t1 t(1) ctx' dec strip(1) w len
      by (simp add: rx_turn_def rd2 unpacked_def parse_turn_def Inr read_done_def rx_holds_cases same_rx_def)
  qed
qed

lemma rx_turn:
  assumes "channel_decode ctx = decode" "initial_bytes_to_strip (ch_uparams ctx) = int strip" "strip \<le> hdr"
    and "io_socket t \<noteq> None" "rx_holds decode (int strip) t p" and fits: "nat (tr_offset t) + length d \<le> length (tr_buffer t)"
  shows "rx_turn ctx t p d"
proof (cases "rx_fresh t p")
  case True
  then show ?thesis using rx_turn_fresh assms by (simp add: rx_fresh_def)
next
  case False
  then show ?thesis using rx_turn_waiting assms by (auto simp: rx_holds_cases rx_waiting_def)
qed

end

section \<open>Streams of frames\<close>

text \<open>The system never delivers more than the free part of the buffer.\<close>

fun answers_fit :: "io_channel \<Rightarrow> io_transport \<Rightarrow> byte list list \<Rightarrow> bool" where
  "answers_fit ctx t [] \<longleftrightarrow> True"
| "answers_fit ctx t (d # ds) \<longleftrightarrow>
     nat (tr_offset t) + length d \<le> length (tr_buffer t) \<and>
     (case do_read False ctx (arrives d) t of
        Inl e \<Rightarrow> True
      | Inr ro \<Rightarrow> ro_ok ro \<longrightarrow> answers_fit (ro_channel ro) (ro_transport ro) ds)"

lemma run_reads_append:
  "run_reads ctx t (xs @ ys) =
    andthen (run_reads ctx t xs) (\<lambda>(ok, ctx, t, pkts).
      if ok then andthen (run_reads ctx t ys) (\<lambda>(ok, ctx, t, more). Inr (ok, ctx, t, pkts @ more))
      else Inr (ok, ctx, t, pkts))"
proof (induction xs arbitrary: ctx t)
  case Nil
  show ?case by (cases "run_reads ctx t ys") auto
next
  case (Cons d xs)
  show ?case
  proof (cases "do_read False ctx (arrives d) t")
    case (Inr ro)
    show ?thesis
    proof (cases "ro_ok ro")
      case True
      then show ?thesis
        by (cases "run_reads (ro_channel ro) (ro_transport ro) xs")
          (auto simp: Inr Cons.IH andthen_assoc split: prod.splits if_splits intro!: arg_cong2 [of _ _ _ _ andthen])
    qed (simp add: Inr)
  qed simp
qed

context frame_decoder begin

definition rx_ok :: "nat \<Rightarrow> io_channel \<Rightarrow> io_transport \<Rightarrow> byte list \<Rightarrow> bool" where
  "rx_ok strip ctx t p \<longleftrightarrow> channel_decode ctx = decode \<and> initial_bytes_to_strip (ch_uparams ctx) = int strip \<and>
     strip \<le> hdr \<and> io_socket t \<noteq> None \<and> rx_holds decode (int strip) t p"

lemma one_read:
  assumes "rx_ok strip ctx t p" "nat (tr_offset t) + length d \<le> length (tr_buffer t)"
    and "parse_turn decode (int strip) (p @ d) = Inr (Some (pkts, p'))"
  shows "\<exists>ro. do_read False ctx (arrives d) t = Inr ro \<and> ro_ok ro \<and> ro_packets ro = pkts \<and>
    rx_ok strip (ro_channel ro) (ro_transport ro) p'"
  using rx_turn [of ctx strip t p d] assms by (auto simp: rx_turn_def rx_ok_def Let_def)

lemma parse_turn_stream:
  assumes "list_all (frame (int strip)) fs" "q @ rest = concat fs"
  shows "(\<exists>f fs'. fs = f # fs' \<and> length f \<le> length q \<and>
      parse_turn decode (int strip) q = Inr (Some ([drop strip f], drop (length f) q)) \<and>
      drop (length f) q @ rest = concat fs') \<or>
    (parse_turn decode (int strip) q = Inr (Some ([], q)) \<and> (\<forall>f fs'. fs = f # fs' \<longrightarrow> length q < length f))"
proof (cases fs)
  case Nil
  then show ?thesis using assms short [of "[]"] hdr_pos by (simp add: parse_turn_def)
next
  case (Cons f fs')
  then have f: "frame (int strip) f" "q @ rest = f @ concat fs'" using assms by simp_all
  show ?thesis
  proof (cases "length f \<le> length q")
    case True
    then have "q = f @ drop (length f) q" using f(2) by (metis append_eq_append_conv_if append_take_drop_id)
    moreover have "drop (length f) q @ rest = concat fs'"
      using f(2) True by (metis append_eq_conv_conj drop_append diff_is_0_eq drop_0)
    ultimately show ?thesis using Cons True parse_turn_frame [OF f(1), of "drop (length f) q"] by auto
  next
    case False
    then have "q = take (length q) f" using f(2) by (metis append_eq_conv_conj nle_le take_all take_append append_Nil2 diff_is_0_eq take_0)
    then show ?thesis using Cons False parse_turn_partial [OF f(1), of q "length q"] by simp
  qed
qed

lemma reads_emit_frames:
  assumes "rx_ok strip ctx t p" "list_all (frame (int strip)) fs" "p @ concat ds @ rest = concat fs" "answers_fit ctx t ds"
  shows "\<exists>k ctx' t' p'. run_reads ctx t ds = Inr (True, ctx', t', map (drop strip) (take k fs)) \<and>
    rx_ok strip ctx' t' p' \<and> p' @ rest = concat (drop k fs)"
  using assms
proof (induction ds arbitrary: ctx t p fs)
  case Nil
  then show ?case by (intro exI [of _ 0]) auto
next
  case (Cons d ds)
  have fits: "nat (tr_offset t) + length d \<le> length (tr_buffer t)" using Cons.prems(4) by simp
  have q: "(p @ d) @ concat ds @ rest = concat fs" using Cons.prems(3) by simp
  from parse_turn_stream [OF Cons.prems(2) q] show ?case
  proof (elim disjE exE conjE)
    fix f fs'
    assume f: "fs = f # fs'" "parse_turn decode (int strip) (p @ d) = Inr (Some ([drop strip f], drop (length f) (p @ d)))"
      "drop (length f) (p @ d) @ concat ds @ rest = concat fs'"
    obtain ro where ro: "do_read False ctx (arrives d) t = Inr ro" "ro_ok ro" "ro_packets ro = [drop strip f]"
      "rx_ok strip (ro_channel ro) (ro_transport ro) (drop (length f) (p @ d))"
      using one_read [OF Cons.prems(1) fits f(2)] by blast
    then have "answers_fit (ro_channel ro) (ro_transport ro) ds" using Cons.prems(4) by simp
    with Cons.IH [OF ro(4) _ f(3)] Cons.prems(2) f(1) obtain k ctx' t' p' where
      "run_reads (ro_channel ro) (ro_transport ro) ds = Inr (True, ctx', t', map (drop strip) (take k fs'))"
      "rx_ok strip ctx' t' p'" "p' @ rest = concat (drop k fs')" by auto
    then show ?thesis using ro f(1) by (intro exI [of _ "Suc k"] exI [of _ ctx'] exI [of _ t'] exI [of _ p']) simp
  next
    assume f: "parse_turn decode (int strip) (p @ d) = Inr (Some ([], p @ d))"
    obtain ro where ro: "do_read False ctx (arrives d) t = Inr ro" "ro_ok ro" "ro_packets ro = []"
      "rx_ok strip (ro_channel ro) (ro_transport ro) (p @ d)"
      using one_read [OF Cons.prems(1) fits f] by blast
    then have "answers_fit (ro_channel ro) (ro_transport ro) ds" using Cons.prems(4) by simp
    with Cons.IH [OF ro(4) Cons.prems(2) q] obtain k ctx' t' p' where
      "run_reads (ro_channel ro) (ro_transport ro) ds = Inr (True, ctx', t', map (drop strip) (take k fs))"
      "rx_ok strip ctx' t' p'" "p' @ rest = concat (drop k fs)" by auto
    then show ?thesis using ro by (intro exI [of _ k] exI [of _ ctx'] exI [of _ t'] exI [of _ p']) simp
  qed
qed

lemma rx_ok_fits: "rx_ok strip ctx t p \<Longrightarrow> nat (tr_offset t) + length [] \<le> length (tr_buffer t)"
  by (auto simp: rx_ok_def rx_holds_def)

lemma idle_reads_drain:
  assumes "rx_ok strip ctx t (concat fs)" "list_all (frame (int strip)) fs"
  shows "\<exists>ctx' t'. run_reads ctx t (replicate (length fs) []) = Inr (True, ctx', t', map (drop strip) fs) \<and> rx_ok strip ctx' t' []"
  using assms
proof (induction fs arbitrary: ctx t)
  case (Cons f fs)
  have f: "parse_turn decode (int strip) (concat (f # fs) @ []) = Inr (Some ([drop strip f], concat fs))"
    using parse_turn_frame [of "int strip" f "concat fs"] Cons.prems(2) by simp
  obtain ro where ro: "do_read False ctx (arrives []) t = Inr ro" "ro_ok ro" "ro_packets ro = [drop strip f]"
    "rx_ok strip (ro_channel ro) (ro_transport ro) (concat fs)"
    using one_read [OF Cons.prems(1) rx_ok_fits [OF Cons.prems(1)] f] by blast
  with Cons.IH [OF ro(4)] Cons.prems(2) show ?case by auto
qed simp

lemma stream_reassembled:
  assumes "rx_ok strip ctx t []" "list_all (frame (int strip)) fs" "concat ds = concat fs" "answers_fit ctx t ds"
  shows "\<exists>ctx' t'. run_reads ctx t (ds @ replicate (length fs) []) = Inr (True, ctx', t', map (drop strip) fs)"
proof -
  have "[] @ concat ds @ [] = concat fs" using assms(3) by simp
  from reads_emit_frames [OF assms(1,2) this assms(4)] obtain k ctx1 t1 where
    1: "run_reads ctx t ds = Inr (True, ctx1, t1, map (drop strip) (take k fs))" "rx_ok strip ctx1 t1 (concat (drop k fs))"
    by auto
  have all: "list_all (frame (int strip)) (drop k fs)" using assms(2) by (auto simp: list_all_iff dest: in_set_dropD)
  obtain ctx2 t2 where 2: "run_reads ctx1 t1 (replicate (length (drop k fs)) []) = Inr (True, ctx2, t2, map (drop strip) (drop k fs))"
      "rx_ok strip ctx2 t2 []"
    using idle_reads_drain [OF 1(2) all] by blast
  have idle: "\<exists>ctx' t'. run_reads ctx2 t2 (replicate m []) = Inr (True, ctx', t', [])" for m
  proof -
    have "answers_fit c u (replicate m [])" if "rx_ok strip c u []" for c u
      using that
    proof (induction m arbitrary: c u)
      case (Suc m)
      have "parse_turn decode (int strip) ([] @ []) = Inr (Some ([], []))" by (simp add: parse_turn_def short hdr_pos)
      from one_read [OF Suc.prems rx_ok_fits [OF Suc.prems] this] Suc rx_ok_fits [OF Suc.prems] show ?case by auto
    qed simp
    from reads_emit_frames [OF 2(2) _ _ this [OF 2(2)], of "[]" "[]"] show ?thesis by auto
  qed
  have split: "replicate (length fs) [] = replicate (length (drop k fs)) [] @ replicate (length fs - length (drop k fs)) ([] :: byte list)"
    by (simp flip: replicate_add)
  show ?thesis
    using 1 2 idle [of "length fs - length (drop k fs)"]
    by (auto simp: run_reads_append split simp flip: map_append)
qed

lemma small_streams_fit:
  assumes "rx_ok strip ctx t p" "length p + length (concat ds) \<le> length (tr_buffer t)"
  shows "answers_fit ctx t ds"
  using assms
proof (induction ds arbitrary: ctx t p)
  case (Cons d ds)
  have fits: "nat (tr_offset t) + length d \<le> length (tr_buffer t)"
    using Cons.prems by (auto simp: rx_ok_def rx_holds_def)
  have turn: "rx_turn ctx t p d" using rx_turn [of ctx strip t p d] Cons.prems(1) fits by (auto simp: rx_ok_def)
  have "answers_fit (ro_channel ro) (ro_transport ro) ds"
    if ro: "do_read False ctx (arrives d) t = Inr ro" "ro_ok ro" for ro
  proof -
    obtain pkts p' where "parse_turn decode (int strip) (p @ d) = Inr (Some (pkts, p'))"
      "rx_holds decode (int strip) (ro_transport ro) p'" "io_socket (ro_transport ro) \<noteq> None"
      "length (tr_buffer (ro_transport ro)) = length (tr_buffer t)"
      "channel_decode (ro_channel ro) = decode" "ch_uparams (ro_channel ro) = ch_uparams ctx"
      using turn ro Cons.prems(1) by (auto simp: rx_turn_def rx_ok_def Let_def split: sum.splits option.splits)
    moreover from this(1) have "length p' \<le> length (p @ d)"
      by (auto simp: parse_turn_def andthen_Inr_iff split: if_splits)
    ultimately show ?thesis using Cons.prems
      by (intro Cons.IH [of _ _ p']) (auto simp: rx_ok_def)
  qed
  with fits show ?case by (simp split: sum.split)
qed simp

end

section \<open>The built-in decoder\<close>

text \<open>The parameters as \<open>YOPT_C_UNPACK_PARAMS\<close> stores them, for a length field at \<open>off\<close>.\<close>

definition store_unpack_params :: "int \<Rightarrow> int \<Rightarrow> int \<Rightarrow> int \<Rightarrow> unpack_params \<Rightarrow> unpack_params" where
  "store_unpack_params maxlen loffset lsize adj up =
     up\<lparr>max_frame_length := maxlen, length_field_offset := loffset, length_field_length := clamp lsize 1 4,
        length_adjustment := adj\<rparr>"

definition header_length :: "nat \<Rightarrow> int \<Rightarrow> nat" where
  "header_length off lsize = off + nat (clamp lsize 1 4)"

interpretation length_field: frame_decoder "builtin_decode_len (store_unpack_params maxlen (int off) lsize adj up)"
    "header_length off lsize" for maxlen off lsize adj up
proof
  let ?dec = "builtin_decode_len (store_unpack_params maxlen (int off) lsize adj up)"
  have c: "1 \<le> clamp lsize 1 4 \<and> clamp lsize 1 4 \<le> 4" by (rule clamp_range) simp
  then show "0 < header_length off lsize" by (simp add: header_length_def)
  have h: "int (length d) \<ge> int off + clamp lsize 1 4 \<longleftrightarrow> header_length off lsize \<le> length d" for d :: "byte list"
    using c by (auto simp: header_length_def)
  show "?dec d = Inr 0" if "length d < header_length off lsize" for d
    using that c h [of d] by (simp add: builtin_decode_len_def store_unpack_params_def)
  show "?dec (d @ e) = ?dec d" if "header_length off lsize \<le> length d" for d e
  proof -
    have "take (nat (clamp lsize 1 4)) (drop off (d @ e)) = take (nat (clamp lsize 1 4)) (drop off d)"
      using that by (simp add: header_length_def)
    moreover have "header_length off lsize \<le> length (d @ e)" using that by simp
    ultimately show ?thesis using that h [of d] h [of "d @ e"] c
      unfolding builtin_decode_len_def Let_def by (simp add: store_unpack_params_def del: length_append drop_append take_append)
  qed
qed

text \<open>What the built-in decoder says of a header in network order, when nothing overflows.\<close>

lemma builtin_decode_be:
  assumes "1 \<le> ls" "ls \<le> 4" "off + ls \<le> length d" "v < 2 ^ 31" "- (2 ^ 31) \<le> int v + adj" "int v + adj < 2 ^ 31"
    and "take ls (drop off d) = be_bytes ls (of_nat v :: 32 word)" "v < 2 ^ (8 * ls)" "no_bswap up = 0"
  shows "builtin_decode_len (store_unpack_params maxlen (int off) (int ls) adj up) d =
    Inr (if int v + adj > maxlen then -1 else int v + adj)"
proof -
  have c: "clamp (int ls) 1 4 = int ls" using assms(1,2) by simp
  have "network_to_host_n (le_word (be_bytes ls (of_nat v :: 32 word))) (length (be_bytes ls (of_nat v :: 32 word))) =
      le_word (rev (be_bytes ls (of_nat v :: 32 word)))"
    by (rule network_to_host_n_le_word) (use assms(2) in simp)
  moreover have "take_bit (8 * ls) (of_nat v :: 32 word) = of_nat v"
    by (rule take_bit_unat_less)
      (use assms(4,8) in \<open>simp add: unsigned_of_nat take_bit_nat_eq_self\<close>)
  ultimately have raw: "network_to_host_n (le_word (take ls (drop off d))) ls = (of_nat v :: 32 word)"
    using assms(7) by simp
  have "sint (of_nat v :: 32 word) = int v" using assms(4) by (simp add: signed_of_nat signed_take_bit_int_eq_self)
  then show ?thesis using assms raw by (simp add: builtin_decode_len_def decode_field_def store_unpack_params_def c Let_def)
qed

section \<open>Properties\<close>

definition lf_channel :: "int \<Rightarrow> nat \<Rightarrow> int \<Rightarrow> int \<Rightarrow> nat \<Rightarrow> io_channel \<Rightarrow> bool" where
  "lf_channel maxlen off lsize adj strip ctx \<longleftrightarrow> ch_decode_len ctx = None \<and>
     (\<exists>up. ch_uparams ctx = store_unpack_params maxlen (int off) lsize adj up) \<and>
     initial_bytes_to_strip (ch_uparams ctx) = int strip"

definition lf_frame :: "unpack_params \<Rightarrow> nat \<Rightarrow> byte list \<Rightarrow> bool" where
  "lf_frame up hdr f \<longleftrightarrow> hdr \<le> length f \<and> f \<noteq> [] \<and> builtin_decode_len up f = Inr (int (length f)) \<and>
     initial_bytes_to_strip up \<le> int (length f)"

lemma rx_holds_new: "rx_holds decode strip (new_transport ident c udp (Some fd)) []"
  by (simp add: rx_holds_def new_transport_def)

lemma lf_rx_ok:
  assumes "ch_decode_len ctx = None" "ch_uparams ctx = store_unpack_params maxlen (int off) lsize adj up"
    and "initial_bytes_to_strip (ch_uparams ctx) = int strip" "strip \<le> header_length off lsize"
  shows "length_field.rx_ok maxlen off lsize adj up strip ctx (new_transport ident c udp (Some fd)) []"
  using assms rx_holds_new [of _ "int strip" ident c udp fd]
  by (simp add: length_field.rx_ok_def channel_decode_def) (simp add: new_transport_def)

lemma lf_stream_reassembled:
  assumes "lf_channel maxlen off lsize adj strip ctx" "strip \<le> header_length off lsize"
    and "list_all (lf_frame (ch_uparams ctx) (header_length off lsize)) fs"
    and "concat ds = concat fs" "answers_fit ctx (new_transport ident c udp (Some fd)) ds"
  shows "\<exists>ctx' t'. run_reads ctx (new_transport ident c udp (Some fd)) (ds @ replicate (length fs) []) =
    Inr (True, ctx', t', map (drop strip) fs)"
proof -
  obtain up where ctx: "ch_decode_len ctx = None" "ch_uparams ctx = store_unpack_params maxlen (int off) lsize adj up"
      "initial_bytes_to_strip (ch_uparams ctx) = int strip"
    using assms(1) by (auto simp: lf_channel_def)
  have "length_field.rx_ok maxlen off lsize adj up strip ctx (new_transport ident c udp (Some fd)) []"
    by (rule lf_rx_ok [OF ctx assms(2)])
  moreover have "list_all (length_field.frame maxlen off lsize adj up (int strip)) fs"
    using assms(3) ctx by (auto simp: lf_frame_def length_field.frame_def list_all_iff)
  ultimately show ?thesis using length_field.stream_reassembled assms(4,5) by blast
qed

text \<open>
  C1: stream reassembly.  On a channel with length-field framing whose stripped part lies within
  the header, let the peer send any frames (each header announcing its frame's length), cut
  into chunks anywhere and arriving in any number of reads, idle turns in between.  Then the
  service fires exactly one packet per frame, in order, each being its frame without the
  stripped bytes; when the bytes have arrived, one turn of the loop per frame is enough.
\<close>

theorem length_field_stream_reassembled:
  assumes "lf_channel maxlen off lsize adj strip ctx" "strip \<le> header_length off lsize"
    and "list_all (lf_frame (ch_uparams ctx) (header_length off lsize)) fs"
    and "concat ds = concat fs" "answers_fit ctx (new_transport ident c udp (Some fd)) ds"
  shows "\<exists>ctx' t'. run_reads ctx (new_transport ident c udp (Some fd)) (ds @ replicate (length fs) []) =
    Inr (True, ctx', t', map (drop strip) fs)"
  using assms by (rule lf_stream_reassembled)

definition demo_channel :: io_channel where
  "demo_channel = (new_channel 1 0)\<lparr>ch_properties := YCK_TCP_CLIENT,
     ch_uparams := store_unpack_params 1024 0 1 1 default_uparams, io_socket := Some 5\<rparr>"

lemma demo_decode:
  "builtin_decode_len (store_unpack_params 1024 0 1 1 default_uparams) (b # d) =
    Inr (int (unat b) + 1)"
proof -
  have "ucast (ucast b :: 32 word) = b" by (rule bit_word_eqI) (auto simp: bit_simps)
  then have "be_bytes 1 (of_nat (unat b) :: 32 word) = [b]"
    by (simp add: be_bytes_def le_bytes_def)
  moreover have "int (unat b) \<le> 255" using unat_byte_le [of b] by linarith
  ultimately show ?thesis
    using builtin_decode_be [of 1 0 "b # d" "unat b" 1 default_uparams 1024] unat_byte_le [of b]
    by (simp add: default_uparams_def)
qed

lemma demo_stream:
  shows "lf_channel 1024 0 1 1 0 demo_channel"
    and "list_all (lf_frame (ch_uparams demo_channel) (header_length 0 1)) [[2, 7, 8], [1, 9]]"
    and "length (concat ds) \<le> yasio_max_rcvbuf \<Longrightarrow> answers_fit demo_channel (new_transport ident c udp (Some fd)) ds"
proof -
  have up: "ch_uparams demo_channel = store_unpack_params 1024 0 1 1 default_uparams" by (simp add: demo_channel_def)
  show "lf_channel 1024 0 1 1 0 demo_channel"
    unfolding lf_channel_def
    by (intro conjI exI [of _ default_uparams])
      (simp_all add: up, simp_all add: demo_channel_def new_channel_def store_unpack_params_def default_uparams_def)
  show "list_all (lf_frame (ch_uparams demo_channel) (header_length 0 1)) [[2, 7, 8], [1, 9]]"
    by (simp add: lf_frame_def up demo_decode header_length_def clamp_def) (simp add: store_unpack_params_def default_uparams_def)
  assume "length (concat ds) \<le> yasio_max_rcvbuf"
  moreover have "length_field.rx_ok 1024 0 1 1 default_uparams 0 demo_channel (new_transport ident c udp (Some fd)) []"
    by (rule lf_rx_ok) (simp_all add: up, simp_all add: demo_channel_def new_channel_def store_unpack_params_def default_uparams_def)
  ultimately show "answers_fit demo_channel (new_transport ident c udp (Some fd)) ds"
    by (intro length_field.small_streams_fit [of 1024 0 1 1 default_uparams 0 _ _ "[]"]) (simp_all add: new_transport_def)
qed

theorem length_field_stream_reassembled_witness:
  "\<exists>ctx' t'. run_reads demo_channel (new_transport 9 0 False (Some 6)) [[2], [7], [8, 1, 9], [], []] =
    Inr (True, ctx', t', [[2, 7, 8], [1, 9]])"
  using length_field_stream_reassembled [of 1024 0 1 1 0 demo_channel "[[2, 7, 8], [1, 9]]" "[[2], [7], [8, 1, 9]]" 9 0 False 6]
    demo_stream(1,2) demo_stream(3) [of "[[2], [7], [8, 1, 9]]" 9 0 False 6]
  by (simp add: header_length_def yasio_max_rcvbuf_def)


lemma raw_read:
  assumes "io_socket t \<noteq> None" "rx_fresh t []" "ch_decode_len ctx = None" "length_field_offset (ch_uparams ctx) < 0"
    and "initial_bytes_to_strip (ch_uparams ctx) = 0" "length d \<le> length (tr_buffer t)"
  shows "\<exists>ro. do_read False ctx (arrives d) t = Inr ro \<and> ro_ok ro \<and> ro_packets ro = (if d = [] then [] else [d]) \<and>
    io_socket (ro_transport ro) \<noteq> None \<and> rx_fresh (ro_transport ro) [] \<and> ch_decode_len (ro_channel ro) = None \<and>
    ch_uparams (ro_channel ro) = ch_uparams ctx \<and> length (tr_buffer (ro_transport ro)) = length (tr_buffer t)"
proof -
  note fresh = assms(2) [unfolded rx_fresh_def]
  let ?t = "t\<lparr>tr_buffer := splice 0 d (tr_buffer t)\<rparr>"
  have rd: "transport_do_read ctx (arrives d) t = Inr (int (length d), 0, (if d = [] then ctx
      else ctx\<lparr>ch_bytes_transferred := ch_bytes_transferred ctx + int (length d)\<rparr>), ?t)"
    using fresh assms(6) by (cases "d = []") (auto simp: transport_do_read_def call_read_def not_recv_error_def Let_def arrives_def)
  define t1 where "t1 = ?t"
  have t1: "take (length d) (tr_buffer t1) = d" "length (tr_buffer t1) = length (tr_buffer t)" "tr_expected_size t1 = -1"
      "tr_expected_packet t1 = []" "tr_offset t1 = 0" "io_socket t1 = io_socket t"
    using fresh assms(6) by (simp_all add: t1_def)
  have dec: "channel_decode ctx' x = Inr (int (length x))" if "ch_decode_len ctx' = None" "ch_uparams ctx' = ch_uparams ctx" for ctx' x
    using that assms(4) by (simp add: channel_decode_def builtin_decode_len_def Let_def)
  note read = do_read_unfold [OF assms(1) rd, folded t1_def, unfolded Let_def]
  show ?thesis
  proof (cases "d = []")
    case True
    then show ?thesis using read t1 assms
      by (simp add: dec read_done_def rx_fresh_def)
  next
    case False
    obtain t' nw where u: "unpack (t1\<lparr>tr_expected_size := int (length d)\<rparr>) (int (length d)) (int (length d)) (int 0) = Inr (t', Some d, nw)"
        "same_rx (t1\<lparr>tr_expected_size := int (length d)\<rparr>) t'" "rx_fresh t' []"
      using unpack_turn [of d "t1\<lparr>tr_expected_size := int (length d)\<rparr>" "int (length d)" 0 "length d"] t1 False assms(6) by auto
    then show ?thesis using t1 assms False
      by (simp add: read dec unpacked_def read_done_def same_rx_def)
  qed
qed

text \<open>
  Without a length field (\<open>length_field_offset\<close> negative, the default) each read that brings
  bytes fires one packet, made of exactly the bytes of that read.
\<close>

theorem raw_stream_chunks:
  assumes "ch_decode_len ctx = None" "length_field_offset (ch_uparams ctx) < 0"
    and "initial_bytes_to_strip (ch_uparams ctx) = 0" "\<forall>d \<in> set ds. length d \<le> yasio_max_rcvbuf"
  shows "\<exists>ctx' t'. run_reads ctx (new_transport ident c udp (Some fd)) ds = Inr (True, ctx', t', filter (\<lambda>d. d \<noteq> []) ds)"
proof -
  have "\<exists>ctx' t'. run_reads ctx t ds = Inr (True, ctx', t', filter (\<lambda>d. d \<noteq> []) ds)"
    if "io_socket t \<noteq> None" "rx_fresh t []" "length (tr_buffer t) = yasio_max_rcvbuf" for t
    using that assms
  proof (induction ds arbitrary: ctx t)
    case (Cons d ds)
    from raw_read [OF Cons.prems(1,2,4,5,6), of d] Cons.prems(3,7) obtain ro where
      ro: "do_read False ctx (arrives d) t = Inr ro" "ro_ok ro" "ro_packets ro = (if d = [] then [] else [d])"
        "io_socket (ro_transport ro) \<noteq> None" "rx_fresh (ro_transport ro) []" "ch_decode_len (ro_channel ro) = None"
        "ch_uparams (ro_channel ro) = ch_uparams ctx" "length (tr_buffer (ro_transport ro)) = length (tr_buffer t)"
      by auto
    with Cons.IH [OF ro(4,5), of "ro_channel ro"] Cons.prems show ?case by auto
  qed simp
  then show ?thesis by (simp add: rx_fresh_def new_transport_def)
qed

theorem raw_stream_chunks_witness:
  "\<exists>ctx' t'. run_reads (new_channel 1 0) (new_transport 9 0 False (Some 6)) [[1, 2], [], [3]] =
    Inr (True, ctx', t', [[1, 2], [3]])"
  using raw_stream_chunks [of "new_channel 1 0" "[[1, 2], [], [3]]" 9 0 False 6]
  by (simp add: new_channel_def default_uparams_def yasio_max_rcvbuf_def)

text \<open>
  Stripping more than has arrived is not handled.  When the header is complete but fewer
  bytes than \<open>initial_bytes_to_strip\<close> have been received, \<open>unpack\<close> inserts the range from the
  stripped part to the shorter received part, and \<open>pod_vector::insert\<close> throws
  \<open>std::out_of_range\<close> in the service thread, where nothing catches it.
\<close>

theorem strip_beyond_received_throws:
  assumes "io_socket t \<noteq> None" "tr_expected_size t = -1" "tr_offset t = 0" "d \<noteq> []" "length d \<le> length (tr_buffer t)"
    and "channel_decode ctx d = Inr n" "int strip \<le> n" "length d < strip" "initial_bytes_to_strip (ch_uparams ctx) = int strip"
  shows "do_read False ctx (Recvd d) t = Inl OutOfRange"
proof -
  let ?t = "t\<lparr>tr_buffer := splice 0 d (tr_buffer t)\<rparr>"
  have "take (length d) (splice 0 d (tr_buffer t)) = d" using assms(5) by simp
  then show ?thesis using assms
    by (simp add: do_read_def deliver_def transport_do_read_def call_read_def Let_def unpack_def unpacked_def)
qed

theorem strip_beyond_received_throws_witness:
  "do_read False ((new_channel 1 0)\<lparr>ch_uparams := (store_unpack_params 1024 0 1 1 default_uparams)\<lparr>initial_bytes_to_strip := 4\<rparr>\<rparr>)
     (Recvd [9, 1]) (new_transport 9 0 False (Some 6)) = Inl OutOfRange"
proof -
  let ?c = "(new_channel 1 0)\<lparr>ch_uparams := (store_unpack_params 1024 0 1 1 default_uparams)\<lparr>initial_bytes_to_strip := 4\<rparr>\<rparr>"
  have "ch_uparams ?c = store_unpack_params 1024 0 1 1 (default_uparams\<lparr>initial_bytes_to_strip := 4\<rparr>)"
    by (simp add: store_unpack_params_def default_uparams_def)
  moreover have "builtin_decode_len (store_unpack_params 1024 0 1 1 (default_uparams\<lparr>initial_bytes_to_strip := 4\<rparr>)) [9, 1] = Inr 10"
  proof -
    have "be_bytes 1 (9 :: 32 word) = [9]" by (simp add: be_bytes_def le_bytes_def)
    then show ?thesis
      using builtin_decode_be [of 1 0 "[9, 1]" 9 1 "default_uparams\<lparr>initial_bytes_to_strip := 4\<rparr>" 1024]
      by (simp add: default_uparams_def)
  qed
  ultimately have "channel_decode ?c [9, 1] = Inr 10" "initial_bytes_to_strip (ch_uparams ?c) = int 4"
    by (simp_all add: channel_decode_def new_channel_def) (simp add: store_unpack_params_def)
  then show ?thesis
    by (intro strip_beyond_received_throws [where n = 10 and strip = 4])
      (simp_all add: new_transport_def yasio_max_rcvbuf_def)
qed

text \<open>
  A header whose announced length comes out as zero is taken for an incomplete header: the
  read neither fires a packet nor closes the connection, keeps the bytes, and does so again
  with everything that follows, until the receive buffer is full.
\<close>

theorem zero_length_frame_stalls:
  assumes "frame_decoder (channel_decode ctx) hdr" "hdr \<le> length p" "channel_decode ctx p = Inr 0"
    and "io_socket t \<noteq> None" "rx_fresh t p" "length p + length d \<le> length (tr_buffer t)"
  shows "\<exists>ro. do_read False ctx (arrives d) t = Inr ro \<and> ro_ok ro \<and> ro_packets ro = [] \<and> rx_fresh (ro_transport ro) (p @ d) \<and>
    channel_decode (ro_channel ro) (p @ d) = Inr 0"
proof -
  note fresh = assms(5) [unfolded rx_fresh_def]
  obtain ctx' where rd: "transport_do_read ctx (arrives d) t =
      Inr (int (length d), 0, ctx', t\<lparr>tr_buffer := splice (length p) d (tr_buffer t)\<rparr>)"
    and ctx': "channel_decode ctx' = channel_decode ctx"
    using transport_do_read_arrives [of t d ctx] fresh assms(6) by auto
  define t1 where "t1 = t\<lparr>tr_buffer := splice (length p) d (tr_buffer t)\<rparr>"
  have t1: "take (length (p @ d)) (tr_buffer t1) = p @ d" "length (tr_buffer t1) = length (tr_buffer t)"
      "tr_expected_size t1 = -1" "tr_expected_packet t1 = []" "tr_offset t1 = int (length p)"
    using assms(6) fresh by (simp_all add: t1_def take_splice_all)
  have zero: "channel_decode ctx (p @ d) = Inr 0"
    using frame_decoder.stable [OF assms(1,2), of d] assms(3) by simp
  have off: "nat (tr_offset t1 + int (length d)) = length (p @ d)" using t1(5) by simp
  have "do_read False ctx (arrives d) t = Inr (read_done True ctx' (t1\<lparr>tr_offset := tr_offset t1 + int (length d)\<rparr>))"
    using do_read_unfold [OF assms(4) rd, folded t1_def, unfolded Let_def off t1(1) ctx'] t1(3) zero by simp
  then show ?thesis using t1 zero ctx' assms(6) by (simp add: read_done_def rx_fresh_def)
qed


theorem zero_length_frame_stalls_witness:
  "let ctx = (new_channel 1 0)\<lparr>ch_uparams := store_unpack_params 1024 0 1 0 default_uparams\<rparr>;
       t = (new_transport 9 0 False (Some 6))\<lparr>tr_offset := 1\<rparr>
   in \<exists>ro. do_read False ctx (arrives [5, 6]) t = Inr ro \<and> ro_ok ro \<and> ro_packets ro = []"
proof -
  let ?up = "store_unpack_params 1024 (int 0) 1 0 default_uparams"
  let ?ctx = "(new_channel 1 0)\<lparr>ch_uparams := ?up\<rparr>"
  have dec: "channel_decode ?ctx = builtin_decode_len ?up" by (simp add: channel_decode_def new_channel_def)
  have "be_bytes 1 (0 :: 32 word) = [0]" by (simp add: be_bytes_def le_bytes_def)
  then have "builtin_decode_len ?up [0] = Inr 0"
    using builtin_decode_be [of 1 0 "[0]" 0 0 default_uparams 1024] by (simp add: default_uparams_def)
  moreover have "frame_decoder (builtin_decode_len ?up) (header_length 0 1)"
    by (rule length_field.frame_decoder_axioms)
  ultimately show ?thesis
    using zero_length_frame_stalls [of ?ctx "header_length 0 1" "[0]" "(new_transport 9 0 False (Some 6))\<lparr>tr_offset := 1\<rparr>" "[5, 6]"]
    by (auto simp: dec [simplified] rx_fresh_def header_length_def clamp_def new_transport_def yasio_max_rcvbuf_def Let_def)
qed

end
