(* ===== verification/SendQueue.thy ===== *)
theory SendQueue
  imports IoTypes
begin

text \<open>
  Sending on a transport: the user's \<open>write\<close>, \<open>write_to\<close>, \<open>forward\<close> and \<open>forward_to\<close>, which only queue
  an operation, and the service's \<open>do_write\<close>, \<open>call_write\<close> and \<open>complete_op\<close>, which pass the
  operation at the head to the socket once per turn (\<open>yasio/io_service.cpp\<close>).  The system's
  answer to \<open>send\<close> or \<open>sendto\<close> is a parameter.
\<close>

section \<open>Queueing\<close>

definition new_send_op :: "byte list \<Rightarrow> nat option \<Rightarrow> endpoint option \<Rightarrow> send_op" where
  "new_send_op buf handler dest = \<lparr>op_offset = 0, op_buffer = buf, op_handler = handler, op_destination = dest\<rparr>"

text \<open>\<open>io_transport::write\<close>; the service is woken up in any case.\<close>

definition transport_write :: "byte list \<Rightarrow> nat option \<Rightarrow> io_transport \<Rightarrow> int \<times> io_transport" where
  "transport_write buf handler t =
     (to_int32 (int (length buf)),
      t\<lparr>tr_send_queue := cq_emplace (new_send_op buf handler None) (tr_send_queue t)\<rparr>)"

definition udp_write_to :: "byte list \<Rightarrow> endpoint option \<Rightarrow> nat option \<Rightarrow> io_transport \<Rightarrow> int \<times> io_transport" where
  "udp_write_to buf to' handler t =
     (to_int32 (int (length buf)),
      t\<lparr>tr_send_queue := cq_emplace (new_send_op buf handler to') (tr_send_queue t)\<rparr>)"

text \<open>\<open>ensure_destination\<close>: an unset destination becomes the last peer.\<close>

definition ensure_destination :: "io_transport \<Rightarrow> endpoint option \<times> io_transport" where
  "ensure_destination t =
     (if tr_destination t \<noteq> None then (tr_destination t, t)
      else (tr_peer t, t\<lparr>tr_destination := tr_peer t\<rparr>))"

text \<open>The virtual \<open>write\<close> and \<open>write_to\<close>; a TCP transport does not support the latter and returns 0.\<close>

definition virtual_write :: "byte list \<Rightarrow> nat option \<Rightarrow> io_transport \<Rightarrow> int \<times> io_transport" where
  "virtual_write buf handler t =
     (if tr_udp t \<and> \<not> tr_connected t
      then let (dest, t) = ensure_destination t in udp_write_to buf dest handler t
      else transport_write buf handler t)"

definition virtual_write_to :: "byte list \<Rightarrow> endpoint option \<Rightarrow> nat option \<Rightarrow> io_transport \<Rightarrow> int \<times> io_transport" where
  "virtual_write_to buf to' handler t = (if tr_udp t then udp_write_to buf to' handler t else (0, t))"

text \<open>\<open>io_service::write\<close> and \<open>forward\<close>, \<open>write_to\<close> and \<open>forward_to\<close>: a null handle is \<open>None\<close>.\<close>

definition service_write :: "byte list \<Rightarrow> nat option \<Rightarrow> io_transport option \<Rightarrow> int \<times> io_transport option" where
  "service_write buf handler h =
     (case h of
        Some t \<Rightarrow>
          if tr_is_open t
          then if buf \<noteq> [] then let (n, t) = virtual_write buf handler t in (n, Some t) else (0, h)
          else (-1, h)
      | None \<Rightarrow> (-1, h))"

definition service_write_to ::
  "byte list \<Rightarrow> endpoint option \<Rightarrow> nat option \<Rightarrow> io_transport option \<Rightarrow> int \<times> io_transport option" where
  "service_write_to buf to' handler h =
     (case h of
        Some t \<Rightarrow>
          if tr_is_open t
          then if buf \<noteq> [] then let (n, t) = virtual_write_to buf to' handler t in (n, Some t) else (0, h)
          else (-1, h)
      | None \<Rightarrow> (-1, h))"

section \<open>Flushing\<close>

text \<open>What the socket answers: how many bytes it has taken, or an error.\<close>

datatype send_result = Sent nat | Send_fail int

record write_out =
  wo_ok :: bool
  wo_transport :: io_transport
  wo_wire :: "byte list"  \<comment> \<open>bytes the socket has taken\<close>
  wo_done :: "(nat option \<times> int \<times> nat) list"  \<comment> \<open>completed operations: handler, error, bytes\<close>
  wo_watch :: "(nat \<times> nat) list"  \<comment> \<open>\<open>mod_event\<close> calls: events added, events removed\<close>
  wo_no_wait :: bool

definition write_done :: "io_transport \<Rightarrow> write_out" where
  "write_done t = \<lparr>wo_ok = True, wo_transport = t, wo_wire = [], wo_done = [], wo_watch = [], wo_no_wait = False\<rparr>"

text \<open>\<open>op->perform\<close>: what is offered to the socket; datagrams are cut at \<open>yasio__udp_mss\<close>.\<close>

definition offered :: "io_transport \<Rightarrow> send_op \<Rightarrow> byte list" where
  "offered t op =
     (let rest = drop (op_offset op) (op_buffer op) in if tr_udp t then take yasio_udp_mss rest else rest)"

text \<open>\<open>complete_op\<close>: the handler, then \<open>send_queue_.pop()\<close>.\<close>

definition complete_op :: "send_op \<Rightarrow> int \<Rightarrow> write_out \<Rightarrow> write_out result" where
  "complete_op op error wo =
     andthen (cq_pop (tr_send_queue (wo_transport wo))) (\<lambda>q.
       Inr (wo\<lparr>wo_done := wo_done wo @ [(op_handler op, error, op_offset op)],
               wo_transport := (wo_transport wo)\<lparr>tr_send_queue := q\<rparr>\<rparr>))"

text \<open>
  \<open>call_write\<close> on the operation at the head: the status and the error.  \<open>udp\<close> is the mask
  \<open>YCM_UDP\<close> of the channel.
\<close>

definition set_head :: "send_op \<Rightarrow> io_transport \<Rightarrow> io_transport" where
  "set_head op t = t\<lparr>tr_send_queue := (tr_send_queue t)[0 := op]\<rparr>"

definition call_write :: "bool \<Rightarrow> send_result \<Rightarrow> send_op \<Rightarrow> write_out \<Rightarrow> (int \<times> int \<times> write_out) result" where
  "call_write udp ans op wo =
     (case ans of
        Sent n \<Rightarrow>
          if n > length (offered (wo_transport wo) op) then Inl Undefined
          else if n > 0
          then let op' = op\<lparr>op_offset := op_offset op + n\<rparr>;
                   wo' = wo\<lparr>wo_transport := set_head op' (wo_transport wo),
                            wo_wire := wo_wire wo @ take n (offered (wo_transport wo) op)\<rparr>
               in if op_offset op' = length (op_buffer op')
                  then andthen (complete_op op' 0 wo') (\<lambda>wo. Inr (int n, 0, wo))
                  else Inr (int n, 0, wo')
          else Inr (0, 0, wo)
      | Send_fail error \<Rightarrow>
          if not_send_error error then Inr (0, error, wo)
          else if udp then andthen (complete_op op error wo) (\<lambda>wo. Inr (0, error, wo))
          else Inr (-1, error, wo))"

definition watch_write :: "bool \<Rightarrow> write_out \<Rightarrow> write_out" where
  "watch_write on wo =
     wo\<lparr>wo_transport := (wo_transport wo)\<lparr>io_pollout := on\<rparr>,
        wo_watch := wo_watch wo @ [if on then (2, 0) else (0, 2)]\<rparr>"

text \<open>The part of \<open>do_write\<close> behind the send: the write event and the wait of the next turn.\<close>

definition after_write :: "int \<Rightarrow> write_out \<Rightarrow> write_out" where
  "after_write error wo =
     (let no_wevent = cq_empty (tr_send_queue (wo_transport wo));
          (no_wevent, wo) =
            (if \<not> no_wevent
             then let no_wevent = error \<noteq> EWOULDBLOCK \<and> error \<noteq> EAGAIN \<and> error \<noteq> ENOBUFS
                  in if \<not> no_wevent
                     then (no_wevent, if \<not> io_pollout (wo_transport wo) then watch_write True wo else wo)
                     else (no_wevent, wo\<lparr>wo_no_wait := True\<rparr>)
             else (no_wevent, wo))
      in if no_wevent \<and> io_pollout (wo_transport wo) then watch_write False wo else wo)"

definition do_write :: "bool \<Rightarrow> send_result \<Rightarrow> io_transport \<Rightarrow> write_out result" where
  "do_write udp ans t =
     (let wo = write_done t
      in if io_socket t = None then Inr (wo\<lparr>wo_ok := False\<rparr>)
         else case cq_peek (tr_send_queue t) of
                None \<Rightarrow> Inr (after_write 0 wo)
              | Some op \<Rightarrow>
                  andthen (call_write udp ans op wo) (\<lambda>(n, error, wo).
                    if n < 0
                    then Inr (wo\<lparr>wo_ok := False, wo_transport := set_last_errno error WRITE (wo_transport wo)\<rparr>)
                    else Inr (after_write error wo)))"

section \<open>Runs\<close>

text \<open>
  A run interleaves the calls of the user with turns of the service: the record keeps the
  transport, the buffers accepted so far, the bytes on the wire and the completions.  After a
  turn that fails the service closes the transport, and nothing more happens on it.
\<close>

datatype send_step = Write "byte list" "nat option" | Turn send_result

record send_run =
  sr_alive :: bool
  sr_transport :: io_transport
  sr_accepted :: "(byte list \<times> nat option) list"
  sr_wire :: "byte list"
  sr_done :: "(nat option \<times> int \<times> nat) list"

definition send_start :: "io_transport \<Rightarrow> send_run" where
  "send_start t = \<lparr>sr_alive = True, sr_transport = t, sr_accepted = [], sr_wire = [], sr_done = []\<rparr>"

definition send_step :: "bool \<Rightarrow> send_step \<Rightarrow> send_run \<Rightarrow> send_run result" where
  "send_step udp st r =
     (if \<not> sr_alive r then Inr r
      else case st of
        Write buf h \<Rightarrow>
          (case service_write buf h (Some (sr_transport r)) of (n, Some t) \<Rightarrow>
             Inr (r\<lparr>sr_transport := t, sr_accepted := sr_accepted r @ (if 0 < n then [(buf, h)] else [])\<rparr>)
           | _ \<Rightarrow> Inr r)
      | Turn ans \<Rightarrow>
          andthen (do_write udp ans (sr_transport r)) (\<lambda>wo.
            Inr (r\<lparr>sr_alive := wo_ok wo, sr_transport := wo_transport wo, sr_wire := sr_wire r @ wo_wire wo,
                   sr_done := sr_done r @ wo_done wo\<rparr>)))"

fun send_steps :: "bool \<Rightarrow> send_step list \<Rightarrow> send_run \<Rightarrow> send_run result" where
  "send_steps udp [] r = Inr r"
| "send_steps udp (st # sts) r = andthen (send_step udp st r) (send_steps udp sts)"

text \<open>
  What \<open>send\<close> promises, it never takes more than it is offered, and the size of one buffer, whose
  length is returned as an \<open>int\<close>.
\<close>

definition answer_fits :: "send_result \<Rightarrow> io_transport \<Rightarrow> bool" where
  "answer_fits ans t =
     (case ans of Sent n \<Rightarrow> (case tr_send_queue t of [] \<Rightarrow> True | op # _ \<Rightarrow> n \<le> length (offered t op))
      | Send_fail _ \<Rightarrow> True)"

fun steps_fit :: "bool \<Rightarrow> send_step list \<Rightarrow> send_run \<Rightarrow> bool" where
  "steps_fit udp [] r \<longleftrightarrow> True"
| "steps_fit udp (st # sts) r \<longleftrightarrow>
     (case st of Write buf _ \<Rightarrow> length buf < 2 ^ 31 | Turn ans \<Rightarrow> answer_fits ans (sr_transport r)) \<and>
     (case send_step udp st r of Inl _ \<Rightarrow> True | Inr r \<Rightarrow> steps_fit udp sts r)"

definition unsent :: "send_op \<Rightarrow> byte list" where
  "unsent op = drop (op_offset op) (op_buffer op)"

definition pending :: "send_op list \<Rightarrow> byte list" where
  "pending q = concat (map unsent q)"

definition completion :: "byte list \<times> nat option \<Rightarrow> nat option \<times> int \<times> nat" where
  "completion w = (snd w, 0, length (fst w))"

definition stream_inv :: "(byte list \<times> nat option) list \<Rightarrow> (nat option \<times> int \<times> nat) list \<Rightarrow> byte list \<Rightarrow> send_op list \<Rightarrow> bool" where
  "stream_inv acc dn wire q \<longleftrightarrow> (\<exists>acc1. acc = acc1 @ map (\<lambda>op. (op_buffer op, op_handler op)) q \<and> dn = map completion acc1 \<and>
     wire @ pending q = concat (map fst acc) \<and> (\<forall>op \<in> set q. op_offset op < length (op_buffer op)))"

section \<open>One turn\<close>

definition would_block :: "int \<Rightarrow> bool" where
  "would_block error \<longleftrightarrow> error = EWOULDBLOCK \<or> error = EAGAIN \<or> error = ENOBUFS"

lemma after_write_keeps [simp]:
  "wo_ok (after_write error wo) = wo_ok wo"
  "wo_wire (after_write error wo) = wo_wire wo"
  "wo_done (after_write error wo) = wo_done wo"
  "tr_send_queue (wo_transport (after_write error wo)) = tr_send_queue (wo_transport wo)"
  "tr_udp (wo_transport (after_write error wo)) = tr_udp (wo_transport wo)"
  "io_state (wo_transport (after_write error wo)) = io_state (wo_transport wo)"
  "io_socket (wo_transport (after_write error wo)) = io_socket (wo_transport wo)"
  by (simp_all add: after_write_def watch_write_def Let_def)

lemma after_write_watch:
  assumes "wo_watch wo = []" "\<not> wo_no_wait wo" and q: "tr_send_queue (wo_transport wo) = q"
  shows "io_pollout (wo_transport (after_write error wo)) \<longleftrightarrow> q \<noteq> [] \<and> would_block error"
    and "wo_no_wait (after_write error wo) \<longleftrightarrow> q \<noteq> [] \<and> \<not> would_block error"
    and "wo_watch (after_write error wo) =
      (if (q \<noteq> [] \<and> would_block error) = io_pollout (wo_transport wo) then []
       else if q \<noteq> [] \<and> would_block error then [(2, 0)] else [(0, 2)])"
  using assms by (auto simp: after_write_def watch_write_def would_block_def Let_def cq_empty_def)

text \<open>The head of the queue after the socket has taken \<open>n\<close> bytes, and the completions.\<close>

definition after_sent :: "nat \<Rightarrow> send_op \<Rightarrow> send_op list \<Rightarrow> write_out \<Rightarrow> write_out" where
  "after_sent n op ops wo =
     (let t = (wo_transport wo)\<lparr>tr_send_queue :=
            (if n = length (unsent op) then ops else (op\<lparr>op_offset := op_offset op + n\<rparr>) # ops)\<rparr>
      in wo\<lparr>wo_transport := t, wo_wire := wo_wire wo @ take n (offered (wo_transport wo) op),
          wo_done := wo_done wo @ (if n = length (unsent op) then [(op_handler op, 0, length (op_buffer op))] else [])\<rparr>)"

lemma call_write_sent:
  assumes q: "tr_send_queue (wo_transport wo) = op # ops" and n: "n \<le> length (offered (wo_transport wo) op)"
    and op: "op_offset op < length (op_buffer op)"
  shows "call_write udp (Sent n) op wo = Inr (int n, 0, after_sent n op ops wo)"
proof -
  have "op_offset op + n = length (op_buffer op) \<longleftrightarrow> n = length (unsent op)" "n = 0 \<Longrightarrow> n \<noteq> length (unsent op)"
    using op by (auto simp: unsent_def)
  then show ?thesis
    using q n by (cases wo) (auto simp: after_sent_def call_write_def set_head_def complete_op_def cq_pop_def Let_def)
qed

lemma do_write_queued:
  assumes "tr_is_open t" "tr_send_queue t = op # ops"
  shows "do_write udp ans t = andthen (call_write udp ans op (write_done t)) (\<lambda>(n, error, wo).
    if n < 0 then Inr (wo\<lparr>wo_ok := False, wo_transport := set_last_errno error WRITE (wo_transport wo)\<rparr>)
    else Inr (after_write error wo))"
  using assms by (auto simp: do_write_def cq_peek_def tr_is_open_def Let_def)

lemma do_write_empty:
  "tr_is_open t \<Longrightarrow> tr_send_queue t = [] \<Longrightarrow> do_write udp ans t = Inr (after_write 0 (write_done t))"
  by (auto simp: do_write_def cq_peek_def tr_is_open_def Let_def)

lemma write_done_simps [simp]:
  "wo_ok (write_done t)" "wo_transport (write_done t) = t" "wo_wire (write_done t) = []" "wo_done (write_done t) = []"
  "wo_watch (write_done t) = []" "\<not> wo_no_wait (write_done t)"
  by (simp_all add: write_done_def)

lemma do_write_sent:
  assumes "tr_is_open t" "tr_send_queue t = op # ops" "n \<le> length (offered t op)" "op_offset op < length (op_buffer op)"
  shows "do_write udp (Sent n) t = Inr (after_write 0 (after_sent n op ops (write_done t)))"
  using assms by (simp add: do_write_queued call_write_sent [where ops = ops])

lemma do_write_not_now:
  assumes "tr_is_open t" "tr_send_queue t = op # ops" "not_send_error e"
  shows "do_write udp (Send_fail e) t = Inr (after_write e (write_done t))"
  using assms by (simp add: do_write_queued call_write_def)

lemma do_write_fails:
  assumes "tr_is_open t" "tr_send_queue t = op # ops" "\<not> not_send_error e"
  shows "do_write False (Send_fail e) t = Inr ((write_done t)\<lparr>wo_ok := False, wo_transport := set_last_errno e WRITE t\<rparr>)"
  using assms by (simp add: do_write_queued call_write_def)

lemma do_write_drops:
  assumes "tr_is_open t" "tr_send_queue t = op # ops" "\<not> not_send_error e"
  shows "do_write True (Send_fail e) t =
    Inr (after_write e ((write_done t)\<lparr>wo_done := [(op_handler op, e, op_offset op)],
      wo_transport := t\<lparr>tr_send_queue := ops\<rparr>\<rparr>))"
  using assms by (simp add: do_write_queued call_write_def complete_op_def cq_pop_def)

section \<open>The stream invariant\<close>

lemma stream_inv_accept:
  "stream_inv acc dn wire q \<Longrightarrow> buf \<noteq> [] \<Longrightarrow> stream_inv (acc @ [(buf, h)]) dn wire (q @ [new_send_op buf h None])"
  by (auto simp: stream_inv_def pending_def new_send_op_def unsent_def simp flip: append_assoc)

lemma stream_inv_sent:
  assumes "stream_inv acc dn wire (op # ops)" "n \<le> length (unsent op)"
  shows "stream_inv acc (dn @ (if n = length (unsent op) then [(op_handler op, 0, length (op_buffer op))] else []))
    (wire @ take n (unsent op)) (if n = length (unsent op) then ops else (op\<lparr>op_offset := op_offset op + n\<rparr>) # ops)"
proof -
  from assms(1) obtain acc1 where acc1: "acc = acc1 @ (op_buffer op, op_handler op) # map (\<lambda>op. (op_buffer op, op_handler op)) ops"
      "dn = map completion acc1" "wire @ unsent op @ pending ops = concat (map fst acc)"
      "\<forall>op \<in> set (op # ops). op_offset op < length (op_buffer op)"
    by (auto simp: stream_inv_def pending_def)
  show ?thesis
  proof (cases "n = length (unsent op)")
    case True
    with acc1 show ?thesis
      by (auto simp: stream_inv_def completion_def intro!: exI [of _ "acc1 @ [(op_buffer op, op_handler op)]"])
  next
    case False
    then have "op_offset op + n < length (op_buffer op)" using assms(2) by (auto simp: unsent_def)
    moreover have "take n (unsent op) @ unsent (op\<lparr>op_offset := op_offset op + n\<rparr>) = unsent op"
      by (simp add: unsent_def add.commute [of _ n] flip: drop_drop)
    then have "(wire @ take n (unsent op)) @ pending ((op\<lparr>op_offset := op_offset op + n\<rparr>) # ops) = concat (map fst acc)"
      unfolding acc1(3) [symmetric] by (metis (no_types, lifting) append_assoc concat.simps(2) list.simps(9) pending_def)
    ultimately show ?thesis unfolding stream_inv_def using False acc1(1,2,4)
      by (intro exI [of _ acc1]) simp
  qed
qed

definition send_ready :: "send_run \<Rightarrow> bool" where
  "send_ready r \<longleftrightarrow> stream_inv (sr_accepted r) (sr_done r) (sr_wire r) (tr_send_queue (sr_transport r)) \<and>
     (sr_alive r \<longrightarrow> tr_is_open (sr_transport r) \<and> \<not> tr_udp (sr_transport r))"

lemma service_write_tcp:
  assumes "tr_is_open t" "\<not> tr_udp t"
  shows "service_write buf h (Some t) = (to_int32 (int (length buf)), Some (if buf = [] then t
    else t\<lparr>tr_send_queue := tr_send_queue t @ [new_send_op buf h None]\<rparr>))"
  using assms by (simp add: service_write_def virtual_write_def transport_write_def cq_emplace_def)

lemma send_step_write:
  assumes "send_ready r" "length buf < 2 ^ 31"
  shows "\<exists>r'. send_step False (Write buf h) r = Inr r' \<and> send_ready r'"
  using assms
  by (auto simp: send_step_def service_write_tcp send_ready_def tr_is_open_def stream_inv_accept)

lemma unsent_tcp: "\<not> tr_udp t \<Longrightarrow> offered t op = unsent op"
  by (simp add: offered_def unsent_def)

lemma do_write_stream:
  assumes t: "tr_is_open t" "\<not> tr_udp t" and i: "stream_inv acc dn wire (tr_send_queue t)" and fits: "answer_fits ans t"
  obtains wo where "do_write False ans t = Inr wo" "wo_ok wo \<Longrightarrow> tr_is_open (wo_transport wo) \<and> \<not> tr_udp (wo_transport wo)"
    "stream_inv acc (dn @ wo_done wo) (wire @ wo_wire wo) (tr_send_queue (wo_transport wo))"
proof (cases "tr_send_queue t")
  case Nil
  with t i show thesis by (intro that [OF do_write_empty]) (simp_all add: tr_is_open_def)
next
  case (Cons op ops)
  show thesis
  proof (cases ans)
    case (Sent n)
    from i Cons have op: "op_offset op < length (op_buffer op)" by (auto simp: stream_inv_def)
    from fits Sent Cons have n: "n \<le> length (offered t op)" by (simp add: answer_fits_def)
    with t have un: "n \<le> length (unsent op)" by (simp add: unsent_tcp)
    show thesis
      using t stream_inv_sent [OF i [unfolded Cons] un] unfolding Sent
      by (intro that [unfolded Sent, OF do_write_sent [OF t(1) Cons n op, of False]]) (simp_all add: after_sent_def Let_def unsent_tcp tr_is_open_def)
  next
    case (Send_fail e)
    show thesis
    proof (cases "not_send_error e")
      case True
      with t i Cons show thesis unfolding Send_fail by (intro that [unfolded Send_fail, OF do_write_not_now]) (simp_all add: tr_is_open_def)
    next
      case False
      with t i Cons show thesis unfolding Send_fail by (intro that [unfolded Send_fail, OF do_write_fails]) (simp_all add: set_last_errno_def)
    qed
  qed
qed

lemma send_step_turn:
  assumes "send_ready r" "answer_fits ans (sr_transport r)"
  shows "\<exists>r'. send_step False (Turn ans) r = Inr r' \<and> send_ready r'"
proof (cases "sr_alive r")
  case True
  with assms(1) have "tr_is_open (sr_transport r)" "\<not> tr_udp (sr_transport r)"
    "stream_inv (sr_accepted r) (sr_done r) (sr_wire r) (tr_send_queue (sr_transport r))" by (simp_all add: send_ready_def)
  from do_write_stream [OF this assms(2)] obtain wo where "do_write False ans (sr_transport r) = Inr wo"
    "wo_ok wo \<Longrightarrow> tr_is_open (wo_transport wo) \<and> \<not> tr_udp (wo_transport wo)"
    "stream_inv (sr_accepted r) (sr_done r @ wo_done wo) (sr_wire r @ wo_wire wo) (tr_send_queue (wo_transport wo))" by blast
  with True show ?thesis by (simp add: send_step_def send_ready_def)
qed (use assms in \<open>simp add: send_step_def\<close>)

lemma send_steps_ready:
  "send_ready r \<Longrightarrow> steps_fit False sts r \<Longrightarrow> \<exists>r'. send_steps False sts r = Inr r' \<and> send_ready r'"
proof (induction sts arbitrary: r)
  case (Cons st sts)
  have "\<exists>r'. send_step False st r = Inr r' \<and> send_ready r'"
    using Cons.prems send_step_write send_step_turn by (cases st) auto
  then obtain r' where "send_step False st r = Inr r'" "send_ready r'" by blast
  with Cons show ?case by simp
qed simp

text \<open>
  C5: a TCP transport loses, duplicates and reorders nothing it accepts.  However calls of
  \<open>write\<close> and turns of the service are interleaved and however the socket cuts the data, the
  bytes on the wire followed by the bytes still queued are the accepted buffers in order; the
  handlers run once each, in the order of the writes, with no error and the size of the buffer,
  and only after all bytes of the buffer are on the wire.
\<close>

theorem tcp_send_stream:
  assumes "tr_is_open t" "\<not> tr_udp t" "tr_send_queue t = []" "steps_fit False sts (send_start t)"
  shows "\<exists>r acc1 acc2. send_steps False sts (send_start t) = Inr r \<and> sr_accepted r = acc1 @ acc2 \<and>
    sr_wire r @ pending (tr_send_queue (sr_transport r)) = concat (map fst (sr_accepted r)) \<and>
    sr_done r = map (\<lambda>(buf, h). (h, 0, length buf)) acc1 \<and>
    map (\<lambda>op. (op_buffer op, op_handler op)) (tr_send_queue (sr_transport r)) = acc2 \<and>
    take (length (concat (map fst acc1))) (sr_wire r) = concat (map fst acc1)"
proof -
  have "send_ready (send_start t)"
    using assms(1-3) by (simp add: send_ready_def send_start_def stream_inv_def pending_def)
  with assms(4) obtain r where r: "send_steps False sts (send_start t) = Inr r" "send_ready r"
    using send_steps_ready by blast
  then obtain acc1 where acc1: "sr_done r = map completion acc1"
      "sr_accepted r = acc1 @ map (\<lambda>op. (op_buffer op, op_handler op)) (tr_send_queue (sr_transport r))"
      "sr_wire r @ pending (tr_send_queue (sr_transport r)) = concat (map fst (sr_accepted r))"
    by (auto simp: send_ready_def stream_inv_def)
  let ?q = "tr_send_queue (sr_transport r)"
  have "length (pending q) \<le> length (concat (map (\<lambda>op. op_buffer op) q))" for q
    by (induction q) (auto simp: pending_def unsent_def)
  from this [of ?q] have "length (concat (map fst acc1)) \<le> length (sr_wire r)"
    using arg_cong [OF acc1(3), of length] acc1(2) by (simp add: comp_def)
  moreover have "take (length (concat (map fst acc1))) (sr_wire r @ pending ?q) = concat (map fst acc1)"
    unfolding acc1(3) unfolding acc1(2) by simp
  ultimately have "take (length (concat (map fst acc1))) (sr_wire r) = concat (map fst acc1)" by simp
  moreover have "sr_done r = map (\<lambda>(buf, h). (h, 0, length buf)) acc1"
    unfolding acc1(1) completion_def by (auto simp: case_prod_beta)
  ultimately show ?thesis using r(1) acc1(2,3) by blast
qed

definition demo_tcp :: io_transport where
  "demo_tcp = \<lparr>io_id = 1, io_socket = Some 5, io_error = 0, io_error_stage = NONE, io_pollout = False, io_state = OPENED,
      io_opmask = 0, tr_ctx = 0, tr_udp = False, tr_buffer = [], tr_offset = 0, tr_expected_size = -1,
      tr_expected_packet = [], tr_send_queue = [], tr_connected = False, tr_peer = None, tr_destination = None\<rparr>"

lemmas send_eval = send_step_def service_write_def virtual_write_def transport_write_def cq_emplace_def new_send_op_def
  do_write_def cq_peek_def call_write_def offered_def set_head_def complete_op_def cq_pop_def cq_empty_def after_write_def
  watch_write_def write_done_def tr_is_open_def answer_fits_def send_start_def not_send_error_def errno_defs Let_def

theorem tcp_send_stream_witness:
  "\<exists>r. send_steps False [Write [1, 2, 3] (Some 7), Turn (Sent 2), Write [4] None, Turn (Send_fail EAGAIN), Turn (Sent 1)]
      (send_start demo_tcp) = Inr r \<and>
    sr_wire r @ pending (tr_send_queue (sr_transport r)) = concat (map fst (sr_accepted r)) \<and>
    sr_wire r = [1, 2, 3] \<and> sr_done r = [(Some 7, 0, 3)]"
proof -
  let ?sts = "[Write [1, 2, 3] (Some 7), Turn (Sent 2), Write [4] None, Turn (Send_fail EAGAIN), Turn (Sent 1)]"
  have "tr_is_open demo_tcp" "\<not> tr_udp demo_tcp" "tr_send_queue demo_tcp = []" by (simp_all add: demo_tcp_def tr_is_open_def)
  moreover have "steps_fit False ?sts (send_start demo_tcp)" by (simp add: send_eval demo_tcp_def)
  moreover have "\<exists>r. send_steps False ?sts (send_start demo_tcp) = Inr r \<and> sr_wire r = [1, 2, 3] \<and> sr_done r = [(Some 7, 0, 3)]"
    by (simp add: send_eval demo_tcp_def)
  ultimately show ?thesis using tcp_send_stream [of demo_tcp ?sts] by auto
qed


section \<open>Waiting\<close>

definition turn_error :: "send_result \<Rightarrow> io_transport \<Rightarrow> int" where
  "turn_error ans t = (case ans of Send_fail e \<Rightarrow> if tr_send_queue t = [] then 0 else e | Sent _ \<Rightarrow> 0)"

lemma do_write_shape:
  assumes "tr_is_open t" "answer_fits ans t" "\<forall>op \<in> set (tr_send_queue t). op_offset op < length (op_buffer op)"
  obtains wo where "do_write udp ans t = Inr wo" "wo_ok wo \<Longrightarrow> \<exists>wo0. wo = after_write (turn_error ans t) wo0 \<and>
    wo_watch wo0 = [] \<and> \<not> wo_no_wait wo0 \<and> io_pollout (wo_transport wo0) = io_pollout t"
proof (cases "tr_send_queue t")
  case Nil
  with assms(1) show thesis
    by (intro that [OF do_write_empty] exI [of _ "write_done t"]) (auto simp: turn_error_def split: send_result.splits)
next
  case (Cons op ops)
  show thesis
  proof (cases ans)
    case (Sent n)
    with Cons assms(2,3) have "n \<le> length (offered t op)" "op_offset op < length (op_buffer op)" by (auto simp: answer_fits_def)
    from do_write_sent [OF assms(1) Cons this] show thesis
      by (intro that [unfolded Sent] exI [of _ "after_sent n op ops (write_done t)"])
        (auto simp: Sent turn_error_def after_sent_def Let_def)
  next
    case (Send_fail e)
    note that = that [unfolded Send_fail]
    consider "not_send_error e" | "\<not> not_send_error e" "\<not> udp" | "\<not> not_send_error e" udp by blast
    then show thesis
    proof cases
      case 1
      from do_write_not_now [OF assms(1) Cons this] show thesis
        by (intro that exI [of _ "write_done t"]) (auto simp: turn_error_def Cons)
    next
      case 2
      with do_write_fails [OF assms(1) Cons 2(1)] show thesis by (intro that) auto
    next
      case 3
      with do_write_drops [OF assms(1) Cons 3(1)] show thesis
        by (intro that exI [of _ "(write_done t)\<lparr>wo_done := [(op_handler op, e, op_offset op)], wo_transport := t\<lparr>tr_send_queue := ops\<rparr>\<rparr>"])
          (auto simp: turn_error_def Cons)
    qed
  qed
qed

text \<open>
  C23: no wake-up is lost.  After every turn that keeps the transport, the queue still holds data
  only if either the write event of its socket is registered, which is the case exactly when the
  socket would block, or the service has been told not to wait; and the event is registered and
  unregistered by one call of \<open>mod_event\<close> each time it changes, never twice.
\<close>

theorem write_turn_wakeup:
  assumes "tr_is_open t" "answer_fits ans t" "\<forall>op \<in> set (tr_send_queue t). op_offset op < length (op_buffer op)"
  shows "\<exists>wo. do_write udp ans t = Inr wo \<and>
    (wo_ok wo \<longrightarrow>
      (tr_send_queue (wo_transport wo) \<noteq> [] \<longrightarrow> io_pollout (wo_transport wo) \<noteq> wo_no_wait wo) \<and>
      (io_pollout (wo_transport wo) \<longleftrightarrow> tr_send_queue (wo_transport wo) \<noteq> [] \<and> would_block (turn_error ans t)) \<and>
      wo_watch wo = (if io_pollout (wo_transport wo) = io_pollout t then []
        else if io_pollout (wo_transport wo) then [(2, 0)] else [(0, 2)]))"
proof -
  obtain wo where wo: "do_write udp ans t = Inr wo" "wo_ok wo \<Longrightarrow> \<exists>wo0. wo = after_write (turn_error ans t) wo0 \<and>
    wo_watch wo0 = [] \<and> \<not> wo_no_wait wo0 \<and> io_pollout (wo_transport wo0) = io_pollout t"
    using do_write_shape [OF assms, of udp] by metis
  have "tr_send_queue (wo_transport wo) \<noteq> [] \<longrightarrow> io_pollout (wo_transport wo) \<noteq> wo_no_wait wo"
    "io_pollout (wo_transport wo) \<longleftrightarrow> tr_send_queue (wo_transport wo) \<noteq> [] \<and> would_block (turn_error ans t)"
    "wo_watch wo = (if io_pollout (wo_transport wo) = io_pollout t then []
        else if io_pollout (wo_transport wo) then [(2, 0)] else [(0, 2)])" if "wo_ok wo"
    using wo(2) [OF that] by (auto simp: after_write_watch [OF _ _ refl])
  with wo(1) show ?thesis by blast
qed

theorem write_turn_wakeup_witness:
  "\<exists>wo. do_write False (Send_fail EAGAIN) (demo_tcp\<lparr>tr_send_queue := [new_send_op [1] None None]\<rparr>) = Inr wo \<and>
    wo_watch wo = [(2, 0)]"
  using write_turn_wakeup [of "demo_tcp\<lparr>tr_send_queue := [new_send_op [1] None None]\<rparr>" "Send_fail EAGAIN" False]
  by (auto simp: demo_tcp_def send_eval would_block_def turn_error_def)

section \<open>Draining\<close>

lemma do_write_drains:
  assumes "tr_is_open t" "\<not> tr_udp t" "answer_fits (Sent n) t" "\<forall>op \<in> set (tr_send_queue t). op_offset op < length (op_buffer op)" "0 < n"
  obtains wo where "do_write False (Sent n) t = Inr wo" "wo_ok wo" "tr_is_open (wo_transport wo)" "\<not> tr_udp (wo_transport wo)"
    "\<forall>op \<in> set (tr_send_queue (wo_transport wo)). op_offset op < length (op_buffer op)"
    "length (pending (tr_send_queue (wo_transport wo))) \<le> length (pending (tr_send_queue t)) - 1"
proof (cases "tr_send_queue t")
  case Nil
  with assms show thesis by (intro that [OF do_write_empty]) (simp_all add: pending_def tr_is_open_def)
next
  case (Cons op ops)
  with assms have n: "n \<le> length (offered t op)" "op_offset op < length (op_buffer op)" by (auto simp: answer_fits_def)
  have "n < length (unsent op) \<Longrightarrow> op_offset op + n < length (op_buffer op)" by (simp add: unsent_def)
  with assms Cons n do_write_sent [OF assms(1) Cons n, of False] show thesis
    by (intro that) (auto simp: after_sent_def pending_def unsent_tcp Let_def tr_is_open_def unsent_def split: if_splits)
qed

text \<open>
  C6: everything accepted is sent in the end.  If in each turn the socket takes at least a byte of
  what it is offered, a TCP transport with \<open>m\<close> bytes left has an empty queue after at most \<open>m\<close>
  turns, and is still open.
\<close>

theorem tcp_queue_drains:
  assumes "sr_alive r" "tr_is_open (sr_transport r)" "\<not> tr_udp (sr_transport r)"
    "\<forall>op \<in> set (tr_send_queue (sr_transport r)). op_offset op < length (op_buffer op)"
    "\<forall>n \<in> set ns. 0 < n" "steps_fit False (map (\<lambda>n. Turn (Sent n)) ns) r"
    "length (pending (tr_send_queue (sr_transport r))) \<le> length ns"
  shows "\<exists>r'. send_steps False (map (\<lambda>n. Turn (Sent n)) ns) r = Inr r' \<and> sr_alive r' \<and>
    tr_is_open (sr_transport r') \<and> tr_send_queue (sr_transport r') = []"
  using assms
proof (induction ns arbitrary: r)
  case Nil
  have "op_offset op < length (op_buffer op) \<Longrightarrow> unsent op \<noteq> []" for op by (simp add: unsent_def)
  with Nil show ?case by (cases "tr_send_queue (sr_transport r)") (auto simp: pending_def)
next
  case (Cons n ns)
  from Cons.prems have "answer_fits (Sent n) (sr_transport r)" "0 < n" by simp_all
  with Cons.prems do_write_drains obtain wo where wo: "do_write False (Sent n) (sr_transport r) = Inr wo" "wo_ok wo"
    "tr_is_open (wo_transport wo)" "\<not> tr_udp (wo_transport wo)"
    "\<forall>op \<in> set (tr_send_queue (wo_transport wo)). op_offset op < length (op_buffer op)"
    "length (pending (tr_send_queue (wo_transport wo))) \<le> length (pending (tr_send_queue (sr_transport r))) - 1" by metis
  from Cons.prems(6) wo Cons.prems(1)
  have fit: "steps_fit False (map (\<lambda>n. Turn (Sent n)) ns) (r\<lparr>sr_alive := True, sr_transport := wo_transport wo,
      sr_wire := sr_wire r @ wo_wire wo, sr_done := sr_done r @ wo_done wo\<rparr>)"
    by (simp add: send_step_def)
  from wo Cons.prems Cons.IH [OF _ _ _ _ _ fit] show ?case by (simp add: send_step_def)
qed

theorem tcp_queue_drains_witness:
  "\<exists>r'. send_steps False [Turn (Sent 2), Turn (Sent 1), Turn (Sent 5)]
      (send_start (demo_tcp\<lparr>tr_send_queue := [new_send_op [1, 2] None None, new_send_op [3] None None]\<rparr>)) = Inr r' \<and>
    tr_send_queue (sr_transport r') = []"
  using tcp_queue_drains [of "send_start (demo_tcp\<lparr>tr_send_queue := [new_send_op [1, 2] None None, new_send_op [3] None None]\<rparr>)" "[2, 1, 5]"]
  by (simp add: demo_tcp_def send_eval pending_def unsent_def)

section \<open>Datagrams\<close>

text \<open>The turns of a UDP transport whose socket takes all it is offered, one datagram each.\<close>

fun flush_turns :: "nat \<Rightarrow> io_transport \<Rightarrow> (byte list list \<times> (nat option \<times> int \<times> nat) list \<times> io_transport) result" where
  "flush_turns 0 t = Inr ([], [], t)"
| "flush_turns (Suc k) t =
     (case tr_send_queue t of
        [] \<Rightarrow> Inr ([], [], t)
      | op # _ \<Rightarrow>
          andthen (do_write True (Sent (length (offered t op))) t) (\<lambda>wo.
          andthen (flush_turns k (wo_transport wo)) (\<lambda>(ds, dn, t). Inr (wo_wire wo # ds, wo_done wo @ dn, t))))"

text \<open>
  A buffer written to a UDP transport goes out as one datagram only if it has at most
  \<open>yasio__udp_mss\<close> bytes; a longer one is sent as consecutive pieces of that size, and the
  handler runs once, behind the last piece.
\<close>

theorem udp_cuts_into_datagrams:
  assumes "tr_is_open t" "tr_udp t" "tr_send_queue t = op # ops" "op_offset op < length (op_buffer op)"
  shows "\<exists>ds t'. flush_turns ((length (unsent op) + yasio_udp_mss - 1) div yasio_udp_mss) t =
      Inr (ds, [(op_handler op, 0, length (op_buffer op))], t') \<and>
    tr_send_queue t' = ops \<and> concat ds = unsent op \<and>
    length ds = (length (unsent op) + yasio_udp_mss - 1) div yasio_udp_mss \<and>
    (\<forall>d \<in> set ds. 0 < length d \<and> length d \<le> yasio_udp_mss)"
  using assms
proof (induction "length (unsent op)" arbitrary: t op rule: less_induct)
  case less
  have mss: "0 < yasio_udp_mss" by (simp add: yasio_udp_mss_def)
  have un: "0 < length (unsent op)" using less.prems by (simp add: unsent_def)
  have off: "offered t op = take yasio_udp_mss (unsent op)" using less.prems(2) by (simp add: offered_def unsent_def)
  note turn = do_write_sent [OF less.prems(1,3) le_refl less.prems(4), of True, unfolded off]
  show ?case
  proof (cases "length (unsent op) \<le> yasio_udp_mss")
    case True
    then have "(length (unsent op) + yasio_udp_mss - 1) div yasio_udp_mss = Suc 0"
    proof -
      have "length (unsent op) + yasio_udp_mss - 1 = yasio_udp_mss + (length (unsent op) - 1)" using un by linarith
      moreover have "length (unsent op) - 1 < yasio_udp_mss" using True un by linarith
      ultimately show ?thesis using mss by (simp only: div_add_self1 div_less)
    qed
    with True un less.prems turn show ?thesis by (simp add: after_sent_def Let_def off)
  next
    case False
    let ?op = "op\<lparr>op_offset := op_offset op + yasio_udp_mss\<rparr>"
    from False have len: "length (unsent ?op) = length (unsent op) - yasio_udp_mss" by (simp add: unsent_def)
    have cnt: "(length (unsent op) + yasio_udp_mss - 1) div yasio_udp_mss =
        Suc ((length (unsent ?op) + yasio_udp_mss - 1) div yasio_udp_mss)"
      using False mss by (simp add: len le_div_geq)
    have split: "take yasio_udp_mss (unsent op) @ unsent ?op = unsent op"
      by (simp add: unsent_def add.commute [of _ yasio_udp_mss] flip: drop_drop)
    let ?t = "wo_transport (after_write 0 (after_sent yasio_udp_mss op ops (write_done t)))"
    have t: "tr_is_open ?t" "tr_udp ?t" "tr_send_queue ?t = ?op # ops"
      using less.prems False by (simp_all add: after_sent_def Let_def tr_is_open_def)
    have "op_offset ?op < length (op_buffer ?op)" using False by (simp add: unsent_def)
    with less.hyps [OF _ t] obtain ds t' where ih:
      "flush_turns ((length (unsent ?op) + yasio_udp_mss - 1) div yasio_udp_mss) ?t =
        Inr (ds, [(op_handler op, 0, length (op_buffer op))], t')" "tr_send_queue t' = ops" "concat ds = unsent ?op"
      "length ds = (length (unsent ?op) + yasio_udp_mss - 1) div yasio_udp_mss"
      "\<forall>d \<in> set ds. 0 < length d \<and> length d \<le> yasio_udp_mss"
      using un mss len False by auto
    have "do_write True (Sent yasio_udp_mss) t = Inr (after_write 0 (after_sent yasio_udp_mss op ops (write_done t)))"
      using turn False by (simp add: min_def)
    moreover have "wo_wire (after_write 0 (after_sent yasio_udp_mss op ops (write_done t))) = take yasio_udp_mss (unsent op)"
      "wo_done (after_write 0 (after_sent yasio_udp_mss op ops (write_done t))) = []"
      using False by (simp_all add: after_sent_def Let_def off)
    ultimately show ?thesis unfolding cnt using ih less.prems(3) split False mss un by (simp add: off min_def)
  qed
qed

theorem udp_cuts_into_datagrams_witness:
  "\<exists>ds t'. flush_turns 2 (demo_tcp\<lparr>tr_udp := True, tr_send_queue := [new_send_op (replicate 70000 1) (Some 3) None]\<rparr>) =
      Inr (ds, [(Some 3, 0, 70000)], t') \<and> length ds = 2"
  using udp_cuts_into_datagrams [of "demo_tcp\<lparr>tr_udp := True, tr_send_queue := [new_send_op (replicate 70000 1) (Some 3) None]\<rparr>"
      "new_send_op (replicate 70000 1) (Some 3) None" "[]"]
  by (auto simp: demo_tcp_def tr_is_open_def unsent_def new_send_op_def yasio_udp_mss_def)

text \<open>
  An error of \<open>sendto\<close> does not close a UDP channel.  A datagram that fails with an error other
  than a transient one is dropped, its handler is told the error, and the turn succeeds with the
  next operation at the head of the queue; on a TCP channel the same error ends the turn without
  completing the operation.
\<close>

theorem send_error_udp_tcp:
  assumes "tr_is_open t" "tr_send_queue t = op # ops" "\<not> not_send_error e"
  shows "(\<exists>wo. do_write True (Send_fail e) t = Inr wo \<and> wo_ok wo \<and> tr_is_open (wo_transport wo) \<and> wo_wire wo = [] \<and>
      wo_done wo = [(op_handler op, e, op_offset op)] \<and> tr_send_queue (wo_transport wo) = ops) \<and>
    (\<exists>wo. do_write False (Send_fail e) t = Inr wo \<and> \<not> wo_ok wo \<and> wo_done wo = [] \<and> io_error (wo_transport wo) = e \<and>
      io_error_stage (wo_transport wo) = WRITE)"
  using assms(1) do_write_drops [OF assms] do_write_fails [OF assms] by (simp add: tr_is_open_def set_last_errno_def)

theorem send_error_udp_tcp_witness:
  "\<exists>wo. do_write True (Send_fail EMSGSIZE) (demo_tcp\<lparr>tr_send_queue := [new_send_op [1] (Some 3) None]\<rparr>) = Inr wo \<and>
    wo_done wo = [(Some 3, 90, 0)]"
  using send_error_udp_tcp [of "demo_tcp\<lparr>tr_send_queue := [new_send_op [1] (Some 3) None]\<rparr>" "new_send_op [1] (Some 3) None" "[]" EMSGSIZE]
  by (auto simp: demo_tcp_def tr_is_open_def not_send_error_def errno_defs new_send_op_def)

end
