(* ===== verification/Timers.thy ===== *)
theory Timers
  imports Prelude "HOL-Library.Multiset"
begin

text \<open>
  The timers of the service (\<open>highp_timer\<close> in \<open>yasio/io_service.hpp\<close>; \<open>schedule_timer\<close>,
  \<open>remove_timer\<close>, \<open>process_timers\<close> and \<open>get_timeout\<close> in \<open>yasio/io_service.cpp\<close>).  A timer is a
  number, so is a callback; what a callback does to the timers and whether it returns \<open>true\<close> is a
  parameter, and so is the \<open>k\<close>-th reading of the steady clock, in nanoseconds.  The queue is
  sorted by falling expiry, so that the next timer stands at its back; \<open>std::sort\<close> leaves the
  order of equal keys open, the model keeps it.
\<close>

section \<open>Timers and the queue\<close>

record timer_ctl =
  tm_duration :: int  \<comment> \<open>microseconds\<close>
  tm_expire :: int    \<comment> \<open>nanoseconds of the steady clock\<close>

record timer_service =
  ts_timers :: "nat \<Rightarrow> timer_ctl"
  ts_queue :: "(nat \<times> nat) list"  \<comment> \<open>timer and callback\<close>
  ts_current :: int               \<comment> \<open>\<open>current_time_\<close>\<close>
  ts_wait :: int                  \<comment> \<open>\<open>wait_duration_\<close>\<close>
  ts_reads :: nat                 \<comment> \<open>readings of the clock so far\<close>
  ts_wakeups :: nat               \<comment> \<open>calls of \<open>wakeup\<close>\<close>

text \<open>\<open>duration_cast\<close> from nanoseconds to microseconds drops the fraction.\<close>

definition to_usec :: "int \<Rightarrow> int" where
  "to_usec ns = (if ns < 0 then - (- ns div 1000) else ns div 1000)"

definition wait_duration :: "'a timer_service_scheme \<Rightarrow> nat \<Rightarrow> int" where
  "wait_duration s t = to_usec (tm_expire (ts_timers s t) - ts_current s)"

definition expired :: "'a timer_service_scheme \<Rightarrow> nat \<Rightarrow> bool" where
  "expired s t \<longleftrightarrow> wait_duration s t \<le> 0"

definition expires_again :: "(nat \<Rightarrow> int) \<Rightarrow> nat \<Rightarrow> 'a timer_service_scheme \<Rightarrow> 'a timer_service_scheme" where
  "expires_again clk t s =
     s\<lparr>ts_timers := (ts_timers s)(t := (ts_timers s t)\<lparr>tm_expire := clk (ts_reads s) + 1000 * tm_duration (ts_timers s t)\<rparr>),
       ts_reads := Suc (ts_reads s)\<rparr>"

definition expires_from_now :: "(nat \<Rightarrow> int) \<Rightarrow> nat \<Rightarrow> int \<Rightarrow> 'a timer_service_scheme \<Rightarrow> 'a timer_service_scheme" where
  "expires_from_now clk t duration s =
     expires_again clk t (s\<lparr>ts_timers := (ts_timers s)(t := (ts_timers s t)\<lparr>tm_duration := duration\<rparr>)\<rparr>)"

definition wakeup :: "'a timer_service_scheme \<Rightarrow> 'a timer_service_scheme" where
  "wakeup s = s\<lparr>ts_wakeups := Suc (ts_wakeups s)\<rparr>"

definition expire_of :: "'a timer_service_scheme \<Rightarrow> nat \<times> nat \<Rightarrow> int" where
  "expire_of s x = tm_expire (ts_timers s (fst x))"

definition sort_timers :: "'a timer_service_scheme \<Rightarrow> 'a timer_service_scheme" where
  "sort_timers s = s\<lparr>ts_queue := sort_key (\<lambda>x. - expire_of s x) (ts_queue s)\<rparr>"

definition find_timer :: "nat \<Rightarrow> 'a timer_service_scheme \<Rightarrow> nat option" where
  "find_timer t s = find_index (\<lambda>x. fst x = t) (ts_queue s)"

definition schedule_timer :: "nat \<Rightarrow> nat \<Rightarrow> 'a timer_service_scheme \<Rightarrow> 'a timer_service_scheme" where
  "schedule_timer t cb s =
     (let s = s\<lparr>ts_queue := (case find_timer t s of None \<Rightarrow> ts_queue s @ [(t, cb)] | Some i \<Rightarrow> (ts_queue s)[i := (t, cb)])\<rparr>;
          s = sort_timers s
      in if t = fst (last (ts_queue s)) then wakeup s else s)"

definition remove_timer :: "nat \<Rightarrow> 'a timer_service_scheme \<Rightarrow> 'a timer_service_scheme" where
  "remove_timer t s =
     (case find_timer t s of
        None \<Rightarrow> s
      | Some i \<Rightarrow>
          let s = s\<lparr>ts_queue := take i (ts_queue s) @ drop (Suc i) (ts_queue s)\<rparr>
          in if ts_queue s \<noteq> [] then wakeup (sort_timers s) else s)"

text \<open>\<open>highp_timer::async_wait\<close>, \<open>highp_timer::cancel\<close> and \<open>io_service::schedule\<close>.\<close>

definition async_wait :: "nat \<Rightarrow> nat \<Rightarrow> 'a timer_service_scheme \<Rightarrow> 'a timer_service_scheme" where
  "async_wait t cb s = schedule_timer t cb s"

definition cancel :: "nat \<Rightarrow> 'a timer_service_scheme \<Rightarrow> 'a timer_service_scheme" where
  "cancel t s = (if \<not> expired s t then remove_timer t s else s)"

definition schedule :: "(nat \<Rightarrow> int) \<Rightarrow> nat \<Rightarrow> int \<Rightarrow> nat \<Rightarrow> 'a timer_service_scheme \<Rightarrow> 'a timer_service_scheme" where
  "schedule clk t duration cb s = async_wait t cb (expires_from_now clk t duration s)"

section \<open>The service's part\<close>

text \<open>
  The loop of \<open>process_timers\<close>: \<open>None\<close> when it does not end.  The result carries the callbacks
  that were run and the number of timers pushed back.
\<close>

partial_function (option) timers_loop ::
  "(nat \<Rightarrow> int) \<Rightarrow> (nat \<Rightarrow> 'a timer_service_scheme \<Rightarrow> bool \<times> 'a timer_service_scheme) \<Rightarrow> 'a timer_service_scheme \<Rightarrow> nat list \<Rightarrow> nat
    \<Rightarrow> ('a timer_service_scheme \<times> nat list \<times> nat) option" where
  "timers_loop clk run s fired n =
     (if ts_queue s = [] then Some (s, fired, n)
      else let (t, cb) = last (ts_queue s)
           in if expired s t
              then let (once, s) = run cb (s\<lparr>ts_queue := butlast (ts_queue s)\<rparr>)
                   in if once then timers_loop clk run s (fired @ [cb]) n
                      else timers_loop clk run
                             (let s = expires_again clk t s in s\<lparr>ts_queue := ts_queue s @ [(t, cb)]\<rparr>) (fired @ [cb]) (Suc n)
              else Some (s, fired, n))"

definition process_timers ::
  "(nat \<Rightarrow> int) \<Rightarrow> (nat \<Rightarrow> 'a timer_service_scheme \<Rightarrow> bool \<times> 'a timer_service_scheme) \<Rightarrow> 'a timer_service_scheme \<Rightarrow> ('a timer_service_scheme \<times> nat list) option" where
  "process_timers clk run s =
     (if ts_queue s = [] then Some (s, [])
      else map_option (\<lambda>(s, fired, n). (if 0 < n then sort_timers s else s, fired)) (timers_loop clk run s [] 0))"

definition get_timeout :: "int \<Rightarrow> int \<Rightarrow> 'a timer_service_scheme \<Rightarrow> int \<times> 'a timer_service_scheme" where
  "get_timeout sched_freq usec s =
     (let s = s\<lparr>ts_wait := sched_freq\<rparr>
      in if ts_queue s = [] then (usec, s)
         else let duration = wait_duration s (fst (last (ts_queue s)))
              in (if usec > duration then duration else usec, s))"

section \<open>Order of the queue\<close>

definition timers_ok :: "'a timer_service_scheme \<Rightarrow> bool" where
  "timers_ok s \<longleftrightarrow> sorted_wrt (\<lambda>x y. expire_of s x \<ge> expire_of s y) (ts_queue s) \<and> distinct (map fst (ts_queue s))"

lemma wakeup_simps [simp]:
  "ts_queue (wakeup s) = ts_queue s" "ts_timers (wakeup s) = ts_timers s" "ts_current (wakeup s) = ts_current s"
  "expire_of (wakeup s) = expire_of s" "ts_wakeups (wakeup s) = Suc (ts_wakeups s)"
  by (simp_all add: wakeup_def expire_of_def fun_eq_iff)

lemma expire_of_queue [simp]: "expire_of (s\<lparr>ts_queue := q\<rparr>) = expire_of s"
  by (simp add: expire_of_def fun_eq_iff)

lemma sort_timers_simps [simp]:
  "ts_timers (sort_timers s) = ts_timers s" "ts_current (sort_timers s) = ts_current s"
  "expire_of (sort_timers s) = expire_of s" "set (ts_queue (sort_timers s)) = set (ts_queue s)"
  "length (ts_queue (sort_timers s)) = length (ts_queue s)" "ts_wakeups (sort_timers s) = ts_wakeups s"
  "(ts_queue (sort_timers s) = []) = (ts_queue s = [])"
  by (simp_all add: sort_timers_def expire_of_def fun_eq_iff flip: set_empty)

lemma sort_timers_ok:
  assumes "distinct (map fst (ts_queue s))"
  shows "timers_ok (sort_timers s)"
proof -
  have "sorted_wrt (\<lambda>x y. expire_of s x \<ge> expire_of s y) (sort_key (\<lambda>x. - expire_of s x) (ts_queue s))"
    using sorted_sort_key [of "\<lambda>x. - expire_of s x" "ts_queue s"] by (simp add: sorted_map)
  moreover have "distinct (map fst (sort_key (\<lambda>x. - expire_of s x) (ts_queue s)))"
  proof -
    have "mset (map fst (sort_key (\<lambda>x. - expire_of s x) (ts_queue s))) = mset (map fst (ts_queue s))" by simp
    with assms show ?thesis by (metis mset_eq_imp_distinct_iff)
  qed
  ultimately show ?thesis by (simp add: timers_ok_def sort_timers_def)
qed

lemma find_timer_None: "find_timer t s = None \<longleftrightarrow> t \<notin> fst ` set (ts_queue s)"
  by (auto simp: find_timer_def)

lemma find_timer_Some: "find_timer t s = Some i \<Longrightarrow> i < length (ts_queue s) \<and> fst (ts_queue s ! i) = t"
  using find_index_Some [of "\<lambda>x. fst x = t" "ts_queue s" i] by (auto simp: find_timer_def)

section \<open>Operations of the user\<close>

lemma split_at:
  assumes "find_timer t s = Some i" "distinct (map fst (ts_queue s))"
  obtains xs y zs where "ts_queue s = xs @ (t, y) # zs" "i = length xs" "t \<notin> fst ` set (xs @ zs)"
proof -
  from find_timer_Some [OF assms(1)] have i: "i < length (ts_queue s)" "fst (ts_queue s ! i) = t" by auto
  then have "ts_queue s = take i (ts_queue s) @ (t, snd (ts_queue s ! i)) # drop (Suc i) (ts_queue s)"
    by (metis id_take_nth_drop prod.collapse)
  then obtain xs y zs where q: "ts_queue s = xs @ (t, y) # zs" "i = length xs" using i by (metis length_take less_imp_le min.absorb2)
  with assms(2) that show thesis by auto
qed

lemma queue_put:
  assumes "distinct (map fst (ts_queue s))"
    and q: "q = (case find_timer t s of None \<Rightarrow> ts_queue s @ [(t, cb)] | Some i \<Rightarrow> (ts_queue s)[i := (t, cb)])"
  shows "distinct (map fst q) \<and> set q = insert (t, cb) {x \<in> set (ts_queue s). fst x \<noteq> t}"
proof (cases "find_timer t s")
  case None
  then have "t \<notin> fst ` set (ts_queue s)" by (simp add: find_timer_None)
  with None assms show ?thesis by auto
next
  case (Some i)
  then show ?thesis by (rule split_at [OF _ assms(1)]) (use Some assms in \<open>auto simp: image_iff\<close>)
qed

lemma schedule_timer_queue:
  assumes "distinct (map fst (ts_queue s))"
  shows "timers_ok (schedule_timer t cb s)"
    and "set (ts_queue (schedule_timer t cb s)) = insert (t, cb) {x \<in> set (ts_queue s). fst x \<noteq> t}"
  using queue_put [OF assms refl, of t cb]
    sort_timers_ok [of "s\<lparr>ts_queue := (case find_timer t s of None \<Rightarrow> ts_queue s @ [(t, cb)] | Some i \<Rightarrow> (ts_queue s)[i := (t, cb)])\<rparr>"]
  by (simp_all add: schedule_timer_def Let_def timers_ok_def)

lemma remove_timer_queue:
  assumes "distinct (map fst (ts_queue s))"
  shows "set (ts_queue (remove_timer t s)) = {x \<in> set (ts_queue s). fst x \<noteq> t} \<and> (timers_ok s \<longrightarrow> timers_ok (remove_timer t s))"
proof (cases "find_timer t s")
  case None
  then have "t \<notin> fst ` set (ts_queue s)" by (simp add: find_timer_None)
  with None show ?thesis by (auto simp: remove_timer_def)
next
  case (Some i)
  then obtain xs y zs where q: "ts_queue s = xs @ (t, y) # zs" "i = length xs" "t \<notin> fst ` set (xs @ zs)"
    using split_at [OF _ assms] by blast
  with assms sort_timers_ok [of "s\<lparr>ts_queue := xs @ zs\<rparr>"] Some show ?thesis
    by (auto simp: remove_timer_def Let_def timers_ok_def image_iff)
qed

text \<open>
  Scheduling and removing keep the queue in order.  From any queue with distinct timers,
  \<open>schedule_timer\<close> makes a sorted queue that holds the timer once, with the new callback, and
  every other entry as before; \<open>remove_timer\<close> drops exactly the entries of its timer and keeps
  the order.
\<close>

theorem timer_queue_operations:
  assumes "distinct (map fst (ts_queue s))"
  shows "timers_ok (schedule_timer t cb s) \<and>
    set (ts_queue (schedule_timer t cb s)) = insert (t, cb) {x \<in> set (ts_queue s). fst x \<noteq> t} \<and>
    set (ts_queue (remove_timer t s)) = {x \<in> set (ts_queue s). fst x \<noteq> t} \<and>
    (timers_ok s \<longrightarrow> timers_ok (remove_timer t s))"
  using schedule_timer_queue [OF assms] remove_timer_queue [OF assms] by blast

definition demo_timers :: timer_service where
  "demo_timers = \<lparr>ts_timers = (\<lambda>t. \<lparr>tm_duration = 5, tm_expire = 1000 * int t\<rparr>), ts_queue = [(9, 0), (3, 1), (2, 0)],
     ts_current = 3000, ts_wait = 0, ts_reads = 0, ts_wakeups = 0\<rparr>"

theorem timer_queue_operations_witness:
  "timers_ok (schedule_timer 4 7 demo_timers) \<and> set (ts_queue (remove_timer 3 demo_timers)) = {(9, 0), (2, 0)}"
  using timer_queue_operations [of demo_timers 4 7] timer_queue_operations [of demo_timers 3 7]
  by (auto simp: demo_timers_def)

lemma timers_ok_last:
  assumes "timers_ok s" "x \<in> set (ts_queue s)"
  shows "expire_of s (last (ts_queue s)) \<le> expire_of s x"
proof -
  obtain q y where q: "ts_queue s = q @ [y]" using assms(2) by (cases "ts_queue s" rule: rev_cases) auto
  with assms show ?thesis by (auto simp: timers_ok_def sorted_wrt_append)
qed

lemma to_usec_mono: "a \<le> b \<Longrightarrow> to_usec a \<le> to_usec b"
proof (cases "a < 0 \<and> 0 \<le> b")
  case True
  then have "0 \<le> - a div 1000" "0 \<le> b div 1000" by (simp_all add: pos_imp_zdiv_nonneg_iff)
  with True show ?thesis by (simp add: to_usec_def)
qed (auto simp: to_usec_def zdiv_mono1)

text \<open>
  C28: the service never sleeps past a timer.  On a sorted queue the timeout it computes is at most
  the wait of every timer; and when \<open>schedule_timer\<close> does not wake it, the deadline it may be
  sleeping for is still no later than the expiry of any queued timer.
\<close>

theorem service_wakes_for_timers:
  assumes "timers_ok s" "\<forall>x \<in> set (ts_queue r). fst x \<noteq> t \<longrightarrow> deadline \<le> expire_of r x" "distinct (map fst (ts_queue r))"
    "ts_wakeups (schedule_timer t cb r) = ts_wakeups r"
  shows "(\<forall>x \<in> set (ts_queue s). fst (get_timeout freq usec s) \<le> wait_duration s (fst x)) \<and>
    (\<forall>x \<in> set (ts_queue (schedule_timer t cb r)). deadline \<le> expire_of r x)"
proof
  have "wait_duration s (fst (last (ts_queue s))) \<le> wait_duration s (fst x)" if "x \<in> set (ts_queue s)" for x
    unfolding wait_duration_def by (rule to_usec_mono) (use timers_ok_last [OF assms(1) that] in \<open>simp add: expire_of_def\<close>)
  moreover have "wait_duration (s\<lparr>ts_wait := freq\<rparr>) = wait_duration s" by (simp add: wait_duration_def fun_eq_iff)
  ultimately show "\<forall>x \<in> set (ts_queue s). fst (get_timeout freq usec s) \<le> wait_duration s (fst x)"
    by (force simp: get_timeout_def Let_def not_less)
  let ?r = "schedule_timer t cb r"
  let ?q = "case find_timer t r of None \<Rightarrow> ts_queue r @ [(t, cb)] | Some i \<Rightarrow> (ts_queue r)[i := (t, cb)]"
  note ok = schedule_timer_queue(1) [OF assms(3), of t cb] and set = schedule_timer_queue(2) [OF assms(3), of t cb]
  have exp: "expire_of ?r = expire_of r" by (simp add: schedule_timer_def Let_def)
  have "ts_queue ?r \<noteq> []" using set by (metis insert_not_empty list.set(1))
  then have l: "last (ts_queue ?r) \<in> set (ts_queue ?r)" by simp
  have "fst (last (ts_queue ?r)) \<noteq> t"
    using assms(4) by (auto simp: schedule_timer_def Let_def split: if_splits)
  with l set have "last (ts_queue ?r) \<in> {x \<in> set (ts_queue r). fst x \<noteq> t}" by auto
  with assms(2) have "deadline \<le> expire_of r (last (ts_queue ?r))" by auto
  then show "\<forall>x \<in> set (ts_queue ?r). deadline \<le> expire_of r x"
    using timers_ok_last [OF ok] unfolding exp by (meson order_trans)
qed

theorem service_wakes_for_timers_witness:
  "fst (get_timeout 10 90 demo_timers) \<le> 6 \<and> list_all (\<lambda>x. 2000 \<le> expire_of demo_timers x) (ts_queue (schedule_timer 5 0 demo_timers))"
proof -
  have "timers_ok demo_timers" by (simp add: timers_ok_def demo_timers_def expire_of_def)
  moreover have "ts_wakeups (schedule_timer 5 0 demo_timers) = ts_wakeups demo_timers"
    by (simp add: schedule_timer_def find_timer_def sort_timers_def demo_timers_def expire_of_def)
  ultimately show ?thesis
    using service_wakes_for_timers [of demo_timers demo_timers 5 2000 0 10 90]
    by (simp add: demo_timers_def expire_of_def wait_duration_def to_usec_def list_all_iff)
qed

section \<open>A pass over the expired timers\<close>

text \<open>
  The timers one pass handles, from the back of the queue: the expired ones, up to and including
  the first that wants to wait again.
\<close>

fun firing :: "'a timer_service_scheme \<Rightarrow> (nat \<Rightarrow> bool) \<Rightarrow> (nat \<times> nat) list \<Rightarrow> (nat \<times> nat) list" where
  "firing s once [] = []"
| "firing s once (x # xs) =
     (if expired s (fst x) then if once (snd x) then x # firing s once xs else [x] else [])"

lemma expired_queue [simp]: "expired (s\<lparr>ts_queue := q\<rparr>) = expired s"
  by (simp add: expired_def wait_duration_def fun_eq_iff)

lemma firing_queue [simp]: "firing (s\<lparr>ts_queue := q\<rparr>) once xs = firing s once xs"
  by (induction xs) auto

lemma not_expired_again:
  assumes "1 \<le> tm_duration (ts_timers s t)" "ts_current s \<le> clk (ts_reads s)"
  shows "\<not> expired (expires_again clk t s) t"
proof -
  have "1000 div 1000 \<le> (clk (ts_reads s) + 1000 * tm_duration (ts_timers s t) - ts_current s) div 1000"
    by (rule zdiv_mono1) (use assms in auto)
  with assms show ?thesis by (auto simp: expired_def wait_duration_def to_usec_def expires_again_def)
qed

definition after_pass :: "(nat \<Rightarrow> int) \<Rightarrow> (nat \<Rightarrow> bool) \<Rightarrow> 'a timer_service_scheme \<Rightarrow> (nat \<times> nat) list \<Rightarrow> 'a timer_service_scheme" where
  "after_pass clk once s xs =
     (let fs = firing s once xs; rest = rev (drop (length fs) xs)
      in if fs \<noteq> [] \<and> \<not> once (snd (last fs))
         then (expires_again clk (fst (last fs)) s)\<lparr>ts_queue := rest @ [last fs]\<rparr>
         else s\<lparr>ts_queue := rest\<rparr>)"

lemma timers_loop_quiet:
  assumes "\<forall>x \<in> set xs. \<not> once (snd x) \<longrightarrow> 1 \<le> tm_duration (ts_timers s (fst x)) \<and> ts_current s \<le> clk (ts_reads s)"
  shows "timers_loop clk (\<lambda>cb s. (once cb, s)) (s\<lparr>ts_queue := rev xs\<rparr>) fired n =
    Some (after_pass clk once s xs, fired @ map snd (firing s once xs),
      if firing s once xs \<noteq> [] \<and> \<not> once (snd (last (firing s once xs))) then Suc n else n)"
  using assms
proof (induction xs arbitrary: fired)
  case Nil
  show ?case by (subst timers_loop.simps) (simp add: after_pass_def)
next
  case (Cons x xs)
  obtain t cb where x: "x = (t, cb)" by (cases x)
  consider "\<not> expired s t" | "expired s t" "once cb" | "expired s t" "\<not> once cb" by blast
  then show ?case
  proof cases
    case 1
    with x show ?thesis by (subst timers_loop.simps) (simp add: after_pass_def)
  next
    case 2
    have "timers_loop clk (\<lambda>cb s. (once cb, s)) (s\<lparr>ts_queue := rev (x # xs)\<rparr>) fired n =
        timers_loop clk (\<lambda>cb s. (once cb, s)) (s\<lparr>ts_queue := rev xs\<rparr>) (fired @ [cb]) n"
      using 2 x by (subst timers_loop.simps) simp
    also have "\<dots> = Some (after_pass clk once s xs, (fired @ [cb]) @ map snd (firing s once xs),
        if firing s once xs \<noteq> [] \<and> \<not> once (snd (last (firing s once xs))) then Suc n else n)"
      by (rule Cons.IH) (use Cons.prems in simp)
    finally show ?thesis using 2 x Cons.prems by (simp add: after_pass_def Let_def)
  next
    case 3
    let ?s = "expires_again clk t (s\<lparr>ts_queue := rev xs\<rparr>)"
    have "1 \<le> tm_duration (ts_timers (s\<lparr>ts_queue := rev xs\<rparr>) t)" "ts_current (s\<lparr>ts_queue := rev xs\<rparr>) \<le> clk (ts_reads (s\<lparr>ts_queue := rev xs\<rparr>))"
      using Cons.prems 3 x by auto
    from not_expired_again [of "s\<lparr>ts_queue := rev xs\<rparr>" t clk, OF this] have ne: "\<not> expired ?s t" .
    have eq: "?s = (expires_again clk t s)\<lparr>ts_queue := rev xs\<rparr>" by (simp add: expires_again_def)
    have "timers_loop clk (\<lambda>cb s. (once cb, s)) (s\<lparr>ts_queue := rev (x # xs)\<rparr>) fired n =
        timers_loop clk (\<lambda>cb s. (once cb, s)) (?s\<lparr>ts_queue := rev xs @ [(t, cb)]\<rparr>) (fired @ [cb]) (Suc n)"
      using 3 x by (subst timers_loop.simps) (simp add: expires_again_def Let_def)
    also have "\<dots> = Some (?s\<lparr>ts_queue := rev xs @ [(t, cb)]\<rparr>, fired @ [cb], Suc n)"
      using ne by (subst timers_loop.simps) simp
    finally show ?thesis using 3 x by (simp add: after_pass_def eq)
  qed
qed

lemma firing_prefix: "xs = firing s once xs @ drop (length (firing s once xs)) xs"
  by (induction xs) auto

lemma firing_split:
  obtains gs where "firing s once xs = gs" "\<forall>x \<in> set gs. once (snd x)"
  | gs l where "firing s once xs = gs @ [l]" "\<forall>x \<in> set gs. once (snd x)" "\<not> once (snd l)"
proof -
  have "(\<forall>x \<in> set (firing s once xs). once (snd x)) \<or>
    (\<exists>gs l. firing s once xs = gs @ [l] \<and> (\<forall>x \<in> set gs. once (snd x)) \<and> \<not> once (snd l))"
  proof (induction xs)
    case (Cons x xs)
    then show ?case by (cases "expired s (fst x)"; cases "once (snd x)") (fastforce intro: exI [of _ "x # _"])+
  qed simp
  then show thesis using that by blast
qed

text \<open>
  C24: one pass of \<open>process_timers\<close>.  When callbacks do not touch the timers and timers that wait
  again have a duration of at least a microsecond, the pass ends; it has run the callbacks of the
  expired timers, the earliest first, but only up to and including the first that waits again:
  expired timers behind it stay queued for the next frame.  Afterwards the queue is in order,
  without the timers that were done, and the one that waits again expires a duration from now.
\<close>

theorem process_timers_pass:
  assumes ok: "timers_ok s" and dur: "\<forall>x \<in> set (ts_queue s). \<not> once (snd x) \<longrightarrow> 1 \<le> tm_duration (ts_timers s (fst x))"
    and clk: "ts_current s \<le> clk (ts_reads s)"
  shows "\<exists>s'. process_timers clk (\<lambda>cb s. (once cb, s)) s = Some (s', map snd (firing s once (rev (ts_queue s)))) \<and>
    timers_ok s' \<and> set (ts_queue s') = set (ts_queue s) - {x \<in> set (firing s once (rev (ts_queue s))). once (snd x)} \<and>
    (\<forall>x \<in> set (firing s once (rev (ts_queue s))). \<not> once (snd x) \<longrightarrow>
      tm_expire (ts_timers s' (fst x)) = clk (ts_reads s) + 1000 * tm_duration (ts_timers s (fst x)))"
proof (cases "ts_queue s = []")
  case True
  with ok show ?thesis by (simp add: process_timers_def)
next
  case ne: False
  let ?q = "rev (ts_queue s)"
  obtain rest where q: "ts_queue s = rest @ rev (firing s once ?q)" and rest: "rev (drop (length (firing s once ?q)) ?q) = rest"
    using firing_prefix [of ?q s once] by (metis rev_append rev_rev_ident)
  have d: "distinct (map fst (rest @ rev (firing s once ?q)))" using ok q by (simp add: timers_ok_def)
  have loop: "timers_loop clk (\<lambda>cb s. (once cb, s)) s [] 0 = Some (after_pass clk once s ?q, map snd (firing s once ?q),
      if firing s once ?q \<noteq> [] \<and> \<not> once (snd (last (firing s once ?q))) then Suc 0 else 0)"
    using timers_loop_quiet [of ?q once s clk "[]" 0] dur clk by simp
  show ?thesis
  proof (cases rule: firing_split [of s once ?q])
    case (1 gs)
    have "sorted_wrt (\<lambda>x y. expire_of s x \<ge> expire_of s y) (rest @ rev (firing s once ?q))" using ok q by (simp add: timers_ok_def)
    with d have "timers_ok (s\<lparr>ts_queue := rest\<rparr>)" by (simp add: timers_ok_def sorted_wrt_append)
    moreover have "set rest = set (ts_queue s) - set gs" using d 1 by (subst q) auto
    moreover have "process_timers clk (\<lambda>cb s. (once cb, s)) s = Some (s\<lparr>ts_queue := rest\<rparr>, map snd gs)"
      using ne loop 1 rest by (auto simp: process_timers_def after_pass_def)
    moreover have "{x \<in> set gs. once (snd x)} = set gs" using 1 by auto
    ultimately show ?thesis using 1 by auto
  next
    case (2 gs l)
    let ?s = "(expires_again clk (fst l) s)\<lparr>ts_queue := rest @ [l]\<rparr>"
    have "timers_ok (sort_timers ?s)" using d 2 by (intro sort_timers_ok) simp
    moreover have "set (ts_queue (sort_timers ?s)) = set (ts_queue s) - set gs" using d 2 by (subst q) auto
    moreover have "process_timers clk (\<lambda>cb s. (once cb, s)) s = Some (sort_timers ?s, map snd (gs @ [l]))"
      using ne loop 2 rest by (simp add: process_timers_def after_pass_def)
    moreover have "{x \<in> set (gs @ [l]). once (snd x)} = set gs" using 2 by auto
    ultimately show ?thesis using 2 by (auto simp: expires_again_def)
  qed
qed

theorem process_timers_pass_witness:
  "\<exists>s'. process_timers (\<lambda>k. 4000) (\<lambda>cb s. (cb = 0, s)) demo_timers = Some (s', [0, 1]) \<and> timers_ok s'"
proof -
  have "timers_ok demo_timers" "firing demo_timers (\<lambda>cb. cb = 0) (rev (ts_queue demo_timers)) = [(2, 0), (3, 1)]"
    by (simp_all add: timers_ok_def demo_timers_def expire_of_def expired_def wait_duration_def to_usec_def)
  then show ?thesis
    using process_timers_pass [of demo_timers "\<lambda>cb. cb = 0" "\<lambda>k. 4000"] by (auto simp: demo_timers_def)
qed

text \<open>
  \<open>cancel\<close> does not cancel a timer that has expired but not been processed: nothing changes,
  and its callback still runs in the next pass.  A timer that has not expired is gone for good.
\<close>

theorem cancel_expired_timer:
  assumes ok: "timers_ok s" and q: "(t, cb) \<in> set (ts_queue s)"
  shows "if expired s t then cancel t s = s \<and>
      (\<exists>s' fired. process_timers clk (\<lambda>cb s. (True, s)) s = Some (s', fired) \<and> cb \<in> set fired)
    else t \<notin> fst ` set (ts_queue (cancel t s)) \<and> timers_ok (cancel t s)"
proof (cases "expired s t")
  case True
  let ?fs = "firing s (\<lambda>_. True) (rev (ts_queue s))"
  have all: "(t, cb) \<in> set (firing s (\<lambda>_. True) xs)"
    if "sorted_wrt (\<lambda>x y. expire_of s x \<le> expire_of s y) xs" "(t, cb) \<in> set xs" for xs
    using that
  proof (induction xs)
    case (Cons x xs)
    then have "expire_of s x \<le> expire_of s (t, cb)" by auto
    then have "wait_duration s (fst x) \<le> wait_duration s t"
      unfolding wait_duration_def by (intro to_usec_mono) (simp add: expire_of_def)
    with True have "expired s (fst x)" by (simp add: expired_def)
    with Cons show ?case by auto
  qed simp
  have "sorted_wrt (\<lambda>x y. expire_of s x \<le> expire_of s y) (rev (ts_queue s))"
    using ok by (simp add: timers_ok_def sorted_wrt_rev)
  from all [OF this] q have "(t, cb) \<in> set ?fs" by simp
  moreover have "\<exists>s'. process_timers clk (\<lambda>cb s. (True, s)) s = Some (s', map snd ?fs)"
  proof (cases "ts_queue s = []")
    case False
    have "timers_loop clk (\<lambda>cb s. (True, s)) s [] 0 = Some (after_pass clk (\<lambda>_. True) s (rev (ts_queue s)), map snd ?fs, 0)"
      using timers_loop_quiet [of "rev (ts_queue s)" "\<lambda>_. True" s] by simp
    with False show ?thesis by (simp add: process_timers_def)
  qed (simp add: process_timers_def)
  ultimately show ?thesis using True by (force simp: cancel_def)
next
  case False
  with ok remove_timer_queue [of s t] show ?thesis by (auto simp: cancel_def timers_ok_def)
qed

theorem cancel_expired_timer_witness:
  "cancel 2 demo_timers = demo_timers \<and> 9 \<notin> fst ` set (ts_queue (cancel 9 demo_timers))"
proof -
  have "timers_ok demo_timers" "expired demo_timers 2" "\<not> expired demo_timers 9"
    by (simp_all add: timers_ok_def demo_timers_def expire_of_def expired_def wait_duration_def to_usec_def)
  then show ?thesis
    using cancel_expired_timer [of demo_timers 2 0] cancel_expired_timer [of demo_timers 9 0] by (auto simp: demo_timers_def)
qed

end
