(* ===== verification/IoService.thy ===== *)
theory IoService
  imports Unpack SendQueue Timers
begin

text \<open>
  The service itself (\<open>io_service\<close> in \<open>yasio/io_service.cpp\<close>): its life cycle, the user's \<open>open\<close>,
  \<open>close\<close> and \<open>dispatch\<close>, and the phases of the event loop.  Transports live at the addresses the
  code allocates, so that handles and their reuse are visible.  A client's transport shares the
  socket object of its channel, an accepted one owns its socket: \<open>set_sock\<close> changes a socket for
  all that hold it.  TLS, KCP, Unix-domain sockets and \<open>YASIO_ENABLE_PASSIVE_EVENT\<close> are left out.
\<close>

section \<open>The state\<close>

datatype service_state = UNINITIALIZED | IDLE | RUNNING | AT_EXITING

record service = timer_service +
  sv_state :: service_state
  sv_stop_flag :: "8 word"
  sv_joinable :: bool           \<comment> \<open>\<open>worker_.joinable()\<close>\<close>
  sv_channels :: "io_channel list"
  sv_channel_ops :: "nat list"
  sv_transports :: "nat list"   \<comment> \<open>handles\<close>
  sv_heap :: "nat \<Rightarrow> io_transport"
  sv_own :: "nat \<Rightarrow> bool"       \<comment> \<open>the transport at the address owns its socket object\<close>
  sv_tpool :: "nat list"
  sv_next_addr :: nat           \<comment> \<open>what \<open>operator new\<close> returns next\<close>
  sv_next_id :: nat             \<comment> \<open>\<open>s_object_id\<close>\<close>
  sv_map :: "(endpoint \<times> nat) list"
  sv_events :: "io_event dual_queue"
  sv_delivered :: "io_event list"  \<comment> \<open>events given to \<open>on_event_\<close>\<close>
  sv_completed :: "(nat option \<times> int \<times> nat) list"
  sv_mods :: "(nat \<times> nat \<times> nat) list"  \<comment> \<open>calls of \<open>mod_event\<close>: descriptor, added, removed\<close>
  sv_sched_freq :: int
  sv_connect_timeout :: int
  sv_dns_cache_timeout :: int
  sv_dns_dirty :: bool
  sv_deferred_event :: bool
  sv_no_dispatch :: bool
  sv_forward_packet :: bool

text \<open>
  The answers of the system to the calls of one phase: by channel, or by handle for \<open>recv\<close> and
  \<open>send\<close>.  \<open>Inr\<close> carries an error number; an \<open>int\<close> result is 0 or the error number.
\<close>

record sys =
  sy_ready :: "nat \<Rightarrow> bool"
  sy_recv :: "nat \<Rightarrow> recv_result"
  sy_send :: "nat \<Rightarrow> send_result"
  sy_popen :: "nat \<Rightarrow> nat + int"
  sy_bind :: "nat \<Rightarrow> string \<Rightarrow> 16 word \<Rightarrow> int"
  sy_listen :: "nat \<Rightarrow> int"
  sy_connect :: "nat \<Rightarrow> endpoint \<Rightarrow> int"
  sy_so_error :: "nat \<Rightarrow> int"  \<comment> \<open>\<open>-1\<close> when \<open>getsockopt\<close> fails\<close>
  sy_accept :: "nat \<Rightarrow> nat + int"
  sy_recvfrom :: "nat \<Rightarrow> (byte list \<times> endpoint) + int"
  sy_dgram_popen :: "nat \<Rightarrow> nat + int"
  sy_dgram_bind :: "nat \<Rightarrow> int"
  sy_dgram_connect :: "endpoint \<Rightarrow> int"
  sy_clock :: "nat \<Rightarrow> int"   \<comment> \<open>readings of the steady clock in nanoseconds\<close>
  sy_net :: net_env
  sy_local_af :: int
  sy_kroute :: bool          \<comment> \<open>\<open>YASIO__UDP_KROUTE\<close>\<close>

definition READWRITE :: nat where "READWRITE = 3"

section \<open>Sockets, channels and transports\<close>

definition ctx_of :: "service \<Rightarrow> nat \<Rightarrow> io_channel" where
  "ctx_of s i = sv_channels s ! i"

definition set_ctx :: "nat \<Rightarrow> io_channel \<Rightarrow> service \<Rightarrow> service" where
  "set_ctx i ctx s = s\<lparr>sv_channels := (sv_channels s)[i := ctx]\<rparr>"

definition set_tr :: "nat \<Rightarrow> io_transport \<Rightarrow> service \<Rightarrow> service" where
  "set_tr h t s = s\<lparr>sv_heap := (sv_heap s)(h := t)\<rparr>"

datatype sock_object = Channel_sock nat | Own_sock nat

definition sock_of :: "service \<Rightarrow> nat \<Rightarrow> sock_object" where
  "sock_of s h = (if sv_own s h then Own_sock h else Channel_sock (tr_ctx (sv_heap s h)))"

definition set_sock :: "sock_object \<Rightarrow> nat option \<Rightarrow> service \<Rightarrow> service" where
  "set_sock obj fd s =
     (case obj of
        Own_sock h \<Rightarrow> set_tr h ((sv_heap s h)\<lparr>io_socket := fd\<rparr>) s
      | Channel_sock i \<Rightarrow>
          (set_ctx i ((ctx_of s i)\<lparr>io_socket := fd\<rparr>) s)
            \<lparr>sv_heap := (\<lambda>h. if \<not> sv_own s h \<and> tr_ctx (sv_heap s h) = i then (sv_heap s h)\<lparr>io_socket := fd\<rparr> else sv_heap s h)\<rparr>)"

definition mod_event :: "nat \<Rightarrow> nat \<Rightarrow> nat \<Rightarrow> service \<Rightarrow> service" where
  "mod_event fd add rem s = s\<lparr>sv_mods := sv_mods s @ [(fd, add, rem)]\<rparr>"

definition fire_event :: "io_event \<Rightarrow> service \<Rightarrow> service" where
  "fire_event e s = s\<lparr>sv_events := dq_emplace e (sv_events s)\<rparr>"

text \<open>\<open>cleanup_io\<close>, for a channel and for a transport: the flag tells whether a socket was closed.\<close>

definition close_sock :: "sock_object \<Rightarrow> nat option \<Rightarrow> service \<Rightarrow> bool \<times> service" where
  "close_sock obj fd s =
     (case fd of
        Some fd \<Rightarrow> (True, set_sock obj None (mod_event fd 0 READWRITE s))
      | None \<Rightarrow> (False, s))"

definition cleanup_io :: "nat \<Rightarrow> bool \<Rightarrow> service \<Rightarrow> bool \<times> service" where
  "cleanup_io i clear_mask s =
     (let ctx = (ctx_of s i)\<lparr>io_error := 0, io_state := CLOSED\<rparr>;
          ctx = (if clear_mask then ctx\<lparr>io_opmask := 0\<rparr> else ctx)
      in close_sock (Channel_sock i) (io_socket ctx) (set_ctx i ctx s))"

definition cleanup_transport :: "nat \<Rightarrow> service \<Rightarrow> bool \<times> service" where
  "cleanup_transport h s =
     (let t = (sv_heap s h)\<lparr>io_error := 0, io_state := CLOSED, io_opmask := 0\<rparr>
      in close_sock (sock_of s h) (io_socket t) (set_tr h t s))"

definition cleanup_channel :: "nat \<Rightarrow> bool \<Rightarrow> service \<Rightarrow> service" where
  "cleanup_channel i clear_mask s = snd (cleanup_io i clear_mask (set_ctx i (clear_mutable_flags (ctx_of s i)) s))"

text \<open>The pool is used like a stack; a new object takes the next id.\<close>

definition allocate_transport :: "nat \<Rightarrow> bool \<Rightarrow> nat option \<Rightarrow> service \<Rightarrow> nat \<times> service" where
  "allocate_transport i own fd s =
     (let (h, s) =
            (if sv_tpool s \<noteq> [] then (last (sv_tpool s), s\<lparr>sv_tpool := butlast (sv_tpool s)\<rparr>)
             else (sv_next_addr s, s\<lparr>sv_next_addr := Suc (sv_next_addr s)\<rparr>));
          t = new_transport (sv_next_id s) i (\<not> ch_is YCM_TCP (ctx_of s i)) fd
      in (h, (set_tr h t s)\<lparr>sv_own := (sv_own s)(h := own), sv_next_id := Suc (sv_next_id s)\<rparr>))"

definition deallocate_transport :: "nat \<Rightarrow> service \<Rightarrow> service" where
  "deallocate_transport h s = s\<lparr>sv_tpool := sv_tpool s @ [h]\<rparr>"

text \<open>
  The map of UDP sessions, for keys of one address family: \<open>find\<close> and \<open>erase\<close> go by equivalence
  under \<open>operator<\<close>, \<open>emplace\<close> keeps what is there.
\<close>

definition map_find :: "endpoint \<Rightarrow> (endpoint \<times> nat) list \<Rightarrow> nat option" where
  "map_find ep m = map_option snd (List.find (\<lambda>(k, h). ep_eq k ep) m)"

definition map_erase :: "endpoint \<Rightarrow> (endpoint \<times> nat) list \<Rightarrow> (endpoint \<times> nat) list" where
  "map_erase ep m = filter (\<lambda>(k, h). \<not> ep_eq k ep) m"

definition map_emplace :: "endpoint \<Rightarrow> nat \<Rightarrow> (endpoint \<times> nat) list \<Rightarrow> (endpoint \<times> nat) list" where
  "map_emplace ep h m = (if map_find ep m = None then m @ [(ep, h)] else m)"

section \<open>The user's operations\<close>

definition open_internal :: "nat \<Rightarrow> service \<Rightarrow> bool \<times> service" where
  "open_internal i s =
     (let ctx = ctx_of s i
      in if io_state ctx = CONNECTING \<or> io_state ctx = RESOLVING then (False, s)
         else let ctx = ctx\<lparr>io_opmask := setbits (clearbits (io_opmask ctx) YOPM_CLOSE) YOPM_OPEN,
                           ch_connect_id := ch_connect_id ctx + 1\<rparr>;
                  s = set_ctx i ctx s;
                  s = (if i \<in> set (sv_channel_ops s) then s else s\<lparr>sv_channel_ops := sv_channel_ops s @ [i]\<rparr>)
              in (True, wakeup s))"

text \<open>\<open>open\<close>; without assertions any kind is taken.\<close>

definition service_open :: "nat \<Rightarrow> 32 word \<Rightarrow> service \<Rightarrow> bool \<times> service" where
  "service_open i kind s =
     (if i < length (sv_channels s)
      then let ctx = ctx_of s i;
               ctx = ctx\<lparr>ch_properties := setlobyte (ch_properties ctx) (kind AND 0xff)\<rparr>;
               ctx = (if testbits kind YCM_TCP then ctx\<lparr>ch_stream := True\<rparr>
                      else if testbits kind YCM_UDP then ctx\<lparr>ch_stream := False\<rparr> else ctx)
           in open_internal i (set_ctx i ctx s)
      else (False, s))"

definition service_close :: "nat \<Rightarrow> service \<Rightarrow> service" where
  "service_close i s =
     (if i < length (sv_channels s) \<and> \<not> testbits (io_opmask (ctx_of s i)) YOPM_CLOSE
      then let ctx = (ctx_of s i)\<lparr>io_opmask := clearbits (io_opmask (ctx_of s i)) YOPM_OPEN\<rparr>
           in if io_socket ctx \<noteq> None
              then wakeup (set_ctx i (ctx\<lparr>io_opmask := setbits (io_opmask ctx) YOPM_CLOSE\<rparr>) s)
              else set_ctx i ctx s
      else s)"

definition close_transport :: "nat \<Rightarrow> service \<Rightarrow> service" where
  "close_transport h s =
     (let t = sv_heap s h
      in if \<not> testbits (io_opmask t) YOPM_CLOSE
         then wakeup (set_tr h (t\<lparr>io_opmask := setbits (io_opmask t) YOPM_CLOSE\<rparr>) s) else s)"

definition channel_is_open :: "nat \<Rightarrow> service \<Rightarrow> bool" where
  "channel_is_open i s \<longleftrightarrow> i < length (sv_channels s) \<and> io_state (ctx_of s i) = OPENED"

definition dispatch :: "int \<Rightarrow> service \<Rightarrow> nat \<times> service" where
  "dispatch max_count s =
     (let (out, q) = dq_consume max_count (sv_events s)
      in (dq_count q, s\<lparr>sv_events := q, sv_delivered := sv_delivered s @ out\<rparr>))"

section \<open>Connections\<close>

definition handle_connect_failed :: "nat \<Rightarrow> int \<Rightarrow> service \<Rightarrow> service" where
  "handle_connect_failed i error s =
     (let s = cleanup_channel i True s in fire_event (channel_event YEK_ON_OPEN error (ctx_of s i)) s)"

definition active_transport :: "nat \<Rightarrow> service \<Rightarrow> service" where
  "active_transport h s =
     fire_event (transport_event YEK_ON_OPEN 0 (sv_heap s h)) (s\<lparr>sv_transports := sv_transports s @ [h]\<rparr>)"

text \<open>\<open>io_transport_udp::confgure_remote\<close> with \<open>connect\<close>.\<close>

definition configure_remote :: "sys \<Rightarrow> nat \<Rightarrow> endpoint \<Rightarrow> service \<Rightarrow> service" where
  "configure_remote sy h peer s =
     (let t = sv_heap s h; ctx = ctx_of s (tr_ctx t)
      in if tr_connected t then s
         else let t = t\<lparr>tr_peer := Some peer\<rparr>
              in if \<not> ch_is YCPF_MCAST ctx \<or> \<not> ch_is YCM_CLIENT ctx
                 then set_tr h (t\<lparr>tr_connected := (sy_dgram_connect sy peer = 0)\<rparr>) s
                 else set_tr h t s)"

definition handle_connect_succeed :: "sys \<Rightarrow> nat \<Rightarrow> service \<Rightarrow> service result" where
  "handle_connect_succeed sy h s =
     (let i = tr_ctx (sv_heap s h);
          ctx = (clear_mutable_flags (ctx_of s i))\<lparr>io_error := 0\<rparr>
      in if ch_is YCM_CLIENT ctx
         then let s = set_ctx i (ctx\<lparr>ch_bytes_transferred := 0, io_state := OPENED\<rparr>) s
              in if ch_is YCM_UDP ctx
                 then case ch_remote_eps ctx of
                        [] \<Rightarrow> Inl Undefined
                      | ep # _ \<Rightarrow> Inr (active_transport h (configure_remote sy h ep s))
                 else Inr (active_transport h s)
         else let s = set_ctx i ctx s
              in case io_socket (sv_heap s h) of
                   Some fd \<Rightarrow> Inr (active_transport h (mod_event fd 1 0 s))
                 | None \<Rightarrow> Inr (active_transport h s))"

definition connection_closed :: "nat \<Rightarrow> service \<Rightarrow> service" where
  "connection_closed h s =
     (let t = sv_heap s h
      in if io_state t = OPENED then fire_event (transport_event YEK_ON_CLOSE (io_error t) t) s else s)"

definition handle_close :: "nat \<Rightarrow> service \<Rightarrow> service" where
  "handle_close h s =
     (let t = sv_heap s h; i = tr_ctx t; ctx = ctx_of s i; client = ch_is YCM_CLIENT ctx;
          s = (if ch_is YCM_UDP ctx
               then (case tr_peer t of Some ep \<Rightarrow> s\<lparr>sv_map := map_erase ep (sv_map s)\<rparr> | None \<Rightarrow> s) else s);
          s = connection_closed h s;
          s = deallocate_transport h (snd (cleanup_transport h s))
      in if client
         then let s = set_ctx i ((ctx_of s i)\<lparr>io_opmask := clearbits (io_opmask (ctx_of s i)) YOPM_CLOSE\<rparr>) s
              in cleanup_channel i False s
         else s)"

section \<open>Transports in the loop\<close>

definition after_read :: "nat \<Rightarrow> read_out \<Rightarrow> service \<Rightarrow> service" where
  "after_read h ro s =
     (let s = set_ctx (tr_ctx (ro_transport ro)) (ro_channel ro) (set_tr h (ro_transport ro) s);
          s = foldl (\<lambda>s pkt. fire_event (packet_event pkt (ro_transport ro)) s) s (ro_packets ro);
          s = s\<lparr>sv_delivered := sv_delivered s @ map (\<lambda>pkt. packet_event pkt (ro_transport ro)) (ro_forwarded ro)\<rparr>
      in if ro_no_wait ro then s\<lparr>ts_wait := 0\<rparr> else s)"

definition flush :: "nat \<Rightarrow> write_out \<Rightarrow> service \<Rightarrow> service" where
  "flush h wo s =
     (let fd = (case io_socket (wo_transport wo) of Some fd \<Rightarrow> fd | None \<Rightarrow> 0);
          s = set_tr h (wo_transport wo) s;
          s = foldl (\<lambda>s (add, rem). mod_event fd add rem s) s (wo_watch wo);
          s = s\<lparr>sv_completed := sv_completed s @ wo_done wo\<rparr>
      in if wo_no_wait wo then s\<lparr>ts_wait := 0\<rparr> else s)"

text \<open>\<open>do_read(transport) && do_write(transport)\<close>.\<close>

definition transport_io :: "sys \<Rightarrow> nat \<Rightarrow> service \<Rightarrow> (bool \<times> service) result" where
  "transport_io sy h s =
     (let t = sv_heap s h; ctx = ctx_of s (tr_ctx t)
      in andthen (do_read (sv_forward_packet s) ctx (sy_recv sy h) t) (\<lambda>ro.
         let s = after_read h ro s
         in if \<not> ro_ok ro then Inr (False, s)
            else andthen (do_write (ch_is YCM_UDP ctx) (sy_send sy h) (sv_heap s h)) (\<lambda>wo.
                 Inr (wo_ok wo, flush h wo s))))"

text \<open>One transport of \<open>process_transports\<close>: whether it stays.\<close>

definition transport_turn :: "sys \<Rightarrow> nat \<Rightarrow> service \<Rightarrow> (bool \<times> service) result" where
  "transport_turn sy h s =
     andthen (transport_io sy h s) (\<lambda>(ok, s).
       let t = sv_heap s h;
           opm = io_opmask t OR io_opmask (ctx_of s (tr_ctx t)) OR sv_stop_flag s
       in if ok \<and> opm = 0 then Inr (True, s)
          else let t = (if ok \<and> io_error t = 0 then t\<lparr>io_error := ERR_shutdown_by_localhost\<rparr> else t)
               in Inr (False, handle_close h (set_tr h t s)))"

fun transports_loop :: "sys \<Rightarrow> nat list \<Rightarrow> nat list \<Rightarrow> service \<Rightarrow> service result" where
  "transports_loop sy kept [] s = Inr (s\<lparr>sv_transports := kept\<rparr>)"
| "transports_loop sy kept (h # hs) s =
     andthen (transport_turn sy h s) (\<lambda>(keep, s). transports_loop sy (if keep then kept @ [h] else kept) hs s)"

definition process_transports :: "sys \<Rightarrow> service \<Rightarrow> service result" where
  "process_transports sy s = transports_loop sy [] (sv_transports s) s"

section \<open>Clients\<close>

definition highp_clock :: "sys \<Rightarrow> service \<Rightarrow> int \<times> service" where
  "highp_clock sy s = (sy_clock sy (ts_reads s) div 1000, s\<lparr>ts_reads := Suc (ts_reads s)\<rparr>)"

definition address_expired :: "sys \<Rightarrow> nat \<Rightarrow> service \<Rightarrow> bool \<times> service" where
  "address_expired sy i s =
     (let (now, s) = highp_clock sy s in (now - ch_query_success_time (ctx_of s i) > sv_dns_cache_timeout s, s))"

definition update_dns_status :: "service \<Rightarrow> service" where
  "update_dns_status s =
     (if sv_dns_dirty s
      then s\<lparr>sv_dns_dirty := False, sv_channels := map (\<lambda>c. c\<lparr>ch_query_success_time := 0\<rparr>) (sv_channels s)\<rparr> else s)"

text \<open>\<open>start_query\<close> starts a resolver thread; its end is \<open>query_finished\<close>.\<close>

definition start_query :: "nat \<Rightarrow> service \<Rightarrow> service" where
  "start_query i s = set_ctx i (set_last_errno EINPROGRESS NONE (ctx_of s i)) s"

definition query_finished :: "sys \<Rightarrow> nat \<Rightarrow> endpoint list option \<Rightarrow> service \<Rightarrow> service" where
  "query_finished sy i answer s =
     (case answer of
        Some eps \<Rightarrow>
          let (now, s) = highp_clock sy s
          in wakeup (set_ctx i ((ctx_of s i)\<lparr>ch_remote_eps := eps, ch_query_success_time := now\<rparr>) s)
      | None \<Rightarrow> wakeup (set_ctx i (set_last_errno ERR_resolve_host_failed NONE (ctx_of s i)) s))"

text \<open>The dirty flags of host and port, first part of \<open>do_resolve\<close>.\<close>

definition refresh_address :: "sys \<Rightarrow> io_channel \<Rightarrow> io_channel" where
  "refresh_address sy ctx =
     (let ctx =
            (if ch_is YCPF_HOST_DIRTY ctx
             then let ctx = (clear_props (YCPF_HOST_DIRTY OR YCPF_NEEDS_QUERY) ctx)\<lparr>ch_remote_eps := []\<rparr>;
                      ep = as_in (sy_net sy) (ch_remote_host ctx) (ch_remote_port ctx) (as_unspec (replicate 32 0))
                  in if ep_af ep \<noteq> AF_UNSPEC then ctx\<lparr>ch_remote_eps := [ep]\<rparr> else set_props YCPF_NEEDS_QUERY ctx
             else ctx)
      in if ch_is YCPF_PORT_DIRTY ctx
         then (clear_props YCPF_PORT_DIRTY ctx)\<lparr>ch_remote_eps := map (ep_set_port (ch_remote_port ctx)) (ch_remote_eps ctx)\<rparr>
         else ctx)"

definition do_resolve :: "sys \<Rightarrow> nat \<Rightarrow> service \<Rightarrow> int \<times> service" where
  "do_resolve sy i s =
     (let s = set_ctx i (refresh_address sy (ctx_of s i)) s;
          query = (\<lambda>s. if ch_remote_host (ctx_of s i) \<noteq> []
                        then (-1, if io_error (ctx_of s i) = 0 then start_query i s else s)
                        else (-1, set_ctx i ((ctx_of s i)\<lparr>io_error := ERR_no_available_address\<rparr>) s))
      in if ch_remote_eps (ctx_of s i) \<noteq> []
         then if \<not> ch_is YCPF_NEEDS_QUERY (ctx_of s i) then (0, s)
              else let s = update_dns_status s
                   in if io_error (ctx_of s i) = EINPROGRESS then (0, s)
                      else let (old, s) = address_expired sy i s
                           in if \<not> old then (0, s)
                              else query (set_ctx i ((ctx_of s i)\<lparr>ch_remote_eps := []\<rparr>) s)
         else query s)"

text \<open>The callback of the connect timer of channel \<open>i\<close>; the timer has the number of its channel.\<close>

definition connect_timeout :: "nat \<Rightarrow> service \<Rightarrow> bool \<times> service" where
  "connect_timeout i s =
     (True, if io_state (ctx_of s i) \<noteq> OPENED then handle_connect_failed i ETIMEDOUT s else s)"

definition YASIO_ADDR_ANY :: "int \<Rightarrow> string" where
  "YASIO_ADDR_ANY af = (if af = AF_INET then ''0.0.0.0'' else ''::'')"

definition do_connect :: "sys \<Rightarrow> nat \<Rightarrow> service \<Rightarrow> service result" where
  "do_connect sy i s =
     (let s = (if io_socket (ctx_of s i) \<noteq> None then snd (cleanup_io i True s) else s);
          s = set_ctx i ((ctx_of s i)\<lparr>io_state := CONNECTING\<rparr>) s;
          ctx = ctx_of s i
      in case ch_remote_eps ctx of
           [] \<Rightarrow> Inl Undefined
         | ep # _ \<Rightarrow>
             (case sy_popen sy i of
                Inr errno \<Rightarrow> Inr (handle_connect_failed i errno s)
              | Inl fd \<Rightarrow>
                  let s = set_sock (Channel_sock i) (Some fd) s;
                      ifaddr = (if ch_local_host ctx = [] then YASIO_ADDR_ANY (ep_af ep) else ch_local_host ctx);
                      bound = (if ch_local_host ctx \<noteq> [] \<or> ch_local_port ctx \<noteq> 0 \<or> ch_is YCM_UDP ctx
                               then sy_bind sy i ifaddr (ch_local_port ctx) else 0);
                      bound = (if bound = EPERM then 0 else bound);
                      error = (if bound \<noteq> 0 then bound else if ch_is YCM_TCP ctx then sy_connect sy i ep else 0)
                  in if error \<noteq> 0
                     then if error \<noteq> EINPROGRESS \<and> error \<noteq> EWOULDBLOCK then Inr (handle_connect_failed i error s)
                          else let s = set_ctx i (set_last_errno EINPROGRESS NONE (ctx_of s i)) s;
                                   s = mod_event fd READWRITE 0 s
                               in Inr (schedule (sy_clock sy) i (sv_connect_timeout s) i s)
                     else let s = mod_event fd 1 0 s;
                              (h, s) = allocate_transport i False (Some fd) s
                          in handle_connect_succeed sy h s))"

definition do_connect_completion :: "sys \<Rightarrow> nat \<Rightarrow> service \<Rightarrow> service result" where
  "do_connect_completion sy i s =
     (if io_state (ctx_of s i) = CONNECTING \<and> sy_ready sy i
      then case io_socket (ctx_of s i) of
             None \<Rightarrow> Inr s
           | Some fd \<Rightarrow>
               let error = sy_so_error sy i
               in andthen (if error = 0
                           then let s = mod_event fd 0 2 s;
                                    (h, s) = allocate_transport i False (Some fd) s
                                in handle_connect_succeed sy h s
                           else Inr (handle_connect_failed i error s))
                    (\<lambda>s. Inr (cancel i s))
      else Inr s)"

section \<open>Servers\<close>

definition server_failed :: "nat \<Rightarrow> service \<Rightarrow> service" where
  "server_failed i s =
     (let s = set_sock (Channel_sock i) None s in set_ctx i ((ctx_of s i)\<lparr>io_state := CLOSED\<rparr>) s)"

definition do_accept :: "sys \<Rightarrow> nat \<Rightarrow> service \<Rightarrow> service" where
  "do_accept sy i s =
     (let s = cleanup_channel i True s; ctx = ctx_of s i;
          ifaddr = (if ch_remote_host ctx = [] then YASIO_ADDR_ANY (sy_local_af sy) else ch_remote_host ctx)
      in case sy_popen sy i of
           Inr errno \<Rightarrow> server_failed i s
         | Inl fd \<Rightarrow>
             let s = set_sock (Channel_sock i) (Some fd) s
             in if sy_bind sy i ifaddr (ch_remote_port ctx) \<noteq> 0 then server_failed i s
                else if ch_is YCM_TCP ctx \<and> sy_listen sy i \<noteq> 0 then server_failed i s
                else mod_event fd 1 0 (set_ctx i ((ctx_of s i)\<lparr>io_state := OPENED\<rparr>) s))"

text \<open>\<open>io_transport_udp::handle_input\<close>.\<close>

definition handle_input :: "nat \<Rightarrow> byte list \<Rightarrow> service \<Rightarrow> service" where
  "handle_input h d s =
     (let e = packet_event d (sv_heap s h)
      in if \<not> sv_forward_packet s then fire_event e s else s\<lparr>sv_delivered := sv_delivered s @ [e]\<rparr>)"

definition do_dgram_accept :: "sys \<Rightarrow> nat \<Rightarrow> endpoint \<Rightarrow> service \<Rightarrow> (nat option \<times> service) result" where
  "do_dgram_accept sy i peer s =
     (case map_find peer (sv_map s) of
        Some h \<Rightarrow> Inr (Some h, s)
      | None \<Rightarrow>
          (case sy_dgram_popen sy i of
             Inr errno \<Rightarrow> Inr (None, s)
           | Inl fd \<Rightarrow>
               if sy_dgram_bind sy i \<noteq> 0 then Inr (None, s)
               else let (h, s) = allocate_transport i True (Some fd) s;
                        s = configure_remote sy h peer s;
                        user_route = (\<not> sy_kroute sy \<or> ch_is YCPF_MCAST (ctx_of s i))
                    in andthen (if user_route then Inr (active_transport h s) else handle_connect_succeed sy h s)
                         (\<lambda>s. Inr (Some h, s\<lparr>sv_map := map_emplace peer h (sv_map s)\<rparr>))))"

definition do_accept_completion :: "sys \<Rightarrow> nat \<Rightarrow> service \<Rightarrow> service result" where
  "do_accept_completion sy i s =
     (if io_state (ctx_of s i) = OPENED \<and> sy_ready sy i \<and> sy_so_error sy i = 0
      then if ch_is YCM_TCP (ctx_of s i)
           then case sy_accept sy i of
                  Inl fd \<Rightarrow> let (h, s) = allocate_transport i True (Some fd) s in handle_connect_succeed sy h s
                | Inr errno \<Rightarrow> Inr s
           else case sy_recvfrom sy i of
                  Inl (d, peer) \<Rightarrow>
                    if d \<noteq> []
                    then andthen (do_dgram_accept sy i peer s) (\<lambda>(h, s).
                           case h of Some h \<Rightarrow> Inr (handle_input h d s) | None \<Rightarrow> Inr s)
                    else Inr s
                | Inr errno \<Rightarrow> Inr s
      else Inr s)"

section \<open>Channels in the loop\<close>

definition client_turn :: "sys \<Rightarrow> nat \<Rightarrow> service \<Rightarrow> service result" where
  "client_turn sy i s =
     (let ctx = ctx_of s i;
          s = (if testbits (io_opmask ctx) YOPM_OPEN
               then set_ctx i (ctx\<lparr>io_opmask := clearbits (io_opmask ctx) YOPM_OPEN, io_state := RESOLVING\<rparr>) s else s)
      in if io_state (ctx_of s i) = RESOLVING
         then let (r, s) = do_resolve sy i s
              in if r = 0 then do_connect sy i s
                 else if io_error (ctx_of s i) \<noteq> EINPROGRESS
                 then Inr (handle_connect_failed i (io_error (ctx_of s i)) s) else Inr s
         else if io_state (ctx_of s i) = CONNECTING then do_connect_completion sy i s
         else Inr s)"

definition server_turn :: "sys \<Rightarrow> nat \<Rightarrow> service \<Rightarrow> (bool \<times> service) result" where
  "server_turn sy i s =
     (let opmask = io_opmask (ctx_of s i);
          s = (if testbits opmask YOPM_OPEN then do_accept sy i s
               else if testbits opmask YOPM_CLOSE then cleanup_channel i True s else s);
          finish = (io_state (ctx_of s i) \<noteq> OPENED)
      in andthen (if \<not> finish then do_accept_completion sy i s
                  else Inr (set_ctx i ((ctx_of s i)\<lparr>ch_bytes_transferred := 0\<rparr>) s)) (\<lambda>s. Inr (finish, s)))"

text \<open>One entry of \<open>channel_ops_\<close>: whether it is finished.\<close>

definition channel_turn :: "sys \<Rightarrow> nat \<Rightarrow> service \<Rightarrow> (bool \<times> service) result" where
  "channel_turn sy i s =
     (if ch_is YCM_CLIENT (ctx_of s i)
      then andthen (client_turn sy i s) (\<lambda>s. Inr (io_error (ctx_of s i) \<noteq> EINPROGRESS, s))
      else if ch_is YCM_SERVER (ctx_of s i) then server_turn sy i s
      else Inr (True, s))"

fun channels_loop :: "sys \<Rightarrow> nat list \<Rightarrow> nat list \<Rightarrow> service \<Rightarrow> service result" where
  "channels_loop sy kept [] s = Inr (s\<lparr>sv_channel_ops := kept\<rparr>)"
| "channels_loop sy kept (i # is) s =
     andthen (channel_turn sy i s) (\<lambda>(finish, s). channels_loop sy (if finish then kept else kept @ [i]) is s)"

definition process_channels :: "sys \<Rightarrow> service \<Rightarrow> service result" where
  "process_channels sy s = channels_loop sy [] (sv_channel_ops s) s"

section \<open>The event loop\<close>

text \<open>Only the service's own timers, the connect timeouts, are in this queue.\<close>

definition run_timers :: "sys \<Rightarrow> service \<Rightarrow> service option" where
  "run_timers sy s = map_option fst (process_timers (sy_clock sy) connect_timeout s)"

definition process_deferred_events :: "service \<Rightarrow> service" where
  "process_deferred_events s =
     (if \<not> sv_no_dispatch s
      then let (n, s) = dispatch 128 s in if 0 < n then s\<lparr>ts_wait := 0\<rparr> else s
      else s)"

definition begin_frame :: "sys \<Rightarrow> service \<Rightarrow> int \<times> service" where
  "begin_frame sy s =
     (let s = s\<lparr>ts_current := sy_clock sy (ts_reads s), ts_reads := Suc (ts_reads s)\<rparr>
      in get_timeout (sv_sched_freq s) (ts_wait s) s)"

definition loop_again :: "service \<Rightarrow> bool" where
  "loop_again s \<longleftrightarrow> sv_stop_flag s = 0 \<or> sv_transports s \<noteq> []"

text \<open>
  One pass of the \<open>do\<close> loop of \<open>run\<close>: whether it goes round again.  The poll's result is the
  number of ready descriptors, or the error number of a failure.  A timer pass that never ends is
  \<open>None\<close>.
\<close>

definition run_pass :: "sys \<Rightarrow> nat + int \<Rightarrow> service \<Rightarrow> (bool \<times> service) option result" where
  "run_pass sy polled s =
     (let (waitd_usec, s) = begin_frame sy s
      in case (if waitd_usec > 0 then polled else Inl 0) of
           Inr ec \<Rightarrow> Inr (Some (ec \<noteq> EBADF \<and> loop_again s, s))
         | Inl n \<Rightarrow>
             andthen (process_transports sy s) (\<lambda>s.
             andthen (process_channels sy s) (\<lambda>s.
               Inr (map_option (\<lambda>s. let s = process_deferred_events s in (loop_again s, s)) (run_timers sy s)))))"

definition handle_worker_exit :: "service \<Rightarrow> service" where
  "handle_worker_exit s = s\<lparr>sv_state := AT_EXITING\<rparr>"

section \<open>Start and stop\<close>

definition service_start :: "service \<Rightarrow> service" where
  "service_start s = (if sv_state s = IDLE then s\<lparr>sv_state := RUNNING, sv_joinable := True\<rparr> else s)"

definition clear_transports :: "service \<Rightarrow> service" where
  "clear_transports s =
     (let s = s\<lparr>sv_map := []\<rparr>;
          s = foldl (\<lambda>s h. let s = snd (cleanup_transport h s) in s\<lparr>sv_tpool := sv_tpool s @ [h]\<rparr>) s (sv_transports s)
      in s\<lparr>sv_transports := []\<rparr>)"

text \<open>
  \<open>handle_stop\<close> on the user's thread, the worker having been joined: the worker has left its loop
  (\<open>AT_EXITING\<close>) or has been terminated from outside.
\<close>

definition handle_stop :: "service \<Rightarrow> service" where
  "handle_stop s =
     (let s = (if sv_joinable s
               then let s = s\<lparr>sv_joinable := False\<rparr>
                    in if sv_state s \<noteq> AT_EXITING then (handle_worker_exit s)\<lparr>sv_events := dq_clear (sv_events s)\<rparr> else s
               else s)
      in if sv_state s \<noteq> AT_EXITING then s
         else let s = (if sv_deferred_event s \<and> \<not> dq_empty (sv_events s) then snd (dispatch (2 ^ 31 - 1) s) else s);
                  s = clear_transports s
              in s\<lparr>ts_queue := [], sv_stop_flag := 0, sv_state := IDLE\<rparr>)"

text \<open>The part of \<open>do_stop\<close> before \<open>handle_stop\<close> joins the worker.\<close>

definition stop_request :: "8 word \<Rightarrow> service \<Rightarrow> service" where
  "stop_request flags s =
     (if (sv_state s = RUNNING \<or> sv_state s = AT_EXITING) \<and> sv_stop_flag s = 0
      then let s = s\<lparr>sv_stop_flag := flags\<rparr>
           in if sv_state s = RUNNING
              then wakeup (foldl (\<lambda>s i. service_close i s) s [0..<length (sv_channels s)]) else s
      else s)"

definition new_service :: "(string \<times> 16 word) list \<Rightarrow> service" where
  "new_service eps =
     \<lparr>ts_timers = (\<lambda>_. \<lparr>tm_duration = 0, tm_expire = 0\<rparr>), ts_queue = [], ts_current = 0, ts_wait = 300000000, ts_reads = 0,
      ts_wakeups = 0, sv_state = IDLE, sv_stop_flag = 0, sv_joinable = False,
      sv_channels = map (\<lambda>(i, host, port). set_address host port (new_channel (Suc i) i)) (zip [0..<length eps] eps),
      sv_channel_ops = [], sv_transports = [], sv_heap = (\<lambda>_. new_transport 0 0 False None), sv_own = (\<lambda>_. False),
      sv_tpool = [], sv_next_addr = 0, sv_next_id = Suc (length eps), sv_map = [], sv_events = dq_new, sv_delivered = [],
      sv_completed = [], sv_mods = [], sv_sched_freq = 300000000, sv_connect_timeout = 10000000,
      sv_dns_cache_timeout = 600000000, sv_dns_dirty = False, sv_deferred_event = True, sv_no_dispatch = False,
      sv_forward_packet = False\<rparr>"

end
