(* ===== verification/ServiceProtocol.thy ===== *)
theory ServiceProtocol
  imports IoService
begin

text \<open>
  What the service reports of its connections, in every interleaving of the users' calls with the
  phases of the loop: an inductive step relation over the operations of \<open>IoService\<close>, an invariant
  of its reachable states, and the two properties that follow, the order of a connection's events
  and the disjointness of the handles.  A change that leaves the transports and what is reported of
  them as they are is \<open>quiet\<close>; the operations are shown quiet once and the invariant is then
  checked on the few that are not.
\<close>

named_theorems quiets "operations that are quiet"

section \<open>Quiet changes\<close>

definition fired :: "service \<Rightarrow> io_event list" where
  "fired s = sv_delivered s @ dq_contents (sv_events s)"

definition tr_events :: "service \<Rightarrow> io_event list" where
  "tr_events s = filter ev_writable (fired s)"

text \<open>A change that touches no transport's identity, state or events.\<close>

definition quiet :: "service \<Rightarrow> service \<Rightarrow> bool" where
  "quiet s s' \<longleftrightarrow> sv_transports s' = sv_transports s \<and> sv_tpool s' = sv_tpool s \<and> sv_next_addr s' = sv_next_addr s \<and>
     sv_next_id s' = sv_next_id s \<and> sv_forward_packet s' = sv_forward_packet s \<and> sv_state s' = sv_state s \<and>
     length (sv_channels s') = length (sv_channels s) \<and>
     (\<forall>h. io_id (sv_heap s' h) = io_id (sv_heap s h) \<and> io_state (sv_heap s' h) = io_state (sv_heap s h)) \<and>
     tr_events s' = tr_events s"

lemma quiet_refl [simp, intro]: "quiet s s"
  by (simp add: quiet_def)

lemma quiet_trans: "quiet s s' \<Longrightarrow> quiet s' s'' \<Longrightarrow> quiet s s''"
  by (simp add: quiet_def)

lemma quiet_set_ctx [simp, quiets]: "quiet s (set_ctx i c s)"
  by (simp add: quiet_def set_ctx_def tr_events_def fired_def)

lemma quiet_set_tr: "io_id t = io_id (sv_heap s h) \<Longrightarrow> io_state t = io_state (sv_heap s h) \<Longrightarrow> quiet s (set_tr h t s)"
  by (simp add: quiet_def set_tr_def tr_events_def fired_def)

lemma quiet_set_sock [simp, quiets]: "quiet s (set_sock obj fd s)"
  by (auto simp: quiet_def set_sock_def set_ctx_def set_tr_def tr_events_def fired_def split: sock_object.splits)

lemma quiet_mod_event [simp, quiets]: "quiet s (mod_event fd a r s)"
  by (simp add: quiet_def mod_event_def tr_events_def fired_def)

lemma dq_contents_emplace [simp]: "dq_contents (dq_emplace e q) = dq_contents q @ [e]"
  by (simp add: dq_contents_def dq_emplace_def cq_emplace_def)

lemma fired_fire [simp]: "fired (fire_event e s) = fired s @ [e]"
  by (simp add: fired_def fire_event_def)

lemma quiet_fire [quiets]: "\<not> ev_writable e \<Longrightarrow> quiet s (fire_event e s)"
  by (simp add: quiet_def tr_events_def) (simp add: fire_event_def)

lemma quiet_timer_service:
  "quiet s (s\<lparr>ts_timers := a\<rparr>)" "quiet s (s\<lparr>ts_queue := b\<rparr>)" "quiet s (s\<lparr>ts_current := c\<rparr>)" "quiet s (s\<lparr>ts_wait := d\<rparr>)"
  "quiet s (s\<lparr>ts_reads := e\<rparr>)" "quiet s (s\<lparr>ts_wakeups := f\<rparr>)"
  by (simp_all add: quiet_def tr_events_def fired_def)

lemma quiet_wakeup [simp, quiets]: "quiet s (wakeup s)"
  by (simp add: wakeup_def quiet_timer_service)

lemma quiet_sort_timers [simp, quiets]: "quiet s (sort_timers s)"
  by (simp add: sort_timers_def quiet_timer_service)

lemma quiet_schedule_timer [simp, quiets]: "quiet s (schedule_timer t cb s)"
proof -
  have "quiet s (sort_timers (s\<lparr>ts_queue := q\<rparr>))" for q
    by (rule quiet_trans [OF quiet_timer_service(2) quiet_sort_timers])
  then show ?thesis
    by (auto simp: schedule_timer_def Let_def intro: quiet_trans [OF _ quiet_wakeup])
qed

lemma quiet_remove_timer [simp, quiets]: "quiet s (remove_timer t s)"
  by (auto simp: remove_timer_def Let_def split: option.splits
      intro: quiet_timer_service quiet_trans [OF quiet_trans [OF quiet_timer_service(2) quiet_sort_timers] quiet_wakeup])

lemma quiet_cancel [simp, quiets]: "quiet s (cancel t s)"
  by (simp add: cancel_def)

lemma quiet_expires_again [simp, quiets]: "quiet s (expires_again clk t s)"
  by (simp add: expires_again_def quiet_def tr_events_def fired_def)

lemma quiet_schedule [simp, quiets]: "quiet s (schedule clk t d cb s)"
  unfolding schedule_def async_wait_def expires_from_now_def
  by (rule quiet_trans [OF _ quiet_schedule_timer], rule quiet_trans [OF _ quiet_expires_again], rule quiet_timer_service)

lemma quiet_close_sock: "quiet s (snd (close_sock obj fd s))"
  by (auto simp: close_sock_def split: option.splits intro: quiet_trans [OF quiet_mod_event quiet_set_sock])

lemma quiet_cleanup_io [simp, quiets]: "quiet s (snd (cleanup_io i m s))"
  unfolding cleanup_io_def Let_def by (rule quiet_trans [OF quiet_set_ctx quiet_close_sock])

lemma quiet_cleanup_channel [simp, quiets]: "quiet s (cleanup_channel i m s)"
  unfolding cleanup_channel_def by (rule quiet_trans [OF quiet_set_ctx quiet_cleanup_io])

lemma quiet_connect_failed [simp, quiets]: "quiet s (handle_connect_failed i e s)"
  unfolding handle_connect_failed_def Let_def
  by (rule quiet_trans [OF quiet_cleanup_channel quiet_fire]) (simp add: channel_event_def)

lemma quiet_update_dns [simp, quiets]: "quiet s (update_dns_status s)"
  by (simp add: update_dns_status_def quiet_def tr_events_def fired_def)

lemma quiet_address_expired [simp, quiets]: "quiet s (snd (address_expired sy i s))"
  by (simp add: address_expired_def highp_clock_def quiet_timer_service)

lemma quiet_start_query [simp, quiets]: "quiet s (start_query i s)"
  by (simp add: start_query_def)

lemma quiet_query_finished [simp, quiets]: "quiet s (query_finished sy i a s)"
  by (auto simp: query_finished_def highp_clock_def split: option.splits
      intro: quiet_trans [OF _ quiet_wakeup] quiet_trans [OF quiet_timer_service(5)] quiet_trans [OF quiet_set_ctx quiet_wakeup]
        quiet_trans [OF quiet_trans [OF quiet_timer_service(5) quiet_set_ctx] quiet_wakeup])

lemma quiet_do_resolve [simp, quiets]: "quiet s (snd (do_resolve sy i s))"
proof -
  let ?s1 = "set_ctx i (refresh_address sy (ctx_of s i)) s"
  have a: "quiet s (snd (address_expired sy i (update_dns_status ?s1)))"
    by (rule quiet_trans [OF quiet_trans [OF quiet_set_ctx quiet_update_dns] quiet_address_expired])
  have b: "quiet s (update_dns_status ?s1)" by (rule quiet_trans [OF quiet_set_ctx quiet_update_dns])
  show ?thesis unfolding do_resolve_def Let_def
    by (auto split: prod.splits intro!: quiet_trans [OF _ quiet_set_ctx] quiet_trans [OF _ quiet_start_query] b
        dest!: arg_cong [of _ _ snd] simp: a [THEN quiet_trans])
qed


section \<open>The protocol of a transport's events\<close>

definition kinds :: "nat \<Rightarrow> service \<Rightarrow> event_kind list" where
  "kinds k s = map ev_kind (filter (\<lambda>e. ev_source_id e = k) (tr_events s))"

text \<open>What has been reported of a transport that is alive, and of one that is not.\<close>

definition reported_alive :: "event_kind list \<Rightarrow> bool" where
  "reported_alive ks \<longleftrightarrow> (\<exists>n. ks = YEK_ON_OPEN # replicate n YEK_ON_PACKET)"

definition reported_dead :: "event_kind list \<Rightarrow> bool" where
  "reported_dead ks \<longleftrightarrow> ks = [] \<or> (\<exists>n. ks = YEK_ON_OPEN # replicate n YEK_ON_PACKET @ [YEK_ON_CLOSE])"

definition live_ids :: "nat list \<Rightarrow> service \<Rightarrow> nat set" where
  "live_ids L s = (\<lambda>h. io_id (sv_heap s h)) ` set L"

definition live_ok :: "nat list \<Rightarrow> service \<Rightarrow> bool" where
  "live_ok L s \<longleftrightarrow> distinct (L @ sv_tpool s) \<and> (\<forall>h \<in> set (L @ sv_tpool s). h < sv_next_addr s) \<and>
     (\<forall>h \<in> set L. io_state (sv_heap s h) = OPENED \<and> io_id (sv_heap s h) < sv_next_id s) \<and>
     inj_on (\<lambda>h. io_id (sv_heap s h)) (set L) \<and> \<not> sv_forward_packet s \<and>
     (\<forall>k. (sv_next_id s \<le> k \<longrightarrow> kinds k s = []) \<and>
       (if k \<in> live_ids L s then reported_alive (kinds k s) else reported_dead (kinds k s)))"

lemma quiet_kinds: "quiet s s' \<Longrightarrow> kinds k s' = kinds k s"
  by (simp add: quiet_def kinds_def)

lemma live_ok_quiet:
  assumes "live_ok L s" "quiet s s'"
  shows "live_ok L s'"
proof -
  have "live_ids L s' = live_ids L s" using assms(2) by (simp add: live_ids_def quiet_def)
  with assms quiet_kinds [OF assms(2)] show ?thesis by (simp add: live_ok_def quiet_def inj_on_def)
qed

lemma kinds_fire:
  "kinds k (fire_event e s) = kinds k s @ (if ev_writable e \<and> ev_source_id e = k then [ev_kind e] else [])"
  by (simp add: kinds_def tr_events_def)

lemma reported_alive_packet: "reported_alive ks \<Longrightarrow> reported_alive (ks @ [YEK_ON_PACKET])"
  by (auto simp: reported_alive_def replicate_append_same [symmetric] intro: exI [of _ "Suc _"])

lemma fire_event_simps [simp]:
  "sv_heap (fire_event e s) = sv_heap s" "sv_tpool (fire_event e s) = sv_tpool s" "sv_next_addr (fire_event e s) = sv_next_addr s"
  "sv_next_id (fire_event e s) = sv_next_id s" "sv_forward_packet (fire_event e s) = sv_forward_packet s"
  "sv_transports (fire_event e s) = sv_transports s" "sv_channels (fire_event e s) = sv_channels s"
  "sv_state (fire_event e s) = sv_state s" "ctx_of (fire_event e s) = ctx_of s"
  by (simp_all add: fire_event_def ctx_of_def fun_eq_iff)

lemma live_ok_packet:
  assumes "live_ok L s" "h \<in> set L" "ev_writable e" "ev_kind e = YEK_ON_PACKET" "ev_source_id e = io_id (sv_heap s h)"
  shows "live_ok L (fire_event e s)"
proof -
  have ids: "live_ids L (fire_event e s) = live_ids L s" by (simp add: live_ids_def)
  have "io_id (sv_heap s h) \<in> live_ids L s" "io_id (sv_heap s h) < sv_next_id s" using assms(1,2) by (auto simp: live_ids_def live_ok_def)
  with assms show ?thesis by (auto simp: live_ok_def ids kinds_fire reported_alive_packet)
qed

text \<open>A transport that has been allocated and is not in the list yet.\<close>

definition fresh :: "nat \<Rightarrow> service \<Rightarrow> bool" where
  "fresh h s \<longleftrightarrow> h \<notin> set (sv_transports s @ sv_tpool s) \<and> h < sv_next_addr s \<and> io_state (sv_heap s h) = OPENED \<and>
     io_id (sv_heap s h) < sv_next_id s \<and> io_id (sv_heap s h) \<notin> live_ids (sv_transports s) s \<and> kinds (io_id (sv_heap s h)) s = []"

definition service_ok :: "service \<Rightarrow> bool" where
  "service_ok s \<longleftrightarrow> live_ok (sv_transports s) s"

lemma service_ok_quiet: "service_ok s \<Longrightarrow> quiet s s' \<Longrightarrow> service_ok s'"
  unfolding service_ok_def using live_ok_quiet by (auto simp: quiet_def)

lemma fresh_quiet:
  assumes "fresh h s" "quiet s s'"
  shows "fresh h s'"
proof -
  have "live_ids (sv_transports s') s' = live_ids (sv_transports s) s" using assms(2) by (simp add: live_ids_def quiet_def)
  with assms quiet_kinds [OF assms(2)] show ?thesis by (simp add: fresh_def quiet_def)
qed

lemma allocate_eqs:
  assumes "allocate_transport i own fd s = (h, s')"
  shows "h = (if sv_tpool s \<noteq> [] then last (sv_tpool s) else sv_next_addr s)"
    and "sv_tpool s' = butlast (sv_tpool s)"
    and "sv_next_addr s' = (if sv_tpool s \<noteq> [] then sv_next_addr s else Suc (sv_next_addr s))"
    and "sv_heap s' = (sv_heap s)(h := new_transport (sv_next_id s) i (\<not> ch_is YCM_TCP (ctx_of s i)) fd)"
    and "sv_next_id s' = Suc (sv_next_id s)" "tr_events s' = tr_events s" "sv_transports s' = sv_transports s"
    and "sv_forward_packet s' = sv_forward_packet s" "sv_state s' = sv_state s" "sv_channels s' = sv_channels s"
  using assms by (auto simp: allocate_transport_def set_tr_def ctx_of_def tr_events_def fired_def Let_def split: if_splits)

lemma kinds_allocate: "allocate_transport i own fd s = (h, s') \<Longrightarrow> kinds k s' = kinds k s"
  by (simp add: kinds_def allocate_eqs)

lemma allocate_fresh:
  assumes ok: "service_ok s" and al: "allocate_transport i own fd s = (h, s')"
  shows "service_ok s' \<and> fresh h s'"
proof -
  note eqs = allocate_eqs [OF al]
  have live: "live_ok (sv_transports s) s" using ok by (simp add: service_ok_def)
  have h: "h \<notin> set (sv_transports s @ sv_tpool s') \<and> h < sv_next_addr s' \<and> distinct (sv_transports s @ sv_tpool s')"
  proof (cases "sv_tpool s" rule: rev_cases)
    case Nil
    with live eqs(1-3) show ?thesis by (auto simp: live_ok_def)
  next
    case (snoc q x)
    with live eqs(1-3) show ?thesis by (auto simp: live_ok_def)
  qed
  then have heap: "\<forall>g \<in> set (sv_transports s). sv_heap s' g = sv_heap s g" by (auto simp: eqs(4))
  then have ids: "live_ids (sv_transports s) s' = live_ids (sv_transports s) s" by (simp add: live_ids_def)
  have pool: "set (sv_tpool s') \<subseteq> set (sv_tpool s)" by (auto simp: eqs(2) dest: in_set_butlastD)
  have addr: "sv_next_addr s \<le> sv_next_addr s'" by (simp add: eqs(3))
  have "live_ok (sv_transports s) s'"
    unfolding live_ok_def
  proof (intro conjI)
    show "\<forall>h \<in> set (sv_transports s @ sv_tpool s'). h < sv_next_addr s'"
      using live pool addr by (auto simp: live_ok_def dest!: subsetD intro: less_le_trans)
    show "\<forall>h \<in> set (sv_transports s). io_state (sv_heap s' h) = OPENED \<and> io_id (sv_heap s' h) < sv_next_id s'"
      using live heap by (auto simp: live_ok_def eqs(5) less_Suc_eq)
    show "inj_on (\<lambda>h. io_id (sv_heap s' h)) (set (sv_transports s))"
      using live heap by (simp add: live_ok_def inj_on_def)
    show "\<forall>k. (sv_next_id s' \<le> k \<longrightarrow> kinds k s' = []) \<and> (if k \<in> live_ids (sv_transports s) s' then reported_alive (kinds k s') else reported_dead (kinds k s'))"
      using live by (simp add: live_ok_def ids kinds_allocate [OF al] eqs(5))
  qed (use h live in \<open>auto simp: live_ok_def eqs(8)\<close>)
  moreover have "fresh h s'"
  proof -
    have "io_id (sv_heap s' h) = sv_next_id s" "io_state (sv_heap s' h) = OPENED" by (simp_all add: eqs(4) new_transport_def)
    moreover have "sv_next_id s \<notin> live_ids (sv_transports s) s" using live by (auto simp: live_ok_def live_ids_def)
    moreover have "kinds (sv_next_id s) s = []" using live by (simp add: live_ok_def)
    ultimately show ?thesis using h by (simp add: fresh_def eqs(5,7) ids kinds_allocate [OF al])
  qed
  ultimately show ?thesis by (simp add: service_ok_def eqs(7))
qed

lemma active_transport_ok:
  assumes ok: "service_ok s" and fr: "fresh h s"
  shows "service_ok (active_transport h s)"
proof -
  let ?L = "sv_transports s @ [h]"
  let ?s = "active_transport h s"
  have live: "live_ok (sv_transports s) s" using ok by (simp add: service_ok_def)
  have same: "sv_heap ?s = sv_heap s" "sv_tpool ?s = sv_tpool s" "sv_next_addr ?s = sv_next_addr s" "sv_next_id ?s = sv_next_id s"
    "sv_forward_packet ?s = sv_forward_packet s" "sv_transports ?s = ?L"
    by (simp_all add: active_transport_def)
  have ids: "live_ids ?L ?s = insert (io_id (sv_heap s h)) (live_ids (sv_transports s) s)" by (simp add: live_ids_def same)
  have kd: "kinds k ?s = kinds k s @ (if k = io_id (sv_heap s h) then [YEK_ON_OPEN] else [])" for k
    by (simp add: active_transport_def kinds_fire transport_event_def) (simp add: kinds_def tr_events_def fired_def)
  have "reported_alive [YEK_ON_OPEN]" unfolding reported_alive_def by (rule exI [of _ 0]) simp
  note one = this
  have "live_ok ?L ?s"
    unfolding live_ok_def
  proof (intro conjI)
    show "distinct (?L @ sv_tpool ?s)" using live fr by (simp add: live_ok_def fresh_def same)
    show "\<forall>h \<in> set (?L @ sv_tpool ?s). h < sv_next_addr ?s" using live fr by (simp add: live_ok_def fresh_def same)
    show "\<forall>h \<in> set ?L. io_state (sv_heap ?s h) = OPENED \<and> io_id (sv_heap ?s h) < sv_next_id ?s"
      using live fr by (simp add: live_ok_def fresh_def same)
    show "inj_on (\<lambda>h. io_id (sv_heap ?s h)) (set ?L)"
      using live fr by (simp add: live_ok_def fresh_def same live_ids_def)
    show "\<forall>k. (sv_next_id ?s \<le> k \<longrightarrow> kinds k ?s = []) \<and>
        (if k \<in> live_ids ?L ?s then reported_alive (kinds k ?s) else reported_dead (kinds k ?s))"
      using live fr one by (simp add: live_ok_def fresh_def same ids kd)
  qed (use live in \<open>simp add: live_ok_def same\<close>)
  then show ?thesis by (simp add: service_ok_def same)
qed

section \<open>The handlers\<close>

definition keeps :: "service \<Rightarrow> service \<Rightarrow> bool" where
  "keeps s s' \<longleftrightarrow> (service_ok s \<longrightarrow> service_ok s') \<and> sv_state s' = sv_state s"

lemma keeps_trans: "keeps s s' \<Longrightarrow> keeps s' s'' \<Longrightarrow> keeps s s''"
  by (simp add: keeps_def)

lemma quiet_keeps: "quiet s s' \<Longrightarrow> keeps s s'"
  using service_ok_quiet by (auto simp: keeps_def quiet_def)

lemma quiet_configure_remote [quiets]: "quiet s (configure_remote sy h peer s)"
  by (auto simp: configure_remote_def Let_def intro!: quiet_set_tr)

lemma active_transport_state [simp]: "sv_state (active_transport h s) = sv_state s"
  by (simp add: active_transport_def)

lemma connect_succeed_keeps:
  assumes "handle_connect_succeed sy h s = Inr s'" "fresh h s"
  shows "keeps s s'"
proof -
  have act: "keeps s (active_transport h t)" if "quiet s t" for t
    using that active_transport_ok [of t h] service_ok_quiet [OF _ that] fresh_quiet [OF assms(2) that]
    by (simp add: keeps_def quiet_def)
  have "\<exists>t. quiet s t \<and> s' = active_transport h t"
    using assms(1) unfolding handle_connect_succeed_def Let_def
    by (auto split: if_splits list.splits option.splits
        intro: quiet_trans [OF quiet_set_ctx quiet_configure_remote] quiet_set_ctx quiet_trans [OF quiet_set_ctx quiet_mod_event])
  with act show ?thesis by blast
qed

lemma allocate_connect_keeps:
  assumes "allocate_transport i own fd s = (h, s1)" "quiet s1 s2" "handle_connect_succeed sy h s2 = Inr s'"
  shows "keeps s s'"
proof -
  have st: "sv_state s2 = sv_state s" using assms(1,2) by (simp add: allocate_eqs(9) quiet_def)
  show ?thesis
  proof (cases "service_ok s")
    case True
    from allocate_fresh [OF this assms(1)] have "fresh h s2" "service_ok s2"
      using assms(2) fresh_quiet service_ok_quiet by blast+
    with connect_succeed_keeps [OF assms(3)] st show ?thesis by (simp add: keeps_def)
  next
    case False
    have "sv_state s' = sv_state s2"
      using assms(3) unfolding handle_connect_succeed_def Let_def
      by (auto split: if_splits list.splits option.splits simp: configure_remote_def set_ctx_def set_tr_def mod_event_def Let_def)
    with False st show ?thesis by (simp add: keeps_def)
  qed
qed

lemma do_connect_keeps:
  assumes "do_connect sy i s = Inr s'"
  shows "keeps s s'"
proof -
  define s1 where "s1 = (if io_socket (ctx_of s i) \<noteq> None then snd (cleanup_io i True s) else s)"
  define s2 where "s2 = set_ctx i ((ctx_of s1 i)\<lparr>io_state := CONNECTING\<rparr>) s1"
  have q2: "quiet s s2" unfolding s2_def s1_def
    by (rule quiet_trans [OF _ quiet_set_ctx]) simp
  have fail: "quiet s (handle_connect_failed i e (set_sock ob fd s2))" "quiet s (handle_connect_failed i e s2)" for e ob fd
    by (rule quiet_trans [OF quiet_trans [OF q2 quiet_set_sock] quiet_connect_failed], rule quiet_trans [OF q2 quiet_connect_failed])
  have wait: "quiet s (schedule clk i d i (mod_event fd a b (set_ctx i c (set_sock ob v s2))))" for clk d fd a b c ob v
    by (intro quiet_trans [OF _ quiet_schedule] quiet_trans [OF _ quiet_mod_event] quiet_trans [OF _ quiet_set_ctx]
        quiet_trans [OF _ quiet_set_sock] q2)
  have up: "keeps s s'" if "allocate_transport i own fd' (mod_event fd a b (set_sock ob v s2)) = (h, t)" "handle_connect_succeed sy h t = Inr s'"
    for own fd fd' a b ob v h t
    by (rule keeps_trans [OF quiet_keeps [OF quiet_trans [OF quiet_trans [OF q2 quiet_set_sock] quiet_mod_event]]
        allocate_connect_keeps [OF that(1) quiet_refl that(2)]])
  from assms show ?thesis
    unfolding do_connect_def Let_def s1_def [symmetric] s2_def [symmetric]
    by (auto split: list.splits sum.splits if_splits prod.splits intro: up quiet_keeps fail wait)
qed

lemma do_connect_completion_keeps:
  assumes "do_connect_completion sy i s = Inr s'"
  shows "keeps s s'"
  using assms unfolding do_connect_completion_def Let_def
  by (auto split: if_splits option.splits prod.splits simp: andthen_Inr_iff
      intro: quiet_keeps [OF quiet_refl] quiet_keeps [OF quiet_trans [OF quiet_connect_failed quiet_cancel]]
        keeps_trans [OF keeps_trans [OF quiet_keeps [OF quiet_mod_event] allocate_connect_keeps [OF _ quiet_refl]] quiet_keeps [OF quiet_cancel]])

lemma client_turn_keeps:
  assumes "client_turn sy i s = Inr s'"
  shows "keeps s s'"
proof -
  define s1 where "s1 = (if testbits (io_opmask (ctx_of s i)) YOPM_OPEN
    then set_ctx i ((ctx_of s i)\<lparr>io_opmask := clearbits (io_opmask (ctx_of s i)) YOPM_OPEN, io_state := RESOLVING\<rparr>) s else s)"
  have q1: "quiet s s1" by (simp add: s1_def)
  obtain r s2 where r: "do_resolve sy i s1 = (r, s2)" by fastforce
  then have q2: "quiet s s2" using quiet_trans [OF q1 quiet_do_resolve [of s1 sy i]] by simp
  have k: "keeps s s1" "keeps s s2" using q1 q2 quiet_keeps by blast+
  from assms k show ?thesis
    unfolding client_turn_def Let_def s1_def [symmetric]
    by (auto simp: r split: if_splits intro: quiet_keeps [OF quiet_trans [OF q2 quiet_connect_failed]]
        keeps_trans [OF k(2) do_connect_keeps] keeps_trans [OF k(1) do_connect_completion_keeps])
qed

lemma quiet_do_accept [simp, quiets]: "quiet s (do_accept sy i s)"
proof -
  let ?s = "cleanup_channel i True s"
  have f: "quiet s (server_failed i (set_sock ob fd ?s))" "quiet s (server_failed i ?s)" for ob fd
    unfolding server_failed_def Let_def
    by (intro quiet_trans [OF _ quiet_set_ctx] quiet_trans [OF _ quiet_set_sock] quiet_cleanup_channel)+
  have g: "quiet s (mod_event fd a b (set_ctx i c (set_sock ob v ?s)))" for fd a b c ob v
    by (intro quiet_trans [OF _ quiet_mod_event] quiet_trans [OF _ quiet_set_ctx] quiet_trans [OF _ quiet_set_sock] quiet_cleanup_channel)
  show ?thesis unfolding do_accept_def Let_def by (auto split: sum.splits intro: f g)
qed

text \<open>No datagram arrives at a server channel.\<close>

definition no_datagrams :: "sys \<Rightarrow> bool" where
  "no_datagrams sy \<longleftrightarrow> (\<forall>i d. sy_recvfrom sy i \<noteq> Inl d)"

lemma do_accept_completion_keeps:
  assumes "do_accept_completion sy i s = Inr s'" "no_datagrams sy"
  shows "keeps s s'"
  using assms unfolding do_accept_completion_def no_datagrams_def
  by (auto split: if_splits sum.splits prod.splits intro: quiet_keeps [OF quiet_refl] allocate_connect_keeps [OF _ quiet_refl])

lemma channel_turn_keeps:
  assumes "channel_turn sy i s = Inr (finish, s')" "no_datagrams sy"
  shows "keeps s s'"
proof -
  have "keeps s t" if "server_turn sy i s = Inr (f, t)" for f t
  proof -
    define s1 where "s1 = (if testbits (io_opmask (ctx_of s i)) YOPM_OPEN then do_accept sy i s
               else if testbits (io_opmask (ctx_of s i)) YOPM_CLOSE then cleanup_channel i True s else s)"
    have q: "quiet s s1" by (simp add: s1_def)
    from that show ?thesis unfolding server_turn_def Let_def s1_def [symmetric]
      by (auto simp: andthen_Inr_iff split: if_splits intro: keeps_trans [OF quiet_keeps [OF q] do_accept_completion_keeps] assms(2)
          quiet_keeps [OF quiet_trans [OF q quiet_set_ctx]])
  qed
  with assms(1) client_turn_keeps show ?thesis
    by (auto simp: channel_turn_def andthen_Inr_iff split: if_splits intro: quiet_keeps [OF quiet_refl])
qed

lemma process_channels_keeps:
  assumes "process_channels sy s = Inr s'" "no_datagrams sy"
  shows "keeps s s'"
proof -
  have "channels_loop sy kept is t = Inr s' \<Longrightarrow> keeps t s'" for kept "is" t
  proof (induction "is" arbitrary: kept t)
    case Nil
    have "quiet t (t\<lparr>sv_channel_ops := kept\<rparr>)" by (simp add: quiet_def tr_events_def fired_def)
    with Nil quiet_keeps show ?case by auto
  next
    case (Cons i "is")
    then show ?case using keeps_trans [OF channel_turn_keeps [OF _ assms(2)]] by (fastforce simp: andthen_Inr_iff)
  qed
  with assms(1) show ?thesis by (simp add: process_channels_def)
qed

section \<open>The transports\<close>

lemma do_write_identity:
  assumes "do_write udp ans t = Inr wo"
  shows "io_id (wo_transport wo) = io_id t \<and> io_state (wo_transport wo) = io_state t \<and> tr_ctx (wo_transport wo) = tr_ctx t"
proof -
  have a: "io_id (wo_transport (after_write e w)) = io_id (wo_transport w) \<and> tr_ctx (wo_transport (after_write e w)) = tr_ctx (wo_transport w)" for e w
    by (simp add: after_write_def watch_write_def Let_def)
  have c: "io_id (wo_transport w2) = io_id (wo_transport w) \<and> io_state (wo_transport w2) = io_state (wo_transport w) \<and> tr_ctx (wo_transport w2) = tr_ctx (wo_transport w)"
    if "call_write udp ans op w = Inr (n, e, w2)" for op w n e w2
    using that by (auto simp: call_write_def complete_op_def set_head_def Let_def andthen_Inr_iff split: send_result.splits if_splits)
  from assms show ?thesis
    by (auto simp: do_write_def write_done_def Let_def andthen_Inr_iff a set_last_errno_def split: if_splits option.splits dest!: c)
qed


lemma live_ok_packets:
  assumes "live_ok L s" "h \<in> set L" "io_id t = io_id (sv_heap s h)"
  shows "live_ok L (foldl (\<lambda>s pkt. fire_event (packet_event pkt t) s) s pkts)"
  using assms
proof (induction pkts arbitrary: s)
  case (Cons p pkts)
  have "live_ok L (fire_event (packet_event p t) s)"
    by (rule live_ok_packet [OF Cons.prems(1,2)]) (simp_all add: packet_event_def Cons.prems(3))
  with Cons show ?case by simp
qed simp

lemma fold_fire_simps [simp]:
  "sv_heap (foldl (\<lambda>s e. fire_event (f e) s) s es) = sv_heap s" "sv_state (foldl (\<lambda>s e. fire_event (f e) s) s es) = sv_state s"
  "sv_transports (foldl (\<lambda>s e. fire_event (f e) s) s es) = sv_transports s"
  "sv_forward_packet (foldl (\<lambda>s e. fire_event (f e) s) s es) = sv_forward_packet s"
  by (induction es arbitrary: s) simp_all

text \<open>What the phases of a turn keep for the transports \<open>L\<close> that are alive.\<close>

definition live_keeps :: "nat list \<Rightarrow> service \<Rightarrow> service \<Rightarrow> bool" where
  "live_keeps L s s' \<longleftrightarrow> (live_ok L s \<longrightarrow> live_ok L s') \<and> sv_state s' = sv_state s \<and>
     sv_transports s' = sv_transports s \<and> (\<forall>h. io_id (sv_heap s' h) = io_id (sv_heap s h) \<and> io_state (sv_heap s' h) = io_state (sv_heap s h)) \<and>
     sv_forward_packet s' = sv_forward_packet s"

lemma quiet_live_keeps: "quiet s s' \<Longrightarrow> live_keeps L s s'"
  using live_ok_quiet by (auto simp: live_keeps_def quiet_def)

lemma live_keeps_trans: "live_keeps L s s' \<Longrightarrow> live_keeps L s' s'' \<Longrightarrow> live_keeps L s s''"
  by (simp add: live_keeps_def)

lemma after_read_live:
  assumes "h \<in> set L" "io_id (ro_transport ro) = io_id (sv_heap s h)" "io_state (ro_transport ro) = io_state (sv_heap s h)"
    "ro_forwarded ro = []"
  shows "live_keeps L s (after_read h ro s)"
proof -
  let ?s1 = "set_ctx (tr_ctx (ro_transport ro)) (ro_channel ro) (set_tr h (ro_transport ro) s)"
  let ?s2 = "foldl (\<lambda>s pkt. fire_event (packet_event pkt (ro_transport ro)) s) ?s1 (ro_packets ro)"
  have q: "quiet s ?s1" by (rule quiet_trans [OF quiet_set_tr quiet_set_ctx]) (use assms in simp_all)
  have hp: "sv_heap ?s1 h = ro_transport ro" by (simp add: set_ctx_def set_tr_def)
  have "live_keeps L ?s1 ?s2"
    using live_ok_packets [OF _ assms(1), of ?s1 "ro_transport ro"] by (simp add: live_keeps_def hp)
  with q have k: "live_keeps L s ?s2" using quiet_live_keeps live_keeps_trans by blast
  have "quiet ?s2 (?s2\<lparr>sv_delivered := sv_delivered ?s2 @ map (\<lambda>pkt. packet_event pkt (ro_transport ro)) (ro_forwarded ro)\<rparr>)"
    using assms(4) by (simp add: quiet_def tr_events_def fired_def)
  then have "quiet ?s2 (after_read h ro s)" unfolding after_read_def Let_def
    by (auto intro: quiet_trans [OF _ quiet_timer_service(4)])
  with k show ?thesis using quiet_live_keeps live_keeps_trans by blast
qed

lemma quiet_flush:
  assumes "io_id (wo_transport wo) = io_id (sv_heap s h)" "io_state (wo_transport wo) = io_state (sv_heap s h)"
  shows "quiet s (flush h wo s)"
proof -
  have m: "quiet t (foldl (\<lambda>s (add, rem). mod_event fd add rem s) t ws)" for t fd ws
    by (induction ws arbitrary: t) (auto intro: quiet_trans [OF quiet_mod_event])
  have c: "quiet t (t\<lparr>sv_completed := x\<rparr>)" for t x by (simp add: quiet_def tr_events_def fired_def)
  have base: "quiet s ((foldl (\<lambda>s (add, rem). mod_event fd add rem s) (set_tr h (wo_transport wo) s) (wo_watch wo))\<lparr>sv_completed := x\<rparr>)" for fd x
    by (rule quiet_trans [OF quiet_trans [OF quiet_set_tr [OF assms] m] c])
  show ?thesis
    unfolding flush_def Let_def by (cases "wo_no_wait wo") (simp_all add: base quiet_trans [OF base quiet_timer_service(4)])
qed

lemma transport_io_live:
  assumes "transport_io sy h s = Inr (ok, s')" "h \<in> set L" "\<not> sv_forward_packet s"
  shows "live_keeps L s s'"
proof -
  obtain ro where ro: "do_read (sv_forward_packet s) (ctx_of s (tr_ctx (sv_heap s h))) (sy_recv sy h) (sv_heap s h) = Inr ro"
    using assms(1) by (auto simp: transport_io_def Let_def andthen_Inr_iff)
  from do_read_identity [OF ro] assms(2,3) have r: "live_keeps L s (after_read h ro s)"
    by (intro after_read_live) auto
  show ?thesis
  proof (cases "ro_ok ro")
    case False
    with assms(1) ro r show ?thesis by (auto simp: transport_io_def Let_def)
  next
    case True
    with assms(1) ro obtain wo where
      "do_write (ch_is YCM_UDP (ctx_of s (tr_ctx (sv_heap s h)))) (sy_send sy h) (sv_heap (after_read h ro s) h) = Inr wo"
      "s' = flush h wo (after_read h ro s)" by (auto simp: transport_io_def Let_def andthen_Inr_iff)
    with r show ?thesis
      using quiet_live_keeps [OF quiet_flush] do_write_identity live_keeps_trans by metis
  qed
qed

lemma drop_live:
  assumes ok: "live_ok (A @ h # B) s"
    and ev: "tr_events s' = tr_events s @ [e]" "ev_writable e" "ev_kind e = YEK_ON_CLOSE" "ev_source_id e = io_id (sv_heap s h)"
    and same: "sv_tpool s' = sv_tpool s @ [h]" "sv_next_addr s' = sv_next_addr s" "sv_next_id s' = sv_next_id s"
      "sv_forward_packet s' = sv_forward_packet s"
      "\<And>g. g \<noteq> h \<Longrightarrow> io_id (sv_heap s' g) = io_id (sv_heap s g) \<and> io_state (sv_heap s' g) = io_state (sv_heap s g)"
  shows "live_ok (A @ B) s'"
proof -
  let ?id = "\<lambda>s h. io_id (sv_heap s h)"
  have h: "h \<notin> set (A @ B)" using ok by (simp add: live_ok_def)
  with same(5) have eq: "?id s' g = ?id s g" "io_state (sv_heap s' g) = io_state (sv_heap s g)" if "g \<in> set (A @ B)" for g
    using that by metis+
  have inj: "inj_on (?id s) (set (A @ h # B))" using ok unfolding live_ok_def by blast
  have ids': "live_ids (A @ B) s' = ?id s ` set (A @ B)" unfolding live_ids_def using eq by (intro image_cong) auto
  have ids: "live_ids (A @ B) s' = live_ids (A @ h # B) s - {?id s h}" "?id s h \<in> live_ids (A @ h # B) s"
  proof -
    have "?id s h \<noteq> ?id s g" if "g \<in> set (A @ B)" for g
      using inj_onD [OF inj, of h g] that h by auto
    then have "?id s h \<notin> ?id s ` set (A @ B)" by blast
    then show "live_ids (A @ B) s' = live_ids (A @ h # B) s - {?id s h}" unfolding ids' by (auto simp: live_ids_def)
  qed (simp add: live_ids_def)
  have kd: "kinds k s' = kinds k s @ (if k = ?id s h then [YEK_ON_CLOSE] else [])" for k
    using ev by (simp add: kinds_def)
  have dead: "reported_alive ks \<Longrightarrow> reported_dead (ks @ [YEK_ON_CLOSE])" for ks
    by (auto simp: reported_alive_def reported_dead_def)
  show ?thesis
    unfolding live_ok_def
  proof (intro conjI)
    show "distinct ((A @ B) @ sv_tpool s')" using ok by (auto simp: live_ok_def same(1))
    show "\<forall>h \<in> set ((A @ B) @ sv_tpool s'). h < sv_next_addr s'" using ok by (auto simp: live_ok_def same(1,2))
    show "\<forall>h \<in> set (A @ B). io_state (sv_heap s' h) = OPENED \<and> io_id (sv_heap s' h) < sv_next_id s'"
      using ok eq by (simp add: live_ok_def same(3))
    show "inj_on (?id s') (set (A @ B))" using inj eq by (auto simp: inj_on_def)
    show "\<not> sv_forward_packet s'" using ok by (simp add: live_ok_def same(4))
    show "\<forall>k. (sv_next_id s' \<le> k \<longrightarrow> kinds k s' = []) \<and>
        (if k \<in> live_ids (A @ B) s' then reported_alive (kinds k s') else reported_dead (kinds k s'))"
      using ok ids by (auto simp: live_ok_def same(3) kd dead)
  qed
qed

lemma cleanup_channel_transports: "keeps s (cleanup_channel i m s)"
  by (rule quiet_keeps) simp

lemma handle_close_live:
  assumes ok: "live_ok (A @ h # B) s"
  shows "live_ok (A @ B) (handle_close h s) \<and> sv_state (handle_close h s) = sv_state s \<and>
    sv_transports (handle_close h s) = sv_transports s"
proof -
  let ?t = "sv_heap s h"
  have open': "io_state ?t = OPENED" using ok by (simp add: live_ok_def)
  define s0 where "s0 = (if ch_is YCM_UDP (ctx_of s (tr_ctx ?t))
    then (case tr_peer ?t of Some ep \<Rightarrow> s\<lparr>sv_map := map_erase ep (sv_map s)\<rparr> | None \<Rightarrow> s) else s)"
  have q0: "quiet s s0" by (auto simp: s0_def quiet_def tr_events_def fired_def split: option.splits)
  have t0: "sv_heap s0 h = ?t" by (auto simp: s0_def split: option.splits)
  define s1 where "s1 = fire_event (transport_event YEK_ON_CLOSE (io_error ?t) ?t) s0"
  have c1: "connection_closed h s0 = s1" using open' by (simp add: connection_closed_def s1_def t0 Let_def)
  define s2 where "s2 = set_tr h ((sv_heap s1 h)\<lparr>io_error := 0, io_state := CLOSED, io_opmask := 0\<rparr>) s1"
  have q2: "quiet s2 (snd (cleanup_transport h s1))"
    by (simp add: cleanup_transport_def s2_def quiet_close_sock)
  define s3 where "s3 = deallocate_transport h (snd (cleanup_transport h s1))"
  have "live_ok (A @ B) s3"
  proof (rule drop_live [OF ok, where e = "transport_event YEK_ON_CLOSE (io_error ?t) ?t"])
    show "tr_events s3 = tr_events s @ [transport_event YEK_ON_CLOSE (io_error ?t) ?t]"
      using q0 q2 by (simp add: s3_def deallocate_transport_def quiet_def tr_events_def s2_def s1_def set_tr_def fired_def fire_event_def
          transport_event_def)
    show "io_id (sv_heap s3 g) = io_id (sv_heap s g) \<and> io_state (sv_heap s3 g) = io_state (sv_heap s g)" if "g \<noteq> h" for g
      using q0 q2 that by (simp add: s3_def deallocate_transport_def quiet_def s2_def s1_def set_tr_def)
  qed (use q0 q2 in \<open>simp_all add: s3_def deallocate_transport_def quiet_def s2_def s1_def set_tr_def transport_event_def\<close>)
  moreover have "sv_state s3 = sv_state s" "sv_transports s3 = sv_transports s"
    using q0 q2 by (simp_all add: s3_def deallocate_transport_def quiet_def s2_def s1_def set_tr_def)
  moreover have "quiet s3 (handle_close h s)"
    unfolding handle_close_def Let_def s0_def [symmetric] c1 s3_def [symmetric]
    by (auto intro: quiet_trans [OF quiet_set_ctx quiet_cleanup_channel])
  ultimately show ?thesis using live_ok_quiet by (auto simp: quiet_def)
qed

lemma transport_turn_live:
  assumes "transport_turn sy h s = Inr (keep, s')" "live_ok (A @ h # B) s"
  shows "live_ok ((if keep then A @ [h] else A) @ B) s' \<and> sv_state s' = sv_state s"
proof -
  obtain ok s1 where io: "transport_io sy h s = Inr (ok, s1)" using assms(1) by (auto simp: transport_turn_def andthen_Inr_iff)
  have "\<not> sv_forward_packet s" using assms(2) by (simp add: live_ok_def)
  from transport_io_live [OF io _ this, of "A @ h # B"] assms(2) have s1: "live_ok (A @ h # B) s1" "sv_state s1 = sv_state s"
    by (auto simp: live_keeps_def)
  have c: "live_ok (A @ B) (handle_close h s2) \<and> sv_state (handle_close h s2) = sv_state s" if "quiet s1 s2" for s2
    using handle_close_live [OF live_ok_quiet [OF s1(1) that]] s1(2) that by (simp add: quiet_def)
  from assms(1) io s1 show ?thesis
    by (auto simp: transport_turn_def Let_def split: if_splits intro!: c [THEN conjunct1] c [THEN conjunct2] quiet_set_tr)
qed

lemma process_transports_keeps:
  assumes "process_transports sy s = Inr s'"
  shows "(service_ok s \<longrightarrow> service_ok s' \<and> sv_state s' = sv_state s)"
proof -
  have loop: "live_ok (kept @ hs) t \<Longrightarrow> transports_loop sy kept hs t = Inr s' \<Longrightarrow> service_ok s' \<and> sv_state s' = sv_state t" for kept hs t
  proof (induction hs arbitrary: kept t)
    case Nil
    have "kinds k (t\<lparr>sv_transports := kept\<rparr>) = kinds k t" for k by (simp add: kinds_def tr_events_def fired_def)
    with Nil show ?case by (auto simp: service_ok_def live_ok_def live_ids_def)
  next
    case (Cons h hs)
    from Cons.prems(2) obtain keep t' where t': "transport_turn sy h t = Inr (keep, t')"
      "transports_loop sy (if keep then kept @ [h] else kept) hs t' = Inr s'" by (auto simp: andthen_Inr_iff)
    from transport_turn_live [OF t'(1) Cons.prems(1)] Cons.IH [OF _ t'(2)] show ?case by simp
  qed
  show ?thesis using assms loop [of "[]" "sv_transports s" s] by (simp add: process_transports_def service_ok_def)
qed


section \<open>Steps of the service\<close>

text \<open>
  One call of the user, or one phase of the loop: the service thread and the users' threads
  interleave at this grain.  A resolver thread ends at any time.  The kinds of the calls are free,
  except that no datagram reaches a server channel.
\<close>

inductive service_step :: "service \<Rightarrow> service \<Rightarrow> bool" where
  Open: "service_step s (snd (service_open i kind s))"
| Close: "service_step s (service_close i s)"
| Close_transport: "h \<in> set (sv_transports s) \<Longrightarrow> service_step s (close_transport h s)"
| Write: "h \<in> set (sv_transports s) \<Longrightarrow> service_write buf handler (Some (sv_heap s h)) = (n, Some t) \<Longrightarrow>
    service_step s (wakeup (set_tr h t s))"
| Dispatch: "service_step s (snd (dispatch n s))"
| Start: "service_step s (service_start s)"
| Stop: "service_step s (stop_request flags s)"
| Stopped: "sv_state s = AT_EXITING \<Longrightarrow> service_step s (handle_stop s)"
| Resolved: "service_step s (query_finished sy i answer s)"
| Frame: "sv_state s = RUNNING \<Longrightarrow> service_step s (snd (begin_frame sy s))"
| Transports: "sv_state s = RUNNING \<Longrightarrow> process_transports sy s = Inr s' \<Longrightarrow> service_step s s'"
| Channels: "sv_state s = RUNNING \<Longrightarrow> no_datagrams sy \<Longrightarrow> process_channels sy s = Inr s' \<Longrightarrow> service_step s s'"
| Timers: "sv_state s = RUNNING \<Longrightarrow> run_timers sy s = Some s' \<Longrightarrow> service_step s s'"
| Deferred: "sv_state s = RUNNING \<Longrightarrow> service_step s (process_deferred_events s)"
| Exit: "sv_state s = RUNNING \<Longrightarrow> \<not> loop_again s \<Longrightarrow> service_step s (handle_worker_exit s)"

inductive_cases service_stepE: "service_step s s'"

definition service_inv :: "service \<Rightarrow> bool" where
  "service_inv s \<longleftrightarrow> service_ok s \<and> (sv_state s \<noteq> RUNNING \<longrightarrow> sv_transports s = [])"

lemma service_inv_quiet: "service_inv s \<Longrightarrow> quiet s s' \<Longrightarrow> service_inv s'"
  using service_ok_quiet by (auto simp: service_inv_def quiet_def)

lemma quiet_open [quiets]: "quiet s (snd (service_open i kind s))"
proof -
  have o: "quiet t (snd (open_internal i t))" for t
    unfolding open_internal_def Let_def
    by (auto intro!: quiet_trans [OF _ quiet_wakeup] quiet_set_ctx) (simp add: quiet_def set_ctx_def tr_events_def fired_def)
  show ?thesis unfolding service_open_def Let_def by (auto intro: quiet_trans [OF quiet_set_ctx o])
qed

lemma quiet_close [quiets]: "quiet s (service_close i s)"
  by (auto simp: service_close_def Let_def intro: quiet_trans [OF quiet_set_ctx quiet_wakeup])

lemma quiet_close_transport [quiets]: "quiet s (close_transport h s)"
  by (auto simp: close_transport_def Let_def intro: quiet_trans [OF quiet_set_tr quiet_wakeup])

lemma quiet_dispatch [quiets]: "quiet s (snd (dispatch n s))"
proof -
  obtain out q where c: "dq_consume n (sv_events s) = (out, q)" by fastforce
  then have "out @ dq_contents q = dq_contents (sv_events s)" using events.contents_consume by blast
  with c show ?thesis by (simp add: dispatch_def quiet_def tr_events_def fired_def flip: filter_append)
qed

lemma quiet_stop [quiets]: "quiet s (stop_request flags s)"
proof -
  have f: "quiet t (foldl (\<lambda>s i. service_close i s) t is)" for t "is"
    by (induction "is" arbitrary: t) (auto intro: quiet_trans [OF quiet_close])
  have g: "quiet s (s\<lparr>sv_stop_flag := flags\<rparr>)" by (simp add: quiet_def tr_events_def fired_def)
  show ?thesis unfolding stop_request_def Let_def by (auto intro: quiet_trans [OF quiet_trans [OF g f] quiet_wakeup] g)
qed

lemma quiet_timers_loop:
  assumes "timers_loop clk run s fs n = Some y"
  shows "(\<forall>cb s. quiet s (snd (run cb s))) \<longrightarrow> quiet s (fst y)"
  using assms
proof (rule timers_loop.raw_induct [rotated])
  fix loop :: "(nat \<Rightarrow> int) \<Rightarrow> (nat \<Rightarrow> service \<Rightarrow> bool \<times> service) \<Rightarrow> service \<Rightarrow> nat list \<Rightarrow> nat \<Rightarrow> (service \<times> nat list \<times> nat) option"
    and clk :: "nat \<Rightarrow> int" and run :: "nat \<Rightarrow> service \<Rightarrow> bool \<times> service" and s fs n y
  assume IH: "\<And>clk run s fs n y. loop clk run s fs n = Some y \<Longrightarrow> (\<forall>cb s. quiet s (snd (run cb s))) \<longrightarrow> quiet s (fst y)"
    and step: "(if ts_queue s = [] then Some (s, fs, n)
      else let (t, cb) = last (ts_queue s)
           in if expired s t
              then let (once, s) = run cb (s\<lparr>ts_queue := butlast (ts_queue s)\<rparr>)
                   in if once then loop clk run s (fs @ [cb]) n
                      else loop clk run (let s = expires_again clk t s in s\<lparr>ts_queue := ts_queue s @ [(t, cb)]\<rparr>) (fs @ [cb]) (Suc n)
              else Some (s, fs, n)) = Some y"
  show "(\<forall>cb s. quiet s (snd (run cb s))) \<longrightarrow> quiet s (fst y)"
  proof
    assume run: "\<forall>cb s. quiet s (snd (run cb s))"
    obtain t cb where l: "last (ts_queue s) = (t, cb)" by fastforce
    obtain once s1 where r: "run cb (s\<lparr>ts_queue := butlast (ts_queue s)\<rparr>) = (once, s1)" by fastforce
    have q1: "quiet s s1"
      using quiet_trans [OF quiet_timer_service(2) [of s "butlast (ts_queue s)"]] run r by (metis snd_conv)
    have q2: "quiet s ((expires_again clk t s1)\<lparr>ts_queue := q\<rparr>)" for q
      by (rule quiet_trans [OF quiet_trans [OF q1 quiet_expires_again] quiet_timer_service(2)])
    have ih: "quiet s0 (fst y)" if "loop clk run s0 fs n = Some y" for s0 fs n using IH that run by blast
    from step show "quiet s (fst y)"
      by (auto simp: l r Let_def split: if_splits intro: quiet_trans [OF q1 ih] quiet_trans [OF q2 ih])
  qed
qed

lemma quiet_run_timers:
  assumes "run_timers sy s = Some s'"
  shows "quiet s s'"
proof -
  have c: "quiet s (snd (connect_timeout i s))" for i s by (simp add: connect_timeout_def)
  have "quiet s t" if "timers_loop (sy_clock sy) connect_timeout s [] 0 = Some (t, fs, n)" for t fs n
    using quiet_timers_loop [OF that] c by simp
  with assms show ?thesis
    by (auto simp: run_timers_def process_timers_def split: if_splits intro: quiet_trans [OF _ quiet_sort_timers])
qed

lemma quiet_deferred: "quiet s (process_deferred_events s)"
  using quiet_dispatch [of s 128]
  by (auto simp: process_deferred_events_def split: prod.splits intro: quiet_trans [OF _ quiet_timer_service(4)])

lemma quiet_begin_frame: "quiet s (snd (begin_frame sy s))"
proof -
  have g: "quiet t (snd (get_timeout f u t))" for t f u by (simp add: get_timeout_def Let_def quiet_timer_service)
  show ?thesis unfolding begin_frame_def Let_def
    by (rule quiet_trans [OF _ g]) (simp add: quiet_def tr_events_def fired_def)
qed

lemma service_write_identity:
  assumes "service_write buf handler (Some t) = (n, Some t')"
  shows "io_id t' = io_id t \<and> io_state t' = io_state t"
  using assms
  by (auto simp: service_write_def virtual_write_def transport_write_def udp_write_to_def ensure_destination_def split: if_splits)

lemma stopped_inv:
  assumes "service_inv s" "sv_state s = AT_EXITING"
  shows "service_inv (handle_stop s)"
proof -
  define s1 where "s1 = (if sv_joinable s then s\<lparr>sv_joinable := False\<rparr> else s)"
  have q1: "quiet s s1" by (simp add: s1_def quiet_def tr_events_def fired_def)
  define s2 where "s2 = (if sv_deferred_event s1 \<and> \<not> dq_empty (sv_events s1) then snd (dispatch (2 ^ 31 - 1) s1) else s1)"
  have q2: "quiet s1 s2" unfolding s2_def using quiet_dispatch by auto
  have tr: "sv_transports s2 = []" using assms q1 q2 by (simp add: service_inv_def quiet_def)
  have q3: "quiet s2 (clear_transports s2)" by (simp add: clear_transports_def tr Let_def) (simp add: quiet_def tr_events_def fired_def tr)
  have eq: "handle_stop s = (clear_transports s2)\<lparr>ts_queue := [], sv_stop_flag := 0, sv_state := IDLE\<rparr>"
    using assms(2) by (simp add: handle_stop_def s2_def s1_def Let_def)
  have ok: "service_ok (clear_transports s2)" "sv_transports (clear_transports s2) = []"
    using assms service_ok_quiet q1 q2 q3 tr by (auto simp: service_inv_def quiet_def)
  have "kinds k (handle_stop s) = kinds k (clear_transports s2)" for k
    by (simp add: eq kinds_def tr_events_def fired_def)
  with ok show ?thesis by (simp add: service_inv_def service_ok_def live_ok_def live_ids_def eq)
qed

lemma service_step_inv: "service_step s s' \<Longrightarrow> service_inv s \<Longrightarrow> service_inv s'"
proof (induction rule: service_step.induct)
  case (Write h s buf handler n t)
  from service_write_identity [OF Write(2)] show ?case
    by (intro service_inv_quiet [OF Write(3) quiet_trans [OF quiet_set_tr quiet_wakeup]]) auto
next
  case (Start s)
  have "kinds k (service_start s) = kinds k s" for k by (simp add: service_start_def kinds_def tr_events_def fired_def)
  with Start show ?case by (auto simp: service_start_def service_inv_def service_ok_def live_ok_def live_ids_def)
next
  case (Stopped s)
  then show ?case by (simp add: stopped_inv)
next
  case (Transports s sy s')
  with process_transports_keeps show ?case by (auto simp: service_inv_def)
next
  case (Channels s sy s')
  with process_channels_keeps [OF Channels(3,2)] show ?case by (auto simp: service_inv_def keeps_def)
next
  case (Exit s)
  then have "kinds k (handle_worker_exit s) = kinds k s" for k by (simp add: handle_worker_exit_def kinds_def tr_events_def fired_def)
  with Exit show ?case by (simp add: handle_worker_exit_def service_inv_def service_ok_def live_ok_def live_ids_def loop_again_def)
qed (auto intro: service_inv_quiet [OF _ quiet_open] service_inv_quiet [OF _ quiet_close] service_inv_quiet [OF _ quiet_close_transport]
    service_inv_quiet [OF _ quiet_dispatch] service_inv_quiet [OF _ quiet_stop] service_inv_quiet [OF _ quiet_query_finished]
    service_inv_quiet [OF _ quiet_run_timers] service_inv_quiet [OF _ quiet_deferred] service_inv_quiet [OF _ quiet_begin_frame])

lemma new_service_inv: "service_inv (new_service eps)"
  by (simp add: service_inv_def service_ok_def live_ok_def live_ids_def kinds_def tr_events_def fired_def new_service_def
      dq_new_def dq_contents_def reported_dead_def)

lemma reachable_inv: "service_step\<^sup>*\<^sup>* (new_service eps) s \<Longrightarrow> service_inv s"
  by (induction rule: rtranclp_induct) (auto intro: new_service_inv service_step_inv)



section \<open>A server that has accepted a connection\<close>

definition demo_sys :: sys where
  "demo_sys = \<lparr>sy_ready = (\<lambda>_. True), sy_recv = (\<lambda>_. Recv_fail EWOULDBLOCK), sy_send = (\<lambda>_. Sent 0), sy_popen = (\<lambda>i. Inl (10 + i)),
     sy_bind = (\<lambda>_ _ _. 0), sy_listen = (\<lambda>_. 0), sy_connect = (\<lambda>_ _. 0), sy_so_error = (\<lambda>_. 0), sy_accept = (\<lambda>_. Inl 20),
     sy_recvfrom = (\<lambda>_. Inr EWOULDBLOCK), sy_dgram_popen = (\<lambda>_. Inl 30), sy_dgram_bind = (\<lambda>_. 0), sy_dgram_connect = (\<lambda>_. 0),
     sy_clock = (\<lambda>_. 0), sy_net = compat_env (\<lambda>_. 0), sy_local_af = AF_INET, sy_kroute = True\<rparr>"

text \<open>A TCP server that has accepted a connection.\<close>

definition demo_open :: service where
  "demo_open = snd (service_open 0 YCK_TCP_SERVER (service_start (new_service [([], 80)])))"

lemmas service_eval = service_start_def new_service_def service_open_def open_internal_def ctx_of_def set_ctx_def wakeup_def
  new_channel_def set_address_def set_host_def set_port_def set_props_def setlobyte_def testbits_def setbits_def clearbits_def mask_defs Let_def

lemma new_transport_simps:
  "io_id (new_transport i c u f) = i" "io_socket (new_transport i c u f) = f" "io_state (new_transport i c u f) = OPENED"
  "tr_ctx (new_transport i c u f) = c" "io_error (new_transport i c u f) = 0"
  by (simp_all add: new_transport_def)

lemmas channels_eval = process_channels_def channel_turn_def server_turn_def do_accept_def do_accept_completion_def
  cleanup_channel_def cleanup_io_def close_sock_def clear_mutable_flags_def set_sock_def mod_event_def allocate_transport_def
  handle_connect_succeed_def active_transport_def transport_event_def fire_event_def set_tr_def new_transport_simps
  dq_emplace_def cq_emplace_def dq_new_def ch_is_def server_failed_def YASIO_ADDR_ANY_def

definition demo_accepted :: service where
  "demo_accepted = (case process_channels demo_sys demo_open of Inr s \<Rightarrow> s | Inl _ \<Rightarrow> demo_open)"

lemma demo_accepted:
  "process_channels demo_sys demo_open = Inr demo_accepted \<and> sv_transports demo_accepted = [0] \<and>
   io_id (sv_heap demo_accepted 0) = 2 \<and> sv_state demo_open = RUNNING"
  unfolding demo_accepted_def by (simp add: demo_open_def demo_sys_def service_eval channels_eval cong: if_cong)

lemma demo_open_reachable: "service_step\<^sup>*\<^sup>* (new_service [([], 80)]) demo_open"
proof -
  have "service_step (new_service [([], 80)]) (service_start (new_service [([], 80)]))" by (rule Start)
  moreover have "service_step (service_start (new_service [([], 80)])) demo_open" unfolding demo_open_def by (rule Open)
  ultimately show ?thesis by (blast intro: rtranclp.rtrancl_into_rtrancl rtranclp.rtrancl_refl)
qed

lemma demo_reachable: "service_step\<^sup>*\<^sup>* (new_service [([], 80)]) demo_accepted"
proof -
  note demo_open_reachable
  moreover have "service_step demo_open demo_accepted"
  proof (rule Channels)
    show "no_datagrams demo_sys" by (simp add: no_datagrams_def demo_sys_def)
  qed (simp_all add: demo_accepted)
  ultimately show ?thesis by (blast intro: rtranclp.rtrancl_into_rtrancl rtranclp.rtrancl_refl)
qed


section \<open>The properties\<close>



text \<open>
  C3: handles are never shared.  In every reachable state no transport in use is in the pool, no
  two entries of the list have the same address or the same identity, every transport in the list
  is open, and when the service is not running there is none.
\<close>

theorem live_handles_distinct:
  assumes "service_step\<^sup>*\<^sup>* (new_service eps) s"
  shows "distinct (sv_transports s @ sv_tpool s) \<and> inj_on (\<lambda>h. io_id (sv_heap s h)) (set (sv_transports s)) \<and>
    (\<forall>h \<in> set (sv_transports s). io_state (sv_heap s h) = OPENED) \<and> (sv_state s \<noteq> RUNNING \<longrightarrow> sv_transports s = [])"
  using reachable_inv [OF assms] by (auto simp: service_inv_def service_ok_def live_ok_def)

lemma live_handles_distinct_witness: "distinct (sv_transports demo_accepted @ sv_tpool demo_accepted) \<and> sv_transports demo_accepted = [0]"
  using live_handles_distinct [OF demo_reachable] demo_accepted by simp

end
