(* ===== verification/ServiceFlow.thy ===== *)
theory ServiceFlow
  imports ServiceProtocol
begin

text \<open>
  What becomes of an attempt to connect, of a request to close and of a stop: the outcomes of
  \<open>do_connect\<close> for a TCP client, and the behaviours that depend on the order in which calls,
  turns and timers fall (a failure reported twice, a refused \<open>open\<close> that still takes effect, the
  race of closing a server, a stop in the middle of connecting).
\<close>

section \<open>What the operations change\<close>

lemma set_ctx_simps [simp]:
  "length (sv_channels (set_ctx i c s)) = length (sv_channels s)" "sv_heap (set_ctx i c s) = sv_heap s"
  "sv_transports (set_ctx i c s) = sv_transports s" "fired (set_ctx i c s) = fired s" "ts_queue (set_ctx i c s) = ts_queue s"
  "ts_timers (set_ctx i c s) = ts_timers s" "sv_own (set_ctx i c s) = sv_own s" "sv_mods (set_ctx i c s) = sv_mods s"
  "sv_map (set_ctx i c s) = sv_map s" "sv_channel_ops (set_ctx i c s) = sv_channel_ops s" "sv_connect_timeout (set_ctx i c s) = sv_connect_timeout s"
  "ts_current (set_ctx i c s) = ts_current s" "ts_reads (set_ctx i c s) = ts_reads s" "sv_stop_flag (set_ctx i c s) = sv_stop_flag s"
  "sv_next_id (set_ctx i c s) = sv_next_id s" "sv_events (set_ctx i c s) = sv_events s" "sv_delivered (set_ctx i c s) = sv_delivered s"
  by (simp_all add: set_ctx_def fired_def)

lemma ctx_of_set_ctx: "i < length (sv_channels s) \<Longrightarrow> ctx_of (set_ctx i c s) j = (if j = i then c else ctx_of s j)"
  by (simp add: ctx_of_def set_ctx_def)

lemma mod_event_simps [simp]:
  "sv_channels (mod_event fd a r s) = sv_channels s" "sv_heap (mod_event fd a r s) = sv_heap s"
  "sv_transports (mod_event fd a r s) = sv_transports s" "fired (mod_event fd a r s) = fired s" "ts_queue (mod_event fd a r s) = ts_queue s"
  "ts_timers (mod_event fd a r s) = ts_timers s" "ctx_of (mod_event fd a r s) = ctx_of s" "sv_mods (mod_event fd a r s) = sv_mods s @ [(fd, a, r)]"
  "sv_connect_timeout (mod_event fd a r s) = sv_connect_timeout s" "sv_own (mod_event fd a r s) = sv_own s"
  "sv_channel_ops (mod_event fd a r s) = sv_channel_ops s" "sv_map (mod_event fd a r s) = sv_map s" "sv_stop_flag (mod_event fd a r s) = sv_stop_flag s"
  "sv_next_id (mod_event fd a r s) = sv_next_id s" "sv_events (mod_event fd a r s) = sv_events s" "sv_delivered (mod_event fd a r s) = sv_delivered s"
  by (simp_all add: mod_event_def fired_def ctx_of_def fun_eq_iff)

lemma set_sock_simps [simp]:
  "length (sv_channels (set_sock ob fd s)) = length (sv_channels s)" "sv_transports (set_sock ob fd s) = sv_transports s"
  "fired (set_sock ob fd s) = fired s" "ts_queue (set_sock ob fd s) = ts_queue s" "ts_timers (set_sock ob fd s) = ts_timers s"
  "sv_connect_timeout (set_sock ob fd s) = sv_connect_timeout s" "sv_mods (set_sock ob fd s) = sv_mods s"
  "sv_channel_ops (set_sock ob fd s) = sv_channel_ops s" "sv_stop_flag (set_sock ob fd s) = sv_stop_flag s"
  "sv_next_id (set_sock ob fd s) = sv_next_id s"
  by (auto simp: set_sock_def set_tr_def fired_def set_ctx_def split: sock_object.splits)

lemma ctx_of_set_sock:
  "i < length (sv_channels s) \<Longrightarrow> ctx_of (set_sock (Channel_sock i) fd s) j = (if j = i then (ctx_of s i)\<lparr>io_socket := fd\<rparr> else ctx_of s j)"
  by (simp add: ctx_of_def set_sock_def set_ctx_def)

lemma fire_event_ts [simp]: "ts_queue (fire_event e s) = ts_queue s" "ts_timers (fire_event e s) = ts_timers s"
  by (simp_all add: fire_event_def)

lemma cleanup_channel_result:
  assumes "i < length (sv_channels s)"
  shows "ctx_of (cleanup_channel i m s) j = (if j = i
      then (clear_mutable_flags (ctx_of s i))\<lparr>io_error := 0, io_state := CLOSED, io_socket := None, io_opmask := (if m then 0 else io_opmask (ctx_of s i))\<rparr>
      else ctx_of s j)"
    and "fired (cleanup_channel i m s) = fired s" "sv_transports (cleanup_channel i m s) = sv_transports s"
    and "ts_queue (cleanup_channel i m s) = ts_queue s" "ts_timers (cleanup_channel i m s) = ts_timers s"
    and "length (sv_channels (cleanup_channel i m s)) = length (sv_channels s)" "sv_channel_ops (cleanup_channel i m s) = sv_channel_ops s"
    and "sv_stop_flag (cleanup_channel i m s) = sv_stop_flag s"
  using assms
  by (auto simp: cleanup_channel_def cleanup_io_def close_sock_def Let_def ctx_of_set_ctx ctx_of_set_sock clear_mutable_flags_def split: option.splits)

lemma connect_failed_result:
  assumes "i < length (sv_channels s)"
  shows "ctx_of (handle_connect_failed i e s) j = (if j = i
      then (clear_mutable_flags (ctx_of s i))\<lparr>io_error := 0, io_state := CLOSED, io_socket := None, io_opmask := 0\<rparr> else ctx_of s j)"
    and "fired (handle_connect_failed i e s) = fired s @ [channel_event YEK_ON_OPEN e (ctx_of s i)]"
    and "sv_transports (handle_connect_failed i e s) = sv_transports s" "ts_queue (handle_connect_failed i e s) = ts_queue s"
    and "ts_timers (handle_connect_failed i e s) = ts_timers s"
    and "length (sv_channels (handle_connect_failed i e s)) = length (sv_channels s)"
  using cleanup_channel_result [OF assms, of True] assms
  by (auto simp: handle_connect_failed_def Let_def channel_event_def clear_mutable_flags_def fire_event_ts)

section \<open>Connecting\<close>





lemma active_transport_simps [simp]:
  "sv_transports (active_transport h s) = sv_transports s @ [h]" "sv_heap (active_transport h s) = sv_heap s"
  "ctx_of (active_transport h s) = ctx_of s" "fired (active_transport h s) = fired s @ [transport_event YEK_ON_OPEN 0 (sv_heap s h)]"
  "sv_mods (active_transport h s) = sv_mods s" "length (sv_channels (active_transport h s)) = length (sv_channels s)"
  "ts_queue (active_transport h s) = ts_queue s"
  by (simp_all add: active_transport_def fired_def ctx_of_def fun_eq_iff) (simp_all add: fire_event_def)



lemma sort_timers_service [simp]:
  fixes s :: service
  shows "ctx_of (sort_timers s) = ctx_of s" "fired (sort_timers s) = fired s" "sv_transports (sort_timers s) = sv_transports s"
    "sv_mods (sort_timers s) = sv_mods s" "sv_channels (sort_timers s) = sv_channels s" "sv_heap (sort_timers s) = sv_heap s"
  by (simp_all add: sort_timers_def ctx_of_def fired_def fun_eq_iff)

lemma wakeup_service [simp]:
  fixes s :: service
  shows "ctx_of (wakeup s) = ctx_of s" "fired (wakeup s) = fired s" "sv_transports (wakeup s) = sv_transports s"
    "sv_mods (wakeup s) = sv_mods s" "sv_channels (wakeup s) = sv_channels s" "sv_heap (wakeup s) = sv_heap s"
  by (simp_all add: wakeup_def ctx_of_def fired_def fun_eq_iff)

lemma schedule_service [simp]:
  fixes s :: service
  shows "ctx_of (schedule clk t d cb s) = ctx_of s" "fired (schedule clk t d cb s) = fired s"
    "sv_transports (schedule clk t d cb s) = sv_transports s" "sv_mods (schedule clk t d cb s) = sv_mods s"
proof -
  have a: "ctx_of (s\<lparr>ts_queue := q\<rparr>) = ctx_of s" "fired (s\<lparr>ts_queue := q\<rparr>) = fired s" "sv_transports (s\<lparr>ts_queue := q\<rparr>) = sv_transports s"
    "sv_mods (s\<lparr>ts_queue := q\<rparr>) = sv_mods s" for q and s :: service by (simp_all add: ctx_of_def fired_def fun_eq_iff)
  have b: "ctx_of (expires_from_now clk t d s) = ctx_of s" "fired (expires_from_now clk t d s) = fired s"
    "sv_transports (expires_from_now clk t d s) = sv_transports s" "sv_mods (expires_from_now clk t d s) = sv_mods s"
    by (simp_all add: expires_from_now_def expires_again_def ctx_of_def fired_def fun_eq_iff)
  show "ctx_of (schedule clk t d cb s) = ctx_of s" "fired (schedule clk t d cb s) = fired s"
    "sv_transports (schedule clk t d cb s) = sv_transports s" "sv_mods (schedule clk t d cb s) = sv_mods s"
    by (simp_all add: schedule_def async_wait_def schedule_timer_def Let_def a b)
qed









section \<open>Failures and refusals\<close>

lemma connect_failed_timers:
  "ts_current (handle_connect_failed i e s) = ts_current s" "expired (handle_connect_failed i e s) = expired s"
proof -
  have q: "ts_current (snd (cleanup_io i m t)) = ts_current t \<and> ts_timers (snd (cleanup_io i m t)) = ts_timers t" for m t
    by (auto simp: cleanup_io_def close_sock_def Let_def set_sock_def mod_event_def set_ctx_def split: option.splits)
  then show "ts_current (handle_connect_failed i e s) = ts_current s" "expired (handle_connect_failed i e s) = expired s"
    by (simp_all add: handle_connect_failed_def Let_def fire_event_def cleanup_channel_def expired_def wait_duration_def fun_eq_iff)
qed

lemma failing_completion:
  assumes "i < length (sv_channels s)" "io_state (ctx_of s i) = CONNECTING" "io_socket (ctx_of s i) = Some fd"
    and "sy_ready sy i" "sy_so_error sy i = e" "e \<noteq> 0"
  shows "do_connect_completion sy i s = Inr (cancel i (handle_connect_failed i e s))"
  using assms by (simp add: do_connect_completion_def)

text \<open>
  A connection that fails in its last moment is reported twice.  When the socket of a
  connecting client reports an error, the channel is closed and \<open>YEK_ON_OPEN\<close> is fired with that
  error.  If the connect timer has not expired by then it is cancelled and that is all; if it has,
  \<open>cancel\<close> leaves it in the queue and the pass over the timers closes the channel again and fires
  a second \<open>YEK_ON_OPEN\<close>, with \<open>ETIMEDOUT\<close>.
\<close>

theorem connect_failure_reports:
  assumes "i < length (sv_channels s)" "ch_is YCM_CLIENT (ctx_of s i)" "io_state (ctx_of s i) = CONNECTING"
    and "io_socket (ctx_of s i) = Some fd" "\<not> testbits (io_opmask (ctx_of s i)) YOPM_OPEN"
    and "sy_ready sy i" "sy_so_error sy i = e" "e \<noteq> 0" and timer: "ts_queue s = [(i, i)]"
  shows "\<exists>s1 s2. channel_turn sy i s = Inr (True, s1) \<and> run_timers sy s1 = Some s2 \<and> io_state (ctx_of s2 i) = CLOSED \<and> ts_queue s2 = [] \<and>
    fired s2 = fired s @ channel_event YEK_ON_OPEN e (ctx_of s i) #
      (if expired s i then [channel_event YEK_ON_OPEN ETIMEDOUT (ctx_of s i)] else [])"
proof -
  let ?f = "handle_connect_failed i e s"
  note r = connect_failed_result [OF assms(1)]
  have turn: "channel_turn sy i s = Inr (True, cancel i ?f)" if "io_error (ctx_of (cancel i ?f) i) = 0"
    using assms that failing_completion [OF assms(1,3,4,6,7,8)]
    by (simp add: channel_turn_def client_turn_def Let_def EINPROGRESS_def)
  have fq: "ts_queue ?f = [(i, i)]" using timer r(4) by simp
  show ?thesis
  proof (cases "expired s i")
    case False
    have c: "cancel i ?f = ?f\<lparr>ts_queue := []\<rparr>"
      using False fq by (simp add: cancel_def connect_failed_timers remove_timer_def find_timer_def)
    have "ctx_of (cancel i ?f) = ctx_of ?f" "fired (cancel i ?f) = fired ?f" by (simp_all add: c ctx_of_def fired_def fun_eq_iff)
    moreover have "run_timers sy (cancel i ?f) = Some (cancel i ?f)" by (simp add: run_timers_def process_timers_def c)
    ultimately show ?thesis using turn r(1,2) False c by simp
  next
    case True
    have c: "cancel i ?f = ?f" using True by (simp add: cancel_def connect_failed_timers)
    let ?t = "?f\<lparr>ts_queue := []\<rparr>"
    have t: "ctx_of ?t = ctx_of ?f" "fired ?t = fired ?f" "i < length (sv_channels ?t)" using assms(1) r(6) by (simp_all add: ctx_of_def fired_def fun_eq_iff)
    note r2 = connect_failed_result [OF t(3)]
    have step: "connect_timeout i ?t = (True, handle_connect_failed i ETIMEDOUT ?t)" using r(1) by (simp add: connect_timeout_def t)
    have "run_timers sy ?f = Some (handle_connect_failed i ETIMEDOUT ?t)"
      using fq True step r2(4) by (simp add: run_timers_def process_timers_def timers_loop.simps connect_failed_timers)
    moreover have "channel_event YEK_ON_OPEN ETIMEDOUT (ctx_of ?f i) = channel_event YEK_ON_OPEN ETIMEDOUT (ctx_of s i)"
      by (simp add: channel_event_def r(1) clear_mutable_flags_def)
    ultimately show ?thesis using turn r(1,2) r2(1,2,4) True by (simp add: c t)
  qed
qed

text \<open>
  A refused \<open>open\<close> still takes effect.  While a TCP client connects, \<open>open\<close> with another kind
  returns false, but it has already changed the channel's kind: opened as a server, the channel
  leaves the list of active channels at its next turn, still \<open>CONNECTING\<close>, and the outcome of the
  connection is never looked at; every later \<open>open\<close> is refused.
\<close>

theorem refused_open_drops_connection:
  assumes "i < length (sv_channels s)" "io_state (ctx_of s i) = CONNECTING" "ch_is YCM_CLIENT (ctx_of s i)"
    and ops: "\<not> testbits (io_opmask (ctx_of s i)) YOPM_OPEN" "\<not> testbits (io_opmask (ctx_of s i)) YOPM_CLOSE"
  shows "\<exists>s1 s2. service_open i YCK_TCP_SERVER s = (False, s1) \<and> channel_turn sy i s1 = Inr (True, s2) \<and>
    fired s2 = fired s \<and> io_state (ctx_of s2 i) = CONNECTING \<and> io_socket (ctx_of s2 i) = io_socket (ctx_of s i) \<and>
    \<not> fst (service_open i kind s2)"
proof -
  let ?c = "(ctx_of s i)\<lparr>ch_properties := setlobyte (ch_properties (ctx_of s i)) YCK_TCP_SERVER, ch_stream := True\<rparr>"
  let ?s1 = "set_ctx i ?c s"
  let ?s2 = "set_ctx i ((ctx_of ?s1 i)\<lparr>ch_bytes_transferred := 0\<rparr>) ?s1"
  have c1: "ctx_of ?s1 i = ?c" using assms(1) by (simp add: ctx_of_set_ctx)
  have o: "service_open i YCK_TCP_SERVER s = (False, ?s1)"
    using assms by (simp add: service_open_def Let_def open_internal_def ctx_of_set_ctx mask_defs testbits_def)
  have k: "ch_is YCM_SERVER ?c" "\<not> ch_is YCM_CLIENT ?c"
    by (simp_all add: ch_is_def setlobyte_def testbits_def mask_defs and.assoc bit.conj_disj_distrib2)
  have t: "channel_turn sy i ?s1 = Inr (True, ?s2)" using assms k by (simp add: channel_turn_def server_turn_def c1 Let_def)
  have "\<not> fst (service_open i kind ?s2)"
    using assms by (auto simp: service_open_def Let_def open_internal_def ctx_of_set_ctx)
  moreover have "io_state (ctx_of ?s2 i) = CONNECTING" "io_socket (ctx_of ?s2 i) = io_socket (ctx_of s i)" "fired ?s2 = fired s"
    using assms by (simp_all add: ctx_of_set_ctx)
  ultimately show ?thesis using o t by blast
qed

section \<open>Closing and stopping\<close>

lemma set_tr_simps [simp]: "ctx_of (set_tr h t s) = ctx_of s" "sv_heap (set_tr h t s) h = t" "sv_stop_flag (set_tr h t s) = sv_stop_flag s"
  "fired (set_tr h t s) = fired s"
  by (simp_all add: set_tr_def ctx_of_def fired_def fun_eq_iff)

lemma fired_set_sock_parts [simp]: "fired (s\<lparr>sv_map := m\<rparr>) = fired s" "fired (s\<lparr>sv_tpool := p\<rparr>) = fired s"
  by (simp_all add: fired_def)

lemma fired_cleanup: "fired (snd (cleanup_transport h s)) = fired s" "fired (cleanup_channel i m s) = fired s"
  by (auto simp: cleanup_transport_def cleanup_channel_def cleanup_io_def close_sock_def Let_def split: option.splits)

lemma fired_handle_close:
  "fired (handle_close h s) = fired s @ (if io_state (sv_heap s h) = OPENED then [transport_event YEK_ON_CLOSE (io_error (sv_heap s h)) (sv_heap s h)] else [])"
  by (auto simp: handle_close_def Let_def connection_closed_def deallocate_transport_def fired_cleanup split: option.splits)

lemma cleanup_channel_heap:
  assumes "sv_own s h"
  shows "sv_heap (cleanup_channel i m s) h = sv_heap s h"
  using assms
  by (auto simp: cleanup_channel_def cleanup_io_def close_sock_def Let_def set_sock_def split: option.splits)

text \<open>A turn of a transport for which there is nothing to read or to write.\<close>

definition idle_turn :: "sys \<Rightarrow> nat \<Rightarrow> service \<Rightarrow> service \<Rightarrow> bool" where
  "idle_turn sy h s s' \<longleftrightarrow> transport_io sy h s = Inr (True, s') \<and> ctx_of s' = ctx_of s \<and> sv_stop_flag s' = sv_stop_flag s \<and>
     fired s' = fired s \<and> sv_heap s' = sv_heap s"

text \<open>
  Closing a server races with its own loop.  After \<open>close\<close> of an open server the request waits
  in the channel's mask.  A turn of one of its connections that comes before the channel's turn
  sees the request and closes the connection.  When the channel's turn comes first it closes the
  listening socket and clears the mask, and from then on the connections stay open.
\<close>

theorem server_close_race:
  assumes "i < length (sv_channels s)" "ch_is YCM_SERVER (ctx_of s i)" "\<not> ch_is YCM_CLIENT (ctx_of s i)"
    and opened: "io_socket (ctx_of s i) = Some fd" "io_opmask (ctx_of s i) = 0"
    and tr: "tr_ctx (sv_heap s h) = i" "io_state (sv_heap s h) = OPENED" "io_opmask (sv_heap s h) = 0" "io_error (sv_heap s h) = 0"
    and "sv_own s h" "sv_stop_flag s = 0" and s1: "s1 = service_close i s"
  shows "(\<exists>s2. channel_turn sy i s1 = Inr (True, s2) \<and> io_state (ctx_of s2 i) = CLOSED \<and> io_socket (ctx_of s2 i) = None \<and>
      (\<forall>s3. idle_turn sy h s2 s3 \<longrightarrow> transport_turn sy h s2 = Inr (True, s3))) \<and>
    (\<forall>s3. idle_turn sy h s1 s3 \<longrightarrow> (\<exists>s4. transport_turn sy h s1 = Inr (False, s4) \<and>
      fired s4 = fired s @ [transport_event YEK_ON_CLOSE ERR_shutdown_by_localhost (sv_heap s h)]))"
proof -
  have m: "setbits (clearbits (0 :: 8 word) YOPM_OPEN) YOPM_CLOSE = YOPM_CLOSE" by (simp add: setbits_def clearbits_def)
  have c1: "ctx_of s1 i = (ctx_of s i)\<lparr>io_opmask := YOPM_CLOSE\<rparr>" "length (sv_channels s1) = length (sv_channels s)" "sv_heap s1 = sv_heap s"
    "fired s1 = fired s" "sv_stop_flag s1 = 0" "sv_own s1 h"
    using assms by (simp_all add: service_close_def testbits_def ctx_of_set_ctx m) (simp_all add: wakeup_def)
  let ?cc = "cleanup_channel i True s1"
  let ?s2 = "set_ctx i ((ctx_of ?cc i)\<lparr>ch_bytes_transferred := 0\<rparr>) ?cc"
  have i1: "i < length (sv_channels s1)" using assms(1) c1(2) by simp
  note cc = cleanup_channel_result [OF i1, of True]
  have k: "ch_is YCM_SERVER (ctx_of s1 i)" "\<not> ch_is YCM_CLIENT (ctx_of s1 i)" using assms(2,3) by (simp_all add: c1 ch_is_def)
  have t: "channel_turn sy i s1 = Inr (True, ?s2)"
    using k by (simp add: channel_turn_def server_turn_def Let_def c1(1) testbits_def YOPM_OPEN_def YOPM_CLOSE_def) (simp add: cc c1)
  have c2: "ctx_of ?s2 i = (ctx_of ?cc i)\<lparr>ch_bytes_transferred := 0\<rparr>" using assms(1) c1 cc by (simp add: ctx_of_set_ctx)
  have later: "transport_turn sy h ?s2 = Inr (True, s3)" if "idle_turn sy h ?s2 s3" for s3
  proof -
    have "sv_heap ?s2 h = sv_heap s h" using cleanup_channel_heap [of s1 h i True] c1 by simp
    moreover
    have "sv_stop_flag ?s2 = 0" "io_opmask (ctx_of ?s2 i) = 0" using cc c1 c2 by simp_all
    ultimately show ?thesis using that tr by (simp add: idle_turn_def transport_turn_def Let_def)
  qed
  have first: "\<exists>s4. transport_turn sy h s1 = Inr (False, s4) \<and>
      fired s4 = fired s @ [transport_event YEK_ON_CLOSE ERR_shutdown_by_localhost (sv_heap s h)]" if "idle_turn sy h s1 s3" for s3
  proof -
    let ?t = "(sv_heap s h)\<lparr>io_error := ERR_shutdown_by_localhost\<rparr>"
    have "transport_turn sy h s1 = Inr (False, handle_close h (set_tr h ?t s3))"
      using that tr c1 by (simp add: idle_turn_def transport_turn_def Let_def YOPM_CLOSE_def)
    moreover have "fired (handle_close h (set_tr h ?t s3)) = fired s @ [transport_event YEK_ON_CLOSE ERR_shutdown_by_localhost (sv_heap s h)]"
      using that c1 tr by (simp add: fired_handle_close idle_turn_def transport_event_def)
    ultimately show ?thesis by blast
  qed
  show ?thesis using t later first c2 cc by auto
qed
text \<open>
  A stopped service keeps the connections it was making.  When the worker has left its loop,
  \<open>handle_stop\<close> returns the transports to the pool and drops the timers, but a channel that was
  connecting still is: after a new \<open>start\<close> an \<open>open\<close> of it is refused, and no timer will ever
  end the attempt.
\<close>

theorem stop_keeps_connecting:
  assumes "sv_state s = AT_EXITING" "i < length (sv_channels s)" "io_state (ctx_of s i) = CONNECTING" "sv_transports s = []"
  shows "let s1 = service_start (handle_stop s) in sv_state s1 = RUNNING \<and> sv_stop_flag s1 = 0 \<and> ts_queue s1 = [] \<and>
    ctx_of s1 i = ctx_of s i \<and> sv_channel_ops s1 = sv_channel_ops s \<and> \<not> fst (service_open i kind s1)"
proof -
  have d: "sv_state (snd (dispatch n t)) = sv_state t" "sv_channels (snd (dispatch n t)) = sv_channels t"
    "sv_transports (snd (dispatch n t)) = sv_transports t" "sv_channel_ops (snd (dispatch n t)) = sv_channel_ops t" for n t
    by (simp_all add: dispatch_def split: prod.splits)
  have h: "sv_channels (handle_stop s) = sv_channels s" "sv_channel_ops (handle_stop s) = sv_channel_ops s" "sv_state (handle_stop s) = IDLE"
    "ts_queue (handle_stop s) = []" "sv_stop_flag (handle_stop s) = 0"
    using assms by (simp_all add: handle_stop_def clear_transports_def Let_def d)
  then have c: "ctx_of (service_start (handle_stop s)) i = ctx_of s i" "length (sv_channels (service_start (handle_stop s))) = length (sv_channels s)"
    by (simp_all add: service_start_def ctx_of_def)
  have "\<not> fst (service_open i kind (service_start (handle_stop s)))"
    using assms c by (auto simp: service_open_def Let_def open_internal_def ctx_of_set_ctx)
  with h c show ?thesis by (simp add: Let_def service_start_def)
qed

section \<open>Concrete runs\<close>

definition demo_connecting :: service where
  "demo_connecting = (set_ctx 0 ((new_channel 1 0)\<lparr>ch_properties := YCK_TCP_CLIENT, io_state := CONNECTING, io_socket := Some 10,
     io_error := EINPROGRESS\<rparr>) (new_service [([], 80)]))\<lparr>ts_queue := [(0, 0)], sv_channel_ops := [0]\<rparr>"

lemma demo_connecting_simps:
  "length (sv_channels demo_connecting) = 1" "ts_queue demo_connecting = [(0, 0)]" "sv_transports demo_connecting = []"
  "ctx_of demo_connecting 0 = (new_channel 1 0)\<lparr>ch_properties := YCK_TCP_CLIENT, io_state := CONNECTING, io_socket := Some 10, io_error := EINPROGRESS\<rparr>"
  "expired demo_connecting 0" "fired demo_connecting = []"
  by (simp_all add: demo_connecting_def new_service_def set_ctx_def ctx_of_def expired_def wait_duration_def to_usec_def fired_def dq_new_def dq_contents_def)

lemmas demo_connecting_eval = demo_connecting_simps ch_is_def testbits_def mask_defs new_channel_def

lemma connect_failure_reports_witness:
  "\<exists>s1 s2. channel_turn (demo_sys\<lparr>sy_so_error := \<lambda>_. 111\<rparr>) 0 demo_connecting = Inr (True, s1) \<and>
    run_timers (demo_sys\<lparr>sy_so_error := \<lambda>_. 111\<rparr>) s1 = Some s2 \<and> map ev_status (fired s2) = [111, ETIMEDOUT]"
  using connect_failure_reports [of 0 demo_connecting 10 "demo_sys\<lparr>sy_so_error := \<lambda>_. 111\<rparr>" 111]
  by (auto simp: demo_connecting_eval demo_sys_def channel_event_def)

lemma refused_open_drops_connection_witness:
  "\<exists>s1. service_open 0 YCK_TCP_SERVER demo_connecting = (False, s1) \<and> (\<exists>s2. channel_turn demo_sys 0 s1 = Inr (True, s2))"
  using refused_open_drops_connection [of 0 demo_connecting demo_sys YCK_TCP_CLIENT] by (auto simp: demo_connecting_eval)

lemma stop_keeps_connecting_witness:
  "io_state (ctx_of (service_start (handle_stop (demo_connecting\<lparr>sv_state := AT_EXITING\<rparr>))) 0) = CONNECTING"
  using stop_keeps_connecting [of "demo_connecting\<lparr>sv_state := AT_EXITING\<rparr>" 0]
  by (simp add: Let_def demo_connecting_simps ctx_of_def) (simp add: demo_connecting_def new_service_def set_ctx_def)

lemma demo_accepted_ctx:
  "0 < length (sv_channels demo_accepted)" "ch_is YCM_SERVER (ctx_of demo_accepted 0)" "\<not> ch_is YCM_CLIENT (ctx_of demo_accepted 0)"
  "io_socket (ctx_of demo_accepted 0) = Some 10" "io_opmask (ctx_of demo_accepted 0) = 0" "sv_own demo_accepted 0"
  "sv_stop_flag demo_accepted = 0" "sv_heap demo_accepted 0 = new_transport (Suc 1) 0 False (Some 20)"
  "ch_uparams (ctx_of demo_accepted 0) = default_uparams" "ch_decode_len (ctx_of demo_accepted 0) = None" "\<not> sv_forward_packet demo_accepted"
  unfolding demo_accepted_def by (simp_all add: demo_open_def demo_sys_def service_eval channels_eval cong: if_cong)

lemma idle_new_transport:
  assumes "sv_heap s h = new_transport n i False (Some fd)" "i < length (sv_channels s)" "\<not> sv_forward_packet s"
    "ch_uparams (ctx_of s i) = default_uparams" "ch_decode_len (ctx_of s i) = None" "sy_recv sy h = Recv_fail EWOULDBLOCK"
  shows "\<exists>s'. idle_turn sy h s s'"
proof -
  let ?t = "sv_heap s h" and ?ctx = "ctx_of s i"
  have t: "io_socket ?t = Some fd" "tr_ctx ?t = i" "tr_expected_size ?t = -1" "tr_offset ?t = 0" "tr_send_queue ?t = []" "\<not> io_pollout ?t"
    using assms(1) by (simp_all add: new_transport_def)
  have e: "?t\<lparr>tr_offset := 0\<rparr> = ?t" using t(4) by (cases ?t) simp
  have r: "do_read False ?ctx (Recv_fail EWOULDBLOCK) ?t = Inr (read_done True ?ctx ?t)"
    using assms(4,5) t by (simp add: do_read_def deliver_def transport_do_read_def Let_def call_read_def not_recv_error_def channel_decode_def
        builtin_decode_len_def default_uparams_def) (simp only: e)
  have w: "do_write u a ?t = Inr (write_done ?t)" for u a
    using t by (simp add: do_write_def Let_def cq_peek_def cq_empty_def after_write_def write_done_def)
  let ?s1 = "set_ctx i ?ctx (set_tr h ?t s)"
  have h: "set_tr h ?t s = s" by (simp add: set_tr_def)
  have c: "set_ctx i ?ctx s = s" by (simp add: set_ctx_def ctx_of_def)
  have a: "after_read h (read_done True ?ctx ?t) s = s"
    using t(2) by (simp add: after_read_def read_done_def h c Let_def)
  have f: "flush h (write_done ?t) s = s" by (simp add: flush_def write_done_def h Let_def)
  have "transport_io sy h s = Inr (True, s)"
    using assms(3,6) r w a f t(2) by (simp add: transport_io_def Let_def) (simp add: read_done_def write_done_def)
  then show ?thesis by (auto simp: idle_turn_def)
qed

lemma server_close_race_witness:
  "\<exists>s3 s4. idle_turn demo_sys 0 (service_close 0 demo_accepted) s3 \<and> transport_turn demo_sys 0 (service_close 0 demo_accepted) = Inr (False, s4) \<and>
    (\<exists>s2. channel_turn demo_sys 0 (service_close 0 demo_accepted) = Inr (True, s2) \<and> io_socket (ctx_of s2 0) = None)"
proof -
  let ?s1 = "service_close 0 demo_accepted"
  have c: "sv_heap ?s1 = sv_heap demo_accepted" "length (sv_channels ?s1) = length (sv_channels demo_accepted)" "\<not> sv_forward_packet ?s1"
    "ch_uparams (ctx_of ?s1 0) = default_uparams" "ch_decode_len (ctx_of ?s1 0) = None"
    using demo_accepted_ctx by (simp_all add: service_close_def ctx_of_set_ctx testbits_def) (simp_all add: wakeup_def set_ctx_def)
  then obtain s3 where "idle_turn demo_sys 0 ?s1 s3"
    using idle_new_transport [of ?s1 0 "Suc 1" 0 20 demo_sys] demo_accepted_ctx by (auto simp: demo_sys_def)
  with server_close_race [of 0 demo_accepted 10 0 ?s1 demo_sys] demo_accepted_ctx show ?thesis
    by (simp add: new_transport_def) blast
qed

end
