(* ===== verification/IoWatcher.thy ===== *)
theory IoWatcher
  imports ServiceFlow "HOL-Library.AList"
begin

text \<open>
  The watchers of socket readiness (\<open>yasio/impl/*_io_watcher.hpp\<close>) and the interrupters that wake
  them up.  Each back end keeps its own registration of descriptors; the locale \<open>watcher\<close> states
  what the service needs of them, the set of events each descriptor is watched for, and each back
  end is shown to keep it.  The system's part (the sets the kernel holds, what a poll reports) is
  given as answers.
\<close>

section \<open>Event masks\<close>

datatype socket_event = Ev_read | Ev_write | Ev_error

definition SE_read :: "32 word" where "SE_read = 1"
definition SE_write :: "32 word" where "SE_write = 2"
definition SE_error :: "32 word" where "SE_error = 4"

definition evs :: "32 word \<Rightarrow> socket_event set" where
  "evs m = (if testbits m SE_read then {Ev_read} else {}) \<union> (if testbits m SE_write then {Ev_write} else {}) \<union>
     (if testbits m SE_error then {Ev_error} else {})"

text \<open>The bits of \<open>poll\<close> and \<open>epoll\<close>, which are the same on Linux.\<close>

definition POLLIN :: "32 word" where "POLLIN = 1"
definition POLLPRI :: "32 word" where "POLLPRI = 2"
definition POLLOUT :: "32 word" where "POLLOUT = 4"
definition POLLERR :: "32 word" where "POLLERR = 8"
definition POLLHUP :: "32 word" where "POLLHUP = 16"
definition POLLNVAL :: "32 word" where "POLLNVAL = 32"

definition to_underlying_events :: "32 word \<Rightarrow> 32 word" where
  "to_underlying_events events =
     (if events \<noteq> 0
      then (if testbits events SE_read then POLLIN else 0) OR (if testbits events SE_write then POLLOUT else 0) OR
           (if testbits events SE_error then POLLERR else 0)
      else 0)"

definition under_evs :: "'a::len word \<Rightarrow> socket_event set" where
  "under_evs u = (if bit u 0 then {Ev_read} else {}) \<union> (if bit u 2 then {Ev_write} else {}) \<union> (if bit u 3 then {Ev_error} else {})"

lemmas event_defs = SE_read_def SE_write_def SE_error_def POLLIN_def POLLPRI_def POLLOUT_def POLLERR_def POLLHUP_def POLLNVAL_def

lemma bit_under: "bit (to_underlying_events m) 0 = testbits m SE_read" "bit (to_underlying_events m) 2 = testbits m SE_write"
  "bit (to_underlying_events m) 3 = testbits m SE_error" "bit (to_underlying_events m) k \<Longrightarrow> k \<in> {0, 2, 3}"
proof -
  have n: "bit (4 :: 32 word) j = (j = 2)" "bit (8 :: 32 word) j = (j = 3)" for j
    using bit_exp_iff [of 2 j, where 'a = "32 word"] bit_exp_iff [of 3 j, where 'a = "32 word"] by auto
  have ni: "bit (4 :: int) j = (j = 2)" "bit (8 :: int) j = (j = 3)" for j
    using bit_exp_iff [of 2 j, where 'a = int] bit_exp_iff [of 3 j, where 'a = int] by auto
  have z: "testbits 0 x = False" for x :: "32 word" by (simp add: testbits_def)
  show "bit (to_underlying_events m) 0 = testbits m SE_read" "bit (to_underlying_events m) 2 = testbits m SE_write"
    "bit (to_underlying_events m) 3 = testbits m SE_error" "bit (to_underlying_events m) k \<Longrightarrow> k \<in> {0, 2, 3}"
    by (auto simp: to_underlying_events_def POLLIN_def POLLOUT_def POLLERR_def bit_or_iff n ni bit_1_iff z split: if_splits)
qed

lemma under_evs_0 [simp]: "under_evs 0 = {}"
  by (simp add: under_evs_def)

lemma under_evs_mod:
  assumes "3 < LENGTH('a)"
  shows "under_evs ((u OR ucast (to_underlying_events a)) AND NOT (ucast (to_underlying_events r)) :: 'a::len word) = (under_evs u \<union> evs a) - evs r"
  using assms by (auto simp: under_evs_def evs_def bit_and_iff bit_or_iff bit_not_iff bit_ucast_iff bit_under split: if_splits)

text \<open>Only the bits the watchers ask for.\<close>

definition clean :: "'a::len word \<Rightarrow> bool" where
  "clean u \<longleftrightarrow> (\<forall>k. bit u k \<longrightarrow> k \<in> {0, 2, 3})"

lemma clean_0 [simp]: "clean 0" and clean_mod: "clean u \<Longrightarrow> clean ((u OR ucast (to_underlying_events a)) AND NOT (ucast (to_underlying_events r)))"
  using bit_under(4) by (auto simp: clean_def bit_and_iff bit_or_iff bit_not_iff bit_ucast_iff)

lemma clean_evs_empty: "clean u \<Longrightarrow> under_evs u = {} \<longleftrightarrow> u = 0"
  by (auto simp: clean_def under_evs_def split: if_splits intro!: bit_word_eqI)

section \<open>The interface\<close>

text \<open>
  What the service relies on: a descriptor the watcher can hold is registered and deregistered for
  exactly the events asked for, and no other descriptor is touched.
\<close>

locale watcher =
  fixes mod_ev :: "nat \<Rightarrow> 32 word \<Rightarrow> 32 word \<Rightarrow> 'w \<Rightarrow> 'w result"
    and interest :: "'w \<Rightarrow> nat \<Rightarrow> socket_event set"
    and ok :: "'w \<Rightarrow> bool"
    and fits :: "nat \<Rightarrow> bool"
  assumes mod_ev_ok: "ok w \<Longrightarrow> fits fd \<Longrightarrow> \<exists>w'. mod_ev fd a r w = Inr w' \<and> ok w'"
    and interest_mod: "ok w \<Longrightarrow> fits fd \<Longrightarrow> mod_ev fd a r w = Inr w' \<Longrightarrow>
      interest w' g = (if g = fd then (interest w fd \<union> evs a) - evs r else interest w g)"

text \<open>A run of calls, and what a run asks for of a descriptor.\<close>

fun run_mods :: "(nat \<Rightarrow> 32 word \<Rightarrow> 32 word \<Rightarrow> 'w \<Rightarrow> 'w result) \<Rightarrow> (nat \<times> nat \<times> nat) list \<Rightarrow> 'w \<Rightarrow> 'w result" where
  "run_mods m [] w = Inr w"
| "run_mods m ((fd, a, r) # ms) w = andthen (m fd (of_nat a) (of_nat r) w) (run_mods m ms)"

fun watched :: "(nat \<times> nat \<times> nat) list \<Rightarrow> socket_event set \<Rightarrow> nat \<Rightarrow> socket_event set" where
  "watched [] E g = E"
| "watched ((fd, a, r) # ms) E g = watched ms (if g = fd then (E \<union> evs (of_nat a)) - evs (of_nat r) else E) g"

context watcher
begin

lemma run_mods_interest:
  "ok w \<Longrightarrow> \<forall>(fd, a, r) \<in> set ms. fits fd \<Longrightarrow>
     \<exists>w'. run_mods mod_ev ms w = Inr w' \<and> ok w' \<and> (\<forall>g. interest w' g = watched ms (interest w g) g)"
proof (induction ms arbitrary: w)
  case (Cons m ms)
  obtain fd a r where m: "m = (fd, a, r)" by (cases m)
  with Cons.prems obtain w1 where w1: "mod_ev fd (of_nat a) (of_nat r) w = Inr w1" "ok w1" using mod_ev_ok by fastforce
  with Cons.IH [of w1] Cons.prems obtain w' where w': "run_mods mod_ev ms w1 = Inr w'" "ok w'"
    "\<forall>g. interest w' g = watched ms (interest w1 g) g" by auto
  have "interest w1 g = (if g = fd then (interest w fd \<union> evs (of_nat a)) - evs (of_nat r) else interest w g)" for g
    using interest_mod [OF _ _ w1(1)] Cons.prems m by simp
  with w1 w' m show ?case by simp
qed simp

end

section \<open>\<open>poll\<close>\<close>

record pollfd =
  pfd_fd :: nat
  pfd_events :: "16 word"
  pfd_revents :: "16 word"

record poll_watcher =
  pw_events :: "pollfd list"
  pw_revents :: "pollfd list"

definition pollfd_mod :: "nat \<Rightarrow> 32 word \<Rightarrow> 32 word \<Rightarrow> pollfd list \<Rightarrow> pollfd list" where
  "pollfd_mod fd add_events remove_events fdset =
     (case find_index (\<lambda>p. pfd_fd p = fd) fdset of
        Some i \<Rightarrow>
          let e = (pfd_events (fdset ! i) OR ucast add_events) AND NOT (ucast remove_events)
          in if e = 0 then take i fdset @ drop (Suc i) fdset else fdset[i := (fdset ! i)\<lparr>pfd_events := e\<rparr>]
      | None \<Rightarrow>
          let events = add_events AND NOT remove_events
          in if events \<noteq> 0 then fdset @ [\<lparr>pfd_fd = fd, pfd_events = ucast events, pfd_revents = 0\<rparr>] else fdset)"

definition poll_mod_event :: "nat \<Rightarrow> 32 word \<Rightarrow> 32 word \<Rightarrow> poll_watcher \<Rightarrow> poll_watcher result" where
  "poll_mod_event fd a r w =
     Inr (w\<lparr>pw_events := pollfd_mod fd (to_underlying_events a) (to_underlying_events r) (pw_events w)\<rparr>)"

text \<open>What is registered for a descriptor; the entries of one descriptor are unique and ask for something.\<close>

definition poll_table :: "pollfd list \<Rightarrow> nat \<Rightarrow> 16 word option" where
  "poll_table ps = map_of (map (\<lambda>p. (pfd_fd p, pfd_events p)) ps)"

definition poll_interest :: "poll_watcher \<Rightarrow> nat \<Rightarrow> socket_event set" where
  "poll_interest w fd = (case poll_table (pw_events w) fd of Some e \<Rightarrow> under_evs e | None \<Rightarrow> {})"

definition poll_ok :: "poll_watcher \<Rightarrow> bool" where
  "poll_ok w \<longleftrightarrow> distinct (map pfd_fd (pw_events w)) \<and>
     (\<forall>fd e. poll_table (pw_events w) fd = Some e \<longrightarrow> e \<noteq> 0 \<and> clean e)"

lemma poll_table_None: "poll_table ps fd = None \<longleftrightarrow> fd \<notin> pfd_fd ` set ps"
  by (auto simp: poll_table_def map_of_eq_None_iff image_iff)

lemma find_index_split:
  assumes "find_index q xs = Some i"
  shows "xs = take i xs @ xs ! i # drop (Suc i) xs" "q (xs ! i)" "i < length xs" "\<forall>x \<in> set (take i xs). \<not> q x"
proof -
  note f = find_index_Some [OF assms]
  then show "xs = take i xs @ xs ! i # drop (Suc i) xs" by (simp add: id_take_nth_drop)
  show "q (xs ! i)" "i < length xs" using f by auto
  show "\<forall>x \<in> set (take i xs). \<not> q x" using f by (auto simp: in_set_conv_nth)
qed

lemma clean_ucast:
  assumes "clean u"
  shows "(ucast (u :: 32 word) :: 16 word) = 0 \<longleftrightarrow> u = 0"
proof
  assume z: "(ucast u :: 16 word) = 0"
  show "u = 0"
  proof (rule bit_word_eqI)
    fix k
    have "\<not> bit (ucast u :: 16 word) k" using z by simp
    with assms show "bit u k = bit 0 k" by (auto simp: clean_def bit_ucast_iff)
  qed
qed simp

lemma poll_table_split: "fd \<notin> pfd_fd ` set xs \<Longrightarrow> pfd_fd x = fd \<Longrightarrow>
    poll_table (xs @ x # ys) g = (if g = fd then Some (pfd_events x) else poll_table (xs @ ys) g)"
  using poll_table_None [of xs fd] by (auto simp: poll_table_def map_add_def split: option.splits)

lemma pollfd_mod_table:
  assumes "distinct (map pfd_fd ps)"
    and new: "new = ((case poll_table ps fd of Some e \<Rightarrow> e | None \<Rightarrow> 0) OR ucast (to_underlying_events a)) AND NOT (ucast (to_underlying_events r))"
    and m: "m = pollfd_mod fd (to_underlying_events a) (to_underlying_events r) ps"
  shows "poll_table m = (poll_table ps)(fd := if new = 0 then None else Some new) \<and> distinct (map pfd_fd m)"
proof (cases "find_index (\<lambda>p. pfd_fd p = fd) ps")
  case None
  have m_eq: "m = (if to_underlying_events a AND NOT (to_underlying_events r) \<noteq> 0
      then ps @ [\<lparr>pfd_fd = fd, pfd_events = ucast (to_underlying_events a AND NOT (to_underlying_events r)), pfd_revents = 0\<rparr>] else ps)"
    by (simp add: m pollfd_mod_def None Let_def del: find_index_None)
  from None have out: "fd \<notin> pfd_fd ` set ps" by auto
  then have t: "poll_table ps fd = None" by (simp add: poll_table_None)
  have u: "(ucast (to_underlying_events a AND NOT (to_underlying_events r)) :: 16 word) = new"
    unfolding new t option.case by (rule bit_word_eqI) (auto simp: bit_ucast_iff bit_and_iff bit_or_iff bit_not_iff)
  have "clean ((0 OR ucast (to_underlying_events a)) AND NOT (ucast (to_underlying_events r)) :: 32 word)" by (rule clean_mod) simp
  then have c: "clean (to_underlying_events a AND NOT (to_underlying_events r))" by simp
  show ?thesis
  proof (cases "new = 0")
    case True
    with t u clean_ucast [OF c] assms(1) show ?thesis by (auto simp: m_eq fun_upd_idem)
  next
    case False
    let ?p = "\<lparr>pfd_fd = fd, pfd_events = new, pfd_revents = 0\<rparr>"
    have "m = ps @ [?p]" using False u clean_ucast [OF c] by (auto simp: m_eq)
    moreover have "poll_table (ps @ [?p]) g = (if g = fd then Some new else poll_table ps g)" for g
      using poll_table_split [OF out, of ?p "[]" g] by simp
    ultimately show ?thesis using False out assms(1) by (auto simp: fun_eq_iff)
  qed
next
  case (Some i)
  define xs x ys where "xs = take i ps" and "x = ps ! i" and "ys = drop (Suc i) ps"
  note sp = find_index_split [OF Some, folded xs_def x_def ys_def]
  have out: "fd \<notin> pfd_fd ` set xs" and ds: "distinct (map pfd_fd (xs @ ys))" "fd \<notin> pfd_fd ` set ys"
    using sp(4) assms(1) sp(1,2) by (auto simp: image_iff)
  have t: "poll_table ps g = (if g = fd then Some (pfd_events x) else poll_table (xs @ ys) g)" for g
    using poll_table_split [OF out sp(2)] sp(1) by simp
  have none: "poll_table (xs @ ys) fd = None" using out ds(2) by (simp add: poll_table_None image_Un)
  have n: "new = (pfd_events x OR ucast (to_underlying_events a)) AND NOT (ucast (to_underlying_events r))" by (simp add: new t)
  have m': "m = (if new = 0 then xs @ ys else xs @ x\<lparr>pfd_events := new\<rparr> # ys)"
    using sp(3) by (simp add: m pollfd_mod_def Some Let_def n xs_def x_def ys_def upd_conv_take_nth_drop)
  show ?thesis
    using ds out sp(2) t none poll_table_split [OF out, of "x\<lparr>pfd_events := new\<rparr>" ys] by (auto simp: m' fun_eq_iff)
qed

lemma poll_mod_event_interest:
  assumes "poll_ok w"
  shows "\<exists>w'. poll_mod_event fd a r w = Inr w' \<and> poll_ok w' \<and>
    (\<forall>g. poll_interest w' g = (if g = fd then (poll_interest w fd \<union> evs a) - evs r else poll_interest w g))"
proof -
  define old where "old = (case poll_table (pw_events w) fd of Some e \<Rightarrow> e | None \<Rightarrow> 0)"
  define new where "new = (old OR ucast (to_underlying_events a)) AND NOT (ucast (to_underlying_events r))"
  define ps where "ps = pollfd_mod fd (to_underlying_events a) (to_underlying_events r) (pw_events w)"
  have t: "poll_table ps = (poll_table (pw_events w))(fd := if new = 0 then None else Some new)" "distinct (map pfd_fd ps)"
    using pollfd_mod_table [of "pw_events w" new fd a r ps] assms by (simp_all add: poll_ok_def old_def new_def ps_def)
  have c: "clean new" unfolding new_def by (rule clean_mod) (use assms in \<open>simp add: old_def poll_ok_def split: option.splits\<close>)
  have o: "poll_interest w fd = under_evs old" by (simp add: poll_interest_def old_def split: option.splits)
  have "under_evs new = (under_evs old \<union> evs a) - evs r" unfolding new_def by (rule under_evs_mod) simp
  with t c assms o show ?thesis
    by (auto simp: poll_mod_event_def poll_ok_def poll_interest_def simp flip: ps_def)
qed

interpretation poll: watcher poll_mod_event poll_interest poll_ok "\<lambda>_. True"
  using poll_mod_event_interest by unfold_locales (fastforce, metis Inr_inject)

section \<open>\<open>epoll\<close>\<close>

text \<open>
  \<open>events_\<close> as an association list without duplicates.  The calls of \<open>epoll_ctl\<close> are recorded with
  the system's answer; \<open>ev.events\<close> includes the flags, the table does not.
\<close>

datatype epoll_op = CTL_ADD | CTL_MOD | CTL_DEL

record epoll_watcher =
  ep_events :: "(nat \<times> 32 word) list"
  ep_max_events :: nat
  ep_nrevents :: int
  ep_revents :: "(nat \<times> 32 word) list"  \<comment> \<open>\<open>data.fd\<close> and \<open>events\<close>\<close>
  ep_read_descriptor :: nat
  ep_calls :: "(epoll_op \<times> nat \<times> 32 word \<times> bool) list"

definition EPOLLONESHOT :: "32 word" where "EPOLLONESHOT = push_bit 30 1"

definition epoll_mod_event :: "bool \<Rightarrow> 32 word \<Rightarrow> nat \<Rightarrow> 32 word \<Rightarrow> 32 word \<Rightarrow> epoll_watcher \<Rightarrow> epoll_watcher result" where
  "epoll_mod_event accepted flags fd a r w =
     (let it = map_of (ep_events w) fd;
          u = (case it of Some u \<Rightarrow> u | None \<Rightarrow> 0);
          u = (u OR to_underlying_events a) AND NOT (to_underlying_events r);
          w = (if u \<noteq> 0
               then let w = w\<lparr>ep_calls := ep_calls w @ [(if it = None then CTL_ADD else CTL_MOD, fd, u OR flags, accepted)]\<rparr>
                    in if accepted then w\<lparr>ep_events := AList.update fd u (ep_events w)\<rparr> else w
               else if it \<noteq> None
               then w\<lparr>ep_calls := ep_calls w @ [(CTL_DEL, fd, u OR flags, accepted)], ep_events := AList.delete fd (ep_events w)\<rparr>
               else w)
      in Inr (w\<lparr>ep_max_events := min (length (ep_events w)) 128\<rparr>))"

text \<open>Before the constructor has registered the interrupter.\<close>

definition empty_epoll :: "nat \<Rightarrow> epoll_watcher" where
  "empty_epoll rd = \<lparr>ep_events = [], ep_max_events = 0, ep_nrevents = 0, ep_revents = [], ep_read_descriptor = rd, ep_calls = []\<rparr>"

definition epoll_interest :: "epoll_watcher \<Rightarrow> nat \<Rightarrow> socket_event set" where
  "epoll_interest w fd = (case map_of (ep_events w) fd of Some u \<Rightarrow> under_evs u | None \<Rightarrow> {})"

definition epoll_ok :: "epoll_watcher \<Rightarrow> bool" where
  "epoll_ok w \<longleftrightarrow> distinct (map fst (ep_events w)) \<and> (\<forall>fd u. map_of (ep_events w) fd = Some u \<longrightarrow> u \<noteq> 0 \<and> clean u) \<and>
     ep_max_events w = min (length (ep_events w)) 128"

lemma distinct_update_alist: "distinct (map fst al) \<Longrightarrow> distinct (map fst (AList.update k v al))"
  by (simp add: distinct_update)

lemma epoll_mod_event_interest:
  assumes "epoll_ok w"
  shows "\<exists>w'. epoll_mod_event True flags fd a r w = Inr w' \<and> epoll_ok w' \<and>
    (\<forall>g. epoll_interest w' g = (if g = fd then (epoll_interest w fd \<union> evs a) - evs r else epoll_interest w g))"
proof -
  define old where "old = (case map_of (ep_events w) fd of Some e \<Rightarrow> e | None \<Rightarrow> 0)"
  define new where "new = (old OR to_underlying_events a) AND NOT (to_underlying_events r)"
  have c: "clean new" using clean_mod [of old a r] assms by (simp add: new_def old_def epoll_ok_def split: option.splits)
  have o: "epoll_interest w fd = under_evs old" by (simp add: epoll_interest_def old_def split: option.splits)
  have u: "under_evs new = (under_evs old \<union> evs a) - evs r" using under_evs_mod [of old a r] by (simp add: new_def)
  define es where "es = (if new \<noteq> 0 then AList.update fd new (ep_events w) else AList.delete fd (ep_events w))"
  have t: "map_of es = (map_of (ep_events w))(fd := if new = 0 then None else Some new)"
    by (simp add: es_def update_conv' delete_conv')
  have d: "distinct (map fst es)" using assms by (simp add: es_def epoll_ok_def distinct_update distinct_delete)
  obtain w' where w': "epoll_mod_event True flags fd a r w = Inr w'" "ep_events w' = es" "ep_max_events w' = min (length es) 128"
  proof (cases "new = 0 \<and> map_of (ep_events w) fd = None")
    case True
    then have "es = ep_events w" by (simp add: es_def delete_id map_of_eq_None_iff)
    moreover have n: "map_of (ep_events w) fd = None" using True ..
    moreover have "to_underlying_events a AND NOT (to_underlying_events r) = 0" using True by (simp add: new_def old_def n)
    ultimately show ?thesis using that [of "w\<lparr>ep_max_events := min (length es) 128\<rparr>"]
      by (simp add: epoll_mod_event_def Let_def)
  next
    case False
    with that show ?thesis by (auto simp: epoll_mod_event_def Let_def es_def simp flip: old_def new_def)
  qed
  with t d c o u assms show ?thesis by (auto simp: epoll_ok_def epoll_interest_def)
qed

interpretation epoll: watcher "epoll_mod_event True 0" epoll_interest epoll_ok "\<lambda>_. True"
  using epoll_mod_event_interest by unfold_locales (fastforce, metis Inr_inject)










section \<open>\<open>select\<close>\<close>

text \<open>An \<open>fd_set\<close> holds descriptors below \<open>FD_SETSIZE\<close>; setting or clearing another one writes outside of it.\<close>

definition FD_SETSIZE :: nat where "FD_SETSIZE = 1024"

record select_watcher =
  sel_read :: "nat set"
  sel_write :: "nat set"
  sel_except :: "nat set"
  sel_rread :: "nat set"
  sel_rwrite :: "nat set"
  sel_rexcept :: "nat set"
  sel_max_descriptor :: int

definition FD_SET :: "nat \<Rightarrow> nat set \<Rightarrow> nat set result" where
  "FD_SET fd s = (if fd < FD_SETSIZE then Inr (insert fd s) else Inl Undefined)"

definition FD_CLR :: "nat \<Rightarrow> nat set \<Rightarrow> nat set result" where
  "FD_CLR fd s = (if fd < FD_SETSIZE then Inr (s - {fd}) else Inl Undefined)"

definition on_bits :: "32 word \<Rightarrow> (nat set \<Rightarrow> nat set result) \<Rightarrow> select_watcher \<Rightarrow> select_watcher result" where
  "on_bits m f w =
     andthen (if testbits m SE_read then f (sel_read w) else Inr (sel_read w)) (\<lambda>rs.
     andthen (if testbits m SE_write then f (sel_write w) else Inr (sel_write w)) (\<lambda>ws.
     andthen (if testbits m SE_error then f (sel_except w) else Inr (sel_except w)) (\<lambda>es.
       Inr (w\<lparr>sel_read := rs, sel_write := ws, sel_except := es\<rparr>))))"

definition select_mod_event :: "nat \<Rightarrow> 32 word \<Rightarrow> 32 word \<Rightarrow> select_watcher \<Rightarrow> select_watcher result" where
  "select_mod_event fd add_events remove_events w =
     andthen (if add_events \<noteq> 0
              then andthen (on_bits add_events (FD_SET fd) w) (\<lambda>w.
                     Inr (if sel_max_descriptor w < int fd + 1 then w\<lparr>sel_max_descriptor := int fd + 1\<rparr> else w))
              else Inr w)
       (\<lambda>w. if remove_events \<noteq> 0 then on_bits remove_events (FD_CLR fd) w else Inr w)"

definition select_interest :: "select_watcher \<Rightarrow> nat \<Rightarrow> socket_event set" where
  "select_interest w fd = (if fd \<in> sel_read w then {Ev_read} else {}) \<union> (if fd \<in> sel_write w then {Ev_write} else {}) \<union>
     (if fd \<in> sel_except w then {Ev_error} else {})"

text \<open>\<open>select\<close> looks at descriptors below \<open>max_descriptor_\<close>: all of those registered.\<close>

definition select_ok :: "select_watcher \<Rightarrow> bool" where
  "select_ok w \<longleftrightarrow> (\<forall>fd \<in> sel_read w \<union> sel_write w \<union> sel_except w. int fd < sel_max_descriptor w)"

lemma on_bits_set:
  assumes "fd < FD_SETSIZE"
  shows "\<exists>w'. on_bits m (FD_SET fd) w = Inr w' \<and> sel_max_descriptor w' = sel_max_descriptor w \<and>
    (\<forall>g. select_interest w' g = (if g = fd then select_interest w fd \<union> evs m else select_interest w g))"
  using assms by (simp add: on_bits_def FD_SET_def) (simp add: select_interest_def evs_def, blast)

lemma on_bits_clr:
  assumes "fd < FD_SETSIZE"
  shows "\<exists>w'. on_bits m (FD_CLR fd) w = Inr w' \<and> sel_max_descriptor w' = sel_max_descriptor w \<and>
    (\<forall>g. select_interest w' g = (if g = fd then select_interest w fd - evs m else select_interest w g))"
  using assms by (simp add: on_bits_def FD_CLR_def) (simp add: select_interest_def evs_def, blast)

lemma evs_0 [simp]: "evs 0 = {}"
  by (simp add: evs_def testbits_def)

lemma select_ok_iff: "select_ok w \<longleftrightarrow> (\<forall>g. select_interest w g \<noteq> {} \<longrightarrow> int g < sel_max_descriptor w)"
  by (auto simp: select_ok_def select_interest_def)

lemma select_mod_event_interest:
  assumes "select_ok w" "fd < FD_SETSIZE"
  shows "\<exists>w'. select_mod_event fd a r w = Inr w' \<and> select_ok w' \<and>
    (\<forall>g. select_interest w' g = (if g = fd then (select_interest w fd \<union> evs a) - evs r else select_interest w g))"
proof -
  obtain v where v: "on_bits a (FD_SET fd) w = Inr v" "sel_max_descriptor v = sel_max_descriptor w"
    "\<And>g. select_interest v g = (if g = fd then select_interest w fd \<union> evs a else select_interest w g)"
    using on_bits_set [OF assms(2), of a w] by blast
  define w1 where "w1 = (if a \<noteq> 0 then if sel_max_descriptor v < int fd + 1 then v\<lparr>sel_max_descriptor := int fd + 1\<rparr> else v else w)"
  have i1: "select_interest w1 g = (if g = fd then select_interest w fd \<union> evs a else select_interest w g)" for g
    using v(3) by (simp add: w1_def) (simp add: select_interest_def)
  have m1: "sel_max_descriptor w \<le> sel_max_descriptor w1" "a \<noteq> 0 \<Longrightarrow> int fd < sel_max_descriptor w1" by (simp_all add: w1_def v(2))
  have ok1: "select_ok w1" unfolding select_ok_iff
  proof (intro allI impI)
    fix g assume "select_interest w1 g \<noteq> {}"
    with i1 have "select_interest w g \<noteq> {} \<or> g = fd \<and> a \<noteq> 0" by (auto split: if_splits)
    with m1 assms(1) show "int g < sel_max_descriptor w1" by (auto simp: select_ok_iff intro: less_le_trans)
  qed
  obtain u where u: "on_bits r (FD_CLR fd) w1 = Inr u" "sel_max_descriptor u = sel_max_descriptor w1"
    "\<And>g. select_interest u g = (if g = fd then select_interest w1 fd - evs r else select_interest w1 g)"
    using on_bits_clr [OF assms(2), of r w1] by blast
  define w2 where "w2 = (if r \<noteq> 0 then u else w1)"
  have "select_mod_event fd a r w = Inr w2" using v(1) u(1) by (auto simp: select_mod_event_def w2_def w1_def split: if_splits)
  moreover have "select_interest w2 g = (if g = fd then (select_interest w fd \<union> evs a) - evs r else select_interest w g)" for g
    using u(3) i1 by (simp add: w2_def)
  moreover have "select_ok w2" using ok1 u(2,3) by (auto simp: select_ok_iff w2_def split: if_splits)
  ultimately show ?thesis by blast
qed

interpretation select: watcher select_mod_event select_interest select_ok "\<lambda>fd. fd < FD_SETSIZE"
  using select_mod_event_interest by unfold_locales (fastforce, metis Inr_inject)

section \<open>The back ends agree\<close>

definition empty_poll :: poll_watcher where
  "empty_poll = \<lparr>pw_events = [], pw_revents = []\<rparr>"

definition empty_select :: select_watcher where
  "empty_select = \<lparr>sel_read = {}, sel_write = {}, sel_except = {}, sel_rread = {}, sel_rwrite = {}, sel_rexcept = {}, sel_max_descriptor = 0\<rparr>"

lemma empty_interest [simp]: "poll_interest empty_poll g = {}" "epoll_interest (empty_epoll rd) g = {}" "select_interest empty_select g = {}"
  by (simp_all add: poll_interest_def empty_poll_def poll_table_def epoll_interest_def empty_epoll_def select_interest_def empty_select_def)

lemma empty_ok [simp]: "poll_ok empty_poll" "epoll_ok (empty_epoll rd)" "select_ok empty_select"
  by (simp_all add: poll_ok_def empty_poll_def poll_table_def epoll_ok_def empty_epoll_def select_ok_def empty_select_def)

text \<open>
  C21: the back ends watch the same.  For any sequence of \<open>mod_event\<close> calls on descriptors that an
  \<open>fd_set\<close> can hold, starting with nothing registered, \<open>poll\<close>, \<open>epoll\<close> (its calls accepted) and
  \<open>select\<close> end with the same registrations: for each descriptor the events added and not removed
  since, as the specification \<open>watched\<close> computes them from the calls alone.
\<close>

theorem back_ends_agree:
  assumes "\<forall>(fd, a, r) \<in> set ms. fd < FD_SETSIZE"
  shows "\<exists>p e s. run_mods poll_mod_event ms empty_poll = Inr p \<and> run_mods (epoll_mod_event True 0) ms (empty_epoll rd) = Inr e \<and>
    run_mods select_mod_event ms empty_select = Inr s \<and>
    (\<forall>g. poll_interest p g = watched ms {} g \<and> epoll_interest e g = watched ms {} g \<and> select_interest s g = watched ms {} g)"
proof -
  obtain p where "run_mods poll_mod_event ms empty_poll = Inr p" "\<forall>g. poll_interest p g = watched ms {} g"
    using poll.run_mods_interest [of empty_poll ms] by auto
  moreover obtain e where "run_mods (epoll_mod_event True 0) ms (empty_epoll rd) = Inr e" "\<forall>g. epoll_interest e g = watched ms {} g"
    using epoll.run_mods_interest [of "empty_epoll rd" ms] by auto
  moreover obtain s where "run_mods select_mod_event ms empty_select = Inr s" "\<forall>g. select_interest s g = watched ms {} g"
    using select.run_mods_interest [of empty_select ms] assms by auto
  ultimately show ?thesis by blast
qed

lemma back_ends_agree_witness:
  "\<exists>p s. run_mods poll_mod_event [(7, 3, 0), (8, 1, 0), (7, 0, 2)] empty_poll = Inr p \<and>
    run_mods select_mod_event [(7, 3, 0), (8, 1, 0), (7, 0, 2)] empty_select = Inr s \<and> poll_interest p 7 = {Ev_read} \<and> select_interest s 7 = {Ev_read}"
proof -
  let ?ms = "[(7, 3, 0), (8, 1, 0), (7, 0, 2)]"
  have "evs 3 = {Ev_read, Ev_write}" "evs 2 = {Ev_write}" by (auto simp: evs_def testbits_def event_defs)
  then have "watched ?ms {} 7 = {Ev_read}" by auto
  moreover have "\<forall>(fd, a, r) \<in> set ?ms. fd < FD_SETSIZE" by (simp add: FD_SETSIZE_def)
  ultimately show ?thesis using back_ends_agree [of ?ms 0] by metis
qed

section \<open>Polling\<close>

text \<open>
  What the system reports of a poll: an error number, or the ready descriptors with their event
  bits.  \<open>poll\<close> writes \<open>revents\<close> of every entry it is given; \<open>epoll_wait\<close> writes the first entries
  of an array of zeros; \<open>select\<close> leaves the descriptors that are ready.
\<close>

type_synonym report = "(nat \<times> 32 word) list + int"

definition reported :: "(nat \<times> 32 word) list \<Rightarrow> nat \<Rightarrow> 32 word" where
  "reported rs fd = (case map_of rs fd of Some e \<Rightarrow> e | None \<Rightarrow> 0)"

text \<open>\<open>is_ready\<close> of \<open>poll\<close>: any of these bits.\<close>

definition poll_ready_bits :: "32 word \<Rightarrow> 32 word" where
  "poll_ready_bits events =
     (if testbits events SE_read then POLLIN else 0) OR (if testbits events SE_write then POLLOUT else 0) OR
     (if testbits events SE_error then POLLERR OR POLLHUP OR POLLNVAL else 0)"

definition poll_is_ready :: "nat \<Rightarrow> 32 word \<Rightarrow> poll_watcher \<Rightarrow> 32 word" where
  "poll_is_ready fd events w =
     (case find_index (\<lambda>p. pfd_fd p = fd) (pw_revents w) of
        Some i \<Rightarrow> ucast (pfd_revents (pw_revents w ! i)) AND poll_ready_bits events
      | None \<Rightarrow> 0)"

text \<open>The interrupter's descriptor \<open>rd\<close> does not count as an event.\<close>

definition poll_poll_io :: "nat \<Rightarrow> report \<Rightarrow> poll_watcher \<Rightarrow> int \<times> poll_watcher" where
  "poll_poll_io rd rep w =
     (case rep of
        Inr _ \<Rightarrow> (-1, w\<lparr>pw_revents := pw_events w\<rparr>)
      | Inl rs \<Rightarrow>
          let w = w\<lparr>pw_revents := map (\<lambda>p. p\<lparr>pfd_revents := ucast (reported rs (pfd_fd p))\<rparr>) (pw_events w)\<rparr>;
              n = int (length rs)
          in (if n > 0 \<and> poll_is_ready rd SE_read w \<noteq> 0 then n - 1 else n, w))"

definition epoll_ready_bits :: "32 word \<Rightarrow> 32 word" where
  "epoll_ready_bits events =
     (if testbits events SE_read then POLLIN else 0) OR (if testbits events SE_write then POLLOUT else 0) OR
     (if testbits events SE_error then POLLERR OR POLLHUP OR POLLPRI else 0)"

text \<open>
  \<open>is_ready\<close> of \<open>epoll\<close> searches the first \<open>nrevents_\<close> entries and takes the position where the
  search ends for a hit unless it is the end of the array.  A search that ends before it begins is
  undefined.
\<close>

definition epoll_is_ready :: "nat \<Rightarrow> 32 word \<Rightarrow> epoll_watcher \<Rightarrow> 32 word result" where
  "epoll_is_ready fd events w =
     (if ep_nrevents w < 0 \<or> ep_nrevents w > int (length (ep_revents w)) then Inl Undefined
      else let n = nat (ep_nrevents w);
               it = (case find_index (\<lambda>e. fst e = fd) (take n (ep_revents w)) of Some i \<Rightarrow> i | None \<Rightarrow> n)
           in if it \<noteq> length (ep_revents w) then Inr (snd (ep_revents w ! it) AND epoll_ready_bits events) else Inr 0)"

definition epoll_poll_io :: "report \<Rightarrow> epoll_watcher \<Rightarrow> (int \<times> epoll_watcher) result" where
  "epoll_poll_io rep w =
     (let zeros = replicate (ep_max_events w) (0, 0)
      in case rep of
           Inr _ \<Rightarrow> Inr (-1, w\<lparr>ep_revents := zeros, ep_nrevents := -1\<rparr>)
         | Inl rs \<Rightarrow>
             if length rs > ep_max_events w then Inl Undefined
             else let w = w\<lparr>ep_revents := splice 0 rs zeros, ep_nrevents := int (length rs)\<rparr>;
                      n = int (length rs)
                  in andthen (epoll_is_ready (ep_read_descriptor w) SE_read w) (\<lambda>r.
                       Inr (if n > 0 \<and> r \<noteq> 0 then n - 1 else n, w)))"

definition select_poll_io :: "nat set \<Rightarrow> nat set \<Rightarrow> select_watcher \<Rightarrow> select_watcher" where
  "select_poll_io rs ws w = w\<lparr>sel_rread := sel_read w \<inter> rs, sel_rwrite := sel_write w \<inter> ws, sel_rexcept := sel_except w\<rparr>"

definition select_is_ready :: "nat \<Rightarrow> 32 word \<Rightarrow> select_watcher \<Rightarrow> bool" where
  "select_is_ready fd events w \<longleftrightarrow>
     testbits events SE_read \<and> fd \<in> sel_rread w \<or> testbits events SE_write \<and> fd \<in> sel_rwrite w \<or>
     testbits events SE_error \<and> fd \<in> sel_rexcept w"

lemma find_index_map_of:
  "map_of xs fd = (case find_index (\<lambda>e. fst e = fd) xs of Some i \<Rightarrow> Some (snd (xs ! i)) | None \<Rightarrow> None)"
  by (induction xs) (auto split: option.splits simp del: find_index_None)

lemma epoll_ready_reported:
  assumes "ep_revents w = splice 0 rs (replicate m (0, 0))" "ep_nrevents w = int (length rs)" "length rs \<le> m"
  shows "epoll_is_ready fd events w = Inr (reported rs fd AND epoll_ready_bits events)"
proof -
  have l: "length (ep_revents w) = m" "take (length rs) (ep_revents w) = rs" using assms by (simp_all add: splice_def)
  have nth: "ep_revents w ! i = (if i < length rs then rs ! i else (0, 0))" if "i < m" for i
    using that assms(1,3) by (simp add: splice_def nth_append)
  show ?thesis
  proof (cases "find_index (\<lambda>e. fst e = fd) rs")
    case None
    then have "map_of rs fd = None" by (simp add: find_index_map_of del: find_index_None)
    then have "reported rs fd = 0" by (simp add: reported_def)
    with None l nth [of "length rs"] assms show ?thesis by (simp add: epoll_is_ready_def Let_def del: find_index_None)
  next
    case (Some i)
    then have "map_of rs fd = Some (snd (rs ! i))" "i < length rs" using find_index_Some [OF Some] by (simp_all add: find_index_map_of)
    with Some l nth [of i] assms show ?thesis by (simp add: epoll_is_ready_def Let_def reported_def)
  qed
qed

lemma poll_ready_reported:
  assumes "pw_revents w = map (\<lambda>p. p\<lparr>pfd_revents := ucast (reported rs (pfd_fd p))\<rparr>) ps" 
  shows "poll_is_ready fd events w = (if fd \<in> pfd_fd ` set ps then ucast (ucast (reported rs fd) :: 16 word) AND poll_ready_bits events else 0)"
proof (cases "find_index (\<lambda>p. pfd_fd p = fd) (pw_revents w)")
  case None
  then have "fd \<notin> pfd_fd ` set ps" using assms by auto
  with None show ?thesis by (simp add: poll_is_ready_def del: find_index_None)
next
  case (Some i)
  with find_index_Some [OF Some] assms have "i < length ps" "pfd_fd (ps ! i) = fd" by auto
  with Some assms show ?thesis by (auto simp: poll_is_ready_def)
qed

text \<open>
  After a poll that succeeds, \<open>is_ready\<close> says what the system reported.  For \<open>epoll\<close> the
  result is the reported bits of the descriptor under the mask asked for, 0 when it was not
  reported, although a search without a hit goes on to look at the entry behind the last event: it
  is zero.  For \<open>poll\<close> it is the same for every registered descriptor and 0 for the others; for
  \<open>select\<close> it says whether the descriptor was registered and left in the set.
\<close>

theorem ready_as_reported:
  assumes "length rs \<le> ep_max_events w" "epoll_poll_io (Inl rs) w = Inr (n, w')" and r16: "\<forall>e \<in> snd ` set rs. take_bit 16 e = e"
  shows "epoll_is_ready fd events w' = Inr (reported rs fd AND epoll_ready_bits events) \<and>
    poll_is_ready fd events (snd (poll_poll_io rd (Inl rs) v)) =
      (if poll_table (pw_events v) fd \<noteq> None then reported rs fd AND poll_ready_bits events else 0) \<and>
    select_is_ready fd SE_read (select_poll_io reads writes u) = (Ev_read \<in> select_interest u fd \<and> fd \<in> reads)"
proof -
  have e: "epoll_is_ready fd events w' = Inr (reported rs fd AND epoll_ready_bits events)"
    using assms(1,2) by (intro epoll_ready_reported [where m = "ep_max_events w"]) (auto simp: epoll_poll_io_def Let_def andthen_Inr_iff)
  have t: "take_bit 16 (reported rs fd) = reported rs fd" using r16 by (force simp: reported_def dest!: map_of_SomeD split: option.splits)
  have u: "ucast (ucast (reported rs fd) :: 16 word) = reported rs fd"
  proof (rule bit_word_eqI)
    fix k
    have "bit (reported rs fd) k = (k < 16 \<and> bit (reported rs fd) k)" by (subst t [symmetric], simp add: bit_take_bit_iff)
    then show "bit (ucast (ucast (reported rs fd) :: 16 word) :: 32 word) k = bit (reported rs fd) k" if "k < LENGTH(32)"
      using that by (auto simp: bit_ucast_iff)
  qed
  have p: "pw_revents (snd (poll_poll_io rd (Inl rs) v)) = map (\<lambda>p. p\<lparr>pfd_revents := ucast (reported rs (pfd_fd p))\<rparr>) (pw_events v)"
    by (simp add: poll_poll_io_def Let_def)
  have "poll_is_ready fd events (snd (poll_poll_io rd (Inl rs) v)) =
      (if poll_table (pw_events v) fd \<noteq> None then reported rs fd AND poll_ready_bits events else 0)"
    unfolding poll_ready_reported [OF p] u by (simp add: poll_table_None)
  moreover have "select_is_ready fd SE_read (select_poll_io reads writes u) = (Ev_read \<in> select_interest u fd \<and> fd \<in> reads)" for u
    by (auto simp: select_is_ready_def select_poll_io_def select_interest_def testbits_def event_defs)
  ultimately show ?thesis using e by blast
qed

text \<open>
  A poll that fails leaves \<open>epoll\<close> in a state in which \<open>is_ready\<close> is undefined: the number of
  events is -1 and the range searched ends before it begins.  The loop goes on after such a poll,
  and when a timer is due by then its next pass does not poll but asks at once.
\<close>

theorem failed_epoll_is_undefined:
  assumes "epoll_poll_io (Inr ec) w = Inr (n, w')" and due: "ts_queue s \<noteq> []"
    "tm_expire (ts_timers s (fst (last (ts_queue s)))) \<le> sy_clock sy (ts_reads s)"
  shows "epoll_is_ready fd events w' = Inl Undefined \<and> n = -1 \<and> fst (begin_frame sy s) \<le> 0"
proof -
  have "fst (begin_frame sy s) \<le> 0"
  proof -
    let ?d = "sy_clock sy (ts_reads s) - tm_expire (ts_timers s (fst (last (ts_queue s))))"
    have "0 \<le> ?d div 1000" using due by (simp add: pos_imp_zdiv_nonneg_iff)
    with due show ?thesis by (auto simp: begin_frame_def get_timeout_def Let_def wait_duration_def to_usec_def)
  qed
  with assms(1) show ?thesis by (auto simp: epoll_poll_io_def epoll_is_ready_def Let_def)
qed

definition demo_epoll :: epoll_watcher where
  "demo_epoll = (empty_epoll 3)\<lparr>ep_events := [(3, 1), (7, 5)], ep_max_events := 2\<rparr>"



lemma ready_as_reported_witness:
  "\<exists>n w'. epoll_poll_io (Inl [(7, 4)]) demo_epoll = Inr (n, w') \<and> epoll_is_ready 7 2 w' = Inr 4 \<and> epoll_is_ready 9 2 w' = Inr 0"
proof -
  obtain n w' where w': "epoll_poll_io (Inl [(7, 4)]) demo_epoll = Inr (n, w')"
    by (simp add: epoll_poll_io_def Let_def demo_epoll_def empty_epoll_def splice_def epoll_is_ready_def)
  have b: "(4 :: 32 word) AND epoll_ready_bits 2 = 4" by (simp add: epoll_ready_bits_def testbits_def event_defs)
  have t: "take_bit 16 (4 :: 32 word) = 4" by (simp add: take_bit_eq_mask mask_eq_exp_minus_1)
  have l: "length [(7 :: nat, 4 :: 32 word)] \<le> ep_max_events demo_epoll" by (simp add: demo_epoll_def)
  have "epoll_is_ready 7 2 w' = Inr 4" "epoll_is_ready 9 2 w' = Inr 0"
    using ready_as_reported [OF l w', of 7 2] ready_as_reported [OF l w', of 9 2] t b by (simp_all add: reported_def)
  with w' show ?thesis by blast
qed

lemma failed_epoll_is_undefined_witness:
  "\<exists>n w'. epoll_poll_io (Inr EINTR) demo_epoll = Inr (n, w') \<and> epoll_is_ready 7 1 w' = Inl Undefined \<and>
    fst (begin_frame demo_sys demo_connecting) \<le> 0"
proof -
  obtain n w' where w': "epoll_poll_io (Inr EINTR) demo_epoll = Inr (n, w')" by (simp add: epoll_poll_io_def)
  have "tm_expire (ts_timers demo_connecting 0) \<le> sy_clock demo_sys (ts_reads demo_connecting)"
    by (simp add: demo_connecting_def new_service_def set_ctx_def demo_sys_def)
  with w' failed_epoll_is_undefined [OF w', of demo_connecting demo_sys 7 1] show ?thesis
    by (simp add: demo_connecting_simps)
qed

section \<open>Interrupters\<close>

text \<open>
  The descriptors that wake a poll up: a pipe (or a socket pair, read in the same way), or an
  eventfd, which is its own writing end.  The system's part of a read is what \<open>pipe(7)\<close> and
  \<open>eventfd(2)\<close> document for descriptors that do not block: a call may be interrupted
  (\<open>interrupted k\<close> for the k-th call); otherwise a pipe yields at most as many bytes as asked for
  and an eventfd its counter, which is reset, and both report \<open>EAGAIN\<close> when there is nothing.
\<close>

datatype read_answer = Read_bytes nat | Read_error int

definition pipe_read :: "bool \<Rightarrow> nat \<Rightarrow> nat \<Rightarrow> read_answer \<times> nat" where
  "pipe_read interrupted len content =
     (if interrupted then (Read_error EINTR, content)
      else if content = 0 then (Read_error EAGAIN, content)
      else (Read_bytes (min len content), content - min len content))"

definition eventfd_read :: "bool \<Rightarrow> nat \<Rightarrow> read_answer \<times> nat" where
  "eventfd_read interrupted counter =
     (if interrupted then (Read_error EINTR, counter)
      else if counter = 0 then (Read_error EAGAIN, counter) else (Read_bytes 8, 0))"

text \<open>\<open>pipe_select_interrupter::reset\<close>: the result and what is left in the pipe.  \<open>k\<close> counts the calls.\<close>

partial_function (option) pipe_reset :: "(nat \<Rightarrow> bool) \<Rightarrow> nat \<Rightarrow> nat \<Rightarrow> (bool \<times> nat) option" where
  "pipe_reset interrupted k content =
     (let (answer, content) = pipe_read (interrupted k) 1024 content
      in case answer of
           Read_bytes n \<Rightarrow>
             if n = 1024 then pipe_reset interrupted (Suc k) content
             else if n > 0 then Some (True, content) else Some (False, content)
         | Read_error ec \<Rightarrow>
             if ec = EINTR then pipe_reset interrupted (Suc k) content
             else Some (ec = EWOULDBLOCK \<or> ec = EAGAIN, content))"

text \<open>\<open>eventfd_select_interrupter::reset\<close>, for an eventfd: only an interrupted read is repeated.\<close>

partial_function (option) eventfd_reset :: "(nat \<Rightarrow> bool) \<Rightarrow> nat \<Rightarrow> nat \<Rightarrow> (bool \<times> nat) option" where
  "eventfd_reset interrupted k counter =
     (let (answer, counter) = eventfd_read (interrupted k) counter
      in case answer of
           Read_bytes n \<Rightarrow> Some (True, counter)
         | Read_error ec \<Rightarrow> if ec = EINTR then eventfd_reset interrupted (Suc k) counter else Some (True, counter))"

definition pipe_interrupt :: "nat \<Rightarrow> nat" where
  "pipe_interrupt content = Suc content"

definition eventfd_interrupt :: "nat \<Rightarrow> nat" where
  "eventfd_interrupt counter = Suc counter"

lemma reset_interrupted:
  "interrupted k \<Longrightarrow> pipe_reset interrupted k c = pipe_reset interrupted (Suc k) c"
  "interrupted k \<Longrightarrow> eventfd_reset interrupted k c = eventfd_reset interrupted (Suc k) c"
  by (simp_all add: pipe_reset.simps [of interrupted k] eventfd_reset.simps [of interrupted k] pipe_read_def eventfd_read_def)

lemma skip_interrupts:
  "j \<le> l \<Longrightarrow> \<forall>i. j \<le> i \<and> i < l \<longrightarrow> interrupted i \<Longrightarrow>
    pipe_reset interrupted j c = pipe_reset interrupted l c \<and> eventfd_reset interrupted j c = eventfd_reset interrupted l c"
proof (induction rule: inc_induct)
  case (step n)
  then show ?case using reset_interrupted [of interrupted n c] by simp
qed simp

lemma next_uninterrupted:
  fixes interrupted :: "nat \<Rightarrow> bool"
  assumes "\<forall>k. \<exists>j \<ge> k. \<not> interrupted j"
  obtains l where "k \<le> l" "\<not> interrupted l" "\<forall>i. k \<le> i \<and> i < l \<longrightarrow> interrupted i"
proof -
  let ?P = "\<lambda>j. k \<le> j \<and> \<not> interrupted j"
  from assms obtain j where "?P j" by blast
  then have "?P (Least ?P)" by (rule LeastI [of ?P])
  moreover have "\<forall>i. k \<le> i \<and> i < Least ?P \<longrightarrow> interrupted i" using not_less_Least by blast
  ultimately show thesis using that by blast
qed

lemma pipe_reset_drains:
  assumes "\<forall>k. \<exists>j \<ge> k. \<not> interrupted j"
  shows "pipe_reset interrupted k content = Some (True, 0)"
proof (induction content arbitrary: k rule: less_induct)
  case (less content)
  obtain l where l: "k \<le> l" "\<not> interrupted l" "\<forall>i. k \<le> i \<and> i < l \<longrightarrow> interrupted i" using next_uninterrupted [OF assms] by blast
  have "pipe_reset interrupted k content = pipe_reset interrupted l content" using skip_interrupts [OF l(1,3)] by simp
  also have "\<dots> = Some (True, 0)"
  proof (cases "1024 \<le> content")
    case True
    then have "pipe_reset interrupted l content = pipe_reset interrupted (Suc l) (content - 1024)"
      using l(2) by (simp add: pipe_reset.simps [of interrupted l] pipe_read_def min_def)
    with True less.IH [of "content - 1024" "Suc l"] show ?thesis by simp
  next
    case False
    then show ?thesis using l(2) by (auto simp: pipe_reset.simps [of interrupted l] pipe_read_def min_def errno_defs)
  qed
  finally show ?case .
qed

text \<open>
  \<open>reset\<close> of an interrupter returns, and leaves nothing behind.  However often the reads are
  interrupted, as long as they are not interrupted for ever, the loop of the pipe interrupter ends
  after every wakeup has been read, also when the bytes fill its buffer an exact number of times,
  and the loop of the eventfd interrupter ends with the counter at zero; both report success.
  So the next wakeup makes the descriptor readable again.
\<close>

theorem interrupter_reset_terminates:
  assumes "\<forall>k. \<exists>j \<ge> k. \<not> interrupted j"
  shows "pipe_reset interrupted k content = Some (True, 0) \<and> eventfd_reset interrupted k counter = Some (True, 0)"
proof -
  obtain l where l: "k \<le> l" "\<not> interrupted l" "\<forall>i. k \<le> i \<and> i < l \<longrightarrow> interrupted i" using next_uninterrupted [OF assms] by blast
  have "eventfd_reset interrupted k counter = eventfd_reset interrupted l counter" using skip_interrupts [OF l(1,3)] by simp
  also have "\<dots> = Some (True, 0)" using l(2) by (simp add: eventfd_reset.simps [of interrupted l] eventfd_read_def errno_defs)
  finally show ?thesis using pipe_reset_drains [OF assms] by simp
qed

lemma interrupter_reset_terminates_witness:
  "pipe_reset (\<lambda>k. k < 3) 0 2048 = Some (True, 0) \<and> eventfd_reset (\<lambda>k. k < 3) 0 5 = Some (True, 0)"
proof -
  have "\<exists>j \<ge> k. \<not> j < (3 :: nat)" for k by (rule exI [of _ "k + 3"]) simp
  then show ?thesis using interrupter_reset_terminates [of "\<lambda>k. k < 3" 0 2048 5] by blast
qed

section \<open>\<open>kqueue\<close> and event ports\<close>

text \<open>
  \<open>kqueue\<close> keeps the events of a descriptor in \<open>events_\<close>, whose \<open>operator[]\<close> makes an entry of 0
  for one that is absent, and counts the filters in \<open>max_events_\<close>.
\<close>

record kqueue_watcher =
  kq_events :: "(nat \<times> 32 word) list"
  kq_max_events :: int

definition kq_lookup :: "nat \<Rightarrow> kqueue_watcher \<Rightarrow> 32 word \<times> kqueue_watcher" where
  "kq_lookup fd w =
     (case map_of (kq_events w) fd of Some e \<Rightarrow> (e, w) | None \<Rightarrow> (0, w\<lparr>kq_events := AList.update fd 0 (kq_events w)\<rparr>))"

text \<open>The count the code takes a set of events to have.\<close>

definition kq_count :: "32 word \<Rightarrow> int" where
  "kq_count e = (if 0 < sint e then sint (drop_bit 1 e) + 1 else 0)"

text \<open>The filters of the list handed to \<open>kevent\<close>; \<open>EVFILT_EXCEPT\<close> is available or not.\<close>

definition kq_filters :: "bool \<Rightarrow> 32 word \<Rightarrow> int" where
  "kq_filters except events =
     (if testbits events SE_read then 1 else 0) + (if testbits events SE_write then 1 else 0) +
     (if except \<and> testbits events SE_error then 1 else 0)"

definition register_event :: "bool \<Rightarrow> bool \<Rightarrow> nat \<Rightarrow> 32 word \<Rightarrow> kqueue_watcher \<Rightarrow> kqueue_watcher" where
  "register_event except accepted fd events w =
     (let (prev_events, w) = kq_lookup fd w; nkv_old = kq_count prev_events; nkvlist = kq_filters except events
      in if nkvlist > 0 \<and> accepted
         then w\<lparr>kq_events := AList.update fd events (kq_events w), kq_max_events := kq_max_events w + (nkvlist - nkv_old)\<rparr>
         else w)"

definition deregister_event :: "bool \<Rightarrow> bool \<Rightarrow> nat \<Rightarrow> 32 word \<Rightarrow> kqueue_watcher \<Rightarrow> kqueue_watcher" where
  "deregister_event except accepted fd events w =
     (let (curr_events, w) = kq_lookup fd w; curr_count = kq_count curr_events; nkvlist = kq_filters except events;
          curr_events = (if testbits events SE_read then curr_events AND NOT SE_read else curr_events);
          curr_events = (if testbits events SE_write then curr_events AND NOT SE_write else curr_events);
          curr_events = (if except \<and> testbits events SE_error then curr_events AND NOT SE_error else curr_events)
      in if nkvlist > 0 \<and> accepted
         then w\<lparr>kq_events := (if curr_events \<noteq> 0 then AList.update fd curr_events (kq_events w) else AList.delete fd (kq_events w)),
                kq_max_events := kq_max_events w + (nkvlist - curr_count)\<rparr>
         else w)"

definition kqueue_mod_event :: "bool \<Rightarrow> bool \<Rightarrow> nat \<Rightarrow> 32 word \<Rightarrow> 32 word \<Rightarrow> kqueue_watcher \<Rightarrow> kqueue_watcher" where
  "kqueue_mod_event except accepted fd add_events remove_events w =
     (let w = (if add_events \<noteq> 0 then register_event except accepted fd add_events w else w)
      in if remove_events \<noteq> 0 then deregister_event except accepted fd remove_events w else w)"

text \<open>
  \<open>kqueue\<close> forgets what it watches.  When a connection that is read from also waits to write,
  the entry of its descriptor is overwritten, not extended: once the write event is removed again
  there is no entry left and the count of events is one less than before, although the read filter
  was never removed.
\<close>

theorem kqueue_write_wait_drops_read:
  assumes "map_of (kq_events w) fd = None"
  shows "let w1 = kqueue_mod_event x True fd SE_read 0 w; w2 = kqueue_mod_event x True fd SE_write 0 w1;
      w3 = kqueue_mod_event x True fd 0 SE_write w2
    in map_of (kq_events w1) fd = Some SE_read \<and> map_of (kq_events w2) fd = Some SE_write \<and> map_of (kq_events w3) fd = None \<and>
       kq_max_events w1 = kq_max_events w + 1 \<and> kq_max_events w3 = kq_max_events w"
proof -
  have z: "testbits SE_read SE_write = False" "testbits SE_read SE_read" "testbits SE_write SE_write" "testbits SE_write SE_read = False"
    "testbits SE_read SE_error = False" "testbits SE_write SE_error = False" "SE_read \<noteq> 0" "SE_write \<noteq> 0"
    by (simp_all add: testbits_def event_defs)
  have c: "kq_count 0 = 0" "kq_count SE_read = 1" "kq_count SE_write = 2" by (simp_all add: kq_count_def event_defs)
  show ?thesis using assms
    by (simp add: kqueue_mod_event_def register_event_def deregister_event_def kq_lookup_def kq_filters_def z c update_conv' delete_conv' Let_def)
qed

lemma kqueue_write_wait_drops_read_witness:
  "map_of (kq_events (kqueue_mod_event True True 7 SE_read 0 \<lparr>kq_events = [], kq_max_events = 1\<rparr>)) 7 = Some SE_read"
  using kqueue_write_wait_drops_read [of "\<lparr>kq_events = [], kq_max_events = 1\<rparr>" 7 True] by (simp add: Let_def)

text \<open>Event ports keep their table as \<open>epoll\<close> does; \<open>accepted\<close> is the answer of \<open>port_associate\<close>.\<close>

record evport_watcher =
  ev_events :: "(nat \<times> 32 word) list"
  ev_max_events :: nat

definition evport_mod_event :: "bool \<Rightarrow> nat \<Rightarrow> 32 word \<Rightarrow> 32 word \<Rightarrow> evport_watcher \<Rightarrow> evport_watcher result" where
  "evport_mod_event accepted fd a r w =
     (let it = map_of (ev_events w) fd;
          u = (case it of Some u \<Rightarrow> u | None \<Rightarrow> 0);
          u = (u OR to_underlying_events a) AND NOT (to_underlying_events r);
          es = (if u \<noteq> 0 then if accepted then AList.update fd u (ev_events w) else ev_events w
                else if it \<noteq> None then AList.delete fd (ev_events w) else ev_events w)
      in Inr (w\<lparr>ev_events := es, ev_max_events := min (length es) 128\<rparr>))"

definition as_epoll :: "evport_watcher \<Rightarrow> epoll_watcher" where
  "as_epoll w = (empty_epoll 0)\<lparr>ep_events := ev_events w, ep_max_events := ev_max_events w\<rparr>"

lemma evport_as_epoll:
  "\<exists>w'. evport_mod_event acc fd a r w = Inr w' \<and>
     (\<exists>cs. epoll_mod_event acc 0 fd a r (as_epoll w) = Inr ((as_epoll w')\<lparr>ep_calls := cs\<rparr>))"
  by (auto simp: evport_mod_event_def epoll_mod_event_def as_epoll_def empty_epoll_def Let_def)

definition evport_interest :: "evport_watcher \<Rightarrow> nat \<Rightarrow> socket_event set" where
  "evport_interest w = epoll_interest (as_epoll w)"

definition evport_ok :: "evport_watcher \<Rightarrow> bool" where
  "evport_ok w = epoll_ok (as_epoll w)"

lemma evport_mod_event_interest:
  assumes "evport_ok w"
  shows "\<exists>w'. evport_mod_event True fd a r w = Inr w' \<and> evport_ok w' \<and>
    (\<forall>g. evport_interest w' g = (if g = fd then (evport_interest w fd \<union> evs a) - evs r else evport_interest w g))"
proof -
  from evport_as_epoll [of True fd a r w] obtain w' cs where
    "evport_mod_event True fd a r w = Inr w'" "epoll_mod_event True 0 fd a r (as_epoll w) = Inr ((as_epoll w')\<lparr>ep_calls := cs\<rparr>)" by blast
  with epoll_mod_event_interest [of "as_epoll w" 0 fd a r] assms show ?thesis
    by (auto simp: evport_interest_def evport_ok_def epoll_interest_def epoll_ok_def as_epoll_def)
qed

interpretation evport: watcher "evport_mod_event True" evport_interest evport_ok "\<lambda>_. True"
  using evport_mod_event_interest by unfold_locales (fastforce, metis Inr_inject)

end
