(* ===== verification/SetOption.thy ===== *)
theory SetOption
  imports ServiceProtocol
begin

text \<open>
  Options (\<open>set_option_internal\<close> in \<open>yasio/io_service.cpp\<close>) and the multicast settings of a channel.
  Callbacks are known by number; the options of TLS, KCP, c-ares and Windows, compiled in on
  request, are left out.  The settings that no other modelled operation reads are kept beside the
  service in \<open>settings\<close>.
\<close>

section \<open>The options\<close>

datatype io_option =
    YOPT_S_NO_DISPATCH int
  | YOPT_S_TCP_KEEPALIVE int int int
  | YOPT_S_RESOLV_FN nat
  | YOPT_S_PRINT_FN "nat option"
  | YOPT_S_PRINT_FN2 "nat option"
  | YOPT_S_NO_NEW_THREAD int
  | YOPT_S_CONNECT_TIMEOUT int
  | YOPT_S_CONNECT_TIMEOUTMS int
  | YOPT_S_DNS_CACHE_TIMEOUT int
  | YOPT_S_DNS_CACHE_TIMEOUTMS int
  | YOPT_S_DNS_QUERIES_TIMEOUT int
  | YOPT_S_DNS_QUERIES_TIMEOUTMS int
  | YOPT_S_DNS_QUERIES_TRIES int
  | YOPT_S_DNS_DIRTY
  | YOPT_S_EVENT_CB "nat option"
  | YOPT_S_DEFER_EVENT_CB "nat option"
  | YOPT_S_FORWARD_PACKET int
  | YOPT_C_UNPACK_PARAMS int int int int int
  | YOPT_C_UNPACK_STRIP int int
  | YOPT_C_UNPACK_NO_BSWAP int int
  | YOPT_C_UNPACK_FN int "byte list \<Rightarrow> int result"
  | YOPT_C_LOCAL_HOST int string
  | YOPT_C_LOCAL_PORT int int
  | YOPT_C_LOCAL_ENDPOINT int string int
  | YOPT_C_REMOTE_HOST int string
  | YOPT_C_REMOTE_PORT int int
  | YOPT_C_REMOTE_ENDPOINT int string int
  | YOPT_C_MCAST_IF int "string option"
  | YOPT_C_ENABLE_MCAST int "string option" int
  | YOPT_C_DISABLE_MCAST int
  | YOPT_C_MOD_FLAGS int int int
  | YOPT_T_CONNECT "nat option"
  | YOPT_T_DISCONNECT "nat option"
  | YOPT_B_SOCKOPT "nat option" int int "byte list"

text \<open>\<open>st_sockopts\<close> records the calls of \<open>set_optval\<close>: descriptor, level, name and the value's bytes.\<close>

record settings =
  st_keepalive :: "int \<times> int \<times> int \<times> int"
  st_no_new_thread :: bool
  st_dns_queries_timeout :: int
  st_dns_queries_tries :: int
  st_resolv :: "nat option"
  st_print :: "nat option"
  st_event_cb :: "nat option"
  st_defer_event_cb :: "nat option"
  st_multiif :: "nat \<Rightarrow> endpoint"
  st_multiaddr :: "nat \<Rightarrow> endpoint"
  st_sockopts :: "(nat \<times> int \<times> int \<times> byte list) list"

text \<open>The levels and names of the multicast options on Linux.\<close>

definition IPPROTO_IP :: int where "IPPROTO_IP = 0"
definition IPPROTO_IPV6 :: int where "IPPROTO_IPV6 = 41"
definition IP_MULTICAST_IF :: int where "IP_MULTICAST_IF = 32"
definition IP_MULTICAST_TTL :: int where "IP_MULTICAST_TTL = 33"
definition IP_MULTICAST_LOOP :: int where "IP_MULTICAST_LOOP = 34"
definition IP_ADD_MEMBERSHIP :: int where "IP_ADD_MEMBERSHIP = 35"
definition IP_DROP_MEMBERSHIP :: int where "IP_DROP_MEMBERSHIP = 36"
definition IPV6_MULTICAST_HOPS :: int where "IPV6_MULTICAST_HOPS = 18"
definition IPV6_MULTICAST_LOOP :: int where "IPV6_MULTICAST_LOOP = 19"
definition IPV6_JOIN_GROUP :: int where "IPV6_JOIN_GROUP = 20"
definition IPV6_LEAVE_GROUP :: int where "IPV6_LEAVE_GROUP = 21"
definition YASIO_DEFAULT_MULTICAST_TTL :: int where "YASIO_DEFAULT_MULTICAST_TTL = 128"

definition int_bytes :: "int \<Rightarrow> byte list" where
  "int_bytes v = le_bytes 4 (of_int v :: 32 word)"

definition set_optval :: "nat \<Rightarrow> int \<Rightarrow> int \<Rightarrow> byte list \<Rightarrow> settings \<Rightarrow> settings" where
  "set_optval fd level name v st = st\<lparr>st_sockopts := st_sockopts st @ [(fd, level, name, v)]\<rparr>"

text \<open>The parts of the socket address: \<open>sin_addr\<close>, \<open>sin6_addr\<close>, \<open>sin6_scope_id\<close>.\<close>

definition sin_addr :: "endpoint \<Rightarrow> byte list" where "sin_addr e = ep_get 4 4 e"
definition sin6_addr :: "endpoint \<Rightarrow> byte list" where "sin6_addr e = ep_get 8 16 e"
definition sin6_scope_id :: "endpoint \<Rightarrow> byte list" where "sin6_scope_id e = ep_get 24 4 e"

definition configure_multicast_group :: "nat \<Rightarrow> endpoint \<Rightarrow> endpoint \<Rightarrow> bool \<Rightarrow> settings \<Rightarrow> settings" where
  "configure_multicast_group fd multiif multiaddr onoff st =
     (if ep_af multiaddr = AF_INET
      then set_optval fd IPPROTO_IP (if onoff then IP_ADD_MEMBERSHIP else IP_DROP_MEMBERSHIP) (sin_addr multiaddr @ sin_addr multiif) st
      else set_optval fd IPPROTO_IPV6 (if onoff then IPV6_JOIN_GROUP else IPV6_LEAVE_GROUP) (sin6_addr multiaddr @ sin6_scope_id multiif) st)"

definition join_multicast_group :: "io_channel \<Rightarrow> endpoint \<Rightarrow> endpoint \<Rightarrow> settings \<Rightarrow> settings" where
  "join_multicast_group ctx multiif multiaddr st =
     (case io_socket ctx of
        None \<Rightarrow> st
      | Some fd \<Rightarrow>
          let st = (if ep_af multiif = AF_INET then set_optval fd IPPROTO_IP IP_MULTICAST_IF (sin_addr multiif) st
                    else if ep_af multiif = AF_INET6 then set_optval fd IPPROTO_IPV6 IP_MULTICAST_IF (sin6_scope_id multiif) st
                    else st);
              loopback = (if ch_is YCPF_MCAST_LOOPBACK ctx then 1 else 0);
              v4 = (ep_af multiaddr = AF_INET);
              st = set_optval fd (if v4 then IPPROTO_IP else IPPROTO_IPV6) (if v4 then IP_MULTICAST_LOOP else IPV6_MULTICAST_LOOP) (int_bytes loopback) st;
              st = set_optval fd (if v4 then IPPROTO_IP else IPPROTO_IPV6) (if v4 then IP_MULTICAST_TTL else IPV6_MULTICAST_HOPS)
                     (int_bytes YASIO_DEFAULT_MULTICAST_TTL) st
          in configure_multicast_group fd multiif multiaddr True st)"

definition enable_multicast :: "net_env \<Rightarrow> nat \<Rightarrow> string option \<Rightarrow> int \<Rightarrow> io_channel \<times> settings \<Rightarrow> io_channel \<times> settings" where
  "enable_multicast env i addr loopback = (\<lambda>(ctx, st).
     let ctx = set_props YCPF_MCAST ctx;
         ctx = (if loopback \<noteq> 0 then set_props YCPF_MCAST_LOOPBACK ctx else ctx);
         st = (case addr of Some a \<Rightarrow> st\<lparr>st_multiaddr := (st_multiaddr st)(i := as_in env a 0 (st_multiaddr st i))\<rparr> | None \<Rightarrow> st)
     in (ctx, st))"

definition disable_multicast :: "nat \<Rightarrow> io_channel \<times> settings \<Rightarrow> io_channel \<times> settings" where
  "disable_multicast i = (\<lambda>(ctx, st).
     let ctx = clear_props YCPF_MCAST_LOOPBACK (clear_props YCPF_MCAST ctx)
     in case io_socket ctx of
          Some fd \<Rightarrow> (ctx, configure_multicast_group fd (st_multiif st i) (st_multiaddr st i) False st)
        | None \<Rightarrow> (ctx, st))"

text \<open>An option of a channel: its index, and what it does to the channel.\<close>

definition on_channel :: "int \<Rightarrow> (nat \<Rightarrow> io_channel \<times> settings \<Rightarrow> io_channel \<times> settings) \<Rightarrow> service \<times> settings \<Rightarrow> service \<times> settings" where
  "on_channel index f = (\<lambda>(s, st).
     if 0 \<le> index \<and> nat index < length (sv_channels s)
     then let i = nat index; (ctx, st) = f i (ctx_of s i, st) in (set_ctx i ctx s, st)
     else (s, st))"

definition mod_uparams :: "(unpack_params \<Rightarrow> unpack_params) \<Rightarrow> nat \<Rightarrow> io_channel \<times> settings \<Rightarrow> io_channel \<times> settings" where
  "mod_uparams f i = (\<lambda>(ctx, st). (ctx\<lparr>ch_uparams := f (ch_uparams ctx)\<rparr>, st))"

text \<open>
  \<open>io_transport_udp::connect\<close> and \<open>disconnect\<close>; what a disconnection does to the socket itself,
  and binding it again, is the system's.
\<close>

definition udp_connect :: "sys \<Rightarrow> nat \<Rightarrow> service \<Rightarrow> service" where
  "udp_connect sy h s =
     (let t = sv_heap s h; ctx = ctx_of s (tr_ctx t)
      in if tr_connected t then s
         else case (case tr_peer t of Some p \<Rightarrow> Some p | None \<Rightarrow> if ch_remote_eps ctx = [] then None else Some (hd (ch_remote_eps ctx))) of
                None \<Rightarrow> s
              | Some p \<Rightarrow> set_tr h (t\<lparr>tr_peer := Some p, tr_connected := (sy_dgram_connect sy p = 0)\<rparr>) s)"

definition udp_disconnect :: "nat \<Rightarrow> service \<Rightarrow> service" where
  "udp_disconnect h s = set_tr h ((sv_heap s h)\<lparr>tr_connected := False\<rparr>) s"

definition is_udp_client :: "nat \<Rightarrow> service \<Rightarrow> bool" where
  "is_udp_client h s \<longleftrightarrow> tr_is_open (sv_heap s h) \<and> ch_properties (ctx_of s (tr_ctx (sv_heap s h))) AND 0xff = YCK_UDP_CLIENT"

definition set_service_option :: "io_option \<Rightarrow> service \<times> settings \<Rightarrow> service \<times> settings" where
  "set_service_option opt = (\<lambda>(s, st).
     case opt of
       YOPT_S_NO_DISPATCH v \<Rightarrow> (s\<lparr>sv_no_dispatch := (v \<noteq> 0)\<rparr>, st)
     | YOPT_S_TCP_KEEPALIVE idle interval probs \<Rightarrow> (s, st\<lparr>st_keepalive := (1, idle, interval, probs)\<rparr>)
     | YOPT_S_RESOLV_FN f \<Rightarrow> (s, st\<lparr>st_resolv := Some f\<rparr>)
     | YOPT_S_PRINT_FN f \<Rightarrow> (s, st\<lparr>st_print := f\<rparr>)
     | YOPT_S_PRINT_FN2 f \<Rightarrow> (s, st\<lparr>st_print := f\<rparr>)
     | YOPT_S_NO_NEW_THREAD v \<Rightarrow> (s, st\<lparr>st_no_new_thread := (v \<noteq> 0)\<rparr>)
     | YOPT_S_CONNECT_TIMEOUT v \<Rightarrow> (s\<lparr>sv_connect_timeout := v * 1000000\<rparr>, st)
     | YOPT_S_CONNECT_TIMEOUTMS v \<Rightarrow> (s\<lparr>sv_connect_timeout := v * 1000\<rparr>, st)
     | YOPT_S_DNS_CACHE_TIMEOUT v \<Rightarrow> (s\<lparr>sv_dns_cache_timeout := v * 1000000\<rparr>, st)
     | YOPT_S_DNS_CACHE_TIMEOUTMS v \<Rightarrow> (s\<lparr>sv_dns_cache_timeout := v * 1000\<rparr>, st)
     | YOPT_S_DNS_QUERIES_TIMEOUT v \<Rightarrow> (s, st\<lparr>st_dns_queries_timeout := v * 1000000\<rparr>)
     | YOPT_S_DNS_QUERIES_TIMEOUTMS v \<Rightarrow> (s, st\<lparr>st_dns_queries_timeout := v * 1000\<rparr>)
     | YOPT_S_DNS_QUERIES_TRIES v \<Rightarrow> (s, st\<lparr>st_dns_queries_tries := v\<rparr>)
     | YOPT_S_DNS_DIRTY \<Rightarrow> (s\<lparr>sv_dns_dirty := True\<rparr>, st)
     | YOPT_S_EVENT_CB f \<Rightarrow> (s, st\<lparr>st_event_cb := f\<rparr>)
     | YOPT_S_DEFER_EVENT_CB f \<Rightarrow> (s, st\<lparr>st_defer_event_cb := f\<rparr>)
     | YOPT_S_FORWARD_PACKET v \<Rightarrow> (s\<lparr>sv_forward_packet := (v \<noteq> 0)\<rparr>, st)
     | _ \<Rightarrow> (s, st))"

definition set_channel_option :: "net_env \<Rightarrow> io_option \<Rightarrow> service \<times> settings \<Rightarrow> service \<times> settings" where
  "set_channel_option env opt =
     (case opt of
        YOPT_C_UNPACK_PARAMS i maxlen off len adj \<Rightarrow>
          on_channel i (mod_uparams (\<lambda>up. up\<lparr>max_frame_length := maxlen, length_field_offset := off,
            length_field_length := clamp len 1 4, length_adjustment := adj\<rparr>))
      | YOPT_C_UNPACK_STRIP i n \<Rightarrow> on_channel i (mod_uparams (\<lambda>up. up\<lparr>initial_bytes_to_strip := clamp n 0 YASIO_UNPACK_MAX_STRIP\<rparr>))
      | YOPT_C_UNPACK_NO_BSWAP i v \<Rightarrow> on_channel i (mod_uparams (\<lambda>up. up\<lparr>no_bswap := v\<rparr>))
      | YOPT_C_UNPACK_FN i f \<Rightarrow> on_channel i (\<lambda>_ (ctx, st). (ctx\<lparr>ch_decode_len := Some f\<rparr>, st))
      | YOPT_C_LOCAL_HOST i host \<Rightarrow> on_channel i (\<lambda>_ (ctx, st). (ctx\<lparr>ch_local_host := host\<rparr>, st))
      | YOPT_C_LOCAL_PORT i port \<Rightarrow> on_channel i (\<lambda>_ (ctx, st). (ctx\<lparr>ch_local_port := of_int port\<rparr>, st))
      | YOPT_C_LOCAL_ENDPOINT i host port \<Rightarrow>
          on_channel i (\<lambda>_ (ctx, st). (ctx\<lparr>ch_local_host := host, ch_local_port := of_int port\<rparr>, st))
      | YOPT_C_REMOTE_HOST i host \<Rightarrow> on_channel i (\<lambda>_ (ctx, st). (set_host host ctx, st))
      | YOPT_C_REMOTE_PORT i port \<Rightarrow> on_channel i (\<lambda>_ (ctx, st). (set_port (of_int port) ctx, st))
      | YOPT_C_REMOTE_ENDPOINT i host port \<Rightarrow> on_channel i (\<lambda>_ (ctx, st). (set_port (of_int port) (set_host host ctx), st))
      | YOPT_C_MCAST_IF i ifaddr \<Rightarrow>
          on_channel i (\<lambda>j (ctx, st). (ctx, case ifaddr of
              Some a \<Rightarrow> st\<lparr>st_multiif := (st_multiif st)(j := as_in env a 0 (st_multiif st j))\<rparr> | None \<Rightarrow> st))
      | YOPT_C_ENABLE_MCAST i addr loopback \<Rightarrow>
          on_channel i (\<lambda>j x. let (ctx, st) = enable_multicast env j addr loopback x
             in (ctx, join_multicast_group ctx (st_multiif st j) (st_multiaddr st j) st))
      | YOPT_C_DISABLE_MCAST i \<Rightarrow> on_channel i disable_multicast
      | YOPT_C_MOD_FLAGS i add rem \<Rightarrow>
          on_channel i (\<lambda>_ (ctx, st). (clear_props (of_int rem) (set_props (of_int add) ctx), st))
      | _ \<Rightarrow> id)"

text \<open>The options of a transport and of a socket; the handle of \<open>YOPT_B_SOCKOPT\<close> is a transport's.\<close>

definition set_transport_option :: "sys \<Rightarrow> io_option \<Rightarrow> service \<times> settings \<Rightarrow> service \<times> settings" where
  "set_transport_option sy opt = (\<lambda>(s, st).
     case opt of
       YOPT_T_CONNECT (Some h) \<Rightarrow> (if is_udp_client h s then udp_connect sy h s else s, st)
     | YOPT_T_DISCONNECT (Some h) \<Rightarrow> (if is_udp_client h s then udp_disconnect h s else s, st)
     | YOPT_B_SOCKOPT (Some h) level name v \<Rightarrow>
         (s, case io_socket (sv_heap s h) of Some fd \<Rightarrow> set_optval fd level name v st | None \<Rightarrow> st)
     | _ \<Rightarrow> (s, st))"

definition set_option_internal :: "sys \<Rightarrow> io_option \<Rightarrow> service \<times> settings \<Rightarrow> service \<times> settings" where
  "set_option_internal sy opt x = set_transport_option sy opt (set_channel_option (sy_net sy) opt (set_service_option opt x))"

section \<open>What the options keep\<close>




text \<open>\<open>ch_uparams\<close> is touched by the three options that set it, and by no other.\<close>

lemma props_uparams [simp]: "ch_uparams (set_props m ctx) = ch_uparams ctx" "ch_uparams (clear_props m ctx) = ch_uparams ctx"
  "ch_uparams (set_host host ctx) = ch_uparams ctx" "ch_uparams (set_port port ctx) = ch_uparams ctx"
  by (simp_all add: set_props_def clear_props_def set_host_def set_port_def)




definition demo_settings :: settings where
  "demo_settings = \<lparr>st_keepalive = (0, 7200, 75, 10), st_no_new_thread = False, st_dns_queries_timeout = 5000000, st_dns_queries_tries = 5,
     st_resolv = None, st_print = None, st_event_cb = None, st_defer_event_cb = None, st_multiif = (\<lambda>_. as_unspec (replicate 32 0)),
     st_multiaddr = (\<lambda>_. as_unspec (replicate 32 0)), st_sockopts = []\<rparr>"

text \<open>The channel an option names.\<close>

definition opt_channel :: "io_option \<Rightarrow> int option" where
  "opt_channel opt =
     (case opt of
        YOPT_C_UNPACK_PARAMS i _ _ _ _ \<Rightarrow> Some i | YOPT_C_UNPACK_STRIP i _ \<Rightarrow> Some i | YOPT_C_UNPACK_NO_BSWAP i _ \<Rightarrow> Some i
      | YOPT_C_UNPACK_FN i _ \<Rightarrow> Some i | YOPT_C_LOCAL_HOST i _ \<Rightarrow> Some i | YOPT_C_LOCAL_PORT i _ \<Rightarrow> Some i
      | YOPT_C_LOCAL_ENDPOINT i _ _ \<Rightarrow> Some i | YOPT_C_REMOTE_HOST i _ \<Rightarrow> Some i | YOPT_C_REMOTE_PORT i _ \<Rightarrow> Some i
      | YOPT_C_REMOTE_ENDPOINT i _ _ \<Rightarrow> Some i | YOPT_C_MCAST_IF i _ \<Rightarrow> Some i | YOPT_C_ENABLE_MCAST i _ _ \<Rightarrow> Some i
      | YOPT_C_DISABLE_MCAST i \<Rightarrow> Some i | YOPT_C_MOD_FLAGS i _ _ \<Rightarrow> Some i | _ \<Rightarrow> None)"

lemma on_channel_local:
  "on_channel i f (s, st) = (if 0 \<le> i \<and> nat i < length (sv_channels s)
     then (set_ctx (nat i) (fst (f (nat i) (ctx_of s (nat i), st))) s, snd (f (nat i) (ctx_of s (nat i), st))) else (s, st))"
  by (simp add: on_channel_def Let_def split: prod.splits)

text \<open>
  An option of a channel is local.  With an index that is no channel's, a negative one too, it
  changes nothing; otherwise it changes that channel and leaves every other channel, the
  transports, the timers and the events as they are.
\<close>

theorem channel_option_local:
  assumes "opt_channel opt = Some i"
  shows "\<exists>ctx st'. set_option_internal sy opt (s, st) =
    (if 0 \<le> i \<and> nat i < length (sv_channels s) then (set_ctx (nat i) ctx s, st') else (s, st))"
proof -
  have "set_service_option opt (s, st) = (s, st)" "set_transport_option sy opt y = y" for y
    using assms by (cases opt; simp add: opt_channel_def set_service_option_def set_transport_option_def split: prod.splits)+
  moreover obtain f where "set_channel_option (sy_net sy) opt = on_channel i f"
    using assms by (cases opt; simp add: opt_channel_def set_channel_option_def)
  ultimately show ?thesis by (auto simp: set_option_internal_def on_channel_local)
qed


lemma channel_option_local_witness:
  "set_option_internal demo_sys (YOPT_C_UNPACK_STRIP (-1) 4) (new_service [], demo_settings) = (new_service [], demo_settings)"
  using channel_option_local [of "YOPT_C_UNPACK_STRIP (-1) 4" "-1" demo_sys] by (simp add: opt_channel_def)



end
