(* ===== verification/SharedMutex.thy ===== *)
theory SharedMutex
  imports Prelude
begin

text \<open>
  The readers-writer lock of \<open>yasio/shared_mutex.hpp\<close> (\<open>cxx17::shared_mutex\<close> for compilers without
  one).  \<open>state_\<close> is kept at its 32 bits.  Every operation runs under the internal mutex and gives
  it up only to wait, so a step is an operation up to its end or to its next wait; a thread that
  waits is asleep until it is notified, or wakes up for no reason, and then takes its next step.
\<close>

section \<open>The lock\<close>

definition write_entered :: "32 word" where "write_entered = push_bit 31 1"
definition n_readers :: "32 word" where "n_readers = NOT write_entered"

definition no_writer :: "32 word \<Rightarrow> bool" where
  "no_writer s \<longleftrightarrow> s AND write_entered = 0"

definition no_writer_no_readers :: "32 word \<Rightarrow> bool" where
  "no_writer_no_readers s \<longleftrightarrow> s = 0"

definition no_writer_no_max_readers :: "32 word \<Rightarrow> bool" where
  "no_writer_no_max_readers s \<longleftrightarrow> s AND write_entered = 0 \<and> s AND n_readers \<noteq> n_readers"

definition no_readers :: "32 word \<Rightarrow> bool" where
  "no_readers s \<longleftrightarrow> s AND n_readers = 0"

definition put_readers :: "32 word \<Rightarrow> 32 word \<Rightarrow> 32 word" where
  "put_readers n s = (s AND NOT n_readers) OR n"

text \<open>Where a thread is: waiting at a gate inside \<open>lock\<close> or \<open>lock_shared\<close>, or holding the lock.\<close>

datatype pc = Outside | Lock_gate1 | Lock_gate2 | Shared_gate1 | Exclusive | Shared

record shared_mutex =
  sm_state :: "32 word"
  sm_pc :: "nat \<Rightarrow> pc"
  sm_asleep :: "nat \<Rightarrow> bool"

definition new_mutex :: shared_mutex where
  "new_mutex = \<lparr>sm_state = 0, sm_pc = (\<lambda>_. Outside), sm_asleep = (\<lambda>_. False)\<rparr>"

definition goto :: "nat \<Rightarrow> pc \<Rightarrow> bool \<Rightarrow> shared_mutex \<Rightarrow> shared_mutex" where
  "goto t p sleep m = m\<lparr>sm_pc := (sm_pc m)(t := p), sm_asleep := (sm_asleep m)(t := sleep)\<rparr>"

text \<open>\<open>lock\<close> from the second wait, and from the first.\<close>

definition lock_at_gate2 :: "nat \<Rightarrow> shared_mutex \<Rightarrow> shared_mutex" where
  "lock_at_gate2 t m = (if no_readers (sm_state m) then goto t Exclusive False m else goto t Lock_gate2 True m)"

definition lock :: "nat \<Rightarrow> shared_mutex \<Rightarrow> shared_mutex" where
  "lock t m =
     (if no_writer (sm_state m) then lock_at_gate2 t (m\<lparr>sm_state := sm_state m OR write_entered\<rparr>)
      else goto t Lock_gate1 True m)"

definition try_lock :: "nat \<Rightarrow> shared_mutex \<Rightarrow> bool \<times> shared_mutex" where
  "try_lock t m =
     (if \<not> no_writer_no_readers (sm_state m) then (False, m) else (True, goto t Exclusive False (m\<lparr>sm_state := write_entered\<rparr>)))"

definition notify_all_gate1 :: "shared_mutex \<Rightarrow> shared_mutex" where
  "notify_all_gate1 m = m\<lparr>sm_asleep := (\<lambda>t. sm_asleep m t \<and> sm_pc m t \<noteq> Lock_gate1 \<and> sm_pc m t \<noteq> Shared_gate1)\<rparr>"

definition unlock :: "nat \<Rightarrow> shared_mutex \<Rightarrow> shared_mutex" where
  "unlock t m = notify_all_gate1 (goto t Outside False (m\<lparr>sm_state := 0\<rparr>))"

definition lock_shared :: "nat \<Rightarrow> shared_mutex \<Rightarrow> shared_mutex" where
  "lock_shared t m =
     (if no_writer_no_max_readers (sm_state m)
      then goto t Shared False (m\<lparr>sm_state := put_readers ((sm_state m AND n_readers) + 1) (sm_state m)\<rparr>)
      else goto t Shared_gate1 True m)"

definition try_lock_shared :: "nat \<Rightarrow> shared_mutex \<Rightarrow> bool \<times> shared_mutex" where
  "try_lock_shared t m =
     (if \<not> no_writer_no_max_readers (sm_state m) then (False, m)
      else (True, goto t Shared False (m\<lparr>sm_state := put_readers ((sm_state m AND n_readers) + 1) (sm_state m)\<rparr>)))"

text \<open>\<open>notify_one\<close> wakes one of the threads asleep at the gate, if there is one: \<open>who\<close>.\<close>

definition may_notify :: "pc set \<Rightarrow> nat option \<Rightarrow> shared_mutex \<Rightarrow> bool" where
  "may_notify gate who m \<longleftrightarrow>
     (case who of Some t \<Rightarrow> sm_asleep m t \<and> sm_pc m t \<in> gate | None \<Rightarrow> \<forall>t. sm_pc m t \<in> gate \<longrightarrow> \<not> sm_asleep m t)"

definition notify_one :: "nat option \<Rightarrow> shared_mutex \<Rightarrow> shared_mutex" where
  "notify_one who m = (case who of Some t \<Rightarrow> m\<lparr>sm_asleep := (sm_asleep m)(t := False)\<rparr> | None \<Rightarrow> m)"

definition unlock_shared_count :: "nat \<Rightarrow> shared_mutex \<Rightarrow> shared_mutex" where
  "unlock_shared_count t m = goto t Outside False (m\<lparr>sm_state := put_readers ((sm_state m AND n_readers) - 1) (sm_state m)\<rparr>)"

text \<open>The gate that \<open>unlock_shared\<close> notifies, if any.\<close>

definition unlock_shared_gate :: "32 word \<Rightarrow> pc set option" where
  "unlock_shared_gate s =
     (if no_writer s then if s AND n_readers = n_readers - 1 then Some {Lock_gate1, Shared_gate1} else None
      else if s AND n_readers = 0 then Some {Lock_gate2} else None)"

definition unlock_shared :: "nat \<Rightarrow> nat option \<Rightarrow> shared_mutex \<Rightarrow> shared_mutex" where
  "unlock_shared t who m =
     (let m = unlock_shared_count t m in if unlock_shared_gate (sm_state m) \<noteq> None then notify_one who m else m)"

text \<open>The steps of \<open>n\<close> threads.\<close>

inductive mutex_step :: "nat \<Rightarrow> shared_mutex \<Rightarrow> shared_mutex \<Rightarrow> bool" for n where
  Lock: "t < n \<Longrightarrow> sm_pc m t = Outside \<Longrightarrow> mutex_step n m (lock t m)"
| Lock_again: "sm_pc m t = Lock_gate1 \<Longrightarrow> \<not> sm_asleep m t \<Longrightarrow> mutex_step n m (lock t m)"
| Lock_drained: "sm_pc m t = Lock_gate2 \<Longrightarrow> \<not> sm_asleep m t \<Longrightarrow> mutex_step n m (lock_at_gate2 t m)"
| Try_lock: "t < n \<Longrightarrow> sm_pc m t = Outside \<Longrightarrow> mutex_step n m (snd (try_lock t m))"
| Unlock: "sm_pc m t = Exclusive \<Longrightarrow> mutex_step n m (unlock t m)"
| Lock_shared: "t < n \<Longrightarrow> sm_pc m t = Outside \<Longrightarrow> mutex_step n m (lock_shared t m)"
| Lock_shared_again: "sm_pc m t = Shared_gate1 \<Longrightarrow> \<not> sm_asleep m t \<Longrightarrow> mutex_step n m (lock_shared t m)"
| Try_lock_shared: "t < n \<Longrightarrow> sm_pc m t = Outside \<Longrightarrow> mutex_step n m (snd (try_lock_shared t m))"
| Unlock_shared: "sm_pc m t = Shared \<Longrightarrow>
    (\<And>gate. unlock_shared_gate (sm_state (unlock_shared_count t m)) = Some gate \<Longrightarrow> may_notify gate who (unlock_shared_count t m)) \<Longrightarrow>
    mutex_step n m (unlock_shared t who m)"
| Spurious: "mutex_step n m (m\<lparr>sm_asleep := (sm_asleep m)(t := False)\<rparr>)"

section \<open>The state as a writer's mark and a count\<close>

definition enc :: "bool \<Rightarrow> nat \<Rightarrow> 32 word" where
  "enc w r = (if w then write_entered else 0) OR of_nat r"

lemma bit_write_entered: "bit write_entered k \<longleftrightarrow> k = 31"
  unfolding write_entered_def bit_push_bit_iff bit_1_iff by auto

lemma small_bits:
  assumes "r < 2 ^ 31"
  shows "\<not> bit (of_nat r :: 32 word) 31"
proof -
  have "take_bit 31 (of_nat r :: 32 word) = of_nat r"
    using assms by (simp add: take_bit_of_nat take_bit_nat_eq_self)
  then show ?thesis by (metis bit_take_bit_iff less_irrefl)
qed

lemma enc_simps:
  assumes "r < 2 ^ 31"
  shows "no_writer (enc w r) = (\<not> w)" "enc w r AND n_readers = of_nat r" "enc w r AND NOT n_readers = (if w then write_entered else 0)"
    "enc False r OR write_entered = enc True r" "put_readers (of_nat q) (enc w r) = enc w q"
proof -
  note b = bit_write_entered small_bits [OF assms]
  show a: "enc w r AND NOT n_readers = (if w then write_entered else 0)"
    by (rule bit_word_eqI) (use b in \<open>auto simp: enc_def n_readers_def bit_and_iff bit_or_iff bit_not_iff\<close>)
  have "enc w r AND write_entered = (if w then write_entered else 0)" using a by (simp add: n_readers_def)
  moreover have "write_entered \<noteq> 0" by (simp add: write_entered_def)
  ultimately show "no_writer (enc w r) = (\<not> w)" by (simp add: no_writer_def)
  show "enc w r AND n_readers = of_nat r"
    by (rule bit_word_eqI) (use b in \<open>auto simp: enc_def n_readers_def bit_and_iff bit_or_iff bit_not_iff\<close>)
  show "enc False r OR write_entered = enc True r" by (simp add: enc_def or.commute)
  show "put_readers (of_nat q) (enc w r) = enc w q" by (simp add: put_readers_def a) (simp add: enc_def)
qed

section \<open>The invariant\<close>

definition holders :: "pc \<Rightarrow> shared_mutex \<Rightarrow> nat set" where
  "holders p m = {t. sm_pc m t = p}"

definition entered :: "shared_mutex \<Rightarrow> nat \<Rightarrow> bool" where
  "entered m t \<longleftrightarrow> sm_pc m t = Lock_gate2 \<or> sm_pc m t = Exclusive"

definition mutex_ok :: "nat \<Rightarrow> shared_mutex \<Rightarrow> bool" where
  "mutex_ok n m \<longleftrightarrow> sm_state m = enc (\<exists>t. entered m t) (card (holders Shared m)) \<and>
     (\<forall>t. sm_pc m t \<noteq> Outside \<longrightarrow> t < n) \<and> (\<forall>t u. entered m t \<longrightarrow> entered m u \<longrightarrow> t = u) \<and>
     (\<forall>t u. sm_pc m t = Exclusive \<longrightarrow> sm_pc m u \<noteq> Shared) \<and>
     (\<forall>t. sm_asleep m t \<longrightarrow> sm_pc m t = Lock_gate1 \<or> sm_pc m t = Shared_gate1 \<longrightarrow> (\<exists>u. entered m u)) \<and>
     (\<forall>t. sm_asleep m t \<longrightarrow> sm_pc m t = Lock_gate2 \<longrightarrow> (\<exists>u. sm_pc m u = Shared))"

lemma goto_simps [simp]:
  "sm_state (goto t p b m) = sm_state m" "sm_pc (goto t p b m) = (sm_pc m)(t := p)" "sm_asleep (goto t p b m) = (sm_asleep m)(t := b)"
  by (simp_all add: goto_def)

lemma holders_finite: "mutex_ok n m \<Longrightarrow> p \<noteq> Outside \<Longrightarrow> finite (holders p m) \<and> card (holders p m) \<le> n"
proof -
  assume "mutex_ok n m" "p \<noteq> Outside"
  then have s: "holders p m \<subseteq> {..<n}" by (auto simp: holders_def mutex_ok_def)
  then show ?thesis using card_mono [OF _ s] finite_subset [OF s] by simp
qed

lemma readers_goto:
  assumes "finite (holders Shared m)"
  shows "card {u. u \<noteq> t \<longrightarrow> sm_pc m u = Shared} = (if sm_pc m t = Shared then card (holders Shared m) else Suc (card (holders Shared m)))"
    and "card {u. u \<noteq> t \<and> sm_pc m u = Shared} = (if sm_pc m t = Shared then card (holders Shared m) - 1 else card (holders Shared m))"
proof -
  have "{u. u \<noteq> t \<longrightarrow> sm_pc m u = Shared} = insert t (holders Shared m)" "{u. u \<noteq> t \<and> sm_pc m u = Shared} = holders Shared m - {t}"
    by (auto simp: holders_def)
  with assms show "card {u. u \<noteq> t \<longrightarrow> sm_pc m u = Shared} = (if sm_pc m t = Shared then card (holders Shared m) else Suc (card (holders Shared m)))"
    "card {u. u \<noteq> t \<and> sm_pc m u = Shared} = (if sm_pc m t = Shared then card (holders Shared m) - 1 else card (holders Shared m))"
    by (auto simp: holders_def insert_absorb)
qed

lemma readers_zero: "finite (holders Shared m) \<Longrightarrow> card (holders Shared m) = 0 \<longleftrightarrow> (\<forall>u. sm_pc m u \<noteq> Shared)"
  by (auto simp: holders_def)

lemma of_nat_eq_small: "r < 2 ^ 31 \<Longrightarrow> q < 2 ^ 31 \<Longrightarrow> (of_nat r :: 32 word) = of_nat q \<longleftrightarrow> r = q"
  by (simp add: word_of_nat_eq_iff take_bit_nat_eq_self)

lemma n_readers_max: "n_readers = of_nat (2 ^ 31 - 1)"
  by (simp add: n_readers_def write_entered_def)

lemma readers_small:
  assumes "mutex_ok n m" "n < 2 ^ 31 - 1"
  shows "card (holders Shared m) < 2 ^ 31 - 1" "finite (holders Shared m)"
  using holders_finite [OF assms(1), of Shared] assms(2) by auto

lemma mutex_tests:
  assumes ok: "mutex_ok n m" and small: "n < 2 ^ 31 - 1"
  shows "no_writer (sm_state m) \<longleftrightarrow> \<not> (\<exists>t. entered m t)" "sm_state m AND n_readers = of_nat (card (holders Shared m))"
    "no_readers (sm_state m) \<longleftrightarrow> (\<forall>u. sm_pc m u \<noteq> Shared)" "no_writer_no_max_readers (sm_state m) \<longleftrightarrow> \<not> (\<exists>t. entered m t)"
    "no_writer_no_readers (sm_state m) \<longleftrightarrow> \<not> (\<exists>t. entered m t) \<and> (\<forall>u. sm_pc m u \<noteq> Shared)"
proof -
  let ?r = "card (holders Shared m)"
  have st: "sm_state m = enc (\<exists>t. entered m t) ?r" using ok by (simp add: mutex_ok_def)
  have r: "?r < 2 ^ 31 - 1" "?r < 2 ^ 31" using readers_small [OF assms] by simp_all
  note e = enc_simps [OF r(2)]
  show nw: "no_writer (sm_state m) \<longleftrightarrow> \<not> (\<exists>t. entered m t)" by (simp only: st e)
  show an: "sm_state m AND n_readers = of_nat ?r" by (simp only: st e)
  have z: "(of_nat ?r :: 32 word) = 0 \<longleftrightarrow> ?r = 0" using of_nat_eq_small [OF r(2), of 0] by simp
  show nr: "no_readers (sm_state m) \<longleftrightarrow> (\<forall>u. sm_pc m u \<noteq> Shared)"
    unfolding no_readers_def an z using readers_zero readers_small(2) [OF assms] by blast
  have "(of_nat ?r :: 32 word) \<noteq> n_readers" using of_nat_eq_small [OF r(2), of "2 ^ 31 - 1"] r(1) by (simp add: n_readers_max)
  with nw an show "no_writer_no_max_readers (sm_state m) \<longleftrightarrow> \<not> (\<exists>t. entered m t)"
    by (auto simp: no_writer_no_max_readers_def no_writer_def)
  have "sm_state m = 0 \<longleftrightarrow> no_writer (sm_state m) \<and> no_readers (sm_state m)"
  proof -
    have "sm_state m = (sm_state m AND write_entered) OR (sm_state m AND n_readers)"
      by (simp add: n_readers_def flip: bit.conj_disj_distrib)
    then show ?thesis by (auto simp: no_writer_def no_readers_def)
  qed
  with nw nr show "no_writer_no_readers (sm_state m) \<longleftrightarrow> \<not> (\<exists>t. entered m t) \<and> (\<forall>u. sm_pc m u \<noteq> Shared)"
    by (simp add: no_writer_no_readers_def)
qed

text \<open>A thread that moves on, with the mark and the count that go with it.\<close>

lemma mutex_ok_goto:
  assumes ok: "mutex_ok n m" and t: "p \<noteq> Outside \<longrightarrow> t < n"
    and st: "s = enc ((p = Lock_gate2 \<or> p = Exclusive) \<or> (\<exists>u. u \<noteq> t \<and> entered m u)) (card {u. (if u = t then p else sm_pc m u) = Shared})"
    and one: "p = Lock_gate2 \<or> p = Exclusive \<Longrightarrow> \<forall>u. u \<noteq> t \<longrightarrow> \<not> entered m u"
    and excl: "p = Exclusive \<Longrightarrow> \<forall>u. u \<noteq> t \<longrightarrow> sm_pc m u \<noteq> Shared"
    and shared: "p = Shared \<Longrightarrow> \<forall>u. u \<noteq> t \<longrightarrow> sm_pc m u \<noteq> Exclusive"
    and sleep: "b \<Longrightarrow> p = Lock_gate1 \<or> p = Shared_gate1 \<Longrightarrow> \<exists>u. u \<noteq> t \<and> entered m u" "b \<Longrightarrow> p = Lock_gate2 \<Longrightarrow> \<exists>u. u \<noteq> t \<and> sm_pc m u = Shared"
    and wake1: "\<forall>u. u \<noteq> t \<longrightarrow> a u \<longrightarrow> sm_asleep m u"
    and wake2: "entered m t \<and> \<not> (p = Lock_gate2 \<or> p = Exclusive) \<Longrightarrow> \<forall>u. u \<noteq> t \<longrightarrow> a u \<longrightarrow> sm_pc m u \<noteq> Lock_gate1 \<and> sm_pc m u \<noteq> Shared_gate1"
    and wake3: "sm_pc m t = Shared \<and> p \<noteq> Shared \<Longrightarrow> \<forall>u. u \<noteq> t \<longrightarrow> a u \<longrightarrow> sm_pc m u = Lock_gate2 \<longrightarrow> (\<exists>v. v \<noteq> t \<and> sm_pc m v = Shared)"
  shows "mutex_ok n \<lparr>sm_state = s, sm_pc = (sm_pc m)(t := p), sm_asleep = a(t := b)\<rparr>"
proof -
  have okst: "sm_state m = enc (\<exists>t. entered m t) (card (holders Shared m))" and okn: "\<And>u. sm_pc m u \<noteq> Outside \<Longrightarrow> u < n"
    and ok1: "\<And>u v. entered m u \<Longrightarrow> entered m v \<Longrightarrow> u = v" and okx: "\<And>u v. sm_pc m u = Exclusive \<Longrightarrow> sm_pc m v \<noteq> Shared"
    and okg1: "\<And>u. sm_asleep m u \<Longrightarrow> sm_pc m u = Lock_gate1 \<or> sm_pc m u = Shared_gate1 \<Longrightarrow> \<exists>v. entered m v"
    and okg2: "\<And>u. sm_asleep m u \<Longrightarrow> sm_pc m u = Lock_gate2 \<Longrightarrow> \<exists>v. sm_pc m v = Shared"
    using ok by (simp_all only: mutex_ok_def) blast+
  let ?m = "\<lparr>sm_state = s, sm_pc = (sm_pc m)(t := p), sm_asleep = a(t := b)\<rparr>"
  have e: "entered ?m u = (if u = t then p = Lock_gate2 \<or> p = Exclusive else entered m u)" for u by (simp add: entered_def)
  have h: "holders Shared ?m = {u. (if u = t then p else sm_pc m u) = Shared}" by (auto simp: holders_def)
  show ?thesis
    unfolding mutex_ok_def
  proof (intro conjI)
    show "sm_state ?m = enc (\<exists>t. entered ?m t) (card (holders Shared ?m))" proof -
      have "(\<exists>u. entered ?m u) = ((p = Lock_gate2 \<or> p = Exclusive) \<or> (\<exists>u. u \<noteq> t \<and> entered m u))" unfolding e by auto
      then show ?thesis unfolding h shared_mutex.simps by (simp only: st)
    qed
    show "\<forall>u. sm_pc ?m u \<noteq> Outside \<longrightarrow> u < n" using okn t by simp
    show "\<forall>u v. entered ?m u \<longrightarrow> entered ?m v \<longrightarrow> u = v" unfolding e using ok1 one by (metis (full_types))
    show "\<forall>u v. sm_pc ?m u = Exclusive \<longrightarrow> sm_pc ?m v \<noteq> Shared" using okx excl shared by (metis (no_types, lifting) fun_upd_apply pc.distinct(29) shared_mutex.select_convs(2))
    show "\<forall>u. sm_asleep ?m u \<longrightarrow> sm_pc ?m u = Lock_gate1 \<or> sm_pc ?m u = Shared_gate1 \<longrightarrow> (\<exists>v. entered ?m v)"
    proof (intro allI impI)
      fix u assume u: "sm_asleep ?m u" "sm_pc ?m u = Lock_gate1 \<or> sm_pc ?m u = Shared_gate1"
      show "\<exists>v. entered ?m v"
      proof (cases "u = t")
        case True
        with u sleep(1) show ?thesis unfolding e by auto
      next
        case False
        with u wake1 okg1 [of u] obtain v where "entered m v" by auto
        with False u wake2 show ?thesis unfolding e by (cases "v = t") auto
      qed
    qed
    show "\<forall>u. sm_asleep ?m u \<longrightarrow> sm_pc ?m u = Lock_gate2 \<longrightarrow> (\<exists>v. sm_pc ?m v = Shared)"
    proof (intro allI impI)
      fix u assume u: "sm_asleep ?m u" "sm_pc ?m u = Lock_gate2"
      show "\<exists>v. sm_pc ?m v = Shared"
      proof (cases "u = t")
        case True
        with u sleep(2) show ?thesis by auto
      next
        case False
        with u wake1 okg2 [of u] obtain v where "sm_pc m v = Shared" by auto
        with False u wake3 show ?thesis by (cases "v = t"; cases "p = Shared") auto
      qed
    qed
  qed
qed

lemma card_readers:
  assumes "finite (holders Shared m)"
  shows "p = Shared \<Longrightarrow> sm_pc m t \<noteq> Shared \<Longrightarrow> card {u. (if u = t then p else sm_pc m u) = Shared} = Suc (card (holders Shared m))"
    and "p \<noteq> Shared \<Longrightarrow> sm_pc m t \<noteq> Shared \<Longrightarrow> card {u. (if u = t then p else sm_pc m u) = Shared} = card (holders Shared m)"
    and "p \<noteq> Shared \<Longrightarrow> sm_pc m t = Shared \<Longrightarrow> card {u. (if u = t then p else sm_pc m u) = Shared} = card (holders Shared m) - 1"
proof -
  have "{u. (if u = t then p else sm_pc m u) = Shared} = (if p = Shared then insert t (holders Shared m) else holders Shared m - {t})"
    by (auto simp: holders_def)
  with assms show "p = Shared \<Longrightarrow> sm_pc m t \<noteq> Shared \<Longrightarrow> card {u. (if u = t then p else sm_pc m u) = Shared} = Suc (card (holders Shared m))"
    "p \<noteq> Shared \<Longrightarrow> sm_pc m t \<noteq> Shared \<Longrightarrow> card {u. (if u = t then p else sm_pc m u) = Shared} = card (holders Shared m)"
    "p \<noteq> Shared \<Longrightarrow> sm_pc m t = Shared \<Longrightarrow> card {u. (if u = t then p else sm_pc m u) = Shared} = card (holders Shared m) - 1"
    by (simp_all add: holders_def)
qed

lemma state_of: "mutex_ok n m \<Longrightarrow> sm_state m = enc (\<exists>t. entered m t) (card (holders Shared m))"
  by (simp add: mutex_ok_def)

lemma goto_eq: "goto t p b m = \<lparr>sm_state = sm_state m, sm_pc = (sm_pc m)(t := p), sm_asleep = (sm_asleep m)(t := b)\<rparr>"
  by (simp add: goto_def)

lemma others: "\<not> entered m t \<Longrightarrow> (\<exists>u. u \<noteq> t \<and> entered m u) \<longleftrightarrow> (\<exists>u. entered m u)"
  by auto

lemma lock_ok:
  assumes ok: "mutex_ok n m" "n < 2 ^ 31 - 1" "t < n" "\<not> entered m t" "sm_pc m t \<noteq> Shared"
  shows "mutex_ok n (lock t m)"
proof -
  note ts = mutex_tests [OF ok(1,2)] and fin = readers_small(2) [OF ok(1,2)] and o = others [OF ok(4)]
  have r: "card (holders Shared m) < 2 ^ 31" using readers_small(1) [OF ok(1,2)] by simp
  note c = card_readers(2) [OF fin _ ok(5)]
  show ?thesis
  proof (cases "\<exists>u. entered m u")
    case True
    have "mutex_ok n \<lparr>sm_state = sm_state m, sm_pc = (sm_pc m)(t := Lock_gate1), sm_asleep = (sm_asleep m)(t := True)\<rparr>"
      by (rule mutex_ok_goto [OF ok(1)]) (use True ok(3,4,5) o c [of Lock_gate1] state_of [OF ok(1)] in \<open>simp_all\<close>)
    then show ?thesis using True ts(1) by (simp add: lock_def goto_eq)
  next
    case False
    let ?s = "enc True (card (holders Shared m))"
    have st: "sm_state m OR write_entered = ?s" using state_of [OF ok(1)] False enc_simps(4) [OF r] by simp
    have nr: "no_readers ?s \<longleftrightarrow> (\<forall>u. sm_pc m u \<noteq> Shared)"
      using ts(2,3) enc_simps(2) [OF r, of True] by (simp add: no_readers_def)
    let ?p = "if (\<exists>u. sm_pc m u = Shared) then Lock_gate2 else Exclusive"
    have p: "?p \<noteq> Shared" by simp
    have "mutex_ok n \<lparr>sm_state = ?s, sm_pc = (sm_pc m)(t := ?p), sm_asleep = (sm_asleep m)(t := (\<exists>u. sm_pc m u = Shared))\<rparr>"
    proof (rule mutex_ok_goto [OF ok(1)])
      show "?s = enc ((?p = Lock_gate2 \<or> ?p = Exclusive) \<or> (\<exists>u. u \<noteq> t \<and> entered m u)) (card {u. (if u = t then ?p else sm_pc m u) = Shared})"
        unfolding c [OF p] by simp
    qed (use False ok(3,4,5) in \<open>auto split: if_splits\<close>)
    then show ?thesis using False ts(1) nr by (cases "\<exists>u. sm_pc m u = Shared") (auto simp: lock_def lock_at_gate2_def goto_eq st)
  qed
qed

lemma lock_at_gate2_ok:
  assumes ok: "mutex_ok n m" "n < 2 ^ 31 - 1" "sm_pc m t = Lock_gate2"
  shows "mutex_ok n (lock_at_gate2 t m)"
proof -
  note ts = mutex_tests [OF ok(1,2)] and fin = readers_small(2) [OF ok(1,2)]
  have e: "entered m t" and sh: "sm_pc m t \<noteq> Shared" using ok(3) by (simp_all add: entered_def)
  have u: "\<forall>u. u \<noteq> t \<longrightarrow> \<not> entered m u" and tn: "t < n" using ok(1,3) e by (auto simp: mutex_ok_def)
  let ?p = "if (\<exists>u. sm_pc m u = Shared) then Lock_gate2 else Exclusive"
  have p: "?p \<noteq> Shared" by simp
  have st: "sm_state m = enc ((?p = Lock_gate2 \<or> ?p = Exclusive) \<or> (\<exists>u. u \<noteq> t \<and> entered m u)) (card {u. (if u = t then ?p else sm_pc m u) = Shared})"
    unfolding card_readers(2) [OF fin p sh] using state_of [OF ok(1)] arg_cong [OF eqTrueI [OF exI [of "entered m", OF e]], of "\<lambda>b. enc b (card (holders Shared m))"] by simp
  have "mutex_ok n \<lparr>sm_state = sm_state m, sm_pc = (sm_pc m)(t := ?p), sm_asleep = (sm_asleep m)(t := (\<exists>u. sm_pc m u = Shared))\<rparr>"
    by (rule mutex_ok_goto [OF ok(1) _ st]) (use u tn sh in \<open>auto split: if_splits\<close>)
  then show ?thesis using ts(3) by (cases "\<exists>u. sm_pc m u = Shared") (auto simp: lock_at_gate2_def goto_eq)
qed

lemma try_lock_ok:
  assumes ok: "mutex_ok n m" "n < 2 ^ 31 - 1" "t < n" "sm_pc m t = Outside"
  shows "mutex_ok n (snd (try_lock t m))"
proof (cases "(\<exists>u. entered m u) \<or> (\<exists>u. sm_pc m u = Shared)")
  case True
  then show ?thesis using ok mutex_tests(5) [OF ok(1,2)] by (auto simp: try_lock_def)
next
  case False
  note fin = readers_small(2) [OF ok(1,2)]
  have sh: "sm_pc m t \<noteq> Shared" and p: "Exclusive \<noteq> Shared" using ok(4) by simp_all
  have "card (holders Shared m) = 0" using False readers_zero [OF fin] by blast
  then have st: "write_entered = enc ((Exclusive = Lock_gate2 \<or> Exclusive = Exclusive) \<or> (\<exists>u. u \<noteq> t \<and> entered m u)) (card {u. (if u = t then Exclusive else sm_pc m u) = Shared})"
    unfolding card_readers(2) [OF fin p sh] by (simp add: enc_def)
  have "mutex_ok n \<lparr>sm_state = write_entered, sm_pc = (sm_pc m)(t := Exclusive), sm_asleep = (sm_asleep m)(t := False)\<rparr>"
    by (rule mutex_ok_goto [OF ok(1) _ st]) (use False ok(3,4) in \<open>auto split: if_splits\<close>)
  then show ?thesis using False mutex_tests(5) [OF ok(1,2)] by (auto simp: try_lock_def goto_eq)
qed

lemma lock_shared_ok:
  assumes ok: "mutex_ok n m" "n < 2 ^ 31 - 1" "t < n" "\<not> entered m t" "sm_pc m t \<noteq> Shared"
  shows "mutex_ok n (lock_shared t m)"
proof -
  note ts = mutex_tests [OF ok(1,2)] and fin = readers_small(2) [OF ok(1,2)] and o = others [OF ok(4)]
  have r: "card (holders Shared m) < 2 ^ 31" using readers_small(1) [OF ok(1,2)] by simp
  show ?thesis
  proof (cases "\<exists>u. entered m u")
    case True
    have "mutex_ok n \<lparr>sm_state = sm_state m, sm_pc = (sm_pc m)(t := Shared_gate1), sm_asleep = (sm_asleep m)(t := True)\<rparr>"
      by (rule mutex_ok_goto [OF ok(1)]) (use True ok(3,4,5) o card_readers(2) [OF fin _ ok(5), of Shared_gate1] state_of [OF ok(1)] in \<open>simp_all\<close>)
    then show ?thesis using True ts(4) by (simp add: lock_shared_def goto_eq)
  next
    case False
    have st: "put_readers ((sm_state m AND n_readers) + 1) (sm_state m) = enc False (Suc (card (holders Shared m)))"
      using state_of [OF ok(1)] ts(2) False enc_simps(5) [OF r, of "Suc (card (holders Shared m))" False] by (simp add: add.commute)
    have "mutex_ok n \<lparr>sm_state = enc False (Suc (card (holders Shared m))), sm_pc = (sm_pc m)(t := Shared), sm_asleep = (sm_asleep m)(t := False)\<rparr>"
      by (rule mutex_ok_goto [OF ok(1)])
        (use False ok(3,5) card_readers(1) [OF fin _ ok(5), of Shared] in \<open>simp_all add: entered_def\<close>)
    then show ?thesis using False ts(4) by (simp add: lock_shared_def goto_eq st)
  qed
qed

lemma unlock_ok:
  assumes ok: "mutex_ok n m" "n < 2 ^ 31 - 1" "sm_pc m t = Exclusive"
  shows "mutex_ok n (unlock t m)"
proof -
  note fin = readers_small(2) [OF ok(1,2)]
  have e: "entered m t" and sh: "sm_pc m t \<noteq> Shared" and p: "Outside \<noteq> Shared" using ok(3) by (simp_all add: entered_def)
  have u: "\<forall>u. u \<noteq> t \<longrightarrow> \<not> entered m u" and x: "\<forall>u. sm_pc m u \<noteq> Shared" using ok(1,3) e by (auto simp: mutex_ok_def)
  have "card (holders Shared m) = 0" using x readers_zero [OF fin] by blast
  then have st: "0 = enc ((Outside = Lock_gate2 \<or> Outside = Exclusive) \<or> (\<exists>u. u \<noteq> t \<and> entered m u)) (card {u. (if u = t then Outside else sm_pc m u) = Shared})"
    unfolding card_readers(2) [OF fin p sh] using u by (auto simp: enc_def)
  have "mutex_ok n \<lparr>sm_state = 0, sm_pc = (sm_pc m)(t := Outside), sm_asleep = (\<lambda>u. sm_asleep m u \<and> sm_pc m u \<noteq> Lock_gate1 \<and> sm_pc m u \<noteq> Shared_gate1)(t := False)\<rparr>"
    by (rule mutex_ok_goto [OF ok(1) _ st]) (use u x in auto)
  moreover have "unlock t m = \<lparr>sm_state = 0, sm_pc = (sm_pc m)(t := Outside), sm_asleep = (\<lambda>u. sm_asleep m u \<and> sm_pc m u \<noteq> Lock_gate1 \<and> sm_pc m u \<noteq> Shared_gate1)(t := False)\<rparr>"
    by (auto simp: unlock_def notify_all_gate1_def goto_eq)
  ultimately show ?thesis by simp
qed

text \<open>What \<open>unlock_shared\<close> leaves in \<open>state_\<close>, and whom it has to wake.\<close>

lemma unlock_shared_state:
  assumes ok: "mutex_ok n m" "n < 2 ^ 31 - 1" "sm_pc m t = Shared"
  defines "r \<equiv> card (holders Shared m)"
  shows "put_readers ((sm_state m AND n_readers) - 1) (sm_state m) = enc (\<exists>u. entered m u) (r - 1)"
    "unlock_shared_gate (enc (\<exists>u. entered m u) (r - 1)) =
      (if (\<exists>u. entered m u) \<and> (\<forall>u. u \<noteq> t \<longrightarrow> sm_pc m u \<noteq> Shared) then Some {Lock_gate2} else None)"
proof -
  note fin = readers_small(2) [OF ok(1,2)]
  have pos: "0 < r" using ok(3) fin by (auto simp: r_def holders_def card_gt_0_iff)
  have r: "r < 2 ^ 31 - 1" using readers_small(1) [OF ok(1,2)] by (simp add: r_def)
  have d: "(of_nat r :: 32 word) - 1 = of_nat (r - 1)" using pos by (simp add: of_nat_diff)
  show "put_readers ((sm_state m AND n_readers) - 1) (sm_state m) = enc (\<exists>u. entered m u) (r - 1)"
    using state_of [OF ok(1)] mutex_tests(2) [OF ok(1,2)] d enc_simps(5) [of r "r - 1"] r by (simp add: r_def)
  have s: "r - 1 < 2 ^ 31" "r - 1 < 2 ^ 31 - 2" using r by simp_all
  have z: "(of_nat (r - 1) :: 32 word) = 0 \<longleftrightarrow> r - 1 = 0" using of_nat_eq_small [OF s(1), of 0] by simp
  have nm: "n_readers - 1 = of_nat (2 ^ 31 - 2)" by (simp add: n_readers_max)
  have m: "(of_nat (r - 1) :: 32 word) \<noteq> n_readers - 1" unfolding nm using of_nat_eq_small [OF s(1), of "2 ^ 31 - 2"] s(2) by simp
  have "r - 1 = card (holders Shared m - {t})" using ok(3) fin by (simp add: r_def holders_def)
  then have "r - 1 = 0 \<longleftrightarrow> (\<forall>u. u \<noteq> t \<longrightarrow> sm_pc m u \<noteq> Shared)" using fin by (auto simp: holders_def)
  then show "unlock_shared_gate (enc (\<exists>u. entered m u) (r - 1)) =
      (if (\<exists>u. entered m u) \<and> (\<forall>u. u \<noteq> t \<longrightarrow> sm_pc m u \<noteq> Shared) then Some {Lock_gate2} else None)"
    unfolding unlock_shared_gate_def enc_simps(1,2) [OF s(1)] z using m by auto
qed

lemma unlock_shared_ok:
  assumes ok: "mutex_ok n m" "n < 2 ^ 31 - 1" "sm_pc m t = Shared"
    and who: "\<And>gate. unlock_shared_gate (sm_state (unlock_shared_count t m)) = Some gate \<Longrightarrow> may_notify gate who (unlock_shared_count t m)"
  shows "mutex_ok n (unlock_shared t who m)"
proof -
  note fin = readers_small(2) [OF ok(1,2)] and us = unlock_shared_state [OF ok(1-3)]
  let ?c = "unlock_shared_count t m" and ?g = "(\<exists>u. entered m u) \<and> (\<forall>u. u \<noteq> t \<longrightarrow> sm_pc m u \<noteq> Shared)"
  have c: "?c = \<lparr>sm_state = enc (\<exists>u. entered m u) (card (holders Shared m) - 1), sm_pc = (sm_pc m)(t := Outside), sm_asleep = (sm_asleep m)(t := False)\<rparr>"
    by (simp add: unlock_shared_count_def goto_eq us(1))
  have g: "unlock_shared_gate (sm_state ?c) = (if ?g then Some {Lock_gate2} else None)" using us(2) by (simp add: c)
  define a where "a = (if ?g then (case who of Some w \<Rightarrow> (sm_asleep m)(w := False) | None \<Rightarrow> sm_asleep m) else sm_asleep m)"
  have o: "(\<exists>u. u \<noteq> t \<and> entered m u) \<longleftrightarrow> (\<exists>u. entered m u)" by (rule others) (simp add: entered_def ok(3))
  have p: "Outside \<noteq> Shared" by simp
  have st: "enc (\<exists>u. entered m u) (card (holders Shared m) - 1) =
      enc ((Outside = Lock_gate2 \<or> Outside = Exclusive) \<or> (\<exists>u. u \<noteq> t \<and> entered m u)) (card {u. (if u = t then Outside else sm_pc m u) = Shared})"
    unfolding card_readers(3) [OF fin p ok(3)] o by simp
  have woken: "\<not> a u" if "?g" "sm_pc m u = Lock_gate2" "u \<noteq> t" for u
  proof (cases who)
    case None
    with who [of "{Lock_gate2}"] g that show ?thesis by (auto simp: may_notify_def c a_def split: if_splits)
  next
    case (Some w)
    have "sm_pc m w = Lock_gate2" using who [of "{Lock_gate2}"] g that(1) by (auto simp: may_notify_def c Some split: if_splits)
    then have "w = u" using that(2) ok(1) by (auto simp: mutex_ok_def entered_def)
    then show ?thesis using that(1) by (simp add: a_def Some)
  qed
  have sub: "a u \<Longrightarrow> sm_asleep m u" for u by (auto simp: a_def split: if_splits option.splits)
  have left: "\<exists>v. v \<noteq> t \<and> sm_pc m v = Shared" if "u \<noteq> t" "a u" "sm_pc m u = Lock_gate2" for u
  proof (rule ccontr)
    assume "\<nexists>v. v \<noteq> t \<and> sm_pc m v = Shared"
    then have ?g using that(3) by (auto simp: entered_def)
    from woken [OF this that(3,1)] that(2) show False by simp
  qed
  have "mutex_ok n \<lparr>sm_state = enc (\<exists>u. entered m u) (card (holders Shared m) - 1), sm_pc = (sm_pc m)(t := Outside), sm_asleep = a(t := False)\<rparr>"
    by (rule mutex_ok_goto [OF ok(1) _ st]) (use sub left ok(3) in \<open>auto simp: entered_def\<close>)
  moreover have "unlock_shared t who m = \<lparr>sm_state = enc (\<exists>u. entered m u) (card (holders Shared m) - 1), sm_pc = (sm_pc m)(t := Outside), sm_asleep = a(t := False)\<rparr>"
    unfolding unlock_shared_def Let_def g by (cases ?g) (auto simp: c a_def notify_one_def fun_eq_iff split: option.splits)
  ultimately show ?thesis by simp
qed

lemma spurious_ok: "mutex_ok n m \<Longrightarrow> mutex_ok n (m\<lparr>sm_asleep := (sm_asleep m)(t := False)\<rparr>)"
  by (simp add: mutex_ok_def holders_def entered_def)

lemma new_mutex_ok: "mutex_ok n new_mutex"
  by (simp add: mutex_ok_def new_mutex_def holders_def entered_def enc_def)

lemma lt_of_pc: "mutex_ok n m \<Longrightarrow> sm_pc m t \<noteq> Outside \<Longrightarrow> t < n"
  by (simp add: mutex_ok_def)

lemma step_ok:
  assumes "mutex_step n m m'" "mutex_ok n m" "n < 2 ^ 31 - 1"
  shows "mutex_ok n m'"
  using assms(1)
proof cases
  case (Lock t)
  then show ?thesis using lock_ok [OF assms(2,3), of t] by (simp add: entered_def)
next
  case (Lock_again t)
  then show ?thesis using lock_ok [OF assms(2,3), of t] lt_of_pc [OF assms(2), of t] by (simp add: entered_def)
next
  case (Lock_shared t)
  then show ?thesis using lock_shared_ok [OF assms(2,3), of t] by (simp add: entered_def)
next
  case (Lock_shared_again t)
  then show ?thesis using lock_shared_ok [OF assms(2,3), of t] lt_of_pc [OF assms(2), of t] by (simp add: entered_def)
next
  case (Try_lock_shared t)
  then show ?thesis using lock_shared_ok [OF assms(2,3), of t] assms(2)
    by (auto simp: entered_def try_lock_shared_def lock_shared_def)
qed (use assms(2,3) lock_at_gate2_ok try_lock_ok unlock_ok unlock_shared_ok spurious_ok in \<open>blast+\<close>)

lemma reachable_ok: "(mutex_step n)\<^sup>*\<^sup>* new_mutex m \<Longrightarrow> n < 2 ^ 31 - 1 \<Longrightarrow> mutex_ok n m"
  by (induction rule: rtranclp_induct) (simp_all add: new_mutex_ok step_ok)

section \<open>The properties\<close>

text \<open>C15: Mutual exclusion: with fewer than 2^31 - 1 threads, however their calls and wake-ups
  interleave, a thread that holds the lock exclusively is the only one that holds it, and the
  count in \<open>state_\<close> is that of the threads that hold it shared.\<close>

theorem shared_mutex_exclusion:
  assumes "(mutex_step n)\<^sup>*\<^sup>* new_mutex m" "n < 2 ^ 31 - 1"
  shows "(sm_pc m t = Exclusive \<longrightarrow> sm_pc m u = Exclusive \<or> sm_pc m u = Shared \<longrightarrow> u = t) \<and>
    unat (sm_state m AND n_readers) = card (holders Shared m)"
proof -
  note ok = reachable_ok [OF assms]
  have "card (holders Shared m) < 2 ^ 32" using readers_small(1) [OF ok assms(2)] by simp
  then have "unat (sm_state m AND n_readers) = card (holders Shared m)"
    unfolding mutex_tests(2) [OF ok assms(2)] by (simp add: unat_of_nat)
  then show ?thesis using ok by (auto simp: mutex_ok_def entered_def)
qed

text \<open>C16: No wake-up is lost: as long as some thread waits inside a call, some thread holds the lock
  and can give it up, or one that waits is awake and takes its next step.  A writer asleep at the
  second gate waits for a reader that is there.\<close>

theorem shared_mutex_no_lost_wakeup:
  assumes "(mutex_step n)\<^sup>*\<^sup>* new_mutex m" "n < 2 ^ 31 - 1" "sm_pc m t \<noteq> Outside"
  shows "(\<exists>u. sm_pc m u = Exclusive \<or> sm_pc m u = Shared \<or> sm_pc m u \<noteq> Outside \<and> \<not> sm_asleep m u) \<and>
    (sm_asleep m t \<and> sm_pc m t = Lock_gate2 \<longrightarrow> (\<exists>u. sm_pc m u = Shared))"
proof -
  note ok = reachable_ok [OF assms(1,2)]
  have g1: "\<exists>u. entered m u" if "sm_asleep m t" "sm_pc m t = Lock_gate1 \<or> sm_pc m t = Shared_gate1" for t
    using ok that unfolding mutex_ok_def by blast
  have g2: "\<exists>u. sm_pc m u = Shared" if "sm_asleep m t" "sm_pc m t = Lock_gate2" for t
    using ok that unfolding mutex_ok_def by blast
  have e: "\<exists>v. sm_pc m v = Exclusive \<or> sm_pc m v = Shared \<or> sm_pc m v \<noteq> Outside \<and> \<not> sm_asleep m v" if "entered m u" for u
    using that g2 [of u] by (cases "sm_asleep m u"; force simp: entered_def)
  show ?thesis
  proof (cases "sm_asleep m t")
    case True
    then show ?thesis using e g1 [OF True] g2 [OF True] assms(3) by (cases "sm_pc m t") blast+
  next
    case False
    then show ?thesis using assms(3) by blast
  qed
qed

text \<open>Three threads: 0 reads, 1 asks to write and waits for it, 2 asks to read and waits behind the
  writer; then 0 leaves and wakes 1.\<close>

definition demo_waiting :: shared_mutex where
  "demo_waiting = lock_shared 2 (lock 1 (lock_shared 0 new_mutex))"

definition demo_writing :: shared_mutex where
  "demo_writing = lock_at_gate2 1 (unlock_shared 0 (Some 1) demo_waiting)"

lemmas mutex_eval = demo_waiting_def demo_writing_def lock_def lock_shared_def lock_at_gate2_def new_mutex_def goto_eq
  no_writer_def no_writer_no_max_readers_def no_readers_def put_readers_def n_readers_def write_entered_def
  unlock_shared_def unlock_shared_count_def unlock_shared_gate_def may_notify_def notify_one_def

lemma demo_waiting_eq: "demo_waiting = \<lparr>sm_state = 2147483649, sm_pc = (\<lambda>_. Outside)(0 := Shared, 1 := Lock_gate2, 2 := Shared_gate1),
    sm_asleep = (\<lambda>_. False)(0 := False, 1 := True, 2 := True)\<rparr>"
  by (simp add: mutex_eval)

lemma demo_writing_eq: "demo_writing = \<lparr>sm_state = 2147483648, sm_pc = (\<lambda>_. Outside)(0 := Outside, 1 := Exclusive, 2 := Shared_gate1),
    sm_asleep = (\<lambda>_. False)(0 := False, 1 := False, 2 := True)\<rparr>"
  unfolding demo_writing_def demo_waiting_eq by (auto simp: mutex_eval fun_eq_iff)

lemma demo_waiting_reachable: "(mutex_step 3)\<^sup>*\<^sup>* new_mutex demo_waiting"
proof -
  have "mutex_step 3 new_mutex (lock_shared 0 new_mutex)" by (rule mutex_step.Lock_shared) (simp_all add: mutex_eval)
  moreover have "mutex_step 3 (lock_shared 0 new_mutex) (lock 1 (lock_shared 0 new_mutex))" by (rule mutex_step.Lock) (simp_all add: mutex_eval)
  moreover have "mutex_step 3 (lock 1 (lock_shared 0 new_mutex)) demo_waiting"
    unfolding demo_waiting_def by (rule mutex_step.Lock_shared) (simp_all add: mutex_eval)
  ultimately show ?thesis by (meson r_into_rtranclp rtranclp.rtrancl_into_rtrancl)
qed

lemma demo_writing_reachable: "(mutex_step 3)\<^sup>*\<^sup>* new_mutex demo_writing"
proof -
  have "mutex_step 3 demo_waiting (unlock_shared 0 (Some 1) demo_waiting)"
    by (rule mutex_step.Unlock_shared) (simp_all add: demo_waiting_eq mutex_eval)
  moreover have "mutex_step 3 (unlock_shared 0 (Some 1) demo_waiting) demo_writing"
    unfolding demo_writing_def by (rule mutex_step.Lock_drained) (simp_all add: demo_waiting_eq mutex_eval)
  ultimately show ?thesis using demo_waiting_reachable by (meson rtranclp.rtrancl_into_rtrancl)
qed

lemma shared_mutex_exclusion_witness: "sm_pc demo_writing 1 = Exclusive \<and> unat (sm_state demo_writing AND n_readers) = card (holders Shared demo_writing)"
  using shared_mutex_exclusion [OF demo_writing_reachable, of 1 1] by (simp add: demo_writing_eq)

lemma shared_mutex_no_lost_wakeup_witness: "sm_pc demo_waiting 1 = Lock_gate2 \<and> sm_asleep demo_waiting 1 \<and> (\<exists>u. sm_pc demo_waiting u = Shared)"
  using shared_mutex_no_lost_wakeup [OF demo_waiting_reachable, of 1] by (simp add: demo_waiting_eq)

section \<open>shared_lock\<close>

text \<open>The guard \<open>shared_lock\<close>: the mutex it stands for and whether it owns it.  An operation says
  which calls it makes on which mutex; \<open>tried\<close> is what \<open>try_lock_shared\<close> answers.\<close>

datatype mutex_call = Lock_shared_call nat | Try_lock_shared_call nat bool | Unlock_shared_call nat

datatype lock_error = operation_not_permitted | resource_deadlock_would_occur

record shared_lock =
  slk_mtx :: "nat option"
  slk_owns :: bool

definition slk_none :: shared_lock where "slk_none = \<lparr>slk_mtx = None, slk_owns = False\<rparr>"

definition slk_new :: "nat \<Rightarrow> mutex_call list \<times> shared_lock" where
  "slk_new x = ([Lock_shared_call x], \<lparr>slk_mtx = Some x, slk_owns = True\<rparr>)"

definition slk_defer :: "nat \<Rightarrow> shared_lock" where "slk_defer x = \<lparr>slk_mtx = Some x, slk_owns = False\<rparr>"

definition slk_try :: "nat \<Rightarrow> bool \<Rightarrow> mutex_call list \<times> shared_lock" where
  "slk_try x tried = ([Try_lock_shared_call x tried], \<lparr>slk_mtx = Some x, slk_owns = tried\<rparr>)"

definition slk_adopt :: "nat \<Rightarrow> shared_lock" where "slk_adopt x = \<lparr>slk_mtx = Some x, slk_owns = True\<rparr>"

definition slk_unlock_owned :: "shared_lock \<Rightarrow> mutex_call list" where
  "slk_unlock_owned g = (if slk_owns g then (case slk_mtx g of Some x \<Rightarrow> [Unlock_shared_call x] | None \<Rightarrow> []) else [])"

definition slk_destroy :: "shared_lock \<Rightarrow> mutex_call list" where "slk_destroy g = slk_unlock_owned g"

text \<open>Move construction and move assignment: the new state of the target and of the source.\<close>

definition slk_move :: "shared_lock \<Rightarrow> shared_lock \<times> shared_lock" where "slk_move other = (other, slk_none)"

definition slk_move_assign :: "shared_lock \<Rightarrow> shared_lock \<Rightarrow> mutex_call list \<times> shared_lock \<times> shared_lock" where
  "slk_move_assign this right = (slk_unlock_owned this, right, slk_none)"

definition slk_validate :: "shared_lock \<Rightarrow> lock_error option" where
  "slk_validate g = (if slk_mtx g = None then Some operation_not_permitted else if slk_owns g then Some resource_deadlock_would_occur else None)"

definition slk_lock :: "shared_lock \<Rightarrow> lock_error + mutex_call list \<times> shared_lock" where
  "slk_lock g = (case slk_validate g of Some e \<Rightarrow> Inl e
     | None \<Rightarrow> Inr ([Lock_shared_call (the (slk_mtx g))], g\<lparr>slk_owns := True\<rparr>))"

definition slk_try_lock :: "bool \<Rightarrow> shared_lock \<Rightarrow> lock_error + mutex_call list \<times> bool \<times> shared_lock" where
  "slk_try_lock tried g = (case slk_validate g of Some e \<Rightarrow> Inl e
     | None \<Rightarrow> Inr ([Try_lock_shared_call (the (slk_mtx g)) tried], tried, g\<lparr>slk_owns := tried\<rparr>))"

definition slk_unlock :: "shared_lock \<Rightarrow> lock_error + mutex_call list \<times> shared_lock" where
  "slk_unlock g = (if slk_mtx g = None \<or> \<not> slk_owns g then Inl operation_not_permitted
     else Inr ([Unlock_shared_call (the (slk_mtx g))], g\<lparr>slk_owns := False\<rparr>))"

definition slk_swap :: "shared_lock \<Rightarrow> shared_lock \<Rightarrow> shared_lock \<times> shared_lock" where
  "slk_swap this right =
     (this\<lparr>slk_mtx := slk_mtx right, slk_owns := slk_owns right\<rparr>, right\<lparr>slk_mtx := slk_mtx this, slk_owns := slk_owns this\<rparr>)"

definition slk_release :: "shared_lock \<Rightarrow> nat option \<times> shared_lock" where
  "slk_release g = (slk_mtx g, g\<lparr>slk_mtx := None, slk_owns := False\<rparr>)"

text \<open>A program over guards held in slots; \<open>Destroy\<close> ends the life of the one in the slot, and a
  slot without a guard is \<open>slk_none\<close>.  An operation that throws changes nothing.\<close>

datatype guard_op = New nat nat | Defer nat nat | Try nat nat bool | Move nat nat | Move_assign nat nat
  | Lock_guard nat | Try_lock_guard nat bool | Unlock_guard nat | Swap nat nat | Destroy nat

fun guard_step :: "guard_op \<Rightarrow> (nat \<Rightarrow> shared_lock) \<Rightarrow> mutex_call list \<times> (nat \<Rightarrow> shared_lock)" where
  "guard_step (New i x) g = (let (cs, l) = slk_new x in (slk_destroy (g i) @ cs, g(i := l)))"
| "guard_step (Defer i x) g = (slk_destroy (g i), g(i := slk_defer x))"
| "guard_step (Try i x b) g = (let (cs, l) = slk_try x b in (slk_destroy (g i) @ cs, g(i := l)))"
| "guard_step (Move i j) g = (if i = j then ([], g) else let (l, r) = slk_move (g j) in (slk_destroy (g i), g(i := l, j := r)))"
| "guard_step (Move_assign i j) g = (let (cs, l, r) = slk_move_assign (g i) (g j) in (cs, g(i := l, j := r)))"
| "guard_step (Lock_guard i) g = (case slk_lock (g i) of Inl _ \<Rightarrow> ([], g) | Inr (cs, l) \<Rightarrow> (cs, g(i := l)))"
| "guard_step (Try_lock_guard i b) g = (case slk_try_lock b (g i) of Inl _ \<Rightarrow> ([], g) | Inr (cs, _, l) \<Rightarrow> (cs, g(i := l)))"
| "guard_step (Unlock_guard i) g = (case slk_unlock (g i) of Inl _ \<Rightarrow> ([], g) | Inr (cs, l) \<Rightarrow> (cs, g(i := l)))"
| "guard_step (Swap i j) g = (let (l, r) = slk_swap (g i) (g j) in ([], g(i := l, j := r)))"
| "guard_step (Destroy i) g = (slk_destroy (g i), g(i := slk_none))"

definition call_count :: "nat \<Rightarrow> mutex_call \<Rightarrow> int" where
  "call_count x c = (case c of Lock_shared_call y \<Rightarrow> of_bool (x = y) | Try_lock_shared_call y b \<Rightarrow> of_bool (b \<and> x = y)
     | Unlock_shared_call y \<Rightarrow> - of_bool (x = y))"

fun guard_run :: "guard_op list \<Rightarrow> (nat \<Rightarrow> shared_lock) \<Rightarrow> mutex_call list \<times> (nat \<Rightarrow> shared_lock)" where
  "guard_run [] g = ([], g)"
| "guard_run (p # ps) g = (let (cs, g') = guard_step p g; (cs', g'') = guard_run ps g' in (cs @ cs', g''))"

definition owned :: "nat \<Rightarrow> shared_lock \<Rightarrow> int" where
  "owned x l = of_bool (slk_owns l \<and> slk_mtx l = Some x)"

definition slots :: "guard_op \<Rightarrow> nat set" where
  "slots p = (case p of New i _ \<Rightarrow> {i} | Defer i _ \<Rightarrow> {i} | Try i _ _ \<Rightarrow> {i} | Move i j \<Rightarrow> {i, j} | Move_assign i j \<Rightarrow> {i, j}
     | Lock_guard i \<Rightarrow> {i} | Try_lock_guard i _ \<Rightarrow> {i} | Unlock_guard i \<Rightarrow> {i} | Swap i j \<Rightarrow> {i, j} | Destroy i \<Rightarrow> {i})"

definition guard_ok :: "shared_lock \<Rightarrow> bool" where "guard_ok l \<longleftrightarrow> (slk_owns l \<longrightarrow> slk_mtx l \<noteq> None)"

lemmas guard_defs = slk_new_def slk_defer_def slk_try_def slk_destroy_def slk_unlock_owned_def slk_move_def slk_move_assign_def
  slk_lock_def slk_try_lock_def slk_unlock_def slk_swap_def slk_validate_def slk_none_def

lemma guard_step_ok: "(\<forall>k. guard_ok (g k)) \<Longrightarrow> guard_ok (snd (guard_step p g) k)"
  by (cases p) (auto simp: guard_defs guard_ok_def split: option.splits if_splits)

lemma guard_step_balance:
  assumes ok: "\<forall>k. guard_ok (g k)" and s: "slots p \<subseteq> {..<n}"
  shows "sum_list (map (call_count x) (fst (guard_step p g))) = (\<Sum>k<n. owned x (snd (guard_step p g) k)) - (\<Sum>k<n. owned x (g k))"
proof -
  note u = sum_upd [of _ n "owned x"]
  have e: "sum_list (map (call_count x) (slk_unlock_owned (g i))) = - owned x (g i)" for i
    using ok by (auto simp: slk_unlock_owned_def owned_def call_count_def guard_ok_def split: option.splits)
  have v [simp]: "owned x \<lparr>slk_mtx = a, slk_owns = b\<rparr> = of_bool (b \<and> a = Some x)" "owned x (l\<lparr>slk_owns := b\<rparr>) = of_bool (b \<and> slk_mtx l = Some x)" for a b l
    by (simp_all add: owned_def)
  have lk: "slk_validate (g i) = None \<Longrightarrow> owned x (g i) = 0 \<and> (\<exists>y. slk_mtx (g i) = Some y)" for i
    by (auto simp: slk_validate_def owned_def split: if_splits)
  have s2: "owned x (fst (slk_swap a b)) = owned x b" "owned x (snd (slk_swap a b)) = owned x a" for a b
    by (simp_all add: slk_swap_def owned_def)
  show ?thesis
  proof (cases p)
    case (Swap i j)
    then show ?thesis using s by (cases "i = j") (auto simp: slots_def u s2 case_prod_beta Let_def fun_upd_other simp del: fun_upd_apply)
  next
    case (Unlock_guard i)
    then show ?thesis using s by (auto simp: slots_def u slk_unlock_def owned_def [of x "g i"] call_count_def simp del: fun_upd_apply)
  next
    case (Lock_guard i)
    then show ?thesis using s lk [of i] by (auto simp: slots_def u slk_lock_def call_count_def simp del: fun_upd_apply split: option.splits)
  next
    case (Try_lock_guard i b)
    then show ?thesis using s lk [of i] by (auto simp: slots_def u slk_try_lock_def call_count_def simp del: fun_upd_apply split: option.splits)
  next
    case (Move i j)
    then show ?thesis using s by (auto simp: slots_def u e slk_move_def slk_destroy_def slk_none_def fun_upd_other simp del: fun_upd_apply)
  next
    case (Move_assign i j)
    then show ?thesis using s by (cases "i = j") (auto simp: slots_def u e slk_move_assign_def slk_none_def fun_upd_other simp del: fun_upd_apply)
  qed (use s in \<open>auto simp: slots_def u e slk_new_def slk_try_def slk_defer_def slk_none_def slk_destroy_def call_count_def simp del: fun_upd_apply\<close>)
qed

text \<open>The guards keep the books: over any run of operations on guards, the shared acquisitions of
  a mutex less its releases are what the guards that own it have gained, so when every guard is
  gone every acquisition has been released.\<close>

theorem shared_lock_balance:
  assumes "\<forall>k. guard_ok (g k)" "\<Union>(slots ` set ps) \<subseteq> {..<n}" "guard_run ps g = (cs, g')"
  shows "sum_list (map (call_count x) cs) = (\<Sum>k<n. owned x (g' k)) - (\<Sum>k<n. owned x (g k)) \<and> (\<forall>k. guard_ok (g' k))"
  using assms
proof (induction ps arbitrary: g cs)
  case (Cons p ps)
  obtain c g1 where p: "guard_step p g = (c, g1)" by fastforce
  obtain c' where r: "guard_run ps g1 = (c', g')" "cs = c @ c'" using Cons.prems(3) p by (auto split: prod.splits)
  have g1: "\<forall>k. guard_ok (g1 k)" using guard_step_ok [of g p] Cons.prems(1) by (simp add: p)
  have "sum_list (map (call_count x) c) = (\<Sum>k<n. owned x (g1 k)) - (\<Sum>k<n. owned x (g k))"
    using guard_step_balance [OF Cons.prems(1), of p n x] Cons.prems(2) by (simp add: p)
  with Cons.IH [OF g1 _ r(1)] Cons.prems(2) r(2) show ?case by simp
qed simp

definition demo_guards :: "guard_op list" where
  "demo_guards = [New 0 7, Defer 1 7, Lock_guard 1, Lock_guard 1, Move_assign 0 1, Unlock_guard 1, Destroy 0]"

lemma shared_lock_balance_witness:
  "fst (guard_run demo_guards (\<lambda>_. slk_none)) = [Lock_shared_call 7, Lock_shared_call 7, Unlock_shared_call 7, Unlock_shared_call 7] \<and>
    sum_list (map (call_count 7) (fst (guard_run demo_guards (\<lambda>_. slk_none)))) = 0"
proof -
  let ?r = "guard_run demo_guards (\<lambda>_. slk_none)"
  have r: "?r = ([Lock_shared_call 7, Lock_shared_call 7, Unlock_shared_call 7, Unlock_shared_call 7], \<lambda>_. slk_none)"
    by (auto simp: demo_guards_def guard_defs fun_eq_iff)
  have "(\<Union>(slots ` set demo_guards)) \<subseteq> {..<2}" by (simp add: demo_guards_def slots_def)
  from shared_lock_balance [OF _ this r, of 7]
  have "sum_list (map (call_count 7) (fst ?r)) = 0" unfolding r by (simp add: guard_ok_def slk_none_def)
  with r show ?thesis by simp
qed

end
