(* ===== verification/ObjectPool.thy ===== *)
theory ObjectPool
  imports Prelude
begin

text \<open>
  The object pool of \<open>impl/object_pool.hpp\<close>: chunks of \<open>element_count\<close> cells linked through their
  headers, and a free list threaded through the cells themselves.  Addresses are integers, 0 is
  \<open>nullptr\<close>, and the memory holds the pointer stored at an address; a slot is also the memory of the
  object it is given out for, which its owner overwrites.  The chunk that \<open>new\<close> returns is an
  argument.
\<close>

section \<open>Memory and layout\<close>

type_synonym memory = "int \<Rightarrow> int"

record shape =
  sh_header :: int
  sh_size :: int
  sh_count :: int

record object_pool =
  op_first :: int
  op_chunk :: int
  op_mem :: memory

definition nextof :: "int \<Rightarrow> memory \<Rightarrow> int" where "nextof p m = m p"
definition set_nextof :: "int \<Rightarrow> int \<Rightarrow> memory \<Rightarrow> memory" where "set_nextof p v m = m(p := v)"
definition firstof :: "shape \<Rightarrow> int \<Rightarrow> int" where "firstof sh chunk = chunk + sh_header sh"

section \<open>The operations\<close>

function tidy_loop :: "int \<Rightarrow> int \<Rightarrow> int \<Rightarrow> memory \<Rightarrow> memory" where
  "tidy_loop es p stop m = (if p < stop \<and> 0 < es then tidy_loop es (p + es) stop (set_nextof p (p + es) m) else m)"
  by pat_completeness auto
termination by (relation "measure (\<lambda>(es, p, stop, m). nat (stop - p))") auto
declare tidy_loop.simps [simp del]

definition tidy_last :: "shape \<Rightarrow> int \<Rightarrow> int" where
  "tidy_last sh chunk = firstof sh chunk + (sh_count sh - 1) * sh_size sh"

definition tidy_chunk :: "shape \<Rightarrow> int \<Rightarrow> memory \<Rightarrow> int \<times> memory" where
  "tidy_chunk sh chunk m = (let tail = tidy_last sh chunk in (tail, tidy_loop (sh_size sh) (firstof sh chunk) tail m))"

definition allocate_from_chunk :: "int \<Rightarrow> object_pool \<Rightarrow> int \<times> object_pool" where
  "allocate_from_chunk current p = (current, p\<lparr>op_first := nextof current (op_mem p)\<rparr>)"

definition allocate_from_process_heap :: "shape \<Rightarrow> int \<Rightarrow> object_pool \<Rightarrow> int \<times> object_pool" where
  "allocate_from_process_heap sh new_chunk p =
     (let (tail, m) = tidy_chunk sh new_chunk (op_mem p);
          m = set_nextof tail 0 m;
          m = set_nextof new_chunk (op_chunk p) m
      in allocate_from_chunk (firstof sh new_chunk) (p\<lparr>op_mem := m, op_chunk := new_chunk\<rparr>))"

definition get :: "shape \<Rightarrow> int \<Rightarrow> object_pool \<Rightarrow> int \<times> object_pool" where
  "get sh new_chunk p = (if op_first p \<noteq> 0 then allocate_from_chunk (op_first p) p else allocate_from_process_heap sh new_chunk p)"

definition release :: "int \<Rightarrow> object_pool \<Rightarrow> object_pool" where
  "release ptr p = p\<lparr>op_mem := set_nextof ptr (op_first p) (op_mem p), op_first := ptr\<rparr>"

definition empty_pool :: "memory \<Rightarrow> object_pool" where
  "empty_pool m = \<lparr>op_first = 0, op_chunk = 0, op_mem = m\<rparr>"

definition new_pool :: "shape \<Rightarrow> int \<Rightarrow> memory \<Rightarrow> object_pool" where
  "new_pool sh new_chunk m = (let (ptr, p) = allocate_from_process_heap sh new_chunk (empty_pool m) in release ptr p)"

text \<open>\<open>purge\<close> gives the chunks back, in the order of the answer.\<close>

partial_function (option) purge_loop :: "int \<Rightarrow> memory \<Rightarrow> int list option" where
  "purge_loop chunk m = (if chunk = 0 then Some [] else Option.bind (purge_loop (nextof chunk m) m) (\<lambda>cs. Some (chunk # cs)))"

definition purge :: "object_pool \<Rightarrow> (int list \<times> object_pool) option" where
  "purge p = (if op_chunk p = 0 then Some ([], p)
     else map_option (\<lambda>cs. (cs, p\<lparr>op_chunk := 0, op_first := 0\<rparr>)) (purge_loop (op_chunk p) (op_mem p)))"

partial_function (option) cleanup_loop :: "shape \<Rightarrow> int \<Rightarrow> int \<Rightarrow> memory \<Rightarrow> memory option" where
  "cleanup_loop sh tail chunk m =
     (let next_chunk = nextof chunk m
      in if next_chunk = 0 then Some (set_nextof tail 0 m)
         else let (tail', m') = tidy_chunk sh next_chunk (set_nextof tail (firstof sh next_chunk) m)
              in cleanup_loop sh tail' next_chunk m')"

definition cleanup :: "shape \<Rightarrow> object_pool \<Rightarrow> object_pool option" where
  "cleanup sh p = (if op_chunk p = 0 then Some p
     else case tidy_chunk sh (op_chunk p) (op_mem p) of (tail, m) \<Rightarrow>
       map_option (\<lambda>m. p\<lparr>op_mem := m, op_first := firstof sh (op_chunk p)\<rparr>) (cleanup_loop sh tail (op_chunk p) m))"

section \<open>Lists in memory\<close>

primrec linked :: "memory \<Rightarrow> int \<Rightarrow> int list \<Rightarrow> bool" where
  "linked m x [] \<longleftrightarrow> x = 0"
| "linked m x (a # as) \<longleftrightarrow> x = a \<and> a \<noteq> 0 \<and> linked m (m a) as"

lemma linked_cong: "(\<And>a. a \<in> set as \<Longrightarrow> m a = m' a) \<Longrightarrow> linked m x as \<longleftrightarrow> linked m' x as"
  by (induction as arbitrary: x) auto

lemma linked_zero [simp]: "linked m 0 as \<longleftrightarrow> as = []"
  by (cases as) auto

lemma linked_nonzero: "linked m x as \<Longrightarrow> x \<noteq> 0 \<Longrightarrow> \<exists>bs. as = x # bs \<and> linked m (m x) bs"
  by (cases as) auto

definition cells_from :: "shape \<Rightarrow> int \<Rightarrow> nat \<Rightarrow> int list" where
  "cells_from sh a n = map (\<lambda>k. a + int k * sh_size sh) [0..<n]"

lemma cells_from_Suc: "cells_from sh a (Suc n) = a # cells_from sh (a + sh_size sh) n"
  by (simp add: cells_from_def upt_conv_Cons map_Suc_upt [symmetric] algebra_simps del: upt_Suc map_Suc_upt)

definition cells :: "shape \<Rightarrow> int \<Rightarrow> int list" where
  "cells sh chunk = cells_from sh (firstof sh chunk) (nat (sh_count sh))"

definition shape_ok :: "shape \<Rightarrow> bool" where
  "shape_ok sh \<longleftrightarrow> 0 < sh_header sh \<and> 0 < sh_size sh \<and> 0 < sh_count sh"

definition chunk_span :: "shape \<Rightarrow> int \<Rightarrow> int set" where
  "chunk_span sh chunk = {chunk ..< chunk + sh_header sh + sh_size sh * sh_count sh}"

lemma cells_from_bounds:
  assumes "0 < sh_size sh" "x \<in> set (cells_from sh a n)"
  shows "a \<le> x" "x + sh_size sh \<le> a + sh_size sh * int n"
proof -
  obtain k where k: "k < n" "x = a + int k * sh_size sh" using assms(2) by (auto simp: cells_from_def)
  then show "a \<le> x" using assms(1) by simp
  have "(int k + 1) * sh_size sh \<le> int n * sh_size sh" using k(1) assms(1) by (intro mult_right_mono) auto
  then show "x + sh_size sh \<le> a + sh_size sh * int n" using k(2) by (simp add: algebra_simps)
qed

lemma cells_from_distinct: "0 < sh_size sh \<Longrightarrow> distinct (cells_from sh a n)"
  by (auto simp: cells_from_def distinct_map inj_on_def)

lemma cells_span: "shape_ok sh \<Longrightarrow> x \<in> set (cells sh chunk) \<Longrightarrow> x \<in> chunk_span sh chunk \<and> x \<noteq> chunk"
  using cells_from_bounds [of sh x "firstof sh chunk" "nat (sh_count sh)"] by (auto simp: cells_def shape_ok_def chunk_span_def firstof_def)

lemma tidy_loop_eq:
  assumes "0 < sh_size sh"
  shows "tidy_loop (sh_size sh) a (a + int n * sh_size sh) m = (\<lambda>x. if x \<in> set (cells_from sh a n) then x + sh_size sh else m x)"
proof (induction n arbitrary: a m)
  case 0
  then show ?case by (simp add: tidy_loop.simps cells_from_def)
next
  case (Suc n)
  have e: "a + int (Suc n) * sh_size sh = (a + sh_size sh) + int n * sh_size sh" by (simp add: algebra_simps)
  have lt: "a < a + int (Suc n) * sh_size sh" using assms by simp
  have "tidy_loop (sh_size sh) a (a + int (Suc n) * sh_size sh) m =
      tidy_loop (sh_size sh) (a + sh_size sh) ((a + sh_size sh) + int n * sh_size sh) (m(a := a + sh_size sh))"
    using lt assms unfolding e by (subst tidy_loop.simps) (simp add: set_nextof_def)
  also have "\<dots> = (\<lambda>x. if x \<in> set (cells_from sh a (Suc n)) then x + sh_size sh else m x)"
    unfolding Suc.IH by (auto simp: cells_from_Suc fun_eq_iff)
  finally show ?case .
qed

section \<open>What the loops leave in memory\<close>

lemma tidy_chunk_eq:
  assumes "shape_ok sh"
  shows "tidy_chunk sh chunk m = (tidy_last sh chunk,
    \<lambda>x. if x \<in> set (cells_from sh (firstof sh chunk) (nat (sh_count sh - 1))) then x + sh_size sh else m x)"
proof -
  have l: "tidy_last sh chunk = firstof sh chunk + int (nat (sh_count sh - 1)) * sh_size sh"
    using assms by (simp add: tidy_last_def shape_ok_def)
  show ?thesis using assms unfolding tidy_chunk_def Let_def l by (subst tidy_loop_eq) (simp_all add: shape_ok_def)
qed

lemma cells_from_append: "cells_from sh a (Suc n) = cells_from sh a n @ [a + int n * sh_size sh]"
  by (simp add: cells_from_def)

lemma cells_split:
  assumes "shape_ok sh"
  shows "cells sh chunk = cells_from sh (firstof sh chunk) (nat (sh_count sh - 1)) @ [tidy_last sh chunk]"
proof -
  have "nat (sh_count sh) = Suc (nat (sh_count sh - 1))" "int (nat (sh_count sh - 1)) = sh_count sh - 1"
    using assms by (auto simp: shape_ok_def)
  then show ?thesis by (simp add: cells_def cells_from_append tidy_last_def)
qed

lemma linked_cells_from:
  assumes "\<And>x. x \<in> set (cells_from sh a n) \<Longrightarrow> m x = x + sh_size sh" "0 < a" "0 < sh_size sh"
    "linked m (a + int n * sh_size sh) as"
  shows "linked m a (cells_from sh a n @ as)"
  using assms
proof (induction n arbitrary: a)
  case 0
  then show ?case by (simp add: cells_from_def)
next
  case (Suc n)
  have "linked m (a + sh_size sh) (cells_from sh (a + sh_size sh) n @ as)"
    by (rule Suc.IH) (use Suc.prems in \<open>auto simp: cells_from_Suc algebra_simps\<close>)
  with Suc.prems show ?case by (auto simp: cells_from_Suc)
qed

text \<open>A tidied chunk whose last slot points to a list heads that list with its slots.\<close>

lemma tidied_linked:
  assumes sh: "shape_ok sh" and pos: "0 < chunk"
    and m: "\<And>x. x \<in> set (cells sh chunk) \<Longrightarrow> x \<noteq> tidy_last sh chunk \<Longrightarrow> m x = x + sh_size sh"
    and l: "linked m (m (tidy_last sh chunk)) as"
  shows "linked m (firstof sh chunk) (cells sh chunk @ as)"
proof -
  let ?n = "nat (sh_count sh - 1)"
  have p: "0 < sh_size sh" "0 < firstof sh chunk" using sh pos by (simp_all add: shape_ok_def firstof_def)
  have tl: "tidy_last sh chunk = firstof sh chunk + int ?n * sh_size sh" using sh by (simp add: tidy_last_def shape_ok_def)
  have ne: "x \<noteq> tidy_last sh chunk" if "x \<in> set (cells_from sh (firstof sh chunk) ?n)" for x
    using cells_from_bounds(2) [OF p(1) that] p(1) by (simp add: tl algebra_simps)
  have "linked m (firstof sh chunk) (cells_from sh (firstof sh chunk) ?n @ (tidy_last sh chunk # as))"
  proof (rule linked_cells_from [OF _ p(2,1)])
    show "m x = x + sh_size sh" if "x \<in> set (cells_from sh (firstof sh chunk) ?n)" for x
      using m [of x] ne [OF that] that by (simp add: cells_split [OF sh])
    have "0 < tidy_last sh chunk" using p by (simp add: tl add_pos_nonneg)
    then show "linked m (firstof sh chunk + int ?n * sh_size sh) (tidy_last sh chunk # as)" using l by (simp add: tl)
  qed
  then show ?thesis by (simp add: cells_split [OF sh])
qed

section \<open>The invariant\<close>

definition chunks_ok :: "shape \<Rightarrow> int list \<Rightarrow> bool" where
  "chunks_ok sh cs \<longleftrightarrow> distinct cs \<and> (\<forall>c \<in> set cs. 0 < c) \<and>
     (\<forall>c \<in> set cs. \<forall>d \<in> set cs. c \<noteq> d \<longrightarrow> chunk_span sh c \<inter> chunk_span sh d = {})"

definition all_cells :: "shape \<Rightarrow> int list \<Rightarrow> int list" where
  "all_cells sh cs = concat (map (cells sh) cs)"

text \<open>The pool with the chunks \<open>cs\<close>, the free slots \<open>free\<close> in the order of the list, and the slots
  \<open>live\<close> that are given out.\<close>

definition pool_ok :: "shape \<Rightarrow> int list \<Rightarrow> int list \<Rightarrow> int list \<Rightarrow> object_pool \<Rightarrow> bool" where
  "pool_ok sh cs free live p \<longleftrightarrow> chunks_ok sh cs \<and> linked (op_mem p) (op_chunk p) cs \<and>
     linked (op_mem p) (op_first p) free \<and> distinct (free @ live) \<and> set (free @ live) = set (all_cells sh cs)"

definition fresh_chunk :: "shape \<Rightarrow> int list \<Rightarrow> int \<Rightarrow> bool" where
  "fresh_chunk sh cs c \<longleftrightarrow> 0 < c \<and> (\<forall>d \<in> set cs. chunk_span sh c \<inter> chunk_span sh d = {})"

lemma self_span: "shape_ok sh \<Longrightarrow> c \<in> chunk_span sh c"
  by (simp add: chunk_span_def shape_ok_def add_pos_nonneg)

lemma fresh_new: "shape_ok sh \<Longrightarrow> fresh_chunk sh cs c \<Longrightarrow> c \<notin> set cs"
  using self_span by (auto simp: fresh_chunk_def)

lemma chunks_ok_Cons: "shape_ok sh \<Longrightarrow> chunks_ok sh (c # cs) \<longleftrightarrow> chunks_ok sh cs \<and> fresh_chunk sh cs c"
  using fresh_new [of sh cs c] self_span [of sh c] unfolding chunks_ok_def fresh_chunk_def by fastforce

lemma all_cells_span: "shape_ok sh \<Longrightarrow> x \<in> set (all_cells sh cs) \<Longrightarrow> \<exists>c \<in> set cs. x \<in> chunk_span sh c \<and> x \<noteq> c \<and> x \<in> set (cells sh c)"
  using cells_span by (fastforce simp: all_cells_def)

lemma headers_not_cells:
  assumes "shape_ok sh" "chunks_ok sh cs" "c \<in> set cs"
  shows "c \<notin> set (all_cells sh cs)"
proof
  assume "c \<in> set (all_cells sh cs)"
  then obtain d where "d \<in> set cs" "c \<in> chunk_span sh d" "c \<noteq> d" using all_cells_span [OF assms(1)] by blast
  with assms(2,3) self_span [OF assms(1), of c] show False by (auto simp: chunks_ok_def)
qed

lemma all_cells_distinct: "shape_ok sh \<Longrightarrow> chunks_ok sh cs \<Longrightarrow> distinct (all_cells sh cs)"
proof (induction cs)
  case (Cons c cs)
  have "set (cells sh c) \<inter> set (all_cells sh cs) = {}"
    using Cons.prems all_cells_span [of sh _ cs] cells_span [of sh _ c] unfolding chunks_ok_Cons [OF Cons.prems(1)] fresh_chunk_def by blast
  moreover have "distinct (cells sh c)" using Cons.prems(1) by (simp add: cells_def cells_from_distinct shape_ok_def)
  ultimately show ?case using Cons by (simp add: chunks_ok_Cons all_cells_def)
qed (simp add: all_cells_def)

section \<open>The operations keep it\<close>

lemma tidied:
  assumes sh: "shape_ok sh" and t: "tidy_chunk sh chunk m = (l, m')"
  shows "l = tidy_last sh chunk" "x \<in> set (cells sh chunk) \<Longrightarrow> x \<noteq> l \<Longrightarrow> m' x = x + sh_size sh" "x \<notin> set (cells sh chunk) \<Longrightarrow> m' x = m x"
  using t unfolding tidy_chunk_eq [OF sh] by (auto simp: cells_split [OF sh])

lemma last_in_cells: "shape_ok sh \<Longrightarrow> tidy_last sh chunk \<in> set (cells sh chunk)"
  by (simp add: cells_split)

lemma cells_hd: "shape_ok sh \<Longrightarrow> cells sh chunk \<noteq> [] \<and> hd (cells sh chunk) = firstof sh chunk"
  by (auto simp: cells_def cells_from_def shape_ok_def hd_map)

lemma heap_allocation:
  assumes sh: "shape_ok sh" and cs: "chunks_ok sh cs" "linked (op_mem p) (op_chunk p) cs" and new: "fresh_chunk sh cs c"
    and a: "allocate_from_process_heap sh c p = (ptr, p')"
  shows "ptr = firstof sh c" "linked (op_mem p') (op_first p') (tl (cells sh c))" "linked (op_mem p') (op_chunk p') (c # cs)"
    "\<And>x. x \<notin> set (c # cells sh c) \<Longrightarrow> op_mem p' x = op_mem p x"
proof -
  obtain l m where t: "tidy_chunk sh c (op_mem p) = (l, m)" by fastforce
  note tl = tidied [OF sh t]
  let ?m = "set_nextof c (op_chunk p) (set_nextof l 0 m)"
  have p': "ptr = firstof sh c" "p' = p\<lparr>op_mem := ?m, op_chunk := c, op_first := ?m (firstof sh c)\<rparr>"
    using a unfolding allocate_from_process_heap_def t by (auto simp: allocate_from_chunk_def nextof_def Let_def)
  show "ptr = firstof sh c" by (fact p'(1))
  have c: "0 < c" "c \<notin> set (cells sh c)" using new cells_span [OF sh, of c c] by (auto simp: fresh_chunk_def)
  have "linked ?m (firstof sh c) (cells sh c @ [])"
  proof (rule tidied_linked [OF sh c(1)])
    show "?m x = x + sh_size sh" if "x \<in> set (cells sh c)" "x \<noteq> tidy_last sh c" for x
      using tl(1) tl(2) [of x] that c(2) by (auto simp: set_nextof_def)
    show "linked ?m (?m (tidy_last sh c)) []"
      using tl(1) last_in_cells [OF sh, of c] c(2) by (auto simp: set_nextof_def)
  qed
  then show "linked (op_mem p') (op_first p') (tl (cells sh c))"
    using cells_hd [OF sh, of c] by (cases "cells sh c") (auto simp: p')
  show out: "op_mem p' x = op_mem p x" if "x \<notin> set (c # cells sh c)" for x
    using that tl last_in_cells [OF sh, of c] by (auto simp: p' set_nextof_def)
  have "linked (op_mem p') (op_chunk p) cs"
    by (rule iffD1 [OF linked_cong cs(2)], rule out [symmetric])
      (use fresh_new [OF sh new] new cells_span [OF sh, of _ c] self_span [OF sh] in \<open>fastforce simp: fresh_chunk_def\<close>)
  then show "linked (op_mem p') (op_chunk p') (c # cs)" using c(1) by (simp add: p' set_nextof_def)
qed

lemma heap_allocation_ok:
  assumes sh: "shape_ok sh" and ok: "pool_ok sh cs [] live p" and new: "fresh_chunk sh cs c"
    and a: "allocate_from_process_heap sh c p = (ptr, p')"
  shows "ptr = firstof sh c" "pool_ok sh (c # cs) (tl (cells sh c)) (firstof sh c # live) p'"
proof -
  have cs: "chunks_ok sh cs" "linked (op_mem p) (op_chunk p) cs" and l: "distinct live" "set live = set (all_cells sh cs)"
    using ok by (simp_all add: pool_ok_def)
  note h = heap_allocation [OF sh cs new a]
  show "ptr = firstof sh c" by (fact h(1))
  have ok': "chunks_ok sh (c # cs)" using cs new by (simp add: chunks_ok_Cons [OF sh])
  have d: "distinct (cells sh c @ all_cells sh cs)" using all_cells_distinct [OF sh ok'] by (simp add: all_cells_def)
  have e: "cells sh c = firstof sh c # tl (cells sh c)" using cells_hd [OF sh, of c] by (cases "cells sh c") auto
  then have s: "set (cells sh c) = insert (firstof sh c) (set (tl (cells sh c)))" and dc: "distinct (firstof sh c # tl (cells sh c))"
    using d by (metis list.simps(15), metis distinct_append)
  have "distinct (tl (cells sh c) @ firstof sh c # live)" using d dc l s by auto
  moreover have "set (tl (cells sh c) @ firstof sh c # live) = set (all_cells sh (c # cs))" using l s by (auto simp: all_cells_def)
  ultimately show "pool_ok sh (c # cs) (tl (cells sh c)) (firstof sh c # live) p'"
    using h(2,3) ok' by (simp add: pool_ok_def)
qed

lemma get_ok:
  assumes sh: "shape_ok sh" and ok: "pool_ok sh cs free live p" and new: "fresh_chunk sh cs c" and g: "get sh c p = (ptr, p')"
  shows "free = x # xs \<Longrightarrow> ptr = x \<and> pool_ok sh cs xs (x # live) p'"
    "free = [] \<Longrightarrow> ptr = firstof sh c \<and> pool_ok sh (c # cs) (tl (cells sh c)) (firstof sh c # live) p'"
proof -
  assume f: "free = x # xs"
  then have "op_first p = x" "x \<noteq> 0" "linked (op_mem p) (op_mem p x) xs" using ok by (simp_all add: pool_ok_def)
  with g ok f show "ptr = x \<and> pool_ok sh cs xs (x # live) p'"
    by (auto simp: get_def allocate_from_chunk_def nextof_def pool_ok_def)
next
  assume f: "free = []"
  then have "op_first p = 0" using ok by (simp add: pool_ok_def)
  then have "allocate_from_process_heap sh c p = (ptr, p')" using g by (simp add: get_def)
  with heap_allocation_ok [OF sh _ new this] ok f
  show "ptr = firstof sh c \<and> pool_ok sh (c # cs) (tl (cells sh c)) (firstof sh c # live) p'" by simp
qed

lemma cells_positive: "shape_ok sh \<Longrightarrow> chunks_ok sh cs \<Longrightarrow> x \<in> set (all_cells sh cs) \<Longrightarrow> 0 < x"
  using all_cells_span [of sh x cs] by (fastforce simp: chunks_ok_def chunk_span_def)

lemma release_ok:
  assumes sh: "shape_ok sh" and ok: "pool_ok sh cs free live p" and x: "x \<in> set live"
  shows "pool_ok sh cs (x # free) (remove1 x live) (release x p)"
proof -
  have d: "distinct (free @ live)" and s: "set (free @ live) = set (all_cells sh cs)" and cs: "chunks_ok sh cs" using ok by (simp_all add: pool_ok_def)
  have xa: "x \<in> set (all_cells sh cs)" "x \<notin> set free" using s d x by auto
  have "x \<notin> set cs" using headers_not_cells [OF sh cs] xa(1) by blast
  then have c: "linked (op_mem (release x p)) (op_chunk p) cs"
    using ok by (subst linked_cong [of _ _ "op_mem p"]) (auto simp: release_def set_nextof_def pool_ok_def)
  have "linked (op_mem (release x p)) (op_first p) free"
    using ok xa(2) by (subst linked_cong [of _ _ "op_mem p"]) (auto simp: release_def set_nextof_def pool_ok_def)
  then have f: "linked (op_mem (release x p)) (op_first (release x p)) (x # free)"
    using cells_positive [OF sh cs xa(1)] by (simp add: release_def set_nextof_def)
  show ?thesis unfolding pool_ok_def
    using cs c f d s x xa(2) by (auto simp: release_def distinct_remove1)
qed

text \<open>What an owner may overwrite: the bytes of the slots it holds.\<close>

definition owner_writes :: "shape \<Rightarrow> int list \<Rightarrow> memory \<Rightarrow> memory \<Rightarrow> bool" where
  "owner_writes sh live m m' \<longleftrightarrow> (\<forall>a. (\<forall>x \<in> set live. a \<notin> {x ..< x + sh_size sh}) \<longrightarrow> m' a = m a)"

lemma cells_from_apart:
  assumes "x \<in> set (cells_from sh a n)" "y \<in> set (cells_from sh a n)" "x \<noteq> y" "0 < sh_size sh"
  shows "y \<notin> {x ..< x + sh_size sh}"
proof
  assume y: "y \<in> {x ..< x + sh_size sh}"
  obtain i j where ij: "x = a + int i * sh_size sh" "y = a + int j * sh_size sh" using assms(1,2) by (auto simp: cells_from_def)
  with y have "int i * sh_size sh \<le> int j * sh_size sh" "int j * sh_size sh < (int i + 1) * sh_size sh" by (auto simp: algebra_simps)
  then have "int i \<le> int j" "int j < int i + 1" using assms(4) by (simp_all add: mult_le_cancel_right mult_less_cancel_right)
  then show False using assms(3) ij by simp
qed

lemma cell_bytes:
  assumes sh: "shape_ok sh" and cs: "chunks_ok sh cs" and x: "x \<in> set (all_cells sh cs)"
    and y: "y \<in> set cs \<or> y \<in> set (all_cells sh cs) \<and> y \<noteq> x"
  shows "y \<notin> {x ..< x + sh_size sh}"
proof
  assume yx: "y \<in> {x ..< x + sh_size sh}"
  obtain c where c: "c \<in> set cs" "x \<in> set (cells sh c)" using all_cells_span [OF sh x] by blast
  have "x + sh_size sh \<le> firstof sh c + sh_size sh * sh_count sh" "firstof sh c \<le> x"
    using cells_from_bounds [of sh x "firstof sh c" "nat (sh_count sh)"] c(2) sh by (simp_all add: cells_def shape_ok_def)
  then have yc: "y \<in> chunk_span sh c" "c < y" using yx sh by (auto simp: chunk_span_def firstof_def shape_ok_def)
  obtain d where d: "d \<in> set cs" "y \<in> chunk_span sh d" "y = d \<or> y \<in> set (cells sh d)"
    using y self_span [OF sh] all_cells_span [OF sh, of y cs] by blast
  have "d = c" using cs c(1) d(1,2) yc(1) by (auto simp: chunks_ok_def)
  with yc(2) d(3) have yd: "y \<in> set (cells sh c)" by auto
  have "y \<noteq> x" using y x headers_not_cells [OF sh cs] by auto
  with cells_from_apart [of x sh "firstof sh c" "nat (sh_count sh)" y] c(2) yd yx sh show False by (simp add: cells_def shape_ok_def)
qed

lemma owner_writes_ok:
  assumes sh: "shape_ok sh" and ok: "pool_ok sh cs free live p" and w: "owner_writes sh live (op_mem p) m'"
  shows "pool_ok sh cs free live (p\<lparr>op_mem := m'\<rparr>)"
proof -
  have d: "distinct (free @ live)" and s: "set (free @ live) = set (all_cells sh cs)" and cs: "chunks_ok sh cs" using ok by (simp_all add: pool_ok_def)
  have same: "m' y = op_mem p y" if "y \<in> set cs \<or> y \<in> set free" for y
  proof -
    have "y \<notin> {x ..< x + sh_size sh}" if x: "x \<in> set live" for x
      by (rule cell_bytes [OF sh cs]) (use x \<open>y \<in> set cs \<or> y \<in> set free\<close> s d in auto)
    then show ?thesis using w by (auto simp: owner_writes_def)
  qed
  have "linked m' (op_chunk p) cs \<longleftrightarrow> linked (op_mem p) (op_chunk p) cs" "linked m' (op_first p) free \<longleftrightarrow> linked (op_mem p) (op_first p) free"
    by (rule linked_cong, simp add: same)+
  with ok show ?thesis by (simp add: pool_ok_def)
qed

section \<open>Runs\<close>

text \<open>A client takes objects, writes to those it holds and gives them back.  \<open>Take c\<close> says which
  chunk \<open>new\<close> would return, and is answered by the object; the client's state is the list of the
  objects it holds.\<close>

inductive pool_step :: "shape \<Rightarrow> object_pool \<times> int list \<Rightarrow> object_pool \<times> int list \<Rightarrow> bool" for sh where
  Take: "fresh_chunk sh cs c \<Longrightarrow> linked (op_mem p) (op_chunk p) cs \<Longrightarrow> get sh c p = (ptr, p') \<Longrightarrow>
    pool_step sh (p, live) (p', ptr # live)"
| Give_back: "x \<in> set live \<Longrightarrow> pool_step sh (p, live) (release x p, remove1 x live)"
| Write: "owner_writes sh live (op_mem p) m \<Longrightarrow> pool_step sh (p, live) (p\<lparr>op_mem := m\<rparr>, live)"

lemma linked_unique: "linked m x as \<Longrightarrow> linked m x bs \<Longrightarrow> as = bs"
proof (induction as arbitrary: x bs)
  case (Cons a as)
  then show ?case by (cases bs) auto
qed simp

lemma new_pool_ok:
  assumes sh: "shape_ok sh" and c: "0 < c"
  shows "pool_ok sh [c] (cells sh c) [] (new_pool sh c m)"
proof -
  obtain ptr p where a: "allocate_from_process_heap sh c (empty_pool m) = (ptr, p)" by fastforce
  have "pool_ok sh [] [] [] (empty_pool m)" by (simp add: pool_ok_def chunks_ok_def empty_pool_def all_cells_def)
  from heap_allocation_ok [OF sh this _ a] c
  have p: "ptr = firstof sh c" "pool_ok sh [c] (tl (cells sh c)) [firstof sh c] p" by (simp_all add: fresh_chunk_def)
  have "firstof sh c # tl (cells sh c) = cells sh c" using cells_hd [OF sh, of c] by (cases "cells sh c") auto
  with release_ok [OF sh p(2), of "firstof sh c"] show ?thesis by (simp add: new_pool_def a p(1))
qed

lemma pool_step_ok:
  assumes "pool_step sh s s'" "shape_ok sh" "pool_ok sh cs free (snd s) (fst s)"
  shows "\<exists>cs' free'. pool_ok sh cs' free' (snd s') (fst s')"
  using assms(1)
proof cases
  case (Take cs2 c p ptr p' live)
  have "cs2 = cs" using Take assms(3) linked_unique by (fastforce simp: pool_ok_def)
  then have new: "fresh_chunk sh cs c" and ok: "pool_ok sh cs free live p" using Take assms(3) by simp_all
  show ?thesis using get_ok [OF assms(2) ok new Take(5)] Take by (cases free) (auto simp del: cells_def)
next
  case (Give_back x live p)
  then show ?thesis using release_ok [OF assms(2), of cs free live p x] assms(3) by auto
next
  case (Write live p m)
  then show ?thesis using owner_writes_ok [OF assms(2), of cs free live p m] assms(3) by auto
qed

lemma run_ok:
  assumes "(pool_step sh)\<^sup>*\<^sup>* (new_pool sh c m, []) s" "shape_ok sh" "0 < c"
  shows "\<exists>cs free. pool_ok sh cs free (snd s) (fst s)"
  using assms(1)
proof (induction rule: rtranclp_induct)
  case base
  then show ?case using new_pool_ok [OF assms(2,3), of m] by auto
next
  case (step s s')
  then show ?case using pool_step_ok [OF step.hyps(2) assms(2)] by blast
qed

text \<open>C25: No object is handed out while it is held: whatever the client takes, writes and gives back,
  the objects it holds are different slots, and the bytes of any two of them are apart.\<close>

theorem pool_hands_out_once:
  assumes "(pool_step sh)\<^sup>*\<^sup>* (new_pool sh c m, []) (p, live)" "shape_ok sh" "0 < c"
  shows "distinct live \<and> (\<forall>x y. x \<in> set live \<and> y \<in> set live \<and> x \<noteq> y \<longrightarrow> {x ..< x + sh_size sh} \<inter> {y ..< y + sh_size sh} = {})"
proof -
  obtain cs free where ok: "pool_ok sh cs free live p" using run_ok [OF assms] by auto
  have d: "distinct live" and s: "set live \<subseteq> set (all_cells sh cs)" and cs: "chunks_ok sh cs" using ok by (auto simp: pool_ok_def)
  have "{x ..< x + sh_size sh} \<inter> {y ..< y + sh_size sh} = {}" if xy: "x \<in> set live" "y \<in> set live" "x \<noteq> y" for x y
  proof -
    have "y \<notin> {x ..< x + sh_size sh}" "x \<notin> {y ..< y + sh_size sh}"
      using cell_bytes [OF assms(2) cs, of x y] cell_bytes [OF assms(2) cs, of y x] xy s by auto
    then show ?thesis by auto
  qed
  with d show ?thesis by blast
qed

text \<open>The free list is a stack: what has just been given back is taken next, whatever its owner had
  written there, and no memory is asked for as long as a slot is free.\<close>

theorem pool_reuses_last_released:
  assumes "(pool_step sh)\<^sup>*\<^sup>* (new_pool sh c m, []) (p, live)" "shape_ok sh" "0 < c" "x \<in> set live"
  shows "fst (get sh d (release x p)) = x \<and> op_chunk (snd (get sh d (release x p))) = op_chunk p \<and>
    op_first (snd (get sh d (release x p))) = op_first p"
proof -
  obtain cs free where ok: "pool_ok sh cs free live p" using run_ok [OF assms(1-3)] by auto
  then have "x \<in> set (all_cells sh cs)" "chunks_ok sh cs" using assms(4) by (auto simp: pool_ok_def)
  then have "0 < x" using cells_positive [OF assms(2)] by blast
  then show ?thesis by (simp add: get_def release_def allocate_from_chunk_def nextof_def set_nextof_def)
qed

section \<open>cleanup and purge\<close>

lemma purge_loop_eq: "linked m c cs \<Longrightarrow> purge_loop c m = Some cs"
proof (induction cs arbitrary: c)
  case Nil
  then show ?case by (subst purge_loop.simps) simp
next
  case (Cons a cs)
  then have "purge_loop (m a) m = Some cs" by simp
  then show ?case using Cons.prems by (subst purge_loop.simps) (simp add: nextof_def)
qed

lemma cleanup_loop_eq:
  assumes sh: "shape_ok sh" and ok: "chunks_ok sh (c # cs)" and l: "linked m (m c) cs" and t: "t \<in> set (cells sh c)"
  shows "\<exists>m'. cleanup_loop sh t c m = Some m' \<and> linked m' (m' t) (all_cells sh cs) \<and>
    (\<forall>a. a \<noteq> t \<longrightarrow> a \<notin> set (all_cells sh cs) \<longrightarrow> m' a = m a)"
  using ok l t
proof (induction cs arbitrary: c m t)
  case Nil
  then show ?case by (subst cleanup_loop.simps) (simp add: nextof_def all_cells_def set_nextof_def)
next
  case (Cons d cs)
  have d: "m c = d" "0 < d" "linked m (m d) cs" using Cons.prems(1,2) by (auto simp: chunks_ok_def)
  have okd: "chunks_ok sh (d # cs)" using Cons.prems(1) by (simp add: chunks_ok_Cons [OF sh])
  let ?m = "set_nextof t (firstof sh d) m"
  obtain t' m1 where td: "tidy_chunk sh d ?m = (t', m1)" by fastforce
  note tl = tidied [OF sh td]
  have t': "t' \<in> set (cells sh d)" using tl(1) last_in_cells [OF sh] by simp
  have "t \<in> chunk_span sh c" using cells_span [OF sh Cons.prems(3)] by simp
  then have tout: "t \<notin> chunk_span sh e" if "e \<in> set (d # cs)" for e
    using Cons.prems(1) that unfolding chunks_ok_Cons [OF sh] fresh_chunk_def by auto
  have tn: "t \<notin> set (cells sh d)" "t \<notin> set (all_cells sh cs)" "t \<notin> set (d # cs)"
    using tout all_cells_span [OF sh, of t cs] cells_span [OF sh, of t d] self_span [OF sh] by auto
  have hdr: "e \<notin> set (cells sh d)" if "e \<in> set (d # cs)" for e
    using headers_not_cells [OF sh okd that] by (simp add: all_cells_def)
  have m1: "m1 e = m e" if "e \<in> set (d # cs)" for e using tl(3) hdr [OF that] tn(3) that by (auto simp: set_nextof_def)
  have "linked m1 (m1 d) cs" using d(3) m1 by (subst linked_cong [of _ _ m]) auto
  from Cons.IH [OF okd this t'] obtain m' where m': "cleanup_loop sh t' d m1 = Some m'" "linked m' (m' t') (all_cells sh cs)"
      "\<And>a. a \<noteq> t' \<Longrightarrow> a \<notin> set (all_cells sh cs) \<Longrightarrow> m' a = m1 a" by blast
  have r: "cleanup_loop sh t c m = Some m'" using d(1,2) m'(1) by (subst cleanup_loop.simps) (simp add: nextof_def td)
  have dis: "x \<notin> set (all_cells sh cs)" if "x \<in> set (cells sh d)" for x
    using all_cells_distinct [OF sh okd] that by (auto simp: all_cells_def)
  have "linked m' (firstof sh d) (cells sh d @ all_cells sh cs)"
  proof (rule tidied_linked [OF sh d(2)])
    show "m' x = x + sh_size sh" if "x \<in> set (cells sh d)" "x \<noteq> tidy_last sh d" for x
      using m'(3) [of x] tl(1) tl(2) [of x] dis that by auto
    show "linked m' (m' (tidy_last sh d)) (all_cells sh cs)" using m'(2) tl(1) by simp
  qed
  moreover have "m' t = firstof sh d" using m'(3) [of t] tl(3) [of t] tn t' by (auto simp: set_nextof_def)
  moreover have "m' a = m a" if "a \<noteq> t" "a \<notin> set (all_cells sh (d # cs))" for a
    using that m'(3) [of a] tl(3) [of a] t' by (auto simp: all_cells_def set_nextof_def)
  ultimately show ?case using r by (auto simp: all_cells_def)
qed

lemma cleanup_ok:
  assumes sh: "shape_ok sh" and ok: "pool_ok sh cs free live p"
  shows "\<exists>p'. cleanup sh p = Some p' \<and> pool_ok sh cs (all_cells sh cs) [] p'"
proof (cases cs)
  case Nil
  then show ?thesis using ok by (auto simp: cleanup_def pool_ok_def all_cells_def)
next
  case (Cons c ds)
  have cs: "chunks_ok sh (c # ds)" "op_chunk p = c" "0 < c" "linked (op_mem p) (op_mem p c) ds"
    using ok by (auto simp: pool_ok_def Cons chunks_ok_def)
  obtain t m where td: "tidy_chunk sh c (op_mem p) = (t, m)" by fastforce
  note tl = tidied [OF sh td]
  have t: "t \<in> set (cells sh c)" using tl(1) last_in_cells [OF sh] by simp
  have hdr: "e \<notin> set (cells sh c)" "e \<notin> set (all_cells sh ds)" if "e \<in> set cs" for e
    using headers_not_cells [OF sh cs(1), of e] that by (simp_all add: all_cells_def Cons)
  have "linked m (m c) ds"
    using cs(4) tl(3) hdr(1) by (subst linked_cong [of _ _ "op_mem p"]) (auto simp: Cons)
  from cleanup_loop_eq [OF sh cs(1) this t] obtain m' where m': "cleanup_loop sh t c m = Some m'" "linked m' (m' t) (all_cells sh ds)"
      "\<And>a. a \<noteq> t \<Longrightarrow> a \<notin> set (all_cells sh ds) \<Longrightarrow> m' a = m a" by blast
  let ?p = "p\<lparr>op_mem := m', op_first := firstof sh c\<rparr>"
  have d: "distinct (all_cells sh cs)" using all_cells_distinct [OF sh cs(1)] by (simp add: Cons)
  have "linked m' (firstof sh c) (cells sh c @ all_cells sh ds)"
  proof (rule tidied_linked [OF sh cs(3)])
    show "m' x = x + sh_size sh" if "x \<in> set (cells sh c)" "x \<noteq> tidy_last sh c" for x
      using m'(3) [of x] tl(1) tl(2) [of x] d that by (auto simp: all_cells_def Cons)
    show "linked m' (m' (tidy_last sh c)) (all_cells sh ds)" using m'(2) tl(1) by simp
  qed
  moreover have "linked m' c cs"
  proof (rule iffD2 [OF linked_cong])
    show "m' a = op_mem p a" if "a \<in> set cs" for a using m'(3) [of a] tl(3) [of a] hdr [OF that] t by auto
    show "linked (op_mem p) c cs" using ok cs(2) by (simp add: pool_ok_def)
  qed
  ultimately have "pool_ok sh cs (all_cells sh cs) [] ?p"
    using cs(1,2) d by (simp add: pool_ok_def Cons all_cells_def)
  then show ?thesis using cs(2,3) m'(1) by (auto simp: cleanup_def td)
qed

text \<open>C36: Both loops over the chunks end.  \<open>purge\<close> gives every chunk back once, and \<open>cleanup\<close> puts every
  slot into the free list, chunk by chunk in the order of addresses: also those that the client
  still holds, so it may only be called when it holds none.\<close>

theorem pool_cleanup_and_purge:
  assumes "(pool_step sh)\<^sup>*\<^sup>* (new_pool sh c m, []) (p, live)" "shape_ok sh" "0 < c"
  shows "\<exists>cs p'. distinct cs \<and> purge p = Some (cs, p\<lparr>op_chunk := 0, op_first := 0\<rparr>) \<and> set live \<subseteq> set (all_cells sh cs) \<and>
    cleanup sh p = Some p' \<and> linked (op_mem p') (op_first p') (all_cells sh cs) \<and> op_chunk p' = op_chunk p"
proof -
  obtain cs free where ok: "pool_ok sh cs free live p" using run_ok [OF assms] by auto
  obtain p' where p': "cleanup sh p = Some p'" "pool_ok sh cs (all_cells sh cs) [] p'" using cleanup_ok [OF assms(2) ok] by blast
  have l: "linked (op_mem p) (op_chunk p) cs" using ok by (simp add: pool_ok_def)
  have "purge p = Some (cs, p\<lparr>op_chunk := 0, op_first := 0\<rparr>)"
  proof (cases "op_chunk p = 0")
    case True
    then have "cs = []" using l by simp
    then have "op_first p = 0" using ok by (auto simp: pool_ok_def all_cells_def)
    with True \<open>cs = []\<close> show ?thesis by (simp add: purge_def)
  qed (use purge_loop_eq [OF l] in \<open>simp add: purge_def\<close>)
  moreover have "op_chunk p' = op_chunk p" using p'(1) by (auto simp: cleanup_def split: if_splits prod.splits)
  moreover have "distinct cs" "set live \<subseteq> set (all_cells sh cs)" using ok by (auto simp: pool_ok_def chunks_ok_def)
  ultimately show ?thesis using p' by (auto simp: pool_ok_def)
qed

text \<open>With \<open>element_count = 0\<close> the count of slots before the last wraps to minus one: the end of the
  free list is written before the first slot, at \<open>sh_size - sh_header\<close> bytes before the chunk when a
  slot is longer than the header, and the slot handed out lies behind the end of the chunk.\<close>

theorem empty_chunk_written_outside:
  assumes "sh_count sh = 0" "0 < sh_size sh" "0 < sh_header sh" "sh_header sh < sh_size sh" "op_chunk p = 0"
  shows "let (ptr, p') = allocate_from_process_heap sh c p
    in ptr \<notin> chunk_span sh c \<and> c + sh_header sh - sh_size sh \<notin> chunk_span sh c \<and>
       op_mem p' = (op_mem p)(c + sh_header sh - sh_size sh := 0, c := 0)"
  using assms by (auto simp: allocate_from_process_heap_def tidy_chunk_def tidy_last_def firstof_def tidy_loop.simps
      set_nextof_def allocate_from_chunk_def chunk_span_def Let_def fun_eq_iff)

text \<open>Three objects from chunks of two: the first is overwritten by its owner, the third needs a
  second chunk; then the first is given back.\<close>

definition demo_shape :: shape where "demo_shape = \<lparr>sh_header = 16, sh_size = 16, sh_count = 2\<rparr>"

definition demo_pool :: object_pool where
  "demo_pool = \<lparr>op_first = 2032, op_chunk = 2000,
     op_mem = (\<lambda>_. 0)(1016 := 77, 1024 := 78, 1032 := 0, 1000 := 0, 2016 := 2032, 2032 := 0, 2000 := 1000)\<rparr>"

lemmas pool_eval = demo_shape_def demo_pool_def get_def new_pool_def empty_pool_def allocate_from_process_heap_def
  allocate_from_chunk_def release_def tidy_chunk_def tidy_last_def tidy_loop.simps firstof_def nextof_def set_nextof_def Let_def

lemma demo_steps:
  "get demo_shape 2000 (new_pool demo_shape 1000 (\<lambda>_. 0)) = (1016, \<lparr>op_first = 1032, op_chunk = 1000, op_mem = (\<lambda>_. 0)(1016 := 1032, 1032 := 0, 1000 := 0)\<rparr>)"
  "get demo_shape 2000 \<lparr>op_first = 1032, op_chunk = 1000, op_mem = (\<lambda>_. 0)(1016 := 77, 1024 := 78, 1032 := 0, 1000 := 0)\<rparr> =
    (1032, \<lparr>op_first = 0, op_chunk = 1000, op_mem = (\<lambda>_. 0)(1016 := 77, 1024 := 78, 1032 := 0, 1000 := 0)\<rparr>)"
  "get demo_shape 2000 \<lparr>op_first = 0, op_chunk = 1000, op_mem = (\<lambda>_. 0)(1016 := 77, 1024 := 78, 1032 := 0, 1000 := 0)\<rparr> =
    (2016, \<lparr>op_first = 2032, op_chunk = 2000, op_mem = (\<lambda>_. 0)(1016 := 77, 1024 := 78, 1032 := 0, 1000 := 0, 2016 := 2032, 2032 := 0, 2000 := 1000)\<rparr>)"
  by (auto simp: pool_eval fun_eq_iff)

lemma demo_shape_ok: "shape_ok demo_shape"
  by (simp add: demo_shape_def shape_ok_def)

lemma demo_fresh: "fresh_chunk demo_shape [1000] 2000"
  by (auto simp: fresh_chunk_def chunk_span_def demo_shape_def)

lemma demo_run: "(pool_step demo_shape)\<^sup>*\<^sup>* (new_pool demo_shape 1000 (\<lambda>_. 0), []) (demo_pool, [2016, 1032, 1016])"
proof -
  let ?p1 = "\<lparr>op_first = 1032, op_chunk = 1000, op_mem = (\<lambda>_. 0)(1016 := 1032, 1032 := 0, 1000 := 0)\<rparr>"
  let ?m2 = "(\<lambda>_. 0)(1016 := 77, 1024 := 78, 1032 := 0, 1000 := 0)"
  let ?p3 = "\<lparr>op_first = 0, op_chunk = 1000, op_mem = ?m2\<rparr>"
  have "pool_step demo_shape (new_pool demo_shape 1000 (\<lambda>_. 0), []) (?p1, [1016])"
    by (rule pool_step.Take [OF demo_fresh _ demo_steps(1)]) (simp add: pool_eval)
  moreover have "pool_step demo_shape (?p1, [1016]) (?p1\<lparr>op_mem := ?m2\<rparr>, [1016])"
    by (rule pool_step.Write) (auto simp: owner_writes_def demo_shape_def)
  moreover have "pool_step demo_shape (?p1\<lparr>op_mem := ?m2\<rparr>, [1016]) (?p3, [1032, 1016])"
    using pool_step.Take [OF demo_fresh _ demo_steps(2), of "[1016]"] by simp
  moreover have "pool_step demo_shape (?p3, [1032, 1016]) (demo_pool, [2016, 1032, 1016])"
    using pool_step.Take [OF demo_fresh _ demo_steps(3), of "[1032, 1016]"] by (simp add: demo_pool_def)
  ultimately show ?thesis by (meson r_into_rtranclp rtranclp.rtrancl_into_rtrancl)
qed

lemma pool_hands_out_once_witness: "distinct [2016, 1032, 1016 :: int] \<and> {2016 ..< 2016 + sh_size demo_shape} \<inter> {1032 ..< 1032 + sh_size demo_shape} = {}"
  using pool_hands_out_once [OF demo_run demo_shape_ok, THEN conjunct2, rule_format, of 2016 1032] by simp

lemma pool_reuses_last_released_witness: "fst (get demo_shape 3000 (release 1016 demo_pool)) = 1016"
  using pool_reuses_last_released [OF demo_run demo_shape_ok, of 1016 3000] by simp

lemma pool_cleanup_and_purge_witness: "\<exists>cs p'. purge demo_pool = Some (cs, demo_pool\<lparr>op_chunk := 0, op_first := 0\<rparr>) \<and>
    cleanup demo_shape demo_pool = Some p' \<and> 2016 \<in> set (all_cells demo_shape cs)"
  using pool_cleanup_and_purge [OF demo_run demo_shape_ok] by auto

lemma empty_chunk_written_outside_witness:
  "op_mem (snd (allocate_from_process_heap \<lparr>sh_header = 16, sh_size = 48, sh_count = 0\<rparr> 1000 (empty_pool (\<lambda>_. 5)))) 968 = 0"
  using empty_chunk_written_outside [of "\<lparr>sh_header = 16, sh_size = 48, sh_count = 0\<rparr>" "empty_pool (\<lambda>_. 5)" 1000]
  by (auto simp: empty_pool_def split: prod.splits)

end
