(* ===== verification/CharTraits.thy ===== *)
theory CharTraits
  imports Prelude "HOL-Library.Sublist"
begin

text \<open>
  The searches of \<open>impl/char_traits.hpp\<close>, shared by the string view and the string, over lists of
  characters.  \<open>npos\<close> is \<open>None\<close>; a start position is any number, \<open>npos\<close> being one that is larger than
  every length.
\<close>

section \<open>char_traits\<close>

text \<open>\<open>find(p, n, c)\<close> and \<open>compare(p, q, n) == 0\<close> of the standard library, on ranges of a text.\<close>

definition traits_find :: "'a list \<Rightarrow> nat \<Rightarrow> nat \<Rightarrow> 'a \<Rightarrow> nat option" where
  "traits_find s p n c = List.find (\<lambda>i. s ! i = c) [p..<p + n]"

definition traits_equal :: "'a list \<Rightarrow> nat \<Rightarrow> 'a list \<Rightarrow> nat \<Rightarrow> bool" where
  "traits_equal s p t n \<longleftrightarrow> take n (drop p s) = take n t"

lemma traits_find_Some: "traits_find s p n c = Some m \<Longrightarrow> p \<le> m \<and> m < p + n"
  by (auto simp: traits_find_def find_Some_iff)

section \<open>The searches\<close>

text \<open>The two loops: up to an end, and down to the beginning.\<close>

function scan_up :: "(nat \<Rightarrow> bool) \<Rightarrow> nat \<Rightarrow> nat \<Rightarrow> nat option" where
  "scan_up P p stop = (if p < stop then if P p then Some p else scan_up P (Suc p) stop else None)"
  by pat_completeness auto
termination by (relation "measure (\<lambda>(P, p, stop). stop - p)") auto
declare scan_up.simps [simp del]

fun scan_down :: "(nat \<Rightarrow> bool) \<Rightarrow> nat \<Rightarrow> nat option" where
  "scan_down P p = (if P p then Some p else if p = 0 then None else scan_down P (p - 1))"
declare scan_down.simps [simp del]

function xx_find_loop :: "'a list \<Rightarrow> 'a list \<Rightarrow> nat \<Rightarrow> nat \<Rightarrow> nat option" where
  "xx_find_loop hay needle matches_end match_try =
     (case traits_find hay match_try (matches_end - match_try) (hd needle) of
        None \<Rightarrow> None
      | Some m \<Rightarrow> if traits_equal hay m needle (length needle) then Some m
                  else xx_find_loop hay needle matches_end (Suc m))"
  by pat_completeness auto
termination
  by (relation "measure (\<lambda>(hay, needle, matches_end, match_try). matches_end - match_try)") (auto dest: traits_find_Some)
declare xx_find_loop.simps [simp del]

definition xx_find :: "'a list \<Rightarrow> nat \<Rightarrow> 'a list \<Rightarrow> nat option" where
  "xx_find hay start needle =
     (if length needle > length hay \<or> start > length hay - length needle then None
      else if needle = [] then Some start
      else xx_find_loop hay needle (length hay - length needle + 1) start)"

definition xx_find_ch :: "'a list \<Rightarrow> nat \<Rightarrow> 'a \<Rightarrow> nat option" where
  "xx_find_ch hay start c = (if start < length hay then traits_find hay start (length hay - start) c else None)"

definition xx_rfind :: "'a list \<Rightarrow> nat \<Rightarrow> 'a list \<Rightarrow> nat option" where
  "xx_rfind hay start needle =
     (if needle = [] then Some (min start (length hay))
      else if length needle \<le> length hay
      then scan_down (\<lambda>p. hay ! p = hd needle \<and> traits_equal hay p needle (length needle)) (min start (length hay - length needle))
      else None)"

definition xx_rfind_ch :: "'a list \<Rightarrow> nat \<Rightarrow> 'a \<Rightarrow> nat option" where
  "xx_rfind_ch hay start c = (if hay \<noteq> [] then scan_down (\<lambda>p. hay ! p = c) (min start (length hay - 1)) else None)"

definition xx_find_last_of :: "'a list \<Rightarrow> nat \<Rightarrow> 'a list \<Rightarrow> nat option" where
  "xx_find_last_of hay start needle =
     (if needle \<noteq> [] \<and> hay \<noteq> []
      then scan_down (\<lambda>p. traits_find needle 0 (length needle) (hay ! p) \<noteq> None) (min start (length hay - 1)) else None)"

definition xx_find_last_not_of :: "'a list \<Rightarrow> nat \<Rightarrow> 'a list \<Rightarrow> nat option" where
  "xx_find_last_not_of hay start needle =
     (if hay \<noteq> [] then scan_down (\<lambda>p. traits_find needle 0 (length needle) (hay ! p) = None) (min start (length hay - 1)) else None)"

definition xx_find_first_of :: "'a list \<Rightarrow> nat \<Rightarrow> 'a list \<Rightarrow> nat option" where
  "xx_find_first_of hay start needle =
     (if needle \<noteq> [] \<and> start < length hay
      then scan_up (\<lambda>p. traits_find needle 0 (length needle) (hay ! p) \<noteq> None) start (length hay) else None)"

definition xx_find_first_not_of :: "'a list \<Rightarrow> nat \<Rightarrow> 'a list \<Rightarrow> nat option" where
  "xx_find_first_not_of hay start needle =
     (if start < length hay then scan_up (\<lambda>p. traits_find needle 0 (length needle) (hay ! p) = None) start (length hay) else None)"

definition xx_find_not_ch :: "'a list \<Rightarrow> nat \<Rightarrow> 'a \<Rightarrow> nat option" where
  "xx_find_not_ch hay start c = (if start < length hay then scan_up (\<lambda>p. hay ! p \<noteq> c) start (length hay) else None)"

definition xx_rfind_not_ch :: "'a list \<Rightarrow> nat \<Rightarrow> 'a \<Rightarrow> nat option" where
  "xx_rfind_not_ch hay start c = (if hay \<noteq> [] then scan_down (\<lambda>p. hay ! p \<noteq> c) (min start (length hay - 1)) else None)"

section \<open>What they find\<close>

text \<open>The first position from \<open>start\<close> on, and the last up to \<open>start\<close>, below \<open>n\<close>, with a property.\<close>

definition first_at :: "(nat \<Rightarrow> bool) \<Rightarrow> nat \<Rightarrow> nat \<Rightarrow> nat option" where
  "first_at P start n = List.find P [start..<n]"

definition last_at :: "(nat \<Rightarrow> bool) \<Rightarrow> nat \<Rightarrow> nat \<Rightarrow> nat option" where
  "last_at P start n = List.find P (rev [0..<min (Suc start) n])"

definition occurs :: "'a list \<Rightarrow> 'a list \<Rightarrow> nat \<Rightarrow> bool" where
  "occurs needle hay i \<longleftrightarrow> i \<le> length hay \<and> prefix needle (drop i hay)"

lemma first_at_cong: "(\<And>i. start \<le> i \<Longrightarrow> i < n \<Longrightarrow> P i = Q i) \<Longrightarrow> first_at P start n = first_at Q start n"
  unfolding first_at_def by (rule find_cong) auto

lemma last_at_cong: "(\<And>i. i \<le> start \<Longrightarrow> i < n \<Longrightarrow> P i = Q i) \<Longrightarrow> last_at P start n = last_at Q start n"
  unfolding last_at_def by (rule find_cong) auto

lemma first_at_Cons: "first_at P start n = (if start < n then if P start then Some start else first_at P (Suc start) n else None)"
  by (simp add: first_at_def upt_conv_Cons)

lemma first_at_Some: "first_at P start n = Some i \<longleftrightarrow> start \<le> i \<and> i < n \<and> P i \<and> (\<forall>j. start \<le> j \<and> j < i \<longrightarrow> \<not> P j)"
proof (induction "n - start" arbitrary: start)
  case 0
  then show ?case by (auto simp: first_at_def)
next
  case (Suc d)
  then have lt: "start < n" and d: "d = n - Suc start" by simp_all
  show ?case
  proof (cases "P start")
    case True
    then show ?thesis using lt by (subst first_at_Cons) (auto dest: le_neq_implies_less)
  next
    case False
    have "(\<forall>j. start \<le> j \<and> j < i \<longrightarrow> \<not> P j) \<longleftrightarrow> (\<forall>j. Suc start \<le> j \<and> j < i \<longrightarrow> \<not> P j)"
      using False by (metis Suc_leD Suc_leI le_neq_implies_less)
    moreover have "start \<le> i \<and> P i \<longleftrightarrow> Suc start \<le> i \<and> P i" using False by (metis Suc_leD Suc_leI le_neq_implies_less)
    ultimately show ?thesis using False lt Suc.hyps(1) [OF d] by (subst first_at_Cons) auto
  qed
qed

lemma first_at_None: "first_at P start n = None \<longleftrightarrow> (\<forall>i. start \<le> i \<and> i < n \<longrightarrow> \<not> P i)"
  by (auto simp: first_at_def find_None_iff)

lemma first_at_skip:
  assumes "start \<le> m" "\<And>i. start \<le> i \<Longrightarrow> i < m \<Longrightarrow> \<not> P i"
  shows "first_at P start n = first_at P m n"
proof (cases "first_at P m n")
  case None
  then have "first_at P start n = None" unfolding first_at_None using assms by (metis not_le)
  with None show ?thesis by simp
next
  case (Some a)
  then have "first_at P start n = Some a" unfolding first_at_Some using assms by (metis not_le le_trans)
  with Some show ?thesis by simp
qed

lemma scan_up_eq: "scan_up P p stop = first_at P p stop"
  by (induction P p stop rule: scan_up.induct) (subst scan_up.simps, subst first_at_Cons, simp)

lemma scan_down_eq: "p < n \<Longrightarrow> scan_down P p = last_at P p n"
proof (induction P p rule: scan_down.induct)
  case (1 P p)
  have "min (Suc p) n = Suc p" using 1(2) by simp
  then have "last_at P p n = (if P p then Some p else List.find P (rev [0..<p]))" by (simp add: last_at_def)
  moreover have "List.find P (rev [0..<p]) = last_at P (p - 1) n" if "p \<noteq> 0"
    using that 1(2) by (simp add: last_at_def)
  ultimately show ?case using 1 by (subst scan_down.simps) auto
qed

lemma traits_find_eq: "traits_find s p n c = first_at (\<lambda>i. s ! i = c) p (p + n)"
  by (simp add: traits_find_def first_at_def)

lemma traits_find_set: "traits_find s 0 (length s) c = None \<longleftrightarrow> c \<notin> set s"
  by (auto simp: traits_find_eq first_at_None in_set_conv_nth)

lemma occurs_eq: "i + length needle \<le> length hay \<Longrightarrow> traits_equal hay i needle (length needle) \<longleftrightarrow> occurs needle hay i"
  unfolding occurs_def traits_equal_def prefix_def by (metis append_take_drop_id append_eq_conv_conj drop_eq_Nil2 le_add1 le_trans nat_le_linear take_all)

lemma occurs_length: "occurs needle hay i \<Longrightarrow> i + length needle \<le> length hay"
  using prefix_length_le [of needle "drop i hay"] by (auto simp: occurs_def)

lemma occurs_hd: "occurs needle hay i \<Longrightarrow> needle \<noteq> [] \<Longrightarrow> hay ! i = hd needle"
  using occurs_length [of needle hay i] by (cases needle; cases "drop i hay") (auto simp: occurs_def nth_via_drop)

lemma xx_find_loop_eq:
  assumes "needle \<noteq> []" "length needle \<le> length hay" "e = length hay - length needle + 1"
  shows "xx_find_loop hay needle e p = first_at (occurs needle hay) p e"
  using assms
proof (induction hay needle e p rule: xx_find_loop.induct)
  case (1 hay needle e p)
  show ?case
  proof (cases "traits_find hay p (e - p) (hd needle)")
    case None
    have "\<not> occurs needle hay i" if "p \<le> i" "i < e" for i
      using None that occurs_hd [OF _ "1.prems"(1), of hay i] by (auto simp: traits_find_eq first_at_None)
    then have "first_at (occurs needle hay) p e = None" by (simp add: first_at_None)
    then show ?thesis using None by (subst xx_find_loop.simps) simp
  next
    case (Some m)
    then have m: "p \<le> m" "m < e" "\<And>i. p \<le> i \<Longrightarrow> i < m \<Longrightarrow> hay ! i \<noteq> hd needle"
      by (auto simp: traits_find_eq first_at_Some split: nat_diff_split)
    have "first_at (occurs needle hay) p e = first_at (occurs needle hay) m e"
      by (rule first_at_skip [OF m(1)]) (use m(3) occurs_hd [OF _ "1.prems"(1)] in blast)
    moreover have "traits_equal hay m needle (length needle) \<longleftrightarrow> occurs needle hay m"
      by (rule occurs_eq) (use m(2) "1.prems" in simp)
    ultimately show ?thesis using Some m(2) "1.IH" [OF Some] "1.prems"
      by (subst xx_find_loop.simps) (simp add: first_at_Cons [of _ m])
  qed
qed

lemma find_rev_Some: "List.find P (rev [0..<k]) = Some i \<longleftrightarrow> i < k \<and> P i \<and> (\<forall>j. i < j \<and> j < k \<longrightarrow> \<not> P j)"
  by (induction k) (auto simp: less_Suc_eq)

lemma last_at_Some: "last_at P start n = Some i \<longleftrightarrow> i \<le> start \<and> i < n \<and> P i \<and> (\<forall>j. i < j \<and> j \<le> start \<and> j < n \<longrightarrow> \<not> P j)"
  unfolding last_at_def find_rev_Some by auto

lemma last_at_None: "last_at P start n = None \<longleftrightarrow> (\<forall>i. i \<le> start \<and> i < n \<longrightarrow> \<not> P i)"
  by (auto simp: last_at_def find_None_iff)

lemma option_eqI: "(\<And>x. a = Some x \<longleftrightarrow> b = Some x) \<Longrightarrow> a = b"
  by (metis not_Some_eq)

lemma last_at_cut: "m \<le> start \<Longrightarrow> (\<And>i. m < i \<Longrightarrow> i \<le> start \<Longrightarrow> i < n \<Longrightarrow> \<not> P i) \<Longrightarrow> last_at P start n = last_at P m n"
  by (rule option_eqI) (auto simp: last_at_Some; metis le_trans not_le)

lemma first_at_extend: "n \<le> n' \<Longrightarrow> (\<And>i. n \<le> i \<Longrightarrow> i < n' \<Longrightarrow> \<not> P i) \<Longrightarrow> first_at P start n' = first_at P start n"
  by (rule option_eqI) (auto simp: first_at_Some; metis not_le)

lemma scan_down_min:
  assumes "hay \<noteq> []"
  shows "scan_down P (min start (length hay - 1)) = last_at P start (length hay)"
proof -
  have "last_at P start (length hay) = last_at P (min start (length hay - 1)) (length hay)"
    by (rule last_at_cut) auto
  moreover have "min start (length hay - 1) < length hay" using assms by (cases hay) auto
  ultimately show ?thesis using scan_down_eq by metis
qed

lemma xx_find_eq: "xx_find hay start needle = first_at (occurs needle hay) start (Suc (length hay))"
proof -
  consider (far) "length needle > length hay \<or> start > length hay - length needle"
    | (empty) "\<not> (length needle > length hay \<or> start > length hay - length needle)" "needle = []"
    | (room) "\<not> (length needle > length hay \<or> start > length hay - length needle)" "needle \<noteq> []" by blast
  then show ?thesis
  proof cases
    case far
    have "\<not> occurs needle hay i" if "start \<le> i" for i using occurs_length [of needle hay i] far that by auto
    then have "first_at (occurs needle hay) start (Suc (length hay)) = None" by (simp add: first_at_None)
    with far show ?thesis by (auto simp: xx_find_def)
  next
    case empty
    then have "first_at (occurs needle hay) start (Suc (length hay)) = Some start" by (simp add: first_at_Some occurs_def)
    with empty show ?thesis by (simp add: xx_find_def)
  next
    case room
    let ?e = "length hay - length needle + 1"
    have "first_at (occurs needle hay) start (Suc (length hay)) = first_at (occurs needle hay) start ?e"
    proof (rule first_at_extend)
      show "\<not> occurs needle hay i" if "?e \<le> i" "i < Suc (length hay)" for i
        using occurs_length [of needle hay i] that by auto
    qed simp
    with room xx_find_loop_eq [OF room(2), of hay ?e start] show ?thesis by (simp add: xx_find_def)
  qed
qed

lemma xx_rfind_eq: "xx_rfind hay start needle = last_at (occurs needle hay) start (Suc (length hay))"
proof -
  consider (empty) "needle = []" | (room) "needle \<noteq> []" "length needle \<le> length hay" | (far) "length needle > length hay" by linarith
  then show ?thesis
  proof cases
    case empty
    then have "last_at (occurs needle hay) start (Suc (length hay)) = Some (min start (length hay))"
      by (auto simp: last_at_Some occurs_def)
    with empty show ?thesis by (simp add: xx_rfind_def)
  next
    case room
    let ?m = "min start (length hay - length needle)" and ?P = "\<lambda>p. hay ! p = hd needle \<and> traits_equal hay p needle (length needle)"
    have "last_at (occurs needle hay) start (Suc (length hay)) = last_at (occurs needle hay) ?m (Suc (length hay))"
    proof (rule last_at_cut)
      show "\<not> occurs needle hay i" if "?m < i" "i \<le> start" for i
        using occurs_length [of needle hay i] that by auto
    qed simp
    also have "\<dots> = last_at ?P ?m (Suc (length hay))"
    proof (rule last_at_cong)
      show "occurs needle hay i = ?P i" if "i \<le> ?m" for i
        using occurs_eq [of i needle hay] occurs_hd [OF _ room(1), of hay i] that room by auto
    qed
    also have "\<dots> = scan_down ?P ?m" by (rule scan_down_eq [symmetric]) auto
    finally show ?thesis using room by (simp add: xx_rfind_def)
  next
    case far
    have "\<not> occurs needle hay i" for i using occurs_length [of needle hay i] far by auto
    then have "last_at (occurs needle hay) start (Suc (length hay)) = None" by (simp add: last_at_None)
    moreover have "needle \<noteq> []" using far by auto
    ultimately show ?thesis using far by (simp add: xx_rfind_def)
  qed
qed

text \<open>C35: Each search answers the first (last) position, from the start position on (up to it), with what
  it looks for; an empty text is found at the start position, if that is not behind the end.\<close>

theorem searches_find_reference:
  "xx_find hay start needle = first_at (occurs needle hay) start (Suc (length hay)) \<and>
   xx_rfind hay start needle = last_at (occurs needle hay) start (Suc (length hay)) \<and>
   xx_find_ch hay start c = first_at (\<lambda>i. hay ! i = c) start (length hay) \<and>
   xx_rfind_ch hay start c = last_at (\<lambda>i. hay ! i = c) start (length hay) \<and>
   xx_find_first_of hay start needle = first_at (\<lambda>i. hay ! i \<in> set needle) start (length hay) \<and>
   xx_find_last_of hay start needle = last_at (\<lambda>i. hay ! i \<in> set needle) start (length hay) \<and>
   xx_find_first_not_of hay start needle = first_at (\<lambda>i. hay ! i \<notin> set needle) start (length hay) \<and>
   xx_find_last_not_of hay start needle = last_at (\<lambda>i. hay ! i \<notin> set needle) start (length hay) \<and>
   xx_find_not_ch hay start c = first_at (\<lambda>i. hay ! i \<noteq> c) start (length hay) \<and>
   xx_rfind_not_ch hay start c = last_at (\<lambda>i. hay ! i \<noteq> c) start (length hay)"
proof (intro conjI)
  have none: "first_at P start (length hay) = None" if "\<not> start < length hay" for P
    using that by (auto simp: first_at_None)
  have nil: "last_at P start (length hay) = None" if "hay = []" for P using that by (simp add: last_at_None)
  show "xx_find hay start needle = first_at (occurs needle hay) start (Suc (length hay))" by (rule xx_find_eq)
  show "xx_rfind hay start needle = last_at (occurs needle hay) start (Suc (length hay))" by (rule xx_rfind_eq)
  show "xx_find_ch hay start c = first_at (\<lambda>i. hay ! i = c) start (length hay)"
    using none by (simp add: xx_find_ch_def traits_find_eq)
  show "xx_rfind_ch hay start c = last_at (\<lambda>i. hay ! i = c) start (length hay)"
    using nil scan_down_min [of hay] by (cases "hay = []") (simp_all add: xx_rfind_ch_def)
  show "xx_find_first_of hay start needle = first_at (\<lambda>i. hay ! i \<in> set needle) start (length hay)"
    using none by (cases "needle = []"; cases "start < length hay") (simp_all add: xx_find_first_of_def scan_up_eq traits_find_set first_at_None [THEN iffD2])
  show "xx_find_last_of hay start needle = last_at (\<lambda>i. hay ! i \<in> set needle) start (length hay)"
    using nil scan_down_min [of hay] by (cases "hay = []"; cases "needle = []") (simp_all add: xx_find_last_of_def traits_find_set last_at_None [THEN iffD2])
  show "xx_find_first_not_of hay start needle = first_at (\<lambda>i. hay ! i \<notin> set needle) start (length hay)"
    using none by (simp add: xx_find_first_not_of_def scan_up_eq traits_find_set)
  show "xx_find_last_not_of hay start needle = last_at (\<lambda>i. hay ! i \<notin> set needle) start (length hay)"
    using nil scan_down_min [of hay] by (cases "hay = []") (simp_all add: xx_find_last_not_of_def traits_find_set)
  show "xx_find_not_ch hay start c = first_at (\<lambda>i. hay ! i \<noteq> c) start (length hay)"
    using none by (simp add: xx_find_not_ch_def scan_up_eq)
  show "xx_rfind_not_ch hay start c = last_at (\<lambda>i. hay ! i \<noteq> c) start (length hay)"
    using nil scan_down_min [of hay] by (cases "hay = []") (simp_all add: xx_rfind_not_ch_def)
qed

end
