(* ===== verification/StringView.thy ===== *)
theory StringView
  imports CharTraits "HOL-Library.Word" "HOL-Library.Char_ord"
begin

text \<open>
  The string view of \<open>string_view.hpp\<close> for compilers without one, and the functions on views beside
  it, over the list of the characters viewed.  A size, a position and a count are numbers below
  2^64; \<open>npos\<close> is the largest.  The order of the characters is that of \<open>char_traits\<close>.
\<close>

section \<open>The view\<close>

definition npos :: nat where "npos = 2 ^ 64 - 1"

definition sv_at :: "'a list \<Rightarrow> nat \<Rightarrow> 'a result" where
  "sv_at s pos = (if pos \<ge> length s then Inl OutOfRange else Inr (s ! pos))"

definition sv_remove_prefix :: "nat \<Rightarrow> 'a list \<Rightarrow> 'a list result" where
  "sv_remove_prefix n s = (if n \<le> length s then Inr (drop n s) else Inl Undefined)"

definition sv_remove_suffix :: "nat \<Rightarrow> 'a list \<Rightarrow> 'a list result" where
  "sv_remove_suffix n s = (if n \<le> length s then Inr (take (length s - n) s) else Inl Undefined)"

text \<open>What \<open>copy\<close> stores at the destination.\<close>

definition sv_copy :: "nat \<Rightarrow> nat \<Rightarrow> 'a list \<Rightarrow> 'a list result" where
  "sv_copy count pos s =
     (if pos \<ge> length s then Inl OutOfRange
      else let rcount = min (length s - pos) ((count + 1) mod 2 ^ 64) in Inr (take rcount (drop pos s)))"

definition sv_substr :: "nat \<Rightarrow> nat \<Rightarrow> 'a list \<Rightarrow> 'a list result" where
  "sv_substr pos len s =
     (let max_length = (if pos > length s then 0 else length s - pos)
      in if pos \<ge> length s then Inl OutOfRange else Inr (take (if len > max_length then max_length else len) (drop pos s)))"

fun traits_compare :: "'a::linorder list \<Rightarrow> 'a list \<Rightarrow> nat \<Rightarrow> int" where
  "traits_compare (a # as) (b # bs) (Suc n) = (if a < b then -1 else if b < a then 1 else traits_compare as bs n)"
| "traits_compare _ _ _ = 0"

definition sv_compare :: "'a::linorder list \<Rightarrow> 'a list \<Rightarrow> int" where
  "sv_compare s v =
     (let rlen = min (length s) (length v); cmp = traits_compare s v rlen
      in if cmp \<noteq> 0 then cmp else if length s < length v then -1 else if length s > length v then 1 else 0)"

definition sv_compare_at :: "nat \<Rightarrow> nat \<Rightarrow> 'a::linorder list \<Rightarrow> 'a list \<Rightarrow> int result" where
  "sv_compare_at pos count s v = andthen (sv_substr pos count s) (\<lambda>t. Inr (sv_compare t v))"

definition sv_compare_parts :: "nat \<Rightarrow> nat \<Rightarrow> 'a::linorder list \<Rightarrow> nat \<Rightarrow> nat \<Rightarrow> 'a list \<Rightarrow> int result" where
  "sv_compare_parts pos1 count1 s pos2 count2 v =
     andthen (sv_substr pos1 count1 s) (\<lambda>t. andthen (sv_substr pos2 count2 v) (\<lambda>w. Inr (sv_compare t w)))"

definition sv_find :: "'a list \<Rightarrow> nat \<Rightarrow> 'a list \<Rightarrow> nat option" where "sv_find v pos s = xx_find s pos v"
definition sv_find_ch :: "'a \<Rightarrow> nat \<Rightarrow> 'a list \<Rightarrow> nat option" where "sv_find_ch c pos s = sv_find [c] pos s"
definition sv_rfind :: "'a list \<Rightarrow> nat \<Rightarrow> 'a list \<Rightarrow> nat option" where "sv_rfind v pos s = xx_rfind s pos v"
definition sv_rfind_ch :: "'a \<Rightarrow> nat \<Rightarrow> 'a list \<Rightarrow> nat option" where "sv_rfind_ch c pos s = sv_rfind [c] pos s"
definition sv_find_first_of :: "'a list \<Rightarrow> nat \<Rightarrow> 'a list \<Rightarrow> nat option" where "sv_find_first_of v pos s = xx_find_first_of s pos v"
definition sv_find_first_of_ch :: "'a \<Rightarrow> nat \<Rightarrow> 'a list \<Rightarrow> nat option" where "sv_find_first_of_ch c pos s = xx_find_ch s pos c"
definition sv_find_last_of :: "'a list \<Rightarrow> nat \<Rightarrow> 'a list \<Rightarrow> nat option" where "sv_find_last_of v pos s = xx_find_last_of s pos v"
definition sv_find_last_of_ch :: "'a \<Rightarrow> nat \<Rightarrow> 'a list \<Rightarrow> nat option" where "sv_find_last_of_ch c pos s = xx_rfind_ch s pos c"
definition sv_find_first_not_of_ch :: "'a \<Rightarrow> nat \<Rightarrow> 'a list \<Rightarrow> nat option" where "sv_find_first_not_of_ch c pos s = xx_find_not_ch s pos c"
definition sv_find_last_not_of :: "'a list \<Rightarrow> nat \<Rightarrow> 'a list \<Rightarrow> nat option" where "sv_find_last_not_of v pos s = xx_find_last_not_of s pos v"
definition sv_find_last_not_of_ch :: "'a \<Rightarrow> nat \<Rightarrow> 'a list \<Rightarrow> nat option" where "sv_find_last_not_of_ch c pos s = xx_rfind_not_ch s pos c"

definition sv_eq :: "'a::linorder list \<Rightarrow> 'a list \<Rightarrow> bool" where "sv_eq s v \<longleftrightarrow> sv_compare s v = 0"
definition sv_ne :: "'a::linorder list \<Rightarrow> 'a list \<Rightarrow> bool" where "sv_ne s v \<longleftrightarrow> sv_compare s v \<noteq> 0"
definition sv_less :: "'a::linorder list \<Rightarrow> 'a list \<Rightarrow> bool" where "sv_less s v \<longleftrightarrow> sv_compare s v < 0"
definition sv_greater :: "'a::linorder list \<Rightarrow> 'a list \<Rightarrow> bool" where "sv_greater s v \<longleftrightarrow> sv_compare s v > 0"
definition sv_le :: "'a::linorder list \<Rightarrow> 'a list \<Rightarrow> bool" where "sv_le s v \<longleftrightarrow> sv_compare s v \<le> 0"
definition sv_ge :: "'a::linorder list \<Rightarrow> 'a list \<Rightarrow> bool" where "sv_ge s v \<longleftrightarrow> sv_compare s v \<ge> 0"

section \<open>The functions beside it\<close>

fun fnv1a_loop :: "64 word \<Rightarrow> 8 word list \<Rightarrow> 64 word" where
  "fnv1a_loop val [] = val"
| "fnv1a_loop val (b # bs) = fnv1a_loop ((val XOR ucast b) * 1099511628211) bs"

definition FNV1a_hash :: "8 word list \<Rightarrow> 64 word" where
  "FNV1a_hash bs = fnv1a_loop 14695981039346656037 bs"

definition sv_assign :: "'a list \<Rightarrow> 'a list \<Rightarrow> 'a list" where
  "sv_assign lhs rhs = (if rhs \<noteq> [] then rhs else [])"

definition sv_append :: "'a list \<Rightarrow> 'a list \<Rightarrow> 'a list" where
  "sv_append lhs rhs = (if rhs \<noteq> [] then lhs @ rhs else [])"

definition svtos :: "'a list \<Rightarrow> 'a list" where
  "svtos v = (if v \<noteq> [] then v else [])"

text \<open>\<open>a && b\<close>, where evaluating \<open>b\<close> may throw.\<close>

definition and_then :: "bool \<Rightarrow> bool result \<Rightarrow> bool result" where
  "and_then a b = (if a then b else Inr False)"

definition starts_with :: "'a::linorder list \<Rightarrow> 'a list \<Rightarrow> bool result" where
  "starts_with lhs v = and_then (length lhs \<ge> length v) (andthen (sv_compare_at 0 (length v) lhs v) (\<lambda>c. Inr (c = 0)))"

definition starts_with_ch :: "'a list \<Rightarrow> 'a \<Rightarrow> bool" where
  "starts_with_ch lhs c \<longleftrightarrow> lhs \<noteq> [] \<and> hd lhs = c"

definition ends_with :: "'a::linorder list \<Rightarrow> 'a list \<Rightarrow> bool result" where
  "ends_with lhs v =
     (let offset = (2 ^ 64 + length lhs - length v) mod 2 ^ 64
      in and_then (length lhs \<ge> length v) (andthen (sv_compare_at offset (length v) lhs v) (\<lambda>c. Inr (c = 0))))"

definition ends_with_ch :: "'a list \<Rightarrow> 'a \<Rightarrow> bool" where
  "ends_with_ch lhs c \<longleftrightarrow> lhs \<noteq> [] \<and> last lhs = c"

text \<open>\<open>strncasecmp(a, b, n) == 0\<close> stops at a terminating character of both; \<open>lower\<close> is \<open>tolower\<close>.\<close>

fun strncasecmp_equal :: "('a::zero \<Rightarrow> 'a) \<Rightarrow> 'a list \<Rightarrow> 'a list \<Rightarrow> nat \<Rightarrow> bool" where
  "strncasecmp_equal lower (a # as) (b # bs) (Suc n) =
     (lower a = lower b \<and> (a = 0 \<or> strncasecmp_equal lower as bs n))"
| "strncasecmp_equal lower _ _ _ = True"

definition iequals :: "('a::zero \<Rightarrow> 'a) \<Rightarrow> 'a list \<Rightarrow> 'a list \<Rightarrow> bool" where
  "iequals lower lhs v \<longleftrightarrow> length lhs = length v \<and> strncasecmp_equal lower lhs v (length v)"

definition ic_starts_with :: "('a::zero \<Rightarrow> 'a) \<Rightarrow> 'a list \<Rightarrow> 'a list \<Rightarrow> bool result" where
  "ic_starts_with lower lhs v =
     and_then (length lhs \<ge> length v) (andthen (sv_substr 0 (length v) lhs) (\<lambda>t. Inr (iequals lower t v)))"

definition ic_ends_with :: "('a::zero \<Rightarrow> 'a) \<Rightarrow> 'a list \<Rightarrow> 'a list \<Rightarrow> bool result" where
  "ic_ends_with lower lhs v =
     and_then (length lhs \<ge> length v) (andthen (sv_substr (length lhs - length v) npos lhs) (\<lambda>t. Inr (iequals lower t v)))"

section \<open>Comparison\<close>

lemma sv_compare_simps [simp]:
  "sv_compare [] [] = 0" "sv_compare [] (b # bs) = -1" "sv_compare (a # as) [] = 1"
  "sv_compare (a # as) (b # bs) = (if a < b then -1 else if b < a then 1 else sv_compare as bs)"
  by (simp_all add: sv_compare_def Let_def)

lemma sv_compare_sign:
  "sv_compare s v = (if ord_class.lexordp s v then -1 else if s = v then 0 else 1)"
  by (induction s v rule: list_induct2') (auto simp: antisym_conv3)

lemma lexordp_cases: "(ord_class.lexordp s v \<or> s = v \<or> ord_class.lexordp v s) \<and> \<not> (ord_class.lexordp s v \<and> ord_class.lexordp v s) \<and> \<not> ord_class.lexordp (s :: 'a::linorder list) s"
  by (meson lexordp_antisym lexordp_irreflexive' lexordp_linear)

text \<open>\<open>compare\<close> is the lexicographic order, with a text before its extensions, and the operators are
  its relations; comparing the other way round changes the sign.\<close>

theorem view_compare_is_lexicographic:
  "(sv_less s v \<longleftrightarrow> ord_class.lexordp s v) \<and> (sv_greater s v \<longleftrightarrow> ord_class.lexordp v s) \<and> (sv_eq s v \<longleftrightarrow> s = v) \<and> (sv_ne s v \<longleftrightarrow> s \<noteq> v) \<and>
   (sv_le s v \<longleftrightarrow> ord_class.lexordp s v \<or> s = v) \<and> (sv_ge s v \<longleftrightarrow> ord_class.lexordp v s \<or> s = v) \<and> sv_compare v s = - sv_compare s v"
  using lexordp_cases [of s v] lexordp_cases [of v s]
  by (auto simp: sv_less_def sv_greater_def sv_eq_def sv_ne_def sv_le_def sv_ge_def sv_compare_sign)

section \<open>Parts of a view\<close>

lemma sv_substr_eq: "sv_substr pos len s = (if pos \<ge> length s then Inl OutOfRange else Inr (take len (drop pos s)))"
  by (auto simp: sv_substr_def Let_def)

lemma compare_part: "pos < length s \<Longrightarrow> andthen (sv_compare_at pos (length v) s v) (\<lambda>c. Inr (c = 0)) = Inr (take (length v) (drop pos s) = v)"
  by (auto simp: sv_compare_at_def sv_substr_eq sv_compare_sign lexordp_irreflexive')

lemma prefix_take: "length v \<le> length s \<Longrightarrow> prefix v s \<longleftrightarrow> take (length v) s = v"
  by (auto simp: prefix_def) (metis append_take_drop_id)

lemma suffix_drop: "length v \<le> length s \<Longrightarrow> suffix v s \<longleftrightarrow> drop (length s - length v) s = v"
  by (auto simp: suffix_def) (metis append_take_drop_id)

text \<open>\<open>starts_with\<close> and \<open>ends_with\<close> decide prefix and suffix, but throw when \<open>substr\<close> is asked for the
  empty part at the end: for an empty suffix of any text and for the empty prefix of the empty
  text.\<close>

theorem starts_and_ends_with:
  assumes "length s < 2 ^ 64"
  shows "starts_with s v = (if s = [] \<and> v = [] then Inl OutOfRange else Inr (prefix v s)) \<and>
    ends_with s v = (if v = [] then Inl OutOfRange else Inr (suffix v s))"
proof (intro conjI)
  show "starts_with s v = (if s = [] \<and> v = [] then Inl OutOfRange else Inr (prefix v s))"
  proof (cases "length v \<le> length s \<and> s \<noteq> []")
    case True
    then show ?thesis using compare_part [of 0 s v] by (simp add: starts_with_def and_then_def prefix_take)
  next
    case False
    then show ?thesis using prefix_length_le [of v s]
      by (auto simp: starts_with_def and_then_def sv_compare_at_def sv_substr_eq)
  qed
  show "ends_with s v = (if v = [] then Inl OutOfRange else Inr (suffix v s))"
  proof (cases "length v \<le> length s")
    case True
    then have "2 ^ 64 + length s - length v = (length s - length v) + 2 ^ 64" by simp
    then have o: "(2 ^ 64 + length s - length v) mod 2 ^ 64 = length s - length v"
      using assms by (simp only: mod_add_self2) simp
    show ?thesis
    proof (cases "v = []")
      case True
      then show ?thesis using o by (simp add: ends_with_def and_then_def sv_compare_at_def sv_substr_eq)
    next
      case False
      then have "length s - length v < length s" using True by (cases v) auto
      then show ?thesis unfolding ends_with_def o using compare_part [of "length s - length v" s v] True False
        by (simp add: and_then_def suffix_drop)
    qed
  next
    case False
    then show ?thesis using suffix_length_le [of v s] by (auto simp: ends_with_def and_then_def Let_def)
  qed
qed

lemma starts_and_ends_with_witness:
  "starts_with ''chan'' ''ch'' = Inr True \<and> ends_with ''chan'' ''an'' = Inr True \<and> ends_with ''chan'' [] = Inl OutOfRange"
  using starts_and_ends_with [of "''chan''" "''ch''"] starts_and_ends_with [of "''chan''" "''an''"] starts_and_ends_with [of "''chan''" "[]"]
  by (simp add: suffix_def)

text \<open>\<open>copy\<close> takes one character more than asked for, as far as there are any, and none at all when
  the count is left out.\<close>

theorem copy_count_off_by_one:
  assumes "pos < length s" "count < npos" "length s < npos"
  shows "sv_copy count pos s = Inr (take (Suc count) (drop pos s)) \<and> sv_copy npos pos s = Inr []"
proof -
  have "Suc count < 2 ^ 64" using assms(2) by (simp add: npos_def)
  then have "(count + 1) mod 2 ^ 64 = Suc count" by simp
  moreover have "(npos + 1) mod 2 ^ 64 = 0" by (simp add: npos_def)
  ultimately show ?thesis using assms(1) by (auto simp: sv_copy_def Let_def min_def)
qed

lemma copy_count_off_by_one_witness: "sv_copy 2 1 ''socket'' = Inr ''ock'' \<and> sv_copy npos 1 ''socket'' = Inr []"
  using copy_count_off_by_one [of 1 "''socket''" 2] by (simp add: npos_def)

text \<open>Appending an empty view clears the text; any other is appended.\<close>

theorem append_empty_clears: "sv_append lhs [] = [] \<and> (rhs \<noteq> [] \<longrightarrow> sv_append lhs rhs = lhs @ rhs) \<and> sv_assign lhs rhs = rhs"
  by (simp add: sv_append_def sv_assign_def)

section \<open>Case-insensitive comparison\<close>

lemma strncasecmp_equal_plain:
  "length s = length v \<Longrightarrow> 0 \<notin> set s \<Longrightarrow> strncasecmp_equal lower s v (length v) \<longleftrightarrow> map lower s = map lower v"
  by (induction s v rule: list_induct2) auto

lemma strncasecmp_equal_nul:
  "length v = Suc (length p + length q) \<Longrightarrow> 0 \<notin> set p \<Longrightarrow>
    strncasecmp_equal lower (p @ 0 # q) v (length v) \<longleftrightarrow> map lower (take (Suc (length p)) v) = map lower (p @ [0])"
proof (induction p arbitrary: v)
  case Nil
  then show ?case by (cases v) auto
next
  case (Cons a p)
  then show ?case by (cases v) auto
qed

text \<open>\<open>iequals\<close> compares the whole of two texts up to the case of their letters, unless one holds a
  zero character: then nothing behind it is compared.\<close>

theorem iequals_stops_at_zero:
  assumes "0 \<notin> set p"
  shows "(iequals lower p v \<longleftrightarrow> map lower p = map lower v) \<and>
    (iequals lower (p @ 0 # q) v \<longleftrightarrow> length v = Suc (length p + length q) \<and> map lower (take (Suc (length p)) v) = map lower (p @ [0]))"
proof -
  have "map lower p = map lower v \<Longrightarrow> length p = length v" by (metis length_map)
  then show ?thesis using strncasecmp_equal_plain [of p v lower] strncasecmp_equal_nul [of v p q lower] assms
    by (auto simp: iequals_def)
qed

lemma iequals_stops_at_zero_witness:
  "iequals (\<lambda>c. if 65 \<le> c \<and> c \<le> 90 then c + 32 else c) [72, 105 :: 8 word] [104, 73] \<and>
   iequals (\<lambda>c. c) [72, 0, 105 :: 8 word] [72, 0, 106]"
  using iequals_stops_at_zero [of "[72, 105 :: 8 word]" "\<lambda>c. if 65 \<le> c \<and> c \<le> 90 then c + 32 else c" "[104, 73]" "[]"]
    iequals_stops_at_zero [of "[72 :: 8 word]" "\<lambda>c. c" "[72, 0, 106]" "[105]"]
  by simp

section \<open>The hash\<close>

lemma fnv_step_inj: "(x XOR a) * 1099511628211 = (y XOR b) * (1099511628211 :: 64 word) \<longleftrightarrow> x XOR a = y XOR b"
proof
  assume e: "(x XOR a) * 1099511628211 = (y XOR b) * (1099511628211 :: 64 word)"
  have inv: "(1099511628211 :: 64 word) * 14886173955864302971 = 1" by simp
  from arg_cong [OF e, of "\<lambda>z. z * 14886173955864302971"] show "x XOR a = y XOR b"
    by (simp only: mult.assoc inv mult_1_right)
qed simp

lemma xor_cancel: "x XOR a = y XOR a \<longleftrightarrow> x = (y :: 64 word)" "a XOR x = a XOR y \<longleftrightarrow> x = (y :: 64 word)"
proof -
  show "x XOR a = y XOR a \<longleftrightarrow> x = y" by (auto simp: bit_eq_iff bit_xor_iff)
  then show "a XOR x = a XOR y \<longleftrightarrow> x = y" by (simp add: xor.commute)
qed

lemma fnv1a_loop_inj: "fnv1a_loop x bs = fnv1a_loop y bs \<longleftrightarrow> x = y"
  by (induction bs arbitrary: x y) (simp_all add: fnv_step_inj xor_cancel)

lemma fnv1a_loop_append: "fnv1a_loop x (as @ bs) = fnv1a_loop (fnv1a_loop x as) bs"
  by (induction as arbitrary: x) simp_all

text \<open>Every step of the hash can be undone: two texts of bytes that differ in one place only never
  have the same hash.\<close>

theorem hash_sees_one_byte: "FNV1a_hash (as @ b # cs) = FNV1a_hash (as @ c # cs) \<longleftrightarrow> b = c"
proof -
  have "b = c" if "(ucast b :: 64 word) = ucast c"
  proof (rule bit_word_eqI)
    show "bit b n = bit c n" if "n < LENGTH(8)" for n
      using arg_cong [OF \<open>ucast b = ucast c\<close>, of "\<lambda>w. bit w n"] that by (simp add: bit_ucast_iff)
  qed
  then have "(ucast b :: 64 word) = ucast c \<longleftrightarrow> b = c" by blast
  then show ?thesis by (simp add: FNV1a_hash_def fnv1a_loop_append fnv1a_loop_inj fnv_step_inj xor_cancel)
qed

end
