(* ===== verification/YString.thy ===== *)
theory YString
  imports PodVector StringView
begin

text \<open>
  yasio::basic_string of src/yasio/string.hpp: a growing block of characters with a terminating
  NUL that the string writes itself. The block is the one of theory PodVector (capacity and
  elements); the capacity counts the terminator in some members and not in others, and the theory
  follows the code in each. The lemmas give the contents after each operation, the cases in which
  the terminator is lost or written behind the block, and the replacement functions.
\<close>

text \<open>
  The string of \<open>string.hpp\<close>: the representation of \<open>pod_vector\<close> with a terminating zero behind the
  characters, which the capacity counts (but not after \<open>_Reallocate_grow_by\<close>).  A cell that was never
  written is \<open>None\<close>; a write that leaves the block is \<open>Undefined\<close>, and so is a \<open>copy\<close> between
  ranges that overlap.  The element size and the heap are those of \<open>pv_env\<close>.
\<close>

section \<open>State and allocation\<close>

type_synonym 'a ystring = "'a pod_vector"

definition ys_calculate_growth :: "pv_env \<Rightarrow> 'a ystring \<Rightarrow> nat \<Rightarrow> nat" where
  "ys_calculate_growth env s new_size =
     (let old_cap = pv_res s; max_cap = max_size env
      in if old_cap > max_cap - old_cap div 2 then max_cap
         else let geometric = old_cap + old_cap div 2 in if geometric < new_size then new_size else geometric)"

definition ys_Reallocate :: "pv_env \<Rightarrow> policy \<Rightarrow> 'a ystring \<Rightarrow> nat \<Rightarrow> 'a ystring result" where
  "ys_Reallocate env pol s n =
     (let new_cap = (case pol of Exactly \<Rightarrow> size_add n 1 | At_least \<Rightarrow> max (ys_calculate_growth env s n) (size_add n 1))
      in case reallocate env (pv_block s) new_cap of
           Some newvec \<Rightarrow> Inr (s\<lparr>pv_first := Some newvec, pv_res := new_cap\<rparr>)
         | None \<Rightarrow> Inl BadAlloc)"

definition ys_Eos :: "'a::zero ystring \<Rightarrow> nat \<Rightarrow> 'a ystring result" where
  "ys_Eos s n = store (s\<lparr>pv_size := n\<rparr>) n [Some 0]"

definition ys_Resize_reallocate :: "pv_env \<Rightarrow> policy \<Rightarrow> 'a::zero ystring \<Rightarrow> nat \<Rightarrow> 'a ystring result" where
  "ys_Resize_reallocate env pol s n = andthen (ys_Reallocate env pol s n) (\<lambda>s. ys_Eos s n)"

definition ys_Tidy :: "'a ystring \<Rightarrow> 'a ystring" where
  "ys_Tidy s = (case pv_first s of None \<Rightarrow> s | Some _ \<Rightarrow> s\<lparr>pv_first := None, pv_size := 0, pv_res := 0\<rparr>)"

section \<open>Size and capacity\<close>

definition ys_resize :: "pv_env \<Rightarrow> 'a::zero ystring \<Rightarrow> nat \<Rightarrow> 'a ystring result" where
  "ys_resize env s new_size = (if pv_res s < new_size then ys_Resize_reallocate env Exactly s new_size else ys_Eos s new_size)"

definition ys_expand :: "pv_env \<Rightarrow> 'a::zero ystring \<Rightarrow> nat \<Rightarrow> 'a ystring result" where
  "ys_expand env s count =
     (let new_size = size_add (pv_size s) count
      in if pv_res s < new_size then ys_Resize_reallocate env At_least s new_size else ys_Eos s new_size)"

definition ys_shrink_to_fit :: "pv_env \<Rightarrow> 'a ystring \<Rightarrow> 'a ystring result" where
  "ys_shrink_to_fit env s =
     (if pv_size s \<noteq> pv_res s
      then if pv_size s = 0 then Inr (ys_Tidy s) else ys_Reallocate env Exactly s (pv_size s)
      else Inr s)"

definition ys_reserve :: "pv_env \<Rightarrow> 'a ystring \<Rightarrow> nat \<Rightarrow> 'a ystring result" where
  "ys_reserve env s new_cap = (if pv_res s < new_cap then ys_Reallocate env Exactly s new_cap else Inr s)"

text \<open>The callback gets the block and the size asked for, and returns what it leaves there and the
  size of the text.\<close>

definition ys_resize_and_overwrite ::
    "pv_env \<Rightarrow> 'a::zero ystring \<Rightarrow> nat \<Rightarrow> ('a option list \<Rightarrow> nat \<Rightarrow> 'a option list \<times> nat) \<Rightarrow> 'a ystring result" where
  "ys_resize_and_overwrite env s n operation =
     andthen (ys_Reallocate env Exactly s n) (\<lambda>s.
       let (b, size) = operation (pv_block s) n in ys_Eos (s\<lparr>pv_first := Some b\<rparr>) size)"

definition ys_resize_fill :: "pv_env \<Rightarrow> 'a::zero ystring \<Rightarrow> nat \<Rightarrow> 'a \<Rightarrow> 'a ystring result" where
  "ys_resize_fill env s new_size val =
     (let old_size = pv_size s
      in if old_size \<noteq> new_size
         then andthen (ys_resize env s new_size) (\<lambda>s.
                if old_size < new_size then store s old_size (replicate (new_size - old_size) (Some val)) else Inr s)
         else Inr s)"

definition ys_expand_fill :: "pv_env \<Rightarrow> 'a::zero ystring \<Rightarrow> nat \<Rightarrow> 'a \<Rightarrow> 'a ystring result" where
  "ys_expand_fill env s count val =
     (if count \<noteq> 0
      then let old_size = pv_size s
           in andthen (ys_expand env s count) (\<lambda>s. store s old_size (replicate count (Some val)))
      else Inr s)"

definition ys_clear :: "'a ystring \<Rightarrow> 'a ystring" where
  "ys_clear s = s\<lparr>pv_size := 0\<rparr>"

definition ys_detach_abi :: "'a ystring \<Rightarrow> 'a option list option \<times> nat \<times> 'a ystring" where
  "ys_detach_abi s = (pv_first s, pv_size s, s\<lparr>pv_first := None, pv_size := 0, pv_res := 0\<rparr>)"

definition ys_attach_abi :: "'a ystring \<Rightarrow> 'a option list option \<Rightarrow> nat \<Rightarrow> 'a ystring" where
  "ys_attach_abi s ptr len = (ys_Tidy s)\<lparr>pv_first := ptr, pv_size := len, pv_res := len\<rparr>"

section \<open>Adding and removing characters\<close>

definition ys_push_back :: "pv_env \<Rightarrow> 'a::zero ystring \<Rightarrow> 'a \<Rightarrow> 'a ystring result" where
  "ys_push_back env s v =
     andthen (ys_expand env s 1) (\<lambda>s. if pv_size s \<noteq> 0 then store s (pv_size s - 1) [Some v] else Inl OutOfRange)"

text \<open>\<open>append(first, last)\<close>; the range does not lie inside the string.\<close>

definition ys_append :: "pv_env \<Rightarrow> 'a::zero ystring \<Rightarrow> 'a list \<Rightarrow> 'a ystring result" where
  "ys_append env s xs =
     (if xs \<noteq> []
      then let count = length xs
           in if count > 1
              then let old_size = pv_size s in andthen (ys_expand env s count) (\<lambda>s. store s old_size (map Some xs))
              else ys_push_back env s (hd xs)
      else Inr s)"

definition ys_append_fill :: "pv_env \<Rightarrow> 'a::zero ystring \<Rightarrow> nat \<Rightarrow> 'a \<Rightarrow> 'a ystring result" where
  "ys_append_fill env s count val = ys_expand_fill env s count val"

definition ys_insert :: "pv_env \<Rightarrow> 'a::zero ystring \<Rightarrow> nat \<Rightarrow> 'a list \<Rightarrow> 'a ystring result" where
  "ys_insert env s pos xs =
     (if \<not> pos \<le> pv_size s then Inl OutOfRange
      else if xs \<noteq> []
      then if pos = pv_size s then ys_append env s xs
           else let count = length xs
                in andthen (ys_expand env s count) (\<lambda>s1.
                     let mlast = pv_size s1; move_to = pos + count
                     in andthen (copy_within s1 pos (mlast - move_to) move_to) (\<lambda>s2. store s2 pos (map Some xs)))
      else Inr s)"

definition ys_insert_fill :: "pv_env \<Rightarrow> 'a::zero ystring \<Rightarrow> nat \<Rightarrow> nat \<Rightarrow> 'a \<Rightarrow> 'a ystring result" where
  "ys_insert_fill env s pos count val =
     (if \<not> pos \<le> pv_size s then Inl OutOfRange
      else if count \<noteq> 0
      then if pos = pv_size s then ys_append_fill env s count val
           else andthen (ys_expand env s count) (\<lambda>s1.
                  let mlast = pv_size s1; move_to = pos + count
                  in andthen (copy_within s1 pos (mlast - move_to) move_to) (\<lambda>s2. store s2 pos (replicate count (Some val))))
      else Inr s)"

definition ys_erase :: "'a ystring \<Rightarrow> nat \<Rightarrow> 'a ystring result" where
  "ys_erase s pos =
     (if \<not> pos < pv_size s then Inl OutOfRange
      else andthen (copy_within s (pos + 1) (pv_size s - (pos + 1)) pos) (\<lambda>s'. Inr (s'\<lparr>pv_size := pv_size s - 1\<rparr>)))"

definition ys_erase_range :: "'a ystring \<Rightarrow> nat \<Rightarrow> nat \<Rightarrow> 'a ystring result" where
  "ys_erase_range s first last' =
     (if \<not> (first \<le> last' \<and> last' \<le> pv_size s) then Inl OutOfRange
      else andthen (copy_within s last' (pv_size s - last') first) (\<lambda>s'. Inr (s'\<lparr>pv_size := first + (pv_size s - last')\<rparr>)))"

definition ys_at :: "'a ystring \<Rightarrow> nat \<Rightarrow> 'a option result" where
  "ys_at s index = (if index < pv_size s then Inr (pv_block s ! index) else Inl OutOfRange)"

definition ys_front :: "'a ystring \<Rightarrow> 'a option result" where
  "ys_front s = (if pv_size s \<noteq> 0 then Inr (pv_block s ! 0) else Inl OutOfRange)"

definition ys_back :: "'a ystring \<Rightarrow> 'a option result" where
  "ys_back s = (if pv_size s \<noteq> 0 then Inr (pv_block s ! (pv_size s - 1)) else Inl OutOfRange)"

section \<open>Texts given by a pointer and a length\<close>

text \<open>A text outside the string, or a part of the string's own memory.\<close>

datatype 'a source = Outside "'a list" | Inside nat nat

definition source_length :: "'a source \<Rightarrow> nat" where
  "source_length v = (case v of Outside xs \<Rightarrow> length xs | Inside _ n \<Rightarrow> n)"

definition source_cells :: "'a option list \<Rightarrow> 'a source \<Rightarrow> 'a option list" where
  "source_cells b v = (case v of Outside xs \<Rightarrow> map Some xs | Inside p n \<Rightarrow> take n (drop p b))"

text \<open>\<open>assign(first, last)\<close>: the string compares the beginning of the range with its own.  A range
  from its own memory that starts elsewhere is copied after the string has been resized; when the
  block moved the range is gone.\<close>

definition ys_assign :: "pv_env \<Rightarrow> 'a::zero ystring \<Rightarrow> 'a source \<Rightarrow> 'a ystring result" where
  "ys_assign env s v =
     (case v of
        Inside p n \<Rightarrow>
          if p = 0 then Inr s
          else if n = 0 then Inr (s\<lparr>pv_size := 0\<rparr>)
          else andthen (ys_resize env (s\<lparr>pv_size := 0\<rparr>) n) (\<lambda>s1.
                 if pv_res s < n then Inl Undefined else store s1 0 (take n (drop p (pv_block s1))))
      | Outside xs \<Rightarrow>
          if xs = [] then Inr (s\<lparr>pv_size := 0\<rparr>)
          else andthen (ys_resize env (s\<lparr>pv_size := 0\<rparr>) (length xs)) (\<lambda>s1. store s1 0 (map Some xs)))"

text \<open>\<open>move\<close> and \<open>copy\<close> of \<open>char_traits\<close> inside the block, and \<open>move\<close> of a source into it.\<close>

definition ys_move :: "nat \<Rightarrow> nat \<Rightarrow> nat \<Rightarrow> 'a ystring \<Rightarrow> 'a ystring result" where
  "ys_move to' from n s =
     (if from + n > length (pv_block s) then Inl Undefined else store s to' (take n (drop from (pv_block s))))"

definition ys_copy :: "nat \<Rightarrow> nat \<Rightarrow> nat \<Rightarrow> 'a ystring \<Rightarrow> 'a ystring result" where
  "ys_copy to' from n s = (if from < to' + n \<and> to' < from + n then Inl Undefined else ys_move to' from n s)"

definition ys_move_source :: "nat \<Rightarrow> 'a source \<Rightarrow> 'a ystring \<Rightarrow> 'a ystring result" where
  "ys_move_source to' v s =
     (case v of Outside xs \<Rightarrow> store s to' (map Some xs) | Inside p n \<Rightarrow> ys_move to' p n s)"

section \<open>Replacing\<close>

definition ys_Reallocate_grow_by :: "pv_env \<Rightarrow> 'a::zero ystring \<Rightarrow> nat \<Rightarrow> nat \<Rightarrow> nat \<Rightarrow> 'a source \<Rightarrow> 'a ystring result" where
  "ys_Reallocate_grow_by env s increase off nx v =
     (let old_size = pv_size s; count = source_length v
      in if max_size env - old_size < increase then Inl LengthError
         else let new_size = old_size + increase; new_cap = ys_calculate_growth env s new_size
              in case reallocate env (pv_block s) (size_add new_cap 1) of
                   None \<Rightarrow> Inl Undefined
                 | Some b \<Rightarrow>
                     let s1 = s\<lparr>pv_size := new_size, pv_res := new_cap, pv_first := Some b\<rparr>
                     in andthen (ys_copy (off + count) (off + nx) (old_size - nx - off + 1) s1) (\<lambda>s2.
                          case v of Outside xs \<Rightarrow> store s2 off (map Some xs) | Inside _ _ \<Rightarrow> Inl Undefined))"

text \<open>Where the source lies: before the hole or outside, behind the hole, or across its end.\<close>

definition ptr_shifted_after :: "nat \<Rightarrow> nat \<Rightarrow> nat \<Rightarrow> 'a source \<Rightarrow> nat" where
  "ptr_shifted_after insert_at suffix_at old_size v =
     (case v of
        Outside xs \<Rightarrow> length xs
      | Inside p n \<Rightarrow> if p + n \<le> insert_at \<or> p > old_size then n else if suffix_at \<le> p then 0 else suffix_at - p)"

definition ys_replace :: "pv_env \<Rightarrow> 'a::zero ystring \<Rightarrow> nat \<Rightarrow> nat \<Rightarrow> 'a source \<Rightarrow> 'a ystring result" where
  "ys_replace env s off nx0 v =
     (if \<not> off < pv_size s then Inl OutOfRange
      else let nx = min nx0 (pv_size s - off); count = source_length v
      in if nx = count then ys_move_source off v s
      else let old_size = pv_size s; suffix_size = old_size - nx - off + 1
      in if count < nx
         then andthen (ys_move_source off v s) (\<lambda>s1.
                andthen (ys_move (off + count) (off + nx) suffix_size s1) (\<lambda>s2. Inr (s2\<lparr>pv_size := old_size - (nx - count)\<rparr>)))
      else let growth = count - nx
      in if growth \<le> pv_res s - old_size
         then let shifted = ptr_shifted_after off (off + nx) old_size v
              in andthen (ys_move (off + nx + growth) (off + nx) suffix_size (s\<lparr>pv_size := old_size + growth\<rparr>)) (\<lambda>s1.
                   case v of
                     Outside xs \<Rightarrow> store s1 off (map Some xs)
                   | Inside p n \<Rightarrow>
                       andthen (ys_move off p shifted s1) (\<lambda>s2.
                         ys_copy (off + shifted) (p + growth + shifted) ((2 ^ 64 + count - shifted) mod 2 ^ 64) s2))
      else ys_Reallocate_grow_by env s growth off nx v)"

definition ys_text :: "'a ystring \<Rightarrow> 'a option list" where
  "ys_text s = take (pv_size s) (pv_block s)"




definition ys_replace_all_ch :: "'a ystring \<Rightarrow> 'a \<Rightarrow> 'a \<Rightarrow> 'a ystring result" where
  "ys_replace_all_ch s from to' = store s 0 (map (\<lambda>c. if c = Some from then Some to' else c) (ys_text s))"

text \<open>\<open>to_lower\<close> and \<open>to_upper\<close>, with the library's function on characters.\<close>

definition ys_transform :: "('a \<Rightarrow> 'a) \<Rightarrow> 'a ystring \<Rightarrow> 'a ystring result" where
  "ys_transform f s = store s 0 (map (map_option f) (ys_text s))"

section \<open>Invariant\<close>

definition ys_ok :: "pv_env \<Rightarrow> 'a ystring \<Rightarrow> bool" where
  "ys_ok env s \<longleftrightarrow> 0 < env_sizeof env \<and> pv_size s \<le> pv_res s \<and> pv_res s \<le> length (pv_block s) \<and>
     length (pv_block s) \<le> Suc (pv_res s) \<and> length (pv_block s) \<le> max_size env"

text \<open>The string holds the text \<open>t\<close>, and behind it the terminator.\<close>

definition ys_holds :: "pv_env \<Rightarrow> 'a::zero ystring \<Rightarrow> 'a option list \<Rightarrow> bool" where
  "ys_holds env s t \<longleftrightarrow> ys_ok env s \<and> ys_text s = t \<and> pv_size s < length (pv_block s) \<and> pv_block s ! pv_size s = Some 0"

definition exact_fit :: "'a ystring \<Rightarrow> nat \<Rightarrow> bool" where
  "exact_fit s n \<longleftrightarrow> pv_res s = n \<and> length (pv_block s) = n"

lemma length_ys_text: "ys_ok env s \<Longrightarrow> length (ys_text s) = pv_size s"
  by (simp add: ys_ok_def ys_text_def)

lemma growth_bounds:
  assumes "ys_ok env s" "n \<le> max_size env"
  shows "ys_calculate_growth env s n \<le> max_size env" "n \<le> ys_calculate_growth env s n"
  using assms by (auto simp: ys_calculate_growth_def Let_def ys_ok_def)

lemma ys_Reallocate_Inr:
  assumes ok: "ys_ok env s" and n: "Suc n \<le> max_size env" "pv_size s \<le> n" and heap: "heap_available env"
  shows "\<exists>s'. ys_Reallocate env pol s n = Inr s' \<and> ys_ok env s' \<and> pv_size s' = pv_size s \<and> Suc n \<le> pv_res s' \<and>
    length (pv_block s') = pv_res s' \<and> take (pv_size s) (pv_block s') = ys_text s"
proof -
  define cap where "cap = (case pol of Exactly \<Rightarrow> size_add n 1 | At_least \<Rightarrow> max (ys_calculate_growth env s n) (size_add n 1))"
  have sa: "size_add n (Suc 0) = Suc n" using n(1) max_size_less [of env] by simp
  have cap: "Suc n \<le> cap" "cap \<le> max_size env"
    using growth_bounds [OF ok] n(1) by (auto simp: cap_def sa split: policy.splits)
  have z: "0 < env_sizeof env" using ok by (simp add: ys_ok_def)
  have r: "reallocate env (pv_block s) cap = Some (take cap (pv_block s) @ replicate (cap - length (pv_block s)) None)"
    using heap by (simp add: reallocate_eq [OF cap(2) z] heap_available_def)
  have t: "take (pv_size s) (take cap (pv_block s) @ replicate (cap - length (pv_block s)) None) = ys_text s"
    using ok cap(1) n(2) by (simp add: ys_text_def ys_ok_def min_def)
  show ?thesis using ok cap t z n(2) unfolding ys_Reallocate_def Let_def cap_def [symmetric] r
    by (auto simp: ys_ok_def)
qed

lemma ys_Eos_room:
  assumes "n < length (pv_block s)"
  shows "\<exists>s'. ys_Eos s n = Inr s' \<and> pv_size s' = n \<and> pv_res s' = pv_res s \<and> pv_block s' = splice n [Some 0] (pv_block s)"
proof -
  have "succeeds (store (s\<lparr>pv_size := n\<rparr>) n [Some 0])" using assms by simp
  from succeedsD [OF this] obtain s' where s': "store (s\<lparr>pv_size := n\<rparr>) n [Some 0] = Inr s'" ..
  from store_Inr [OF s'] s' show ?thesis by (simp add: ys_Eos_def)
qed

lemma ys_Eos_full: "length (pv_block s) \<le> n \<Longrightarrow> ys_Eos s n = Inl Undefined"
  by (simp add: ys_Eos_def store_def)

lemma ys_grown:
  assumes ok: "ys_ok env s" and n: "Suc n \<le> max_size env" "pv_size s \<le> n" and heap: "heap_available env" and e: "\<not> exact_fit s n"
  shows "\<exists>s'. (if pv_res s < n then ys_Resize_reallocate env pol s n else ys_Eos s n) = Inr s' \<and> ys_ok env s' \<and> pv_size s' = n \<and>
    take (pv_size s) (pv_block s') = ys_text s \<and> n < length (pv_block s') \<and> pv_block s' ! n = Some 0"
proof (cases "pv_res s < n")
  case True
  from ys_Reallocate_Inr [OF ok n heap, of pol] obtain s1 where s1: "ys_Reallocate env pol s n = Inr s1" "ys_ok env s1"
    "Suc n \<le> pv_res s1" "length (pv_block s1) = pv_res s1" "take (pv_size s) (pv_block s1) = ys_text s" by blast
  have "n < length (pv_block s1)" using s1(3,4) by simp
  from ys_Eos_room [OF this] obtain s' where "ys_Eos s1 n = Inr s'" "pv_size s' = n" "pv_res s' = pv_res s1"
    "pv_block s' = splice n [Some 0] (pv_block s1)" by blast
  with s1 n True show ?thesis
    by (auto simp: ys_Resize_reallocate_def ys_ok_def splice_def nth_append)
next
  case False
  have "n < length (pv_block s)" using ok e False by (auto simp: ys_ok_def exact_fit_def)
  from ys_Eos_room [OF this] obtain s' where "ys_Eos s n = Inr s'" "pv_size s' = n" "pv_res s' = pv_res s"
    "pv_block s' = splice n [Some 0] (pv_block s)" by blast
  with ok n False \<open>n < length (pv_block s)\<close> show ?thesis
    by (auto simp: ys_ok_def splice_def nth_append ys_text_def)
qed

lemma ys_grow_exact: "exact_fit s n \<Longrightarrow> (if pv_res s < n then ys_Resize_reallocate env pol s n else ys_Eos s n) = Inl Undefined"
  by (simp add: exact_fit_def ys_Eos_full)

lemma ys_expand_eq: "pv_size s + count < 2 ^ 64 \<Longrightarrow> ys_expand env s count =
    (if pv_res s < pv_size s + count then ys_Resize_reallocate env At_least s (pv_size s + count) else ys_Eos s (pv_size s + count))"
  by (simp add: ys_expand_def)

text \<open>Filling the cells behind a prefix.\<close>

lemma ys_fill:
  assumes ok: "ys_ok env s" and k: "k + length ys = pv_size s" "pv_size s < length (pv_block s)" "pv_block s ! pv_size s = Some 0"
    and t: "take k (pv_block s) = t"
  shows "\<exists>s'. store s k ys = Inr s' \<and> ys_holds env s' (t @ ys)"
proof -
  have "succeeds (store s k ys)" using k by simp
  from succeedsD [OF this] obtain s' where s': "store s k ys = Inr s'" ..
  from store_Inr [OF this] ok k t show ?thesis
    by (auto simp: s' ys_holds_def ys_ok_def splice_def ys_text_def nth_append)
qed

section \<open>Appending and inserting\<close>

lemma ys_append_ok:
  assumes ok: "ys_ok env s" and room: "pv_size s + length xs + 1 \<le> max_size env" and heap: "heap_available env" and xs: "xs \<noteq> []"
  shows "exact_fit s (pv_size s + length xs) \<Longrightarrow> ys_append env s xs = Inl Undefined"
    "\<not> exact_fit s (pv_size s + length xs) \<Longrightarrow> \<exists>s'. ys_append env s xs = Inr s' \<and> ys_holds env s' (ys_text s @ map Some xs)"
proof -
  let ?n = "pv_size s + length xs"
  have lt: "?n < 2 ^ 64" using room max_size_less [of env] by simp
  have n: "Suc ?n \<le> max_size env" "pv_size s \<le> ?n" using room by simp_all
  note ex = ys_expand_eq [OF lt, of env]
  have h: "map Some xs = [Some (hd xs)] \<and> length xs = 1" if "\<not> length xs > 1" using that xs by (cases xs) auto
  show "ys_append env s xs = Inl Undefined" if "exact_fit s ?n"
  proof -
    have "ys_expand env s (length xs) = Inl Undefined" unfolding ex by (rule ys_grow_exact [OF that])
    then show ?thesis using h xs by (cases "length xs > 1") (auto simp: ys_append_def ys_push_back_def Let_def)
  qed
  assume e: "\<not> exact_fit s ?n"
  from ys_grown [OF ok n heap e, of At_least] obtain s1 where s1: "ys_expand env s (length xs) = Inr s1" "ys_ok env s1" "pv_size s1 = ?n"
    "take (pv_size s) (pv_block s1) = ys_text s" "?n < length (pv_block s1)" "pv_block s1 ! ?n = Some 0" unfolding ex [symmetric] by blast
  from ys_fill [OF s1(2), of "pv_size s" "map Some xs" "ys_text s"] s1(3-6)
  have "\<exists>s'. store s1 (pv_size s) (map Some xs) = Inr s' \<and> ys_holds env s' (ys_text s @ map Some xs)" by simp
  then show "\<exists>s'. ys_append env s xs = Inr s' \<and> ys_holds env s' (ys_text s @ map Some xs)"
  proof (cases "length xs > 1")
    case False
    from h [OF this] show ?thesis using \<open>\<exists>s'. store s1 _ _ = Inr s' \<and> _\<close> s1(1,3) xs by (simp add: ys_append_def ys_push_back_def)
  qed (use s1(1) xs in \<open>simp add: ys_append_def Let_def\<close>)
qed

lemma ys_insert_ok:
  assumes ok: "ys_ok env s" and room: "pv_size s + length xs + 1 \<le> max_size env" and heap: "heap_available env" and xs: "xs \<noteq> []"
    and pos: "pos \<le> pv_size s"
  shows "exact_fit s (pv_size s + length xs) \<Longrightarrow> ys_insert env s pos xs = Inl Undefined"
    "\<not> exact_fit s (pv_size s + length xs) \<Longrightarrow>
      \<exists>s'. ys_insert env s pos xs = Inr s' \<and> ys_holds env s' (take pos (ys_text s) @ map Some xs @ drop pos (ys_text s))"
proof -
  let ?n = "pv_size s + length xs"
  have lt: "?n < 2 ^ 64" using room max_size_less [of env] by simp
  have n: "Suc ?n \<le> max_size env" "pv_size s \<le> ?n" using room by simp_all
  note ex = ys_expand_eq [OF lt, of env] and ap = ys_append_ok [OF ok room heap xs]
  show "ys_insert env s pos xs = Inl Undefined" if "exact_fit s ?n"
  proof -
    have "ys_expand env s (length xs) = Inl Undefined" unfolding ex by (rule ys_grow_exact [OF that])
    then show ?thesis using xs ap(1) [OF that] pos by (auto simp: ys_insert_def Let_def)
  qed
  assume e: "\<not> exact_fit s ?n"
  show "\<exists>s'. ys_insert env s pos xs = Inr s' \<and> ys_holds env s' (take pos (ys_text s) @ map Some xs @ drop pos (ys_text s))"
  proof (cases "pos = pv_size s")
    case True
    then show ?thesis using ap(2) [OF e] xs length_ys_text [OF ok] by (simp add: ys_insert_def)
  next
    case False
    from ys_grown [OF ok n heap e, of At_least] obtain s1 where s1: "ys_expand env s (length xs) = Inr s1" "ys_ok env s1" "pv_size s1 = ?n"
      "take (pv_size s) (pv_block s1) = ys_text s" "?n < length (pv_block s1)" "pv_block s1 ! ?n = Some 0" unfolding ex [symmetric] by blast
    let ?ys = "drop pos (ys_text s)"
    have y: "take (pv_size s - pos) (drop pos (pv_block s1)) = ?ys" using s1(4) by (metis drop_take)
    have ly: "length ?ys = pv_size s - pos" by (simp add: length_ys_text [OF ok])
    let ?k = "pos + length xs"
    from ys_fill [OF s1(2), of ?k ?ys] s1(3,5,6) ly pos obtain s2 where s2: "store s1 ?k ?ys = Inr s2" "ys_holds env s2 (take ?k (pv_block s1) @ ?ys)"
      by fastforce
    have cp: "copy_within s1 pos (?n - ?k) ?k = Inr s2" using s2(1) y by (simp add: copy_within_def)
    have b2: "pv_block s2 = splice ?k ?ys (pv_block s1)" "pv_size s2 = ?n" using store_Inr [OF s2(1)] s1(3) by auto
    have "succeeds (store s2 pos (map Some xs))" using b2 s1(5) pos ly by (simp add: splice_def)
    from succeedsD [OF this] obtain s3 where s3: "store s2 pos (map Some xs) = Inr s3" ..
    have tp: "take pos (pv_block s1) = take pos (ys_text s)" using s1(4) pos by (metis min.absorb1 take_take)
    from store_Inr [OF s3] have b3: "pv_block s3 = splice pos (map Some xs) (splice ?k ?ys (pv_block s1))" "pv_size s3 = ?n" "pv_res s3 = pv_res s2"
      using b2 by auto
    have l3: "length (pv_block s3) = length (pv_block s1)" using b3(1) s1(5) pos ly by (simp add: splice_def)
    have blk: "pv_block s3 = take pos (ys_text s) @ map Some xs @ ?ys @ drop ?n (pv_block s1)"
      unfolding b3(1) splice_def using pos ly s1(5) tp by (simp add: length_ys_text [OF ok] add.commute [of "length xs"])
    have "ys_holds env s3 (take pos (ys_text s) @ map Some xs @ ?ys)"
      unfolding ys_holds_def
    proof (intro conjI)
      show "ys_ok env s3" using s1(2) s2(1) b3(2,3) l3 s1(3) store_Inr [OF s2(1)] by (simp add: ys_ok_def)
      show "ys_text s3 = take pos (ys_text s) @ map Some xs @ ?ys"
        unfolding ys_text_def [of s3] b3(2) blk using pos ly by (simp add: length_ys_text [OF ok])
      show "pv_size s3 < length (pv_block s3)" using l3 b3(2) s1(5) by simp
      show "pv_block s3 ! pv_size s3 = Some 0"
        unfolding b3(2) blk using pos ly s1(5,6) by (auto simp: length_ys_text [OF ok] nth_append)
    qed
    then show ?thesis using False pos xs cp s3 s1(1,3) by (simp add: ys_insert_def Let_def)
  qed
qed

section \<open>Exact fits\<close>

text \<open>Inserting (at the end: appending) is list insertion, unless the longer text fills the block to
  its last cell: the capacity counts the terminator, the check before it is written does not.\<close>

theorem string_insert_unless_exact_fit:
  assumes "ys_ok env s" "heap_available env" "xs \<noteq> []" "pos \<le> pv_size s" "pv_size s + length xs + 1 \<le> max_size env"
  shows "if exact_fit s (pv_size s + length xs) then ys_insert env s pos xs = Inl Undefined
    else \<exists>s'. ys_insert env s pos xs = Inr s' \<and> ys_holds env s' (take pos (ys_text s) @ map Some xs @ drop pos (ys_text s))"
  using ys_insert_ok [OF assms(1,5,2,3,4)] by auto

text \<open>A text stored by \<open>assign\<close> leaves a block that its terminator ends: the next character
  that is pushed overflows it.\<close>

theorem push_back_after_assign_overflows:
  fixes xs :: "'a::zero list"
  assumes "0 < env_sizeof env" "heap_available env" "xs \<noteq> []" "length xs + 1 \<le> max_size env"
  shows "\<exists>s. ys_assign env pv_empty (Outside xs) = Inr s \<and> ys_holds env s (map Some xs) \<and> ys_push_back env s c = Inl Undefined"
proof -
  let ?n = "length xs"
  have ok: "ys_ok env pv_empty" using assms(1) by (simp add: ys_ok_def pv_empty_def pv_block_def)
  have n: "Suc ?n \<le> max_size env" "pv_size pv_empty \<le> ?n" using assms(4) by (simp_all add: pv_empty_def)
  have sa: "size_add ?n (Suc 0) = Suc ?n" using n(1) max_size_less [of env] by simp
  have r: "reallocate env [] (Suc ?n) = Some (replicate (Suc ?n) None :: 'a option list)"
    using assms(1,2) by (simp add: reallocate_eq [OF n(1)] heap_available_def)
  have e0: "pv_empty\<lparr>pv_size := 0\<rparr> = (pv_empty :: 'a ystring)" by (simp add: pv_empty_def)
  have res: "ys_resize env (pv_empty :: 'a ystring) ?n = Inr \<lparr>pv_first = Some (replicate ?n None @ [Some 0]), pv_size = ?n, pv_res = Suc ?n\<rparr>"
    using assms(3) r sa take_replicate [of ?n "Suc ?n" "None :: 'a option"]
    by (simp add: ys_resize_def ys_Resize_reallocate_def ys_Reallocate_def Let_def pv_empty_def pv_block_def ys_Eos_def store_def splice_def replicate_append_same)
  let ?s = "\<lparr>pv_first = Some (map Some xs @ [Some 0]), pv_size = ?n, pv_res = Suc ?n\<rparr>"
  have a: "ys_assign env pv_empty (Outside xs) = Inr ?s"
    using assms(3) res by (simp add: ys_assign_def e0 store_def pv_block_def splice_def)
  have h: "ys_holds env ?s (map Some xs)"
    using assms(1) n(1) by (simp add: ys_holds_def ys_ok_def ys_text_def pv_block_def nth_append)
  have "ys_expand env ?s 1 = Inl Undefined"
    using n(1) max_size_less [of env] by (simp add: ys_expand_def ys_Eos_def store_def pv_block_def)
  then have "ys_push_back env ?s c = Inl Undefined" by (simp add: ys_push_back_def)
  with a h show ?thesis by blast
qed

definition demo_env :: pv_env where "demo_env = \<lparr>env_sizeof = 1, env_heap = \<lambda>_. True\<rparr>"

lemma demo_env_ok: "0 < env_sizeof demo_env" "heap_available demo_env" "max_size demo_env = 2 ^ 64 - 1"
  by (simp_all add: demo_env_def heap_available_def max_size_def)

lemma push_back_after_assign_overflows_witness:
  "\<exists>s. ys_assign demo_env pv_empty (Outside [97, 98, 99 :: 8 word]) = Inr s \<and> ys_push_back demo_env s 100 = Inl Undefined"
  using push_back_after_assign_overflows [OF demo_env_ok(1,2), of "[97, 98, 99 :: 8 word]" 100] demo_env_ok(3) by auto

definition demo_string :: "8 word ystring" where
  "demo_string = \<lparr>pv_first = Some [Some 97, Some 98, Some 0, None, None], pv_size = 2, pv_res = 5\<rparr>"

lemma demo_string_ok: "ys_ok demo_env demo_string" "ys_text demo_string = [Some 97, Some 98]"
  by (simp_all add: ys_ok_def demo_string_def pv_block_def demo_env_def max_size_def ys_text_def)

lemma string_insert_unless_exact_fit_witness:
  "(\<exists>s'. ys_insert demo_env demo_string 1 [120, 121] = Inr s' \<and> ys_holds demo_env s' [Some 97, Some 120, Some 121, Some 98]) \<and>
   ys_insert demo_env demo_string 1 [120, 121, 122] = Inl Undefined"
  using string_insert_unless_exact_fit [OF demo_string_ok(1) demo_env_ok(2), of "[120, 121]" 1]
    string_insert_unless_exact_fit [OF demo_string_ok(1) demo_env_ok(2), of "[120, 121, 122]" 1]
    demo_string_ok(2) demo_env_ok(3)
  by (simp add: demo_string_def exact_fit_def pv_block_def)

section \<open>The terminator and the string's own memory\<close>

text \<open>\<open>clear\<close> and \<open>erase\<close> do not move the terminator, so the C string stays longer than the text;
  \<open>resize(0)\<close> of a string that has no block writes through the null pointer; assigning a prefix of
  the string to itself leaves the whole.\<close>

theorem string_terminator_and_prefix:
  "pv_block (ys_clear s) = pv_block s \<and> pv_size (ys_clear s) = 0 \<and>
   ys_resize env (pv_empty :: 'a::zero ystring) 0 = Inl Undefined \<and> ys_assign env s (Inside 0 n) = Inr s"
  by (simp add: ys_clear_def ys_resize_def ys_Eos_def store_def pv_empty_def pv_block_def ys_assign_def)

section \<open>Replacing\<close>

lemma ys_move_eq: "from + n \<le> length (pv_block s) \<Longrightarrow> to' + n \<le> length (pv_block s) \<Longrightarrow>
    \<exists>s'. ys_move to' from n s = Inr s' \<and> pv_block s' = splice to' (take n (drop from (pv_block s))) (pv_block s) \<and>
      pv_size s' = pv_size s \<and> pv_res s' = pv_res s"
proof -
  assume a: "from + n \<le> length (pv_block s)" "to' + n \<le> length (pv_block s)"
  then have "succeeds (store s to' (take n (drop from (pv_block s))))" by simp
  from succeedsD [OF this] obtain s' where s': "store s to' (take n (drop from (pv_block s))) = Inr s'" ..
  from store_Inr [OF s'] s' a(1) show ?thesis by (simp add: ys_move_def)
qed

lemma ys_store_eq: "k + length xs \<le> length (pv_block s) \<Longrightarrow>
    \<exists>s'. store s k xs = Inr s' \<and> pv_block s' = splice k xs (pv_block s) \<and> pv_size s' = pv_size s \<and> pv_res s' = pv_res s"
proof -
  assume "k + length xs \<le> length (pv_block s)"
  then have "succeeds (store s k xs)" by simp
  from succeedsD [OF this] obtain s' where "store s k xs = Inr s'" ..
  from store_Inr [OF this] this show ?thesis by simp
qed

text \<open>A source inside the text, with what it holds.\<close>

definition source_ok :: "'a ystring \<Rightarrow> 'a source \<Rightarrow> bool" where
  "source_ok s v \<longleftrightarrow> (case v of Outside _ \<Rightarrow> True | Inside p n \<Rightarrow> p + n \<le> pv_size s)"

definition replaced :: "'a list \<Rightarrow> nat \<Rightarrow> nat \<Rightarrow> 'a list \<Rightarrow> 'a list" where
  "replaced t off nx xs = take off t @ xs @ drop (off + nx) t"

lemma source_cells_length: "source_ok s v \<Longrightarrow> ys_ok env s \<Longrightarrow> length (source_cells (pv_block s) v) = source_length v"
  by (auto simp: source_cells_def source_length_def source_ok_def ys_ok_def split: source.splits)

lemma ys_move_source_eq:
  assumes "ys_ok env s" "source_ok s v" "k + source_length v \<le> length (pv_block s)"
  shows "\<exists>s'. ys_move_source k v s = Inr s' \<and> pv_block s' = splice k (source_cells (pv_block s) v) (pv_block s) \<and>
    pv_size s' = pv_size s \<and> pv_res s' = pv_res s"
proof (cases v)
  case (Outside xs)
  then show ?thesis using ys_store_eq [of k "map Some xs" s] assms(3) by (simp add: ys_move_source_def source_cells_def source_length_def)
next
  case (Inside p n)
  then show ?thesis using ys_move_eq [of p n s k] assms by (simp add: ys_move_source_def source_cells_def source_length_def source_ok_def ys_ok_def)
qed

lemma holds_blockI:
  assumes "ys_ok env s" "length b = length (pv_block s)" "pv_block s' = b" "pv_res s' = pv_res s" "pv_size s' = length t" "length t \<le> pv_res s"
    "b = t @ Some 0 # rest"
  shows "ys_holds env s' t"
  using assms by (simp add: ys_holds_def ys_ok_def ys_text_def nth_append)

lemma holds_split:
  assumes "ys_holds env s t"
  obtains rest where "pv_block s = t @ Some 0 # rest" "length t = pv_size s"
proof -
  have "pv_block s = take (pv_size s) (pv_block s) @ pv_block s ! pv_size s # drop (Suc (pv_size s)) (pv_block s)"
    using assms by (intro id_take_nth_drop) (simp add: ys_holds_def)
  then show thesis using that [of "drop (Suc (pv_size s)) (pv_block s)"] assms length_ys_text [of env s]
    by (simp add: ys_holds_def ys_text_def)
qed

text \<open>\<open>replace\<close> inside the block: the suffix with its terminator moves, the source, wherever it lies,
  ends up in the hole.\<close>

lemma splice_mid: "length a = k \<Longrightarrow> length d = length m \<Longrightarrow> splice k d (a @ m @ c) = a @ d @ c"
  by (simp add: splice_def)

lemma replace_shrinks:
  assumes h: "ys_holds env s t" and src: "source_ok s v" and off: "off < pv_size s"
    and nx: "nx = min nx0 (pv_size s - off)" and small: "source_length v \<le> nx"
  shows "\<exists>s'. ys_replace env s off nx0 v = Inr s' \<and> ys_holds env s' (replaced t off nx (source_cells (pv_block s) v)) \<and>
    length (pv_block s') = length (pv_block s)"
proof -
  have ok: "ys_ok env s" using h by (simp add: ys_holds_def)
  from holds_split [OF h] obtain rest where b: "pv_block s = t @ Some 0 # rest" and lt: "length t = pv_size s" by blast
  let ?x = "source_cells (pv_block s) v" and ?c = "source_length v"
  have lx: "length ?x = ?c" by (rule source_cells_length [OF src ok])
  have nb: "off + nx \<le> pv_size s" using nx off by simp
  let ?A = "take off t" and ?H = "take nx (drop off t)" and ?S = "drop (off + nx) t"
  have t: "t = ?A @ ?H @ ?S" by (metis append_take_drop_id drop_drop add.commute)
  have la: "length ?A = off" "length ?H = nx" "length ?S = pv_size s - off - nx" using nb lt by simp_all
  have "off + ?c \<le> length (pv_block s)" using nb small b lt by simp
  from ys_move_source_eq [OF ok src this] obtain s1 where s1: "ys_move_source off v s = Inr s1" "pv_block s1 = splice off ?x (pv_block s)"
    "pv_size s1 = pv_size s" "pv_res s1 = pv_res s" by blast
  show ?thesis
  proof (cases "nx = ?c")
    case True
    have "pv_block s1 = splice off ?x (?A @ ?H @ (?S @ Some 0 # rest))" unfolding s1(2) b by (subst t) simp
    also have "\<dots> = ?A @ ?x @ ?S @ Some 0 # rest" by (rule splice_mid) (use la lx True in simp_all)
    finally have b1: "pv_block s1 = replaced t off nx ?x @ Some 0 # rest" by (simp add: replaced_def)
    have l: "length (replaced t off nx ?x) = pv_size s" using la lx True nb by (simp add: replaced_def)
    have "ys_holds env s1 (replaced t off nx ?x)"
      by (rule holds_blockI [OF ok _ b1 s1(4) _ _ refl]) (use s1(3) l b lt ok in \<open>simp_all add: ys_ok_def\<close>)
    moreover have "length (pv_block s1) = length (pv_block s)" using b1 l b lt by simp
    moreover have "ys_replace env s off nx0 v = Inr s1" using off s1(1) True nx by (simp add: ys_replace_def Let_def)
    ultimately show ?thesis by blast
  next
    case False
    then have less: "?c < nx" using small by simp
    let ?n = "pv_size s - nx - off + 1"
    have "pv_block s1 = splice off ?x (?A @ take ?c ?H @ (drop ?c ?H @ ?S @ Some 0 # rest))"
    proof -
      have "?H @ y = take ?c ?H @ drop ?c ?H @ y" for y by (metis append.assoc append_take_drop_id)
      moreover have "pv_block s = ?A @ ?H @ ?S @ Some 0 # rest" using b arg_cong [OF t, of "\<lambda>z. z @ Some 0 # rest"] by simp
      ultimately show ?thesis unfolding s1(2) by (simp only: append_assoc)
    qed
    also have "\<dots> = ?A @ ?x @ drop ?c ?H @ ?S @ Some 0 # rest" by (rule splice_mid) (use la lx less in simp_all)
    finally have b1: "pv_block s1 = ?A @ ?x @ drop ?c ?H @ ?S @ Some 0 # rest" .
    have l1: "length (pv_block s1) = length (pv_block s)" using b1 la lx less b lt nb by simp
    have d: "take ?n (drop (off + nx) (pv_block s1)) = ?S @ [Some 0]"
    proof -
      have "drop (off + nx) (pv_block s1) = ?S @ Some 0 # rest" unfolding b1 using la lx less by simp
      moreover have "?n = length (?S @ [Some 0])" using la nb by simp
      ultimately show ?thesis by simp
    qed
    have "off + nx + ?n \<le> length (pv_block s1)" "off + ?c + ?n \<le> length (pv_block s1)" using l1 b lt nb less by simp_all
    from ys_move_eq [OF this] d obtain s2 where s2: "ys_move (off + ?c) (off + nx) ?n s1 = Inr s2"
      "pv_block s2 = splice (off + ?c) (?S @ [Some 0]) (pv_block s1)" "pv_size s2 = pv_size s1" "pv_res s2 = pv_res s1" by auto
    have e: "pv_block s1 = (?A @ ?x) @ take ?n (drop (off + ?c) (pv_block s1)) @ drop (off + ?c + ?n) (pv_block s1)"
    proof -
      have "take (off + ?c) (pv_block s1) = ?A @ ?x" unfolding b1 using la lx by simp
      then show ?thesis by (metis append_take_drop_id drop_drop add.commute)
    qed
    have "pv_block s2 = splice (off + ?c) (?S @ [Some 0]) ((?A @ ?x) @ take ?n (drop (off + ?c) (pv_block s1)) @ drop (off + ?c + ?n) (pv_block s1))"
      using s2(2) e by simp
    also have "\<dots> = (?A @ ?x) @ (?S @ [Some 0]) @ drop (off + ?c + ?n) (pv_block s1)"
      by (rule splice_mid) (use la lx l1 b lt nb less in simp_all)
    finally have b2: "pv_block s2 = replaced t off nx ?x @ Some 0 # drop (off + ?c + ?n) (pv_block s1)" by (simp add: replaced_def)
    let ?s = "s2\<lparr>pv_size := pv_size s - (nx - ?c)\<rparr>"
    have l: "length (replaced t off nx ?x) = pv_size s - (nx - ?c)" using la lx nb less by (simp add: replaced_def)
    have l2: "length (pv_block s2) = length (pv_block s)" using b2 l l1 b lt nb less by simp
    have "pv_size s - (nx - ?c) \<le> pv_res s" using ok unfolding ys_ok_def by linarith
    then have "ys_holds env ?s (replaced t off nx ?x)"
      by (intro holds_blockI [OF ok _ _ _ _ _ b2]) (use s2 s1 l l2 in simp_all)
    moreover have "ys_replace env s off nx0 v = Inr ?s"
      unfolding ys_replace_def Let_def nx [symmetric] using off less s1(1) s2(1) by simp
    ultimately show ?thesis using l2 by auto
  qed
qed

text \<open>A source that starts before the hole and ends inside it, not at its end, is taken for one that
  reaches the suffix.\<close>

definition ends_in_hole :: "nat \<Rightarrow> nat \<Rightarrow> 'a source \<Rightarrow> bool" where
  "ends_in_hole off nx v \<longleftrightarrow> (case v of Outside _ \<Rightarrow> False | Inside p n \<Rightarrow> off < p + n \<and> p + n < off + nx)"

lemma ys_copy_apart: "to' + n \<le> from \<or> from + n \<le> to' \<Longrightarrow> ys_copy to' from n s = ys_move to' from n s"
  by (auto simp: ys_copy_def)

lemma replace_grows:
  assumes h: "ys_holds env s t" and src: "source_ok s v" and off: "off < pv_size s"
    and nx: "nx = min nx0 (pv_size s - off)" and big: "nx < source_length v"
    and room: "source_length v - nx \<le> pv_res s - pv_size s" "pv_size s + (source_length v - nx) < length (pv_block s)"
    and whole: "\<not> ends_in_hole off nx v"
  shows "\<exists>s'. ys_replace env s off nx0 v = Inr s' \<and> ys_holds env s' (replaced t off nx (source_cells (pv_block s) v))"
proof -
  have ok: "ys_ok env s" using h by (simp add: ys_holds_def)
  from holds_split [OF h] obtain rest where b: "pv_block s = t @ Some 0 # rest" and lt: "length t = pv_size s" by blast
  let ?x = "source_cells (pv_block s) v" and ?c = "source_length v"
  let ?g = "?c - nx" and ?n = "pv_size s - nx - off + 1"
  have lx: "length ?x = ?c" by (rule source_cells_length [OF src ok])
  have nb: "off + nx \<le> pv_size s" using nx off by simp
  have og: "off + nx + ?g = off + ?c" using big by simp
  let ?A = "take off t" and ?S = "drop (off + nx) t"
  let ?B = "take (off + ?c) (pv_block s)" and ?s0 = "s\<lparr>pv_size := pv_size s + ?g\<rparr>"
  have la: "length ?A = off" "length ?S = pv_size s - off - nx" using nb lt by simp_all
  have ob: "off + ?c \<le> length (pv_block s)" using room(2) nb big by simp
  have "take off (pv_block s) = ?A" using lt off by (simp add: b)
  then have lB: "length ?B = off + ?c" "take off ?B = ?A" using ob by simp_all
  have d: "take ?n (drop (off + nx) (pv_block s)) = ?S @ [Some 0]"
  proof -
    have "drop (off + nx) (pv_block s) = ?S @ Some 0 # rest" unfolding b using nb lt by simp
    moreover have "?n = length (?S @ [Some 0])" using la nb by simp
    ultimately show ?thesis by simp
  qed
  have "off + nx + ?n \<le> length (pv_block ?s0)" "off + ?c + ?n \<le> length (pv_block ?s0)" using b lt nb big room(2) by simp_all
  from ys_move_eq [OF this] d obtain s1 where s1: "ys_move (off + ?c) (off + nx) ?n ?s0 = Inr s1"
    "pv_block s1 = splice (off + ?c) (?S @ [Some 0]) (pv_block s)" "pv_size s1 = pv_size s + ?g" "pv_res s1 = pv_res s" by auto
  define R where "R = drop (off + ?c + ?n) (pv_block s)"
  have b1: "pv_block s1 = ?B @ ?S @ Some 0 # R"
    unfolding s1(2) splice_def R_def using la nb by simp
  have l1: "length (pv_block s1) = length (pv_block s)"
    using b1 lB la room(2) nb big by (simp add: R_def)
  have l: "length (replaced t off nx ?x) = pv_size s + ?g" using la lx nb big by (simp add: replaced_def)
  have res: "pv_size s + ?g \<le> pv_res s" using room(1) ok unfolding ys_ok_def by linarith
  have fin: "ys_holds env s' (replaced t off nx ?x)"
    if "pv_block s' = ?A @ ?x @ ?S @ Some 0 # R" "pv_size s' = pv_size s1" "pv_res s' = pv_res s1" for s'
  proof (rule holds_blockI [OF ok _ that(1)])
    show "length (?A @ ?x @ ?S @ Some 0 # R) = length (pv_block s)" using l1 b1 lB lx la by simp
    show "?A @ ?x @ ?S @ Some 0 # R = replaced t off nx ?x @ Some 0 # R" by (simp add: replaced_def)
  qed (use l that(2,3) s1(3,4) res in simp_all)
  have A1: "pv_block s1 = ?A @ drop off ?B @ ?S @ Some 0 # R" unfolding b1 using lB(2) by (metis append.assoc append_take_drop_id)
  have start: "ys_replace env s off nx0 v =
    (case v of Outside xs \<Rightarrow> store s1 off (map Some xs)
      | Inside p n \<Rightarrow> andthen (ys_move off p (ptr_shifted_after off (off + nx) (pv_size s) v) s1) (\<lambda>s2.
          ys_copy (off + ptr_shifted_after off (off + nx) (pv_size s) v) (p + ?g + ptr_shifted_after off (off + nx) (pv_size s) v)
            ((2 ^ 64 + ?c - ptr_shifted_after off (off + nx) (pv_size s) v) mod 2 ^ 64) s2))"
    unfolding ys_replace_def Let_def nx [symmetric] using off big room(1) s1(1) by (simp add: og [simplified])
  show ?thesis
  proof (cases v)
    case (Outside xs)
    have x: "?x = map Some xs" "?c = length xs" by (simp_all add: Outside source_cells_def source_length_def)
    have "off + length (map Some xs) \<le> length (pv_block s1)" using l1 ob x(2) by simp
    from ys_store_eq [OF this] obtain s' where s': "store s1 off (map Some xs) = Inr s'"
      "pv_block s' = splice off (map Some xs) (pv_block s1)" "pv_size s' = pv_size s1" "pv_res s' = pv_res s1" by blast
    have "pv_block s' = ?A @ ?x @ ?S @ Some 0 # R"
      unfolding s'(2) A1 x(1) [symmetric] by (rule splice_mid) (use la lx lB in simp_all)
    from fin [OF this s'(3,4)] show ?thesis using start s'(1) by (auto simp: Outside)
  next
    case (Inside p n)
    have x: "?x = take n (drop p (pv_block s))" "?c = n" and pn: "p + n \<le> pv_size s"
      using src by (simp_all add: Inside source_cells_def source_length_def source_ok_def)
    have nn: "n < 2 ^ 64" using pn ok max_size_less [of env] by (simp add: ys_ok_def)
    consider (before) "p + n \<le> off" | (behind) "off < p + n" "off + nx \<le> p" | (across) "off < p + n" "p < off + nx" "off + nx \<le> p + n"
      using whole by (fastforce simp: ends_in_hole_def Inside)
    note cases = this
    have xt: "?x = take n (drop p t)" unfolding x(1) unfolding b using pn lt by simp
    have len: "pv_size s + ?g < length (pv_block s1)" using l1 room(2) by simp
    from cases have "\<exists>s'. ys_replace env s off nx0 v = Inr s' \<and> pv_block s' = ?A @ ?x @ ?S @ Some 0 # R \<and> pv_size s' = pv_size s1 \<and> pv_res s' = pv_res s1"
    proof cases
      case before
      have k: "ptr_shifted_after off (off + nx) (pv_size s) v = n" using before by (simp add: ptr_shifted_after_def Inside)
      have "p + n \<le> length (pv_block s1)" "off + n \<le> length (pv_block s1)" using l1 ob x(2) before by simp_all
      from ys_move_eq [OF this] obtain s2 where s2: "ys_move off p n s1 = Inr s2" "pv_block s2 = splice off (take n (drop p (pv_block s1))) (pv_block s1)"
        "pv_size s2 = pv_size s1" "pv_res s2 = pv_res s1" by blast
      have "take (p + n) (pv_block s1) = take (p + n) (pv_block s)" unfolding b1 using before lB(1) by simp
      then have src_eq: "take n (drop p (pv_block s1)) = ?x" unfolding x(1) by (metis drop_take add_diff_cancel_left')
      have b2: "pv_block s2 = ?A @ ?x @ ?S @ Some 0 # R"
        unfolding s2(2) unfolding src_eq unfolding A1 by (rule splice_mid) (use la lx lB in simp_all)
      have l2: "length (pv_block s2) = length (pv_block s1)" using b2 b1 lB lx la by simp
      have "p + ?g + n + 0 \<le> length (pv_block s2)" "off + n + 0 \<le> length (pv_block s2)" using l2 len before off \<open>off + n \<le> length (pv_block s1)\<close> by simp_all
      from ys_move_eq [OF this] obtain s3 where s3: "ys_move (off + n) (p + ?g + n) 0 s2 = Inr s3" "pv_block s3 = pv_block s2"
        "pv_size s3 = pv_size s2" "pv_res s3 = pv_res s2" by auto
      have "ys_copy (off + n) (p + ?g + n) 0 s2 = Inr s3" using s3(1) by (simp add: ys_copy_def)
      then have "ys_replace env s off nx0 v = Inr s3" unfolding start k using s2(1) x(2) by (simp add: Inside)
      then show ?thesis using b2 s2 s3 by auto
    next
      case behind
      have k: "ptr_shifted_after off (off + nx) (pv_size s) v = 0" using behind pn big x(2) by (simp add: ptr_shifted_after_def Inside)
      have "p + 0 \<le> length (pv_block s1)" "off + 0 \<le> length (pv_block s1)" using len pn off by simp_all
      from ys_move_eq [OF this] obtain s2 where s2: "ys_move off p 0 s1 = Inr s2" "pv_block s2 = pv_block s1"
        "pv_size s2 = pv_size s1" "pv_res s2 = pv_res s1" by auto
      have "p + ?g + n \<le> length (pv_block s2)" "off + n \<le> length (pv_block s2)" using len pn s2(2) l1 ob x(2) by simp_all
      from ys_move_eq [OF this] obtain s3 where s3: "ys_move off (p + ?g) n s2 = Inr s3" "pv_block s3 = splice off (take n (drop (p + ?g) (pv_block s2))) (pv_block s2)"
        "pv_size s3 = pv_size s2" "pv_res s3 = pv_res s2" by blast
      have "p + ?g = off + n + (p - off - nx)" using behind(2) big x(2) by simp
      then have "drop (p + ?g) (pv_block s1) = drop (p - off - nx) (?S @ Some 0 # R)" unfolding b1 using lB(1) x(2) by simp
      then have "take n (drop (p + ?g) (pv_block s1)) = take n (drop (p - off - nx) ?S)" using la(2) behind(2) pn by simp
      also have "\<dots> = ?x" unfolding xt using behind(2) by simp
      finally have src_eq: "take n (drop (p + ?g) (pv_block s2)) = ?x" by (simp only: s2(2))
      have b3: "pv_block s3 = ?A @ ?x @ ?S @ Some 0 # R"
        unfolding s3(2) unfolding src_eq unfolding s2(2) unfolding A1 by (rule splice_mid) (use la lx lB in simp_all)
      have "off + n \<le> p + ?g" using behind(2) big unfolding x(2) by linarith
      then have "ys_copy off (p + ?g) n s2 = Inr s3" using s3(1) ys_copy_apart by metis
      then have "ys_replace env s off nx0 v = Inr s3" unfolding start k using s2(1) x(2) nn by (simp add: Inside)
      then show ?thesis using b3 s2 s3 by auto
    next
      case across
      let ?k = "off + nx - p"
      have k: "ptr_shifted_after off (off + nx) (pv_size s) v = ?k" using across pn nb by (simp add: ptr_shifted_after_def Inside)
      have kn: "?k \<le> n" "p + ?k = off + nx" using across by simp_all
      have "p + ?k \<le> length (pv_block s1)" "off + ?k \<le> length (pv_block s1)" using kn l1 ob x(2) big by simp_all
      from ys_move_eq [OF this] obtain s2 where s2: "ys_move off p ?k s1 = Inr s2" "pv_block s2 = splice off (take ?k (drop p (pv_block s1))) (pv_block s1)"
        "pv_size s2 = pv_size s1" "pv_res s2 = pv_res s1" by blast
      have "take (p + ?k) (pv_block s1) = take (p + ?k) (pv_block s)" unfolding b1 using kn(2) big x(2) lB(1) by simp
      then have "take ?k (drop p (pv_block s1)) = take ?k (drop p (pv_block s))" by (metis drop_take add_diff_cancel_left')
      also have "\<dots> = take ?k ?x" unfolding x(1) using kn(1) by (simp add: min_def)
      finally have src_eq: "take ?k (drop p (pv_block s1)) = take ?k ?x" .
      have B: "drop off ?B = take ?k (drop off ?B) @ drop (off + ?k) ?B" by (metis append_take_drop_id drop_drop add.commute)
      have b2: "pv_block s2 = ?A @ take ?k ?x @ drop (off + ?k) ?B @ ?S @ Some 0 # R"
      proof -
        have "pv_block s1 = ?A @ take ?k (drop off ?B) @ (drop (off + ?k) ?B @ ?S @ Some 0 # R)"
          using A1 B by (metis append.assoc)
        then show ?thesis unfolding s2(2) unfolding src_eq
          by (simp only:) (rule splice_mid, use la lx lB kn x(2) in simp_all)
      qed
      have l2: "length (pv_block s2) = length (pv_block s1)" using b2 b1 lB lx la kn x(2) by simp
      have "off + n + (n - ?k) \<le> length (pv_block s2)" "off + ?k + (n - ?k) \<le> length (pv_block s2)" using len l2 pn across big x(2) kn by simp_all
      from ys_move_eq [OF this] obtain s3 where s3: "ys_move (off + ?k) (off + n) (n - ?k) s2 = Inr s3"
        "pv_block s3 = splice (off + ?k) (take (n - ?k) (drop (off + n) (pv_block s2))) (pv_block s2)"
        "pv_size s3 = pv_size s2" "pv_res s3 = pv_res s2" by blast
      have "drop (off + n) (pv_block s2) = ?S @ Some 0 # R" unfolding b2 using la lx lB kn x(2) by simp
      then have "take (n - ?k) (drop (off + n) (pv_block s2)) = take (n - ?k) ?S" using la(2) pn across by simp
      also have "\<dots> = drop ?k ?x" unfolding xt using kn by (simp add: drop_take)
      finally have src2: "take (n - ?k) (drop (off + n) (pv_block s2)) = drop ?k ?x" .
      have b3: "pv_block s3 = ?A @ ?x @ ?S @ Some 0 # R"
      proof -
        have "pv_block s3 = splice (off + ?k) (drop ?k ?x) ((?A @ take ?k ?x) @ drop (off + ?k) ?B @ (?S @ Some 0 # R))"
          unfolding s3(2) unfolding src2 unfolding b2 by simp
        also have "\<dots> = (?A @ take ?k ?x) @ drop ?k ?x @ (?S @ Some 0 # R)" by (rule splice_mid) (use la lx lB kn x(2) in simp_all)
        finally show ?thesis by (metis append.assoc append_take_drop_id)
      qed
      have e: "p + ?g + ?k = off + n" using kn big x(2) by simp
      have m: "(2 ^ 64 + n - ?k) mod 2 ^ 64 = n - ?k"
      proof -
        have "2 ^ 64 + n - ?k = (n - ?k) + 2 ^ 64" using kn(1) by simp
        then show ?thesis using nn by (simp only: mod_add_self2) simp
      qed
      have "ys_copy (off + ?k) (off + n) (n - ?k) s2 = Inr s3" using s3(1) kn(1) ys_copy_apart [of "off + ?k" "n - ?k" "off + n" s2] by simp
      moreover have "ys_replace env s off nx0 v =
        andthen (ys_move off p ?k s1) (\<lambda>s2. ys_copy (off + ?k) (p + ?g + ?k) ((2 ^ 64 + ?c - ?k) mod 2 ^ 64) s2)"
        unfolding start k by (simp add: Inside)
      ultimately have "ys_replace env s off nx0 v = Inr s3" unfolding e unfolding x(2) unfolding m using s2(1) by simp
      then show ?thesis using b3 s2 s3 by auto
    qed
    then show ?thesis using fin by blast
  qed
qed

text \<open>Replacing inside the block puts the source in place of the hole and keeps the terminator,
  wherever in the string the source lies, unless it starts before the hole and ends inside it, or
  the longer text fills the block to its last cell.\<close>

theorem string_replace_in_place:
  assumes "ys_holds env s t" "source_ok s v" "off < pv_size s" "nx = min nx0 (pv_size s - off)"
    and "source_length v \<le> nx \<or>
      (source_length v - nx \<le> pv_res s - pv_size s \<and> pv_size s + (source_length v - nx) < length (pv_block s) \<and> \<not> ends_in_hole off nx v)"
  shows "\<exists>s'. ys_replace env s off nx0 v = Inr s' \<and> ys_holds env s' (replaced t off nx (source_cells (pv_block s) v))"
proof (cases "source_length v \<le> nx")
  case True
  then show ?thesis using replace_shrinks [OF assms(1-4) True] by blast
next
  case False
  then show ?thesis using replace_grows [OF assms(1-4)] assms(5) by simp
qed

definition demo_text :: "8 word ystring" where
  "demo_text = \<lparr>pv_first = Some (map Some [97, 98, 99, 100, 101, 0, 0, 0]), pv_size = 5, pv_res = 8\<rparr>"

lemma demo_text_holds: "ys_holds demo_env demo_text (map Some [97, 98, 99, 100, 101])"
  by (simp add: ys_holds_def ys_ok_def demo_text_def pv_block_def demo_env_def max_size_def ys_text_def)

lemma string_replace_in_place_witness:
  "\<exists>s'. ys_replace demo_env demo_text 1 2 (Inside 2 3) = Inr s' \<and> ys_holds demo_env s' (map Some [97, 99, 100, 101, 100, 101])"
  using string_replace_in_place [OF demo_text_holds, of "Inside 2 3" 1 2 2]
  by (simp add: demo_text_def source_ok_def source_length_def source_cells_def ends_in_hole_def replaced_def pv_block_def)

text \<open>A source that starts before the hole and ends inside it is taken for one that reaches the text
  behind the hole: the length of the second copy wraps around.\<close>

theorem replace_source_ends_in_hole:
  assumes "ys_holds env s t" "off < pv_size s" "nx = min nx0 (pv_size s - off)" "nx < n" "n - nx \<le> pv_res s - pv_size s"
    and "off < p + n" "p + n < off + nx"
  shows "ys_replace env s off nx0 (Inside p n) = Inl Undefined"
proof -
  let ?k = "off + nx - p"
  have k: "n < ?k" "?k < 2 ^ 64" "p + ?k = off + nx"
  proof -
    have "off + nx \<le> pv_size s" using assms(2,3) by simp
    moreover have "pv_size s < 2 ^ 64" using assms(1) max_size_less [of env] by (simp add: ys_holds_def ys_ok_def)
    ultimately have "off + nx < 2 ^ 64" by linarith
    then show "n < ?k" "?k < 2 ^ 64" "p + ?k = off + nx" using assms(4,6,7) by simp_all
  qed
  have sh: "ptr_shifted_after off (off + nx) (pv_size s) (Inside p n) = ?k"
    using assms by (auto simp: ptr_shifted_after_def)
  have m: "(2 ^ 64 + n - ?k) mod 2 ^ 64 = 2 ^ 64 + n - ?k" using k by simp
  have small: "length (pv_block s) < 2 ^ 64" using assms(1) max_size_less [of env] by (simp add: ys_holds_def ys_ok_def)
  have u: "ys_copy a (p + (n - nx) + ?k) (2 ^ 64 + n - ?k) s2 = Inl Undefined" if "length (pv_block s2) = length (pv_block s)" for a and s2 :: "'a ystring"
    using small that k by (simp add: ys_copy_def ys_move_def)
  have len: "length (pv_block s2) = length (pv_block s1)" if "ys_move a b c s1 = Inr s2" for a b c and s1 s2 :: "'a ystring"
    using that store_Inr [of s1 a "take c (drop b (pv_block s1))" s2] by (auto simp: ys_move_def split: if_splits)
  have "andthen (ys_move off p ?k s1) (\<lambda>s2. ys_copy (off + ?k) (p + (n - nx) + ?k) (2 ^ 64 + n - ?k) s2) = Inl Undefined"
    if "ys_move a b c (s\<lparr>pv_size := z\<rparr>) = Inr s1" for a b c z s1
  proof (cases "ys_move off p ?k s1")
    case (Inl e)
    then show ?thesis by (auto simp: ys_move_def store_def split: if_splits)
  next
    case (Inr s2)
    then show ?thesis using u [of s2] len [OF Inr] len [OF that] by simp
  qed
  moreover have "ys_move a b c s0 = Inl e \<Longrightarrow> e = Undefined" for a b c e and s0 :: "'a ystring"
    by (auto simp: ys_move_def store_def split: if_splits)
  ultimately show ?thesis
    using assms(2,4,5) unfolding ys_replace_def Let_def assms(3) [symmetric] source_length_def source.case sh m
    by (cases "ys_move (off + nx + (n - nx)) (off + nx) (pv_size s - nx - off + 1) (s\<lparr>pv_size := pv_size s + (n - nx)\<rparr>)") auto
qed

lemma replace_source_ends_in_hole_witness: "ys_replace demo_env demo_text 2 3 (Inside 0 4) = Inl Undefined"
  using replace_source_ends_in_hole [OF demo_text_holds, of 2 3 3 4 0] by (simp add: demo_text_def)

text \<open>When the block must grow the suffix is moved with \<open>copy\<close>, which is only defined for ranges that
  do not overlap: a suffix longer than the growth is lost.\<close>

theorem replace_grow_overlaps:
  assumes "ys_ok env s" "off < pv_size s" "nx = min nx0 (pv_size s - off)" "nx < length xs"
    and "pv_res s - pv_size s < length xs - nx" "pv_size s + (length xs - nx) \<le> max_size env"
    and "length xs - nx < pv_size s - nx - off + 1"
  shows "ys_replace env s off nx0 (Outside xs) = Inl Undefined"
proof -
  have "\<not> max_size env - pv_size s < length xs - nx" using assms(6) by simp
  moreover have "ys_copy (off + length xs) (off + nx) (pv_size s - nx - off + 1) s1 = Inl Undefined" for s1 :: "'a ystring"
    using assms(4,7) by (auto simp: ys_copy_def)
  ultimately show ?thesis
    using assms(2,4,5) unfolding ys_replace_def Let_def assms(3) [symmetric]
    by (auto simp: source_length_def ys_Reallocate_grow_by_def Let_def split: option.splits)
qed

lemma replace_grow_overlaps_witness: "ys_replace demo_env demo_text 0 1 (Outside [120, 121, 122, 120, 121]) = Inl Undefined"
proof -
  have "ys_ok demo_env demo_text" using demo_text_holds by (simp add: ys_holds_def)
  from replace_grow_overlaps [OF this, of 0 1 1 "[120, 121, 122, 120, 121]"] show ?thesis
    using demo_env_ok(3) by (simp add: demo_text_def)
qed

section \<open>replace_all\<close>











end
