(* ===== verification/Split.thy ===== *)
theory Split
  imports CharTraits "HOL-Library.Char_ord"
begin

text \<open>
  The splitting of texts in \<open>split.hpp\<close>.  A C string is the list of its characters, followed in memory
  by a zero character; the callback gets the positions where a part starts and ends (no end stands
  for \<open>nullptr\<close>: to the end of the string), has a state of its own, and says whether to go on.
  Reading behind the zero character is undefined, the answer \<open>None\<close>.
\<close>

section \<open>Splitting\<close>

definition char_at :: "string \<Rightarrow> nat \<Rightarrow> char" where
  "char_at s i = (if i < length s then s ! i else CHR 0x00)"

text \<open>\<open>strchr(s + p, c)\<close> stops at the first zero character, and finds it if \<open>c\<close> is that.\<close>

definition strchr :: "string \<Rightarrow> nat \<Rightarrow> char \<Rightarrow> nat option option" where
  "strchr s p c =
     (if p > length s then None
      else case List.find (\<lambda>i. char_at s i = c \<or> char_at s i = CHR 0x00) [p..<Suc (length s)] of
             Some i \<Rightarrow> Some (if char_at s i = c then Some i else None)
           | None \<Rightarrow> Some None)"

type_synonym 's part_callback = "nat \<Rightarrow> nat option \<Rightarrow> 's \<Rightarrow> bool \<times> 's"

lemma strchr_eq: "p \<le> length s \<Longrightarrow> strchr s p c =
    (case first_at (\<lambda>i. char_at s i = c \<or> char_at s i = CHR 0x00) p (Suc (length s)) of
       Some i \<Rightarrow> Some (if char_at s i = c then Some i else None) | None \<Rightarrow> Some None)"
  by (simp add: strchr_def first_at_def)

lemma strchr_Some: "strchr s p c = Some (Some i) \<Longrightarrow> p \<le> i \<and> i \<le> length s"
  using strchr_eq [of p s c] by (cases "p \<le> length s") (auto simp: strchr_def first_at_Some split: option.splits if_splits)

function split_if_loop :: "string \<Rightarrow> char \<Rightarrow> 's part_callback \<Rightarrow> nat \<Rightarrow> nat \<Rightarrow> 's \<Rightarrow> 's option" where
  "split_if_loop s delim pred start ptr st =
     (case strchr s ptr delim of
        None \<Rightarrow> None
      | Some None \<Rightarrow> Some (snd (pred start None st))
      | Some (Some i) \<Rightarrow>
          if start \<le> i
          then let (go, st') = pred start (Some i) st in if \<not> go then Some st' else split_if_loop s delim pred (i + 1) (i + 1) st'
          else split_if_loop s delim pred (i + 1) (i + 1) st)"
  by pat_completeness auto
termination
  by (relation "measure (\<lambda>(s, delim, pred, start, ptr, st). Suc (length s) - ptr)") (auto dest!: strchr_Some)
declare split_if_loop.simps [simp del]

definition split_if :: "string \<Rightarrow> char \<Rightarrow> 's part_callback \<Rightarrow> 's \<Rightarrow> 's option" where
  "split_if s delim pred st = split_if_loop s delim pred 0 0 st"

function split_if_n_loop :: "string \<Rightarrow> nat \<Rightarrow> char \<Rightarrow> 's part_callback \<Rightarrow> nat \<Rightarrow> nat \<Rightarrow> 's \<Rightarrow> 's option" where
  "split_if_n_loop s slen delim pred start ptr st =
     (let rest = (if start \<le> slen then snd (pred start (Some slen) st) else st)
      in case strchr s ptr delim of
        None \<Rightarrow> None
      | Some None \<Rightarrow> Some rest
      | Some (Some i) \<Rightarrow>
          if i \<ge> slen then Some rest
          else if start \<le> i
          then let (go, st') = pred start (Some i) st in if \<not> go then Some st' else split_if_n_loop s slen delim pred (i + 1) (i + 1) st'
          else split_if_n_loop s slen delim pred (i + 1) (i + 1) st)"
  by pat_completeness auto
termination
  by (relation "measure (\<lambda>(s, slen, delim, pred, start, ptr, st). Suc (length s) - ptr)") (auto dest!: strchr_Some)
declare split_if_n_loop.simps [simp del]

definition split_if_n :: "string \<Rightarrow> nat \<Rightarrow> char \<Rightarrow> 's part_callback \<Rightarrow> 's \<Rightarrow> 's option" where
  "split_if_n s slen delim pred st = split_if_n_loop s slen delim pred 0 0 st"

definition always :: "(nat \<Rightarrow> nat option \<Rightarrow> 's \<Rightarrow> 's) \<Rightarrow> 's part_callback" where
  "always func = (\<lambda>start end st. (True, func start end st))"

definition split :: "string \<Rightarrow> char \<Rightarrow> (nat \<Rightarrow> nat option \<Rightarrow> 's \<Rightarrow> 's) \<Rightarrow> 's \<Rightarrow> 's option" where
  "split s delim func st = split_if s delim (always func) st"

definition split_n :: "string \<Rightarrow> nat \<Rightarrow> char \<Rightarrow> (nat \<Rightarrow> nat option \<Rightarrow> 's \<Rightarrow> 's) \<Rightarrow> 's \<Rightarrow> 's option" where
  "split_n s slen delim func st = split_if_n s slen delim (always func) st"

text \<open>\<open>split_term\<close> puts a zero character at the end of a part and the old one back.\<close>

record split_term =
  st_end :: "nat option"
  st_val :: char

definition split_term_new :: "nat option \<Rightarrow> string \<Rightarrow> split_term \<times> string" where
  "split_term_new end s = (case end of None \<Rightarrow> (\<lparr>st_end = None, st_val = CHR 0x00\<rparr>, s)
     | Some i \<Rightarrow> (\<lparr>st_end = Some i, st_val = s ! i\<rparr>, s[i := CHR 0x00]))"

definition split_term_end :: "split_term \<Rightarrow> string \<Rightarrow> string" where
  "split_term_end t s = (case st_end t of None \<Rightarrow> s | Some i \<Rightarrow> s[i := st_val t])"

section \<open>The fields of a text\<close>

fun fields :: "'a \<Rightarrow> 'a list \<Rightarrow> 'a list list" where
  "fields d [] = [[]]"
| "fields d (c # s) = (if c = d then [] # fields d s else (c # hd (fields d s)) # tl (fields d s))"

fun join :: "'a \<Rightarrow> 'a list list \<Rightarrow> 'a list" where
  "join d [] = []"
| "join d [f] = f"
| "join d (f # fs) = f @ d # join d fs"

text \<open>The callback on the parts in turn, up to the first it rejects.\<close>

fun visit :: "'s part_callback \<Rightarrow> (nat \<times> nat option) list \<Rightarrow> 's \<Rightarrow> 's" where
  "visit pred [] st = st"
| "visit pred ((a, b) # ps) st = (let (go, st') = pred a b st in if go then visit pred ps st' else st')"

definition part_text :: "string \<Rightarrow> nat \<times> nat option \<Rightarrow> string" where
  "part_text s p = (case p of (a, None) \<Rightarrow> drop a s | (a, Some b) \<Rightarrow> take (b - a) (drop a s))"

definition part_in :: "string \<Rightarrow> nat \<times> nat option \<Rightarrow> bool" where
  "part_in s p \<longleftrightarrow> (case p of (a, None) \<Rightarrow> a \<le> length s | (a, Some b) \<Rightarrow> a \<le> b \<and> b < length s)"

lemma fields_not_Nil [simp]: "fields d s \<noteq> []"
  by (induction s) auto

lemma join_Cons: "fs \<noteq> [] \<Longrightarrow> join d (f # fs) = f @ d # join d fs"
  by (cases fs) auto

lemma join_fields: "join d (fields d s) = s"
proof (induction s)
  case (Cons c s)
  obtain f fs where "fields d s = f # fs" by (cases "fields d s") auto
  with Cons show ?case by (cases fs) (auto simp: join_Cons)
qed simp

lemma fields_no_delimiter: "f \<in> set (fields d s) \<Longrightarrow> d \<notin> set f"
proof (induction s arbitrary: f)
  case (Cons c s)
  obtain g gs where "fields d s = g # gs" by (cases "fields d s") auto
  with Cons show ?case by (auto split: if_splits)
qed simp

lemma fields_append: "d \<notin> set f \<Longrightarrow> fields d (f @ d # s) = f # fields d s" "d \<notin> set f \<Longrightarrow> fields d f = [f]"
  by (induction f) auto

lemma strchr_cases:
  assumes "p \<le> length s" "CHR 0x00 \<notin> set s" "d \<noteq> CHR 0x00"
  obtains (none) "strchr s p d = Some None" "d \<notin> set (drop p s)"
  | (found) i where "strchr s p d = Some (Some i)" "p \<le> i" "i < length s" "drop p s = take (i - p) (drop p s) @ d # drop (Suc i) s" "d \<notin> set (take (i - p) (drop p s))"
proof -
  let ?P = "\<lambda>i. char_at s i = d \<or> char_at s i = CHR 0x00"
  have z: "char_at s i = CHR 0x00 \<longleftrightarrow> length s \<le> i" for i using assms(2) unfolding char_at_def by (metis not_le nth_mem)
  have "first_at ?P p (Suc (length s)) \<noteq> None" using assms(1) z [of "length s"] by (auto simp: first_at_None)
  then obtain i where i: "first_at ?P p (Suc (length s)) = Some i" by blast
  then have b: "p \<le> i" "i \<le> length s" "?P i" "\<And>j. p \<le> j \<Longrightarrow> j < i \<Longrightarrow> \<not> ?P j" by (auto simp: first_at_Some)
  have before: "d \<notin> set (take (i - p) (drop p s))"
  proof
    assume "d \<in> set (take (i - p) (drop p s))"
    then obtain k where "k < i - p" "d = s ! (p + k)" using b(1,2) by (auto simp: in_set_conv_nth)
    moreover from this(1) have "p + k < i" by simp
    ultimately show False using b(2) b(4) [of "p + k"] by (simp add: char_at_def)
  qed
  show thesis
  proof (cases "i < length s")
    case True
    then have c: "s ! i = d" using b(3) z [of i] by (auto simp: char_at_def)
    have "drop p s = take (i - p) (drop p s) @ drop (i - p) (drop p s)" by (rule append_take_drop_id [symmetric])
    also have "drop (i - p) (drop p s) = drop i s" using b(1) by simp
    also have "\<dots> = d # drop (Suc i) s" using Cons_nth_drop_Suc [OF True] c by simp
    finally show thesis using found [of i] strchr_eq [OF assms(1), of d] i True b(1) c before by (simp add: char_at_def)
  next
    case False
    then have "i = length s" using b(2) by simp
    then show thesis using none strchr_eq [OF assms(1), of d] i before assms(3) by (simp add: char_at_def)
  qed
qed

lemma split_if_loop_fields:
  assumes "p \<le> length s" "CHR 0x00 \<notin> set s" "d \<noteq> CHR 0x00"
  shows "\<exists>ps. map (part_text s) ps = fields d (drop p s) \<and> (\<forall>q \<in> set ps. part_in s q) \<and>
    (\<forall>pred st. split_if_loop s d pred p p st = Some (visit pred ps st))"
  using assms(1)
proof (induction "length s - p" arbitrary: p rule: less_induct)
  case less
  show ?case
  proof (rule strchr_cases [OF less.prems assms(2,3)])
    assume n: "strchr s p d = Some None" "d \<notin> set (drop p s)"
    have "split_if_loop s d pred p p st = Some (visit pred [(p, None)] st)" for pred :: "'a part_callback" and st
      using n(1) by (subst split_if_loop.simps) (auto simp: Let_def split: prod.splits)
    moreover have "map (part_text s) [(p, None)] = fields d (drop p s)" using n(2) by (simp add: part_text_def fields_append)
    moreover have "\<forall>q \<in> set [(p, None)]. part_in s q" using less.prems by (simp add: part_in_def)
    ultimately show ?thesis by blast
  next
    fix i assume f: "strchr s p d = Some (Some i)" "p \<le> i" "i < length s" "drop p s = take (i - p) (drop p s) @ d # drop (Suc i) s" "d \<notin> set (take (i - p) (drop p s))"
    have "length s - Suc i < length s - p" "Suc i \<le> length s" using f(2,3) by simp_all
    from less.hyps [OF this] obtain ps where ps: "map (part_text s) ps = fields d (drop (Suc i) s)" "\<forall>q \<in> set ps. part_in s q"
        "\<And>(pred :: 'a part_callback) st. split_if_loop s d pred (Suc i) (Suc i) st = Some (visit pred ps st)" by blast
    have "split_if_loop s d pred p p st = Some (visit pred ((p, Some i) # ps) st)" for pred :: "'a part_callback" and st
      using f(1,2) ps(3) by (subst split_if_loop.simps) (auto simp: Let_def split: prod.splits)
    moreover have "map (part_text s) ((p, Some i) # ps) = fields d (drop p s)"
      by (subst f(4)) (use f(5) ps(1) in \<open>simp add: part_text_def fields_append\<close>)
    moreover have "\<forall>q \<in> set ((p, Some i) # ps). part_in s q" using ps(2) f(2,3) by (simp add: part_in_def)
    ultimately show ?thesis by blast
  qed
qed

lemma split_if_n_loop_fields:
  assumes "p \<le> n" "n \<le> length s" "CHR 0x00 \<notin> set s" "d \<noteq> CHR 0x00"
  shows "\<exists>ps. map (part_text s) ps = fields d (drop p (take n s)) \<and> (\<forall>q \<in> set ps. snd q \<noteq> None) \<and>
    (\<forall>pred st. split_if_n_loop s n d pred p p st = Some (visit pred ps st))"
  using assms(1)
proof (induction "n - p" arbitrary: p rule: less_induct)
  case less
  have pl: "p \<le> length s" using less.prems assms(2) by simp
  have last: "map (part_text s) [(p, Some n)] = fields d (drop p (take n s))" if "d \<notin> set (take (n - p) (drop p s))"
    using that by (simp add: part_text_def drop_take fields_append)
  show ?case
  proof (rule strchr_cases [OF pl assms(3,4)])
    assume n: "strchr s p d = Some None" "d \<notin> set (drop p s)"
    have "split_if_n_loop s n d pred p p st = Some (visit pred [(p, Some n)] st)" for pred :: "'a part_callback" and st
      using n(1) less.prems by (subst split_if_n_loop.simps) (auto simp: Let_def split: prod.splits)
    moreover have "d \<notin> set (take (n - p) (drop p s))" using n(2) by (auto dest: in_set_takeD)
    ultimately show ?thesis using last by (intro exI [of _ "[(p, Some n)]"]) simp
  next
    fix i assume f: "strchr s p d = Some (Some i)" "p \<le> i" "i < length s" "drop p s = take (i - p) (drop p s) @ d # drop (Suc i) s" "d \<notin> set (take (i - p) (drop p s))"
    show ?thesis
    proof (cases "n \<le> i")
      case True
      have "split_if_n_loop s n d pred p p st = Some (visit pred [(p, Some n)] st)" for pred :: "'a part_callback" and st
        using f(1) True less.prems by (subst split_if_n_loop.simps) (auto simp: Let_def split: prod.splits)
      moreover have "d \<notin> set (take (n - p) (drop p s))"
        using f(5) True set_take_subset_set_take [OF diff_le_mono [OF True], of p "drop p s"] by blast
      ultimately show ?thesis using last by (intro exI [of _ "[(p, Some n)]"]) simp
    next
      case False
      then have "n - Suc i < n - p" "Suc i \<le> n" using f(2) by simp_all
      from less.hyps [OF this] obtain ps where ps: "map (part_text s) ps = fields d (drop (Suc i) (take n s))" "\<forall>q \<in> set ps. snd q \<noteq> None"
          "\<And>(pred :: 'a part_callback) st. split_if_n_loop s n d pred (Suc i) (Suc i) st = Some (visit pred ps st)" by blast
      have v: "split_if_n_loop s n d pred p p st = Some (visit pred ((p, Some i) # ps) st)" for pred :: "'a part_callback" and st
        using f(1,2) False ps(3) by (subst split_if_n_loop.simps) (auto simp: Let_def split: prod.splits)
      have "drop p (take n s) = take (i - p) (drop p s) @ d # drop (Suc i) (take n s)"
      proof -
        have "drop p (take n s) = take (n - p) (take (i - p) (drop p s) @ d # drop (Suc i) s)" using f(4) by (simp add: drop_take)
        also have "\<dots> = take (i - p) (drop p s) @ take (n - p - (i - p)) (d # drop (Suc i) s)" using f(2,3) False by simp
        also have "n - p - (i - p) = Suc (n - Suc i)" using f(2) False by simp
        finally show ?thesis by (simp add: drop_take)
      qed
      then have "map (part_text s) ((p, Some i) # ps) = fields d (drop p (take n s))"
        using f(5) ps(1) by (simp add: part_text_def fields_append)
      then show ?thesis using ps(2) v by (intro exI [of _ "(p, Some i) # ps"]) simp
    qed
  qed
qed

text \<open>Splitting visits the fields of the text in order, up to the first the callback rejects; put
  together again with the delimiter they are the text, and none contains it.  The last part of
  \<open>split_if\<close> has no end, every part of \<open>split_if_n\<close> has one.\<close>

theorem split_visits_fields:
  assumes "CHR 0x00 \<notin> set s" "d \<noteq> CHR 0x00" "n \<le> length s"
  shows "(\<exists>ps. map (part_text s) ps = fields d s \<and> (\<forall>pred st. split_if s d pred st = Some (visit pred ps st))) \<and>
    (\<exists>ps. map (part_text s) ps = fields d (take n s) \<and> (\<forall>q \<in> set ps. snd q \<noteq> None) \<and>
      (\<forall>pred st. split_if_n s n d pred st = Some (visit pred ps st))) \<and>
    join d (fields d s) = s \<and> (\<forall>f \<in> set (fields d s). d \<notin> set f)"
  using split_if_loop_fields [of 0 s d] split_if_n_loop_fields [of 0 n s d] assms
  by (auto simp: split_if_def split_if_n_def join_fields dest: fields_no_delimiter)

lemma split_visits_fields_witness:
  "\<exists>ps. map (part_text ''a;;bc'') ps = [''a'', '''', ''bc''] \<and>
     split_if ''a;;bc'' CHR '';'' (\<lambda>a b st. (True, st + 1)) (0 :: nat) = Some (visit (\<lambda>a b st. (True, st + 1)) ps 0)"
proof -
  have p: "CHR 0x00 \<notin> set ''a;;bc''" "CHR '';'' \<noteq> CHR 0x00" "0 \<le> length ''a;;bc''" by simp_all
  obtain ps where "map (part_text ''a;;bc'') ps = fields CHR '';'' ''a;;bc''"
    "\<forall>pred st. split_if ''a;;bc'' CHR '';'' pred st = Some (visit pred ps (st :: nat))"
    using split_visits_fields [OF p] by blast
  then show ?thesis by (intro exI [of _ ps]) simp
qed

text \<open>The zero character is found at the end of the string and the search goes on behind it.\<close>

theorem split_at_zero_reads_behind:
  assumes "CHR 0x00 \<notin> set s" "fst (pred 0 (Some (length s)) st)"
  shows "split_if s CHR 0x00 pred st = None"
proof -
  have z: "char_at s i = CHR 0x00 \<longleftrightarrow> length s \<le> i" for i using assms(1) unfolding char_at_def by (metis not_le nth_mem)
  have "first_at (\<lambda>i. char_at s i = CHR 0x00 \<or> char_at s i = CHR 0x00) 0 (Suc (length s)) = Some (length s)"
    by (simp add: first_at_Some z)
  then have f: "strchr s 0 CHR 0x00 = Some (Some (length s))" by (simp add: strchr_eq z)
  have "strchr s (Suc (length s)) CHR 0x00 = None" by (simp add: strchr_def)
  then have "split_if_loop s CHR 0x00 pred (Suc (length s)) (Suc (length s)) st' = None" for st'
    by (subst split_if_loop.simps) simp
  then show ?thesis unfolding split_if_def by (subst split_if_loop.simps) (use f assms(2) in \<open>auto split: prod.splits\<close>)
qed

lemma split_at_zero_reads_behind_witness: "split_if ''ab'' CHR 0x00 (\<lambda>a b st. (True, st)) () = None"
  by (rule split_at_zero_reads_behind) simp_all

text \<open>\<open>split_term\<close> leaves the text as it was.\<close>

lemma split_term_restores: "i < length s \<Longrightarrow> (let (t, s') = split_term_new (Some i) s in s' ! i = CHR 0x00 \<and> split_term_end t s' = s)"
  by (simp add: split_term_new_def split_term_end_def)

text \<open>Between the two, a part is a C string.\<close>

definition c_string :: "string \<Rightarrow> nat \<Rightarrow> string" where
  "c_string s a = takeWhile (\<lambda>c. c \<noteq> CHR 0x00) (drop a s)"

lemma part_is_c_string:
  assumes "CHR 0x00 \<notin> set s" "part_in s (a, b)"
  shows "c_string (snd (split_term_new b s)) a = part_text s (a, b) \<and>
    split_term_end (fst (split_term_new b s)) (snd (split_term_new b s)) = s"
proof (cases b)
  case None
  have "takeWhile (\<lambda>c. c \<noteq> CHR 0x00) (drop a s) = drop a s"
    using assms(1) by (auto simp: takeWhile_eq_all_conv dest: in_set_dropD)
  then show ?thesis using None by (simp add: split_term_new_def split_term_end_def c_string_def part_text_def)
next
  case (Some i)
  have i: "a \<le> i" "i < length s" using assms(2) Some by (simp_all add: part_in_def)
  have "drop a (s[i := CHR 0x00]) = take (i - a) (drop a s) @ CHR 0x00 # drop (Suc i) s"
    using i by (simp add: upd_conv_take_nth_drop drop_take)
  moreover have "\<forall>c \<in> set (take (i - a) (drop a s)). c \<noteq> CHR 0x00"
    using assms(1) by (auto dest: in_set_takeD in_set_dropD)
  ultimately show ?thesis
    using Some i by (simp add: split_term_new_def split_term_end_def c_string_def part_text_def takeWhile_append2)
qed

end
