(* ===== verification/StrFmt.thy ===== *)
theory StrFmt
  imports Prelude
begin

text \<open>
  Formatting into a string, \<open>strfmt.hpp\<close>.  What \<open>vsnprintf\<close> (\<open>vswprintf\<close>) does with a buffer of \<open>n\<close>
  characters, its terminator included, is the argument \<open>f\<close>: the number it returns and the characters
  it stores, without the terminator.
\<close>

section \<open>The formatter\<close>

type_synonym 'a formatter = "nat \<Rightarrow> int \<times> 'a list"

text \<open>The string holds \<open>offset\<close> characters that stay and a buffer behind them; the call is given the
  buffer with the place of the terminator.\<close>

definition format_at :: "'a formatter \<Rightarrow> nat \<Rightarrow> 'a list \<Rightarrow> int \<times> 'a list" where
  "format_at f offset buf =
     (let (nret, out) = f (length buf - offset + 1) in (nret, take offset buf @ out @ drop (offset + length out) buf))"

definition resize :: "'a::zero list \<Rightarrow> nat \<Rightarrow> 'a list" where
  "resize buf n = take n buf @ replicate (n - length buf) 0"

definition enlarge_limits :: nat where "enlarge_limits = 2 ^ 20"

partial_function (option) enlarge_loop :: "'a::zero formatter \<Rightarrow> nat \<Rightarrow> 'a list \<Rightarrow> (int \<times> 'a list) option" where
  "enlarge_loop f offset buf =
     (let buf' = resize buf (offset + 2 * (length buf - offset));
          (nret, buf'') = format_at f offset buf'
      in if nret < 0 \<and> length buf'' - offset \<le> enlarge_limits then enlarge_loop f offset buf'' else Some (nret, buf''))"

definition vstrfmt_into :: "'a::zero formatter \<Rightarrow> nat \<Rightarrow> 'a list \<Rightarrow> (bool \<times> 'a list) option" where
  "vstrfmt_into f initial_buf_size buf0 =
     (let offset = length buf0;
          buf1 = resize buf0 (offset + initial_buf_size);
          (nret, buf) = format_at f offset buf1
      in if nret \<ge> 0
         then if nat nret < length buf - offset then Some (True, resize buf (offset + nat nret))
              else if nat nret > length buf - offset
              then Some (True, snd (format_at f offset (resize buf (offset + nat nret))))
              else Some (True, buf)
         else case enlarge_loop f offset buf of
                None \<Rightarrow> None
              | Some (nret, buf) \<Rightarrow> if nret > 0 then Some (True, resize buf (offset + nat nret)) else Some (False, buf))"

definition vstrfmt :: "'a::zero formatter \<Rightarrow> nat \<Rightarrow> 'a list \<Rightarrow> 'a list option" where
  "vstrfmt f initial_buf_size report_error =
     map_option (\<lambda>(ok, buf). if \<not> ok then report_error else buf) (vstrfmt_into f initial_buf_size [])"

section \<open>Formatters\<close>

text \<open>What the standard says: \<open>vsnprintf\<close> stores as much as fits and returns the whole length;
  \<open>vswprintf\<close> fails when the text does not fit.  Either fails on a text that cannot be encoded.\<close>

definition snprintf_like :: "'a list \<Rightarrow> 'a formatter \<Rightarrow> bool" where
  "snprintf_like text f \<longleftrightarrow> (\<forall>n. 0 < n \<longrightarrow> f n = (int (length text), take (n - 1) text))"

definition swprintf_like :: "'a list \<Rightarrow> 'a formatter \<Rightarrow> bool" where
  "swprintf_like text f \<longleftrightarrow>
     (\<forall>n. 0 < n \<longrightarrow> (if length text < n then f n = (int (length text), text) else fst (f n) < 0 \<and> length (snd (f n)) < n))"

definition failing :: "'a formatter \<Rightarrow> bool" where
  "failing f \<longleftrightarrow> (\<forall>n. fst (f n) < 0 \<and> (0 < n \<longrightarrow> length (snd (f n)) < n))"

lemma resize_length [simp]: "length (resize buf n) = n"
  by (simp add: resize_def)

lemma resize_take: "m \<le> length buf \<Longrightarrow> m \<le> n \<Longrightarrow> take m (resize buf n) = take m buf"
  by (simp add: resize_def)

lemma format_at_length: "offset \<le> length buf \<Longrightarrow> length (snd (f (length buf - offset + 1))) < length buf - offset + 1 \<Longrightarrow>
    length (snd (format_at f offset buf)) = length buf"
  by (auto simp: format_at_def split: prod.splits)

lemma format_at_keeps: "offset \<le> length buf \<Longrightarrow> take offset (snd (format_at f offset buf)) = take offset buf"
  by (auto simp: format_at_def split: prod.splits)

text \<open>A formatter that tells the length gets the text into the string in at most two calls, whatever
  the size tried first.\<close>

theorem snprintf_formats:
  assumes "snprintf_like text f"
  shows "vstrfmt_into f n buf = Some (True, buf @ text)"
proof -
  have f: "f (Suc k) = (int (length text), take k text)" for k using assms by (simp add: snprintf_like_def)
  have a: "format_at f (length buf) (buf @ t) = (int (length text), buf @ take (length t) text @ drop (length text) t)" for t
    by (auto simp: format_at_def f min_def)
  have r: "resize buf (length buf + n) = buf @ replicate n 0" by (simp add: resize_def)
  consider "length text < n" | "length text = n" | "length text > n" by linarith
  then show ?thesis
  proof cases
    case 1
    then show ?thesis unfolding vstrfmt_into_def r Let_def by (simp add: a resize_def)
  next
    case 2
    then show ?thesis unfolding vstrfmt_into_def r Let_def by (simp add: a)
  next
    case 3
    have "resize (buf @ take n text) (length buf + length text) = buf @ (take n text @ replicate (length text - n) 0)"
      using 3 by (simp add: resize_def)
    then show ?thesis using 3 unfolding vstrfmt_into_def r Let_def by (simp add: a)
  qed
qed

lemma format_at_append:
  "format_at f (length b) (b @ t) = (fst (f (length t + 1)), b @ snd (f (length t + 1)) @ drop (length (snd (f (length t + 1)))) t)"
  by (simp add: format_at_def case_prod_beta)

lemma resize_append: "resize (b @ t) (length b + k) = b @ resize t k"
  by (simp add: resize_def)

text \<open>One round of the loop, on the part of the string behind the offset.\<close>

lemma enlarge_round:
  "enlarge_loop f (length b) (b @ t) =
     (let k = 2 * length t; out = snd (f (k + 1)); t' = out @ drop (length out) (resize t k)
      in if fst (f (k + 1)) < 0 \<and> length t' \<le> enlarge_limits then enlarge_loop f (length b) (b @ t') else Some (fst (f (k + 1)), b @ t'))"
  by (subst enlarge_loop.simps) (simp add: resize_append format_at_append Let_def)

definition stores_what_fits :: "'a formatter \<Rightarrow> bool" where
  "stores_what_fits f \<longleftrightarrow> (\<forall>n. 0 < n \<longrightarrow> length (snd (f n)) < n)"

lemma round_length:
  assumes "stores_what_fits f"
  shows "length (snd (f (k + 1)) @ drop (length (snd (f (k + 1)))) (resize t k)) = k"
proof -
  have "length (snd (f (k + 1))) < k + 1" using assms unfolding stores_what_fits_def by simp
  then show ?thesis by simp
qed

lemma enlarge_loop_returns:
  assumes "stores_what_fits f" "t \<noteq> []"
  shows "\<exists>nret t'. enlarge_loop f (length b) (b @ t) = Some (nret, b @ t')"
  using assms(2)
proof (induction "2 * enlarge_limits - length t" arbitrary: t rule: less_induct)
  case less
  let ?k = "2 * length t"
  let ?t = "snd (f (?k + 1)) @ drop (length (snd (f (?k + 1)))) (resize t ?k)"
  have l: "length ?t = ?k" by (rule round_length [OF assms(1)])
  show ?case
  proof (cases "fst (f (?k + 1)) < 0 \<and> length ?t \<le> enlarge_limits")
    case True
    have "?t \<noteq> []" using l less.prems by (metis length_0_conv mult_is_0 zero_neq_numeral)
    moreover have "2 * enlarge_limits - length ?t < 2 * enlarge_limits - length t" using True less.prems unfolding l by (cases t) auto
    ultimately show ?thesis using less.hyps [of ?t] True by (subst enlarge_round) (simp only: Let_def if_True simp_thms)
  next
    case False
    then show ?thesis by (subst enlarge_round) (simp only: Let_def if_False simp_thms, blast)
  qed
qed

lemma enlarge_loop_hangs:
  assumes "fst (f 1) < 0" "snd (f 1) = []"
  shows "enlarge_loop f (length b) b = None"
proof -
  have "length buf \<noteq> off" if "enlarge_loop g off buf = Some r" "fst (g 1) < 0" "snd (g 1) = []" for g :: "'a formatter" and off buf r
  proof -
    have "fst (g 1) < 0 \<longrightarrow> snd (g 1) = [] \<longrightarrow> length buf \<noteq> off"
    proof (rule enlarge_loop.raw_induct [where P = "\<lambda>g off buf r. fst (g 1) < 0 \<longrightarrow> snd (g 1) = [] \<longrightarrow> length buf \<noteq> off", OF _ that(1)], intro impI)
      fix loop and g :: "'a formatter" and off buf r
      assume IH: "\<And>g off buf r. loop g off buf = Some r \<Longrightarrow> fst (g 1) < 0 \<longrightarrow> snd (g 1) = [] \<longrightarrow> length buf \<noteq> off"
        and b: "(let buf' = resize buf (off + 2 * (length buf - off)); (nret, buf'') = format_at g off buf'
          in if nret < 0 \<and> length buf'' - off \<le> enlarge_limits then loop g off buf'' else Some (nret, buf'')) = Some r"
        and g: "fst (g 1) < 0" "snd (g 1) = []"
      show "length buf \<noteq> off"
      proof
        assume e: "length buf = off"
        then have "format_at g off (resize buf (off + 2 * (length buf - off))) = (fst (g 1), buf)"
          using g(2) by (simp add: format_at_def resize_def case_prod_beta)
        then have "loop g off buf = Some r" using b g(1) e by (simp add: Let_def)
        from IH [OF this] g e show False by simp
      qed
    qed
    with that(2,3) show ?thesis by simp
  qed
  from this [of f "length b" b] assms show ?thesis by (cases "enlarge_loop f (length b) b") auto
qed

lemma swprintf_like_fits: "swprintf_like text f \<Longrightarrow> stores_what_fits f"
  unfolding stores_what_fits_def swprintf_like_def by (metis snd_conv)

lemma enlarge_loop_finds:
  assumes w: "swprintf_like text f" and "length text \<le> enlarge_limits" "t \<noteq> []" "length t < length text"
  shows "\<exists>t'. enlarge_loop f (length b) (b @ t) = Some (int (length text), b @ text @ t')"
  using assms(3,4)
proof (induction "length text - length t" arbitrary: t rule: less_induct)
  case less
  let ?k = "2 * length t"
  let ?t = "snd (f (?k + 1)) @ drop (length (snd (f (?k + 1)))) (resize t ?k)"
  have fits: "stores_what_fits f" using swprintf_like_fits [OF w] .
  have l: "length ?t = ?k" by (rule round_length [OF fits])
  show ?case
  proof (cases "length text \<le> ?k")
    case True
    then have "f (?k + 1) = (int (length text), text)" using w by (simp add: swprintf_like_def)
    then show ?thesis by (subst enlarge_round) (simp add: Let_def)
  next
    case False
    then have "\<not> length text < ?k + 1" by simp
    then have n: "fst (f (?k + 1)) < 0" using w unfolding swprintf_like_def by (metis add_gr_0 zero_less_one)
    have "length ?t \<le> enlarge_limits" using False assms(2) unfolding l by simp
    moreover have "?t \<noteq> []" using l less.prems(1) by (metis length_0_conv mult_is_0 zero_neq_numeral)
    moreover have "length text - length ?t < length text - length t" "length ?t < length text"
      using False less.prems unfolding l by (cases t; simp)+
    ultimately show ?thesis using less.hyps [of ?t] n by (subst enlarge_round) (simp only: Let_def if_True simp_thms)
  qed
qed

text \<open>A formatter that fails on a short buffer gets its text into the string all the same, whatever
  the (positive) size tried first, up to 2^20 characters.\<close>

theorem swprintf_formats:
  assumes "swprintf_like text f" "0 < n" "length text \<le> 2 ^ 20"
  shows "vstrfmt_into f n buf = Some (True, buf @ text)"
proof -
  let ?t = "replicate n 0"
  have r: "resize buf (length buf + n) = buf @ ?t" by (simp add: resize_def)
  have f: "f (n + 1) = (int (length text), text)" if "length text \<le> n" using assms(1) that by (simp add: swprintf_like_def)
  show ?thesis
  proof (cases "length text \<le> n")
    case True
    then show ?thesis unfolding vstrfmt_into_def r Let_def
      by (simp only: format_at_append length_replicate f [OF True] prod.case) (auto simp: resize_def)
  next
    case False
    let ?o = "snd (f (n + 1))" and ?x = "fst (f (n + 1))"
    have x: "?x < 0" "length ?o < n + 1" using assms(1) False by (auto simp: swprintf_like_def)
    let ?u = "?o @ drop (length ?o) ?t"
    have "length ?u = n" using x(2) by simp
    then have "?u \<noteq> []" "length ?u < length text" using assms(2) False by auto
    from enlarge_loop_finds [OF assms(1) _ this, of buf] assms(3) obtain t' where
      e: "enlarge_loop f (length buf) (buf @ ?u) = Some (int (length text), buf @ text @ t')" by (auto simp: enlarge_limits_def)
    have "length text > 0" using False by auto
    then show ?thesis unfolding vstrfmt_into_def r Let_def
      using x(1) e by (simp add: format_at_append resize_def)
  qed
qed

text \<open>With a positive size the call returns, whatever the formatter answers; with size 0 it never
  does when the formatter fails on an empty buffer, as \<open>vswprintf\<close> does on every text but the
  empty one: twice nothing is nothing.\<close>

theorem strfmt_returns_if_size_positive:
  assumes "stores_what_fits f"
  shows "(0 < n \<longrightarrow> (\<exists>r. vstrfmt_into f n buf = Some r)) \<and> (fst (f 1) < 0 \<longrightarrow> vstrfmt_into f 0 buf = None)"
proof (intro conjI impI)
  assume n: "0 < n"
  let ?t = "replicate n 0"
  have r: "resize buf (length buf + n) = buf @ ?t" by (simp add: resize_def)
  let ?o = "snd (f (n + 1))"
  have "length ?o < n + 1" using assms by (simp add: stores_what_fits_def)
  then have "length (?o @ drop (length ?o) ?t) = n" by simp
  then have "?o @ drop (length ?o) ?t \<noteq> []" using n by auto
  from enlarge_loop_returns [OF assms this, of buf] show "\<exists>r. vstrfmt_into f n buf = Some r"
    unfolding vstrfmt_into_def r Let_def by (cases "0 \<le> fst (f (n + 1))") (auto simp: format_at_append)
next
  assume f: "fst (f 1) < 0"
  have s: "snd (f 1) = []" using assms by (force simp: stores_what_fits_def)
  have "format_at f (length buf) buf = (fst (f 1), buf)" using s by (simp add: format_at_def case_prod_beta)
  then show "vstrfmt_into f 0 buf = None"
    using f s enlarge_loop_hangs [of f buf] by (simp add: vstrfmt_into_def Let_def resize_def)
qed

definition demo_snprintf :: "'a list \<Rightarrow> 'a formatter" where
  "demo_snprintf text n = (int (length text), take (n - 1) text)"

definition demo_swprintf :: "'a list \<Rightarrow> 'a formatter" where
  "demo_swprintf text n = (if length text < n then (int (length text), text) else (-1, []))"

lemma snprintf_formats_witness: "vstrfmt_into (demo_snprintf [1, 2, 3 :: nat]) 1 [7] = Some (True, [7, 1, 2, 3])"
  using snprintf_formats [of "[1, 2, 3 :: nat]" "demo_snprintf [1, 2, 3]" 1 "[7]"] by (simp add: snprintf_like_def demo_snprintf_def)

lemma swprintf_formats_witness: "vstrfmt_into (demo_swprintf [1, 2, 3 :: nat]) 1 [7] = Some (True, [7, 1, 2, 3])"
  using swprintf_formats [of "[1, 2, 3 :: nat]" "demo_swprintf [1, 2, 3]" 1 "[7]"] by (simp add: swprintf_like_def demo_swprintf_def)

lemma strfmt_returns_if_size_positive_witness:
  "(\<exists>r. vstrfmt_into (demo_swprintf [1, 2, 3 :: nat]) 2 [] = Some r) \<and> vstrfmt_into (demo_swprintf [1, 2, 3 :: nat]) 0 [] = None"
  using strfmt_returns_if_size_positive [of "demo_swprintf [1, 2, 3 :: nat]" 2 "[]"]
  by (simp add: stores_what_fits_def demo_swprintf_def)

end
