(* ===== verification/XxSocket.thy ===== *)
theory XxSocket
  imports Endpoint IoTypes "HOL-Library.Signed_Division"
begin

text \<open>
  The wrappers of the system's sockets (\<open>yasio/xxsocket.cpp\<close>, class \<open>xxsocket\<close>) on Linux.  Every system
  call is recorded with its answer, and the answers are those of an arbitrary function of the calls
  so far, so a theorem holds for every behaviour of the system but what its hypotheses exclude.
  Timeouts are unbounded integers of microseconds, and descriptors are taken to be small enough for
  an \<open>fd_set\<close>.  The theorems: transfers of whole buffers, ownership of descriptors, calls repeated
  after a signal, connecting by name.
\<close>

section \<open>The system\<close>

text \<open>
  The calls the wrappers make.  The system is a function of what has been called so far, so that its
  answers are arbitrary; every call takes its time, which \<open>highp_clock\<close> reads, and a negative
  return value sets \<open>errno\<close>.  The timeout of \<open>select\<close> is the pair of seconds and microseconds.
\<close>

record addrinfo =
  ai_family :: int
  ai_addr :: "byte list"

datatype syscall =
    Sys_socket int int int
  | Sys_close int
  | Sys_shutdown int int
  | Sys_getfl int
  | Sys_setfl int int
  | Sys_bind int endpoint
  | Sys_listen int int
  | Sys_accept int
  | Sys_connect int endpoint
  | Sys_dissolve int
  | Sys_send int "byte list" int
  | Sys_recv int nat int
  | Sys_sendto int "byte list" int endpoint
  | Sys_recvfrom int nat int
  | Sys_select int "bool \<times> bool \<times> bool" "int \<times> int"
  | Sys_getsockopt int int int
  | Sys_setsockopt int int int int
  | Sys_getsockname int
  | Sys_getpeername int
  | Sys_getaddrinfo string "string option" int int int
  | Sys_getifaddrs

record answer =
  an_ret :: int
  an_errno :: int
  an_data :: "byte list"
  an_value :: int
  an_ready :: "bool \<times> bool \<times> bool"
  an_addrs :: "addrinfo list"
  an_ifs :: "byte list option list"
  an_time :: int

type_synonym calls = "(syscall \<times> answer) list"
type_synonym os = "calls \<Rightarrow> syscall \<Rightarrow> answer"

record world =
  w_calls :: calls
  w_errno :: int
  w_now :: int

definition sys :: "os \<Rightarrow> syscall \<Rightarrow> world \<Rightarrow> answer \<times> world" where
  "sys os c w =
     (let a = os (w_calls w) c
      in (a, w\<lparr>w_calls := w_calls w @ [(c, a)], w_errno := (if an_ret a < 0 then an_errno a else w_errno w),
               w_now := w_now w + an_time a\<rparr>))"

definition get_last_errno :: "world \<Rightarrow> int" where "get_last_errno w = w_errno w"
definition set_last_errno :: "int \<Rightarrow> world \<Rightarrow> world" where "set_last_errno e w = w\<lparr>w_errno := e\<rparr>"
definition highp_clock :: "world \<Rightarrow> int" where "highp_clock w = w_now w"

definition O_NONBLOCK :: int where "O_NONBLOCK = 2048"
definition SD_BOTH :: int where "SD_BOTH = 2"
definition SOL_SOCKET :: int where "SOL_SOCKET = 1"
definition SO_REUSEADDR :: int where "SO_REUSEADDR = 2"
definition SO_ERROR :: int where "SO_ERROR = 4"
definition SO_KEEPALIVE :: int where "SO_KEEPALIVE = 9"
definition SO_REUSEPORT :: int where "SO_REUSEPORT = 15"
definition IPPROTO_TCP :: int where "IPPROTO_TCP = 6"
definition TCP_KEEPIDLE :: int where "TCP_KEEPIDLE = 4"
definition TCP_KEEPINTVL :: int where "TCP_KEEPINTVL = 5"
definition TCP_KEEPCNT :: int where "TCP_KEEPCNT = 6"
definition TCP_INFO :: int where "TCP_INFO = 11"
definition SOCK_STREAM :: int where "SOCK_STREAM = 1"
definition SOMAXCONN :: int where "SOMAXCONN = 4096"
definition AF_UNSPEC_hint :: int where "AF_UNSPEC_hint = 0"
definition AI_V4MAPPED :: int where "AI_V4MAPPED = 8"
definition AI_ALL :: int where "AI_ALL = 16"

section \<open>Calls on a descriptor\<close>

text \<open>The static members, which take a descriptor.\<close>

definition set_nonblocking :: "os \<Rightarrow> int \<Rightarrow> bool \<Rightarrow> world \<Rightarrow> int \<times> world" where
  "set_nonblocking os s nonblocking w =
     (let (a, w) = sys os (Sys_getfl s) w;
          flags = an_ret a;
          (a, w) = sys os (Sys_setfl s (if nonblocking then flags OR O_NONBLOCK else flags AND NOT O_NONBLOCK)) w
      in (an_ret a, w))"

definition test_nonblocking :: "os \<Rightarrow> int \<Rightarrow> world \<Rightarrow> int \<times> world" where
  "test_nonblocking os s w = (let (a, w) = sys os (Sys_getfl s) w in (an_ret a AND O_NONBLOCK, w))"

definition set_optval :: "os \<Rightarrow> int \<Rightarrow> int \<Rightarrow> int \<Rightarrow> int \<Rightarrow> world \<Rightarrow> int \<times> world" where
  "set_optval os s level optname optval w = (let (a, w) = sys os (Sys_setsockopt s level optname optval) w in (an_ret a, w))"

definition get_optval :: "os \<Rightarrow> int \<Rightarrow> int \<Rightarrow> int \<Rightarrow> world \<Rightarrow> int \<times> int \<times> world" where
  "get_optval os s level optname w = (let (a, w) = sys os (Sys_getsockopt s level optname) w in (an_ret a, an_value a, w))"

definition poptions :: "os \<Rightarrow> int \<Rightarrow> world \<Rightarrow> world" where
  "poptions os s w = snd (set_nonblocking os s True w)"

definition connect :: "os \<Rightarrow> int \<Rightarrow> endpoint \<Rightarrow> world \<Rightarrow> int \<times> world" where
  "connect os s ep w = (let (a, w) = sys os (Sys_connect s ep) w in (an_ret a, w))"

definition connect_n :: "os \<Rightarrow> int \<Rightarrow> endpoint \<Rightarrow> world \<Rightarrow> int \<times> world" where
  "connect_n os s ep w = (let (_, w) = set_nonblocking os s True w in connect os s ep w)"

text \<open>
  The loop of \<open>select\<close> (the sets are rebuilt each time).  A loop that may run on is a partial
  function; the waits of \<open>send_n\<close>, \<open>recv_n\<close> and \<open>connect_n\<close> go through it.
\<close>

partial_function (option) select :: "os \<Rightarrow> int \<Rightarrow> bool \<times> bool \<times> bool \<Rightarrow> int \<Rightarrow> world \<Rightarrow>
    (int \<times> (bool \<times> bool \<times> bool) \<times> world) option" where
  "select os s sets wtimeout w =
     (let start = highp_clock w;
          (a, w) = sys os (Sys_select s sets (wtimeout sdiv 1000000, wtimeout smod 1000000)) w;
          wtimeout = wtimeout - (highp_clock w - start)
      in if an_ret a < 0 \<and> get_last_errno w = EINTR
         then if 0 < wtimeout then select os s sets wtimeout w else Some (0, an_ready a, set_last_errno ETIMEDOUT w)
         else Some (an_ret a, an_ready a, if an_ret a = 0 then set_last_errno ETIMEDOUT w else w))"

definition handle_write_ready :: "os \<Rightarrow> int \<Rightarrow> int \<Rightarrow> world \<Rightarrow> (int \<times> world) option" where
  "handle_write_ready os s wtimeout w =
     Option.bind (select os s (False, True, False) wtimeout w) (\<lambda>(n, _, w). Some (n, w))"

definition handle_read_ready :: "os \<Rightarrow> int \<Rightarrow> int \<Rightarrow> world \<Rightarrow> (int \<times> world) option" where
  "handle_read_ready os s wtimeout w =
     Option.bind (select os s (True, False, False) wtimeout w) (\<lambda>(n, _, w). Some (n, w))"

text \<open>The label \<open>done\<close> of the connect with a timeout, and the connect.\<close>

definition connect_done :: "os \<Rightarrow> int \<Rightarrow> int \<Rightarrow> world \<Rightarrow> int \<times> world" where
  "connect_done os s error w = (if error \<noteq> 0 then let (_, w) = sys os (Sys_close s) w in (-1, w) else (0, w))"

definition connect_n_for :: "os \<Rightarrow> int \<Rightarrow> endpoint \<Rightarrow> int \<Rightarrow> world \<Rightarrow> (int \<times> world) option" where
  "connect_n_for os s ep wtimeout w =
     (let (_, w) = set_nonblocking os s True w;
          (ret, w) = connect os s ep w;
          error = (if ret < 0 then get_last_errno w else 0)
      in if ret < 0 \<and> error \<noteq> EINPROGRESS \<and> error \<noteq> EWOULDBLOCK then Some (-1, w)
         else if ret = 0 then Some (connect_done os s error w)
         else Option.bind (select os s (True, True, False) wtimeout w) (\<lambda>(n, (rset, wset, _), w).
           if n \<le> 0 then Some (connect_done os s (get_last_errno w) w)
           else if rset \<or> wset
           then let (r, error, w) = get_optval os s SOL_SOCKET SO_ERROR w
                in if r < 0 then Some (-1, w) else Some (connect_done os s error w)
           else Some (connect_done os s error w)))"

partial_function (option) send_loop :: "os \<Rightarrow> int \<Rightarrow> byte list \<Rightarrow> int \<Rightarrow> int \<Rightarrow> int \<Rightarrow> int \<Rightarrow> world \<Rightarrow> (int \<times> world) option" where
  "send_loop os s buf len flags bytes_transferred wtimeout w =
     (if bytes_transferred < len
      then let (a, w) = sys os (Sys_send s (take (nat (len - bytes_transferred)) (drop (nat bytes_transferred) buf)) flags) w;
               n = an_ret a
           in if 0 < n then send_loop os s buf len flags (bytes_transferred + n) wtimeout w
              else if n = -1 \<and> not_send_error (get_last_errno w)
              then let start = highp_clock w
                   in Option.bind (handle_write_ready os s wtimeout w) (\<lambda>(rtn, w).
                        let wtimeout = wtimeout - (highp_clock w - start)
                        in if rtn \<noteq> -1 \<and> 0 < wtimeout then send_loop os s buf len flags bytes_transferred wtimeout w
                           else Some (bytes_transferred, w))
              else Some (bytes_transferred, w)
      else Some (bytes_transferred, w))"

definition send_n :: "os \<Rightarrow> int \<Rightarrow> byte list \<Rightarrow> int \<Rightarrow> int \<Rightarrow> int \<Rightarrow> world \<Rightarrow> (int \<times> world) option" where
  "send_n os s buf len wtimeout flags w = (let (_, w) = set_nonblocking os s True w in send_loop os s buf len flags 0 wtimeout w)"

partial_function (option) recv_loop :: "os \<Rightarrow> int \<Rightarrow> int \<Rightarrow> int \<Rightarrow> byte list \<Rightarrow> int \<Rightarrow> int \<Rightarrow> world \<Rightarrow>
    (int \<times> byte list \<times> world) option" where
  "recv_loop os s len flags buf bytes_transferred wtimeout w =
     (if bytes_transferred < len
      then let (a, w) = sys os (Sys_recv s (nat (len - bytes_transferred)) flags) w;
               n = an_ret a
           in if 0 < n
              then recv_loop os s len flags (splice (nat bytes_transferred) (an_data a) buf) (bytes_transferred + n) wtimeout w
              else if n = -1 \<and> not_recv_error (get_last_errno w)
              then let start = highp_clock w
                   in Option.bind (handle_read_ready os s wtimeout w) (\<lambda>(rtn, w).
                        let wtimeout = wtimeout - (highp_clock w - start)
                        in if rtn \<noteq> -1 \<and> 0 < wtimeout then recv_loop os s len flags buf bytes_transferred wtimeout w
                           else Some (bytes_transferred, buf, w))
              else Some (bytes_transferred, buf, w)
      else Some (bytes_transferred, buf, w))"

definition recv_n :: "os \<Rightarrow> int \<Rightarrow> byte list \<Rightarrow> int \<Rightarrow> int \<Rightarrow> int \<Rightarrow> world \<Rightarrow> (int \<times> byte list \<times> world) option" where
  "recv_n os s buf len wtimeout flags w = (let (_, w) = set_nonblocking os s True w in recv_loop os s len flags buf 0 wtimeout w)"

definition send :: "os \<Rightarrow> int \<Rightarrow> byte list \<Rightarrow> int \<Rightarrow> int \<Rightarrow> world \<Rightarrow> int \<times> world" where
  "send os s buf len flags w = (let (a, w) = sys os (Sys_send s (take (nat len) buf) flags) w in (an_ret a, w))"

definition recv :: "os \<Rightarrow> int \<Rightarrow> byte list \<Rightarrow> int \<Rightarrow> int \<Rightarrow> world \<Rightarrow> int \<times> byte list \<times> world" where
  "recv os s buf len flags w =
     (let (a, w) = sys os (Sys_recv s (nat len) flags) w in (an_ret a, if 0 < an_ret a then splice 0 (an_data a) buf else buf, w))"

partial_function (option) disconnect :: "os \<Rightarrow> int \<Rightarrow> world \<Rightarrow> (int \<times> world) option" where
  "disconnect os s w =
     (let (a, w) = sys os (Sys_dissolve s) w
      in if an_ret a = 0 then Some (0, w)
         else if get_last_errno w = EINTR then disconnect os s w
         else Some (an_ret a, w))"

definition set_keepalive :: "os \<Rightarrow> int \<Rightarrow> int \<Rightarrow> int \<Rightarrow> int \<Rightarrow> int \<Rightarrow> world \<Rightarrow> int \<times> world" where
  "set_keepalive os s flag idle interval probes w =
     (let (r, w) = set_optval os s SOL_SOCKET SO_KEEPALIVE flag w in if r \<noteq> 0 then (-1, w)
      else let (r, w) = set_optval os s IPPROTO_TCP TCP_KEEPIDLE idle w in if r \<noteq> 0 then (-1, w)
      else let (r, w) = set_optval os s IPPROTO_TCP TCP_KEEPINTVL interval w in if r \<noteq> 0 then (-1, w)
      else set_optval os s IPPROTO_TCP TCP_KEEPCNT probes w)"

definition tcp_rtt :: "os \<Rightarrow> int \<Rightarrow> world \<Rightarrow> int \<times> world" where
  "tcp_rtt os s w = (let (r, rtt, w) = get_optval os s IPPROTO_TCP TCP_INFO w in (if r = 0 then rtt else 0, w))"

section \<open>The socket object\<close>

record xxsocket =
  xx_fd :: int

definition invalid_socket :: int where "invalid_socket = -1"

definition xx_new :: xxsocket where "xx_new = \<lparr>xx_fd = invalid_socket\<rparr>"
definition xx_from :: "int \<Rightarrow> xxsocket" where "xx_from h = \<lparr>xx_fd = h\<rparr>"
definition is_open :: "xxsocket \<Rightarrow> bool" where "is_open x \<longleftrightarrow> xx_fd x \<noteq> invalid_socket"
definition swap :: "xxsocket \<Rightarrow> xxsocket \<Rightarrow> xxsocket \<times> xxsocket" where
  "swap x rhs = (x\<lparr>xx_fd := xx_fd rhs\<rparr>, rhs\<lparr>xx_fd := xx_fd x\<rparr>)"
definition xx_move :: "xxsocket \<Rightarrow> xxsocket \<times> xxsocket" where "xx_move right = swap xx_new right"
definition assign_handle :: "int \<Rightarrow> xxsocket \<Rightarrow> xxsocket" where
  "assign_handle handle x = (if \<not> is_open x then x\<lparr>xx_fd := handle\<rparr> else x)"
definition native_handle :: "xxsocket \<Rightarrow> int" where "native_handle x = xx_fd x"
definition release_handle :: "xxsocket \<Rightarrow> int \<times> xxsocket" where
  "release_handle x = (xx_fd x, x\<lparr>xx_fd := invalid_socket\<rparr>)"

definition xx_open :: "os \<Rightarrow> int \<Rightarrow> int \<Rightarrow> int \<Rightarrow> xxsocket \<Rightarrow> world \<Rightarrow> bool \<times> xxsocket \<times> world" where
  "xx_open os af type protocol x w =
     (let (x, w) = (if xx_fd x = invalid_socket
                    then let (a, w) = sys os (Sys_socket af type protocol) w in (x\<lparr>xx_fd := an_ret a\<rparr>, w) else (x, w))
      in (is_open x, x, w))"

definition xx_close :: "os \<Rightarrow> int \<Rightarrow> xxsocket \<Rightarrow> world \<Rightarrow> xxsocket \<times> world" where
  "xx_close os shut_how x w =
     (if is_open x
      then let w = (if 0 \<le> shut_how then snd (sys os (Sys_shutdown (xx_fd x) shut_how) w) else w);
               (_, w) = set_nonblocking os (xx_fd x) False w;
               (_, w) = sys os (Sys_close (xx_fd x)) w
           in (x\<lparr>xx_fd := invalid_socket\<rparr>, w)
      else (x, w))"

definition reopen :: "os \<Rightarrow> int \<Rightarrow> int \<Rightarrow> int \<Rightarrow> xxsocket \<Rightarrow> world \<Rightarrow> bool \<times> xxsocket \<times> world" where
  "reopen os af type protocol x w = (let (x, w) = xx_close os SD_BOTH x w in xx_open os af type protocol x w)"

definition xx_destroy :: "os \<Rightarrow> xxsocket \<Rightarrow> world \<Rightarrow> world" where
  "xx_destroy os x w = snd (xx_close os SD_BOTH x w)"

definition popen :: "os \<Rightarrow> int \<Rightarrow> int \<Rightarrow> int \<Rightarrow> xxsocket \<Rightarrow> world \<Rightarrow> bool \<times> xxsocket \<times> world" where
  "popen os af type protocol x w =
     (let (ok, x, w) = xx_open os af type protocol x w in (ok, x, if ok then poptions os (xx_fd x) w else w))"

definition xx_bind :: "os \<Rightarrow> endpoint \<Rightarrow> xxsocket \<Rightarrow> world \<Rightarrow> int \<times> world" where
  "xx_bind os ep x w = (let (a, w) = sys os (Sys_bind (xx_fd x) ep) w in (an_ret a, w))"

text \<open>The storage of a new endpoint is not initialised; the model fills it with zeros.\<close>

definition new_endpoint :: endpoint where "new_endpoint = as_unspec (replicate 32 0)"

definition bind_addr :: "os \<Rightarrow> net_env \<Rightarrow> string \<Rightarrow> 16 word \<Rightarrow> xxsocket \<Rightarrow> world \<Rightarrow> int \<times> world" where
  "bind_addr os env addr port = xx_bind os (as_in env addr port new_endpoint)"

definition bind_any :: "os \<Rightarrow> net_env \<Rightarrow> bool \<Rightarrow> xxsocket \<Rightarrow> world \<Rightarrow> int \<times> world" where
  "bind_any os env ipv6 = xx_bind os (as_in env (if \<not> ipv6 then ''0.0.0.0'' else ''::'') 0 new_endpoint)"

definition YASIO_ADDR_ANY :: "int \<Rightarrow> string" where "YASIO_ADDR_ANY af = (if af = AF_INET then ''0.0.0.0'' else ''::'')"

definition xx_listen :: "os \<Rightarrow> int \<Rightarrow> xxsocket \<Rightarrow> world \<Rightarrow> int \<times> world" where
  "xx_listen os backlog x w = (let (a, w) = sys os (Sys_listen (xx_fd x) backlog) w in (an_ret a, w))"

definition xx_accept :: "os \<Rightarrow> xxsocket \<Rightarrow> world \<Rightarrow> xxsocket \<times> world" where
  "xx_accept os x w = (let (a, w) = sys os (Sys_accept (xx_fd x)) w in (xx_from (an_ret a), w))"

partial_function (option) accept_n :: "os \<Rightarrow> xxsocket \<Rightarrow> world \<Rightarrow> (int \<times> int \<times> world) option" where
  "accept_n os x w =
     (let (a, w) = sys os (Sys_accept (xx_fd x)) w;
          new_sock = an_ret a
      in if new_sock \<noteq> invalid_socket then Some (0, new_sock, snd (set_nonblocking os new_sock True w))
         else if get_last_errno w = EINTR then accept_n os x w
         else Some (get_last_errno w, new_sock, w))"

partial_function (option) paccept :: "os \<Rightarrow> xxsocket \<Rightarrow> world \<Rightarrow> (int \<times> int \<times> world) option" where
  "paccept os x w =
     (let (a, w) = sys os (Sys_accept (xx_fd x)) w;
          new_sock = an_ret a
      in if new_sock \<noteq> invalid_socket then Some (0, new_sock, poptions os new_sock w)
         else if get_last_errno w = EINTR then paccept os x w
         else Some (get_last_errno w, new_sock, w))"

definition reuse_address :: "os \<Rightarrow> bool \<Rightarrow> xxsocket \<Rightarrow> world \<Rightarrow> world" where
  "reuse_address os reuse x w =
     (let optval = (if reuse then 1 else 0);
          (_, w) = set_optval os (xx_fd x) SOL_SOCKET SO_REUSEADDR optval w;
          (_, w) = set_optval os (xx_fd x) SOL_SOCKET SO_REUSEPORT optval w
      in w)"

definition xx_shutdown :: "os \<Rightarrow> int \<Rightarrow> xxsocket \<Rightarrow> world \<Rightarrow> int \<times> world" where
  "xx_shutdown os how x w = (let (a, w) = sys os (Sys_shutdown (xx_fd x) how) w in (an_ret a, w))"

definition sendto :: "os \<Rightarrow> byte list \<Rightarrow> int \<Rightarrow> endpoint \<Rightarrow> int \<Rightarrow> xxsocket \<Rightarrow> world \<Rightarrow> int \<times> world" where
  "sendto os buf len to flags x w = (let (a, w) = sys os (Sys_sendto (xx_fd x) (take (nat len) buf) flags to) w in (an_ret a, w))"

text \<open>The address comes back through a pointer to the endpoint, its length through \<open>addrlen\<close>.\<close>

definition recvfrom :: "os \<Rightarrow> byte list \<Rightarrow> int \<Rightarrow> endpoint \<Rightarrow> int \<Rightarrow> xxsocket \<Rightarrow> world \<Rightarrow> int \<times> byte list \<times> endpoint \<times> world" where
  "recvfrom os buf len peer flags x w =
     (let (a, w) = sys os (Sys_recvfrom (xx_fd x) (nat len) flags) w;
          n = an_ret a;
          sa = (case an_addrs a of ai # _ \<Rightarrow> ai_addr ai | [] \<Rightarrow> []);
          addrlen = (if n < 0 then length peer else length sa)
      in (n, if 0 < n then splice 0 (an_data a) buf else buf, ep_set_len addrlen (if n < 0 then peer else splice 0 sa peer), w))"

definition name_of :: "os \<Rightarrow> syscall \<Rightarrow> world \<Rightarrow> endpoint \<times> world" where
  "name_of os c w =
     (let (a, w) = sys os c w;
          sa = (case an_addrs a of ai # _ \<Rightarrow> ai_addr ai | [] \<Rightarrow> []);
          socklen = (if an_ret a < 0 then length new_endpoint else length sa)
      in (ep_set_len socklen (if an_ret a < 0 then new_endpoint else splice 0 sa new_endpoint), w))"

definition local_endpoint :: "os \<Rightarrow> int \<Rightarrow> world \<Rightarrow> endpoint \<times> world" where
  "local_endpoint os fd = name_of os (Sys_getsockname fd)"

definition peer_endpoint :: "os \<Rightarrow> int \<Rightarrow> world \<Rightarrow> endpoint \<times> world" where
  "peer_endpoint os fd = name_of os (Sys_getpeername fd)"

section \<open>Connecting and serving\<close>

definition bind_local :: "os \<Rightarrow> net_env \<Rightarrow> endpoint \<Rightarrow> 16 word \<Rightarrow> xxsocket \<Rightarrow> world \<Rightarrow> world" where
  "bind_local os env ep local_port x w =
     (if local_port \<noteq> 0 then snd (bind_addr os env (YASIO_ADDR_ANY (ep_af ep)) local_port x w) else w)"

definition pconnect :: "os \<Rightarrow> net_env \<Rightarrow> endpoint \<Rightarrow> 16 word \<Rightarrow> xxsocket \<Rightarrow> world \<Rightarrow> int \<times> xxsocket \<times> world" where
  "pconnect os env ep local_port x w =
     (let (ok, x, w) = reopen os (ep_af ep) SOCK_STREAM 0 x w
      in if ok then let w = bind_local os env ep local_port x w; (n, w) = connect os (xx_fd x) ep w in (n, x, w)
         else (-1, x, w))"

definition pconnect_n_for :: "os \<Rightarrow> net_env \<Rightarrow> endpoint \<Rightarrow> int \<Rightarrow> 16 word \<Rightarrow> xxsocket \<Rightarrow> world \<Rightarrow> (int \<times> xxsocket \<times> world) option" where
  "pconnect_n_for os env ep wtimeout local_port x w =
     (let (ok, x, w) = reopen os (ep_af ep) SOCK_STREAM 0 x w
      in if ok
         then Option.bind (connect_n_for os (xx_fd x) ep wtimeout (bind_local os env ep local_port x w)) (\<lambda>(n, w). Some (n, x, w))
         else Some (-1, x, w))"

definition pconnect_n :: "os \<Rightarrow> net_env \<Rightarrow> endpoint \<Rightarrow> 16 word \<Rightarrow> xxsocket \<Rightarrow> world \<Rightarrow> int \<times> xxsocket \<times> world" where
  "pconnect_n os env ep local_port x w =
     (let (ok, x, w) = reopen os (ep_af ep) SOCK_STREAM 0 x w
      in if ok then let w = bind_local os env ep local_port x w; (n, w) = connect_n os (xx_fd x) ep w in (n, x, w)
         else (-1, x, w))"

definition pserve :: "os \<Rightarrow> endpoint \<Rightarrow> xxsocket \<Rightarrow> world \<Rightarrow> int \<times> xxsocket \<times> world" where
  "pserve os ep x w =
     (let (ok, x, w) = reopen os (ep_af ep) SOCK_STREAM 0 x w
      in if \<not> ok then (-1, x, w)
         else let w = reuse_address os True x w; (n, w) = xx_bind os ep x w
              in if n \<noteq> 0 then (n, x, w) else let (n, w) = xx_listen os SOMAXCONN x w in (n, x, w))"

definition pserve_addr :: "os \<Rightarrow> net_env \<Rightarrow> string \<Rightarrow> 16 word \<Rightarrow> xxsocket \<Rightarrow> world \<Rightarrow> int \<times> xxsocket \<times> world" where
  "pserve_addr os env addr port = pserve os (as_in env addr port new_endpoint)"

section \<open>Names and local addresses\<close>

definition as_is_raw :: "byte list \<Rightarrow> endpoint \<Rightarrow> endpoint" where
  "as_is_raw sa e = ep_set_len (length sa) (splice 0 sa e)"

definition as_is_addrinfo :: "addrinfo \<Rightarrow> endpoint" where
  "as_is_addrinfo ai = as_is_raw (ai_addr ai) (replicate 32 0)"

definition as_is_sockaddr :: "byte list \<Rightarrow> endpoint \<Rightarrow> endpoint" where
  "as_is_sockaddr sa e =
     (let family = ep_af sa
      in if family = AF_INET then ep_set_len 16 (splice 0 (take 16 sa) e)
         else if family = AF_INET6 then ep_set_len 28 (splice 0 (take 28 sa) e)
         else as_unspec e)"

text \<open>\<open>resolve_i\<close>: the callback, with the state its closure captures, sees the addresses of the two families in order.\<close>

fun resolve_loop :: "(addrinfo \<Rightarrow> 's \<Rightarrow> world \<Rightarrow> (bool \<times> 's \<times> world) option) \<Rightarrow> addrinfo list \<Rightarrow> 's \<Rightarrow> world \<Rightarrow> ('s \<times> world) option" where
  "resolve_loop callback [] st w = Some (st, w)"
| "resolve_loop callback (ai # ais) st w =
     (if ai_family ai = AF_INET6 \<or> ai_family ai = AF_INET
      then Option.bind (callback ai st w) (\<lambda>(stop, st, w). if stop then Some (st, w) else resolve_loop callback ais st w)
      else resolve_loop callback ais st w)"

definition resolve_i :: "os \<Rightarrow> (addrinfo \<Rightarrow> 's \<Rightarrow> world \<Rightarrow> (bool \<times> 's \<times> world) option) \<Rightarrow> string \<Rightarrow> 16 word \<Rightarrow> int \<Rightarrow> int \<Rightarrow> int \<Rightarrow>
    's \<Rightarrow> world \<Rightarrow> (int \<times> 's \<times> world) option" where
  "resolve_i os callback hostname port af flags socktype st w =
     (let service = (if 0 < port then Some (format_u (unat port)) else None);
          (a, w) = sys os (Sys_getaddrinfo hostname service flags af socktype) w
      in if an_addrs a = [] then Some (an_ret a, st, w)
         else Option.bind (resolve_loop callback (an_addrs a) st w) (\<lambda>(st, w). Some (an_ret a, st, w)))"

definition emplace_endpoint :: "addrinfo \<Rightarrow> endpoint list \<Rightarrow> world \<Rightarrow> (bool \<times> endpoint list \<times> world) option" where
  "emplace_endpoint ai endpoints w = Some (False, endpoints @ [as_is_addrinfo ai], w)"

definition resolve :: "os \<Rightarrow> string \<Rightarrow> 16 word \<Rightarrow> int \<Rightarrow> endpoint list \<Rightarrow> world \<Rightarrow> (int \<times> endpoint list \<times> world) option" where
  "resolve os hostname port socktype = resolve_i os emplace_endpoint hostname port AF_UNSPEC_hint AI_ALL socktype"
definition resolve_v4 :: "os \<Rightarrow> string \<Rightarrow> 16 word \<Rightarrow> int \<Rightarrow> endpoint list \<Rightarrow> world \<Rightarrow> (int \<times> endpoint list \<times> world) option" where
  "resolve_v4 os hostname port socktype = resolve_i os emplace_endpoint hostname port AF_INET 0 socktype"
definition resolve_v6 :: "os \<Rightarrow> string \<Rightarrow> 16 word \<Rightarrow> int \<Rightarrow> endpoint list \<Rightarrow> world \<Rightarrow> (int \<times> endpoint list \<times> world) option" where
  "resolve_v6 os hostname port socktype = resolve_i os emplace_endpoint hostname port AF_INET6 0 socktype"
definition resolve_v4to6 :: "os \<Rightarrow> string \<Rightarrow> 16 word \<Rightarrow> int \<Rightarrow> endpoint list \<Rightarrow> world \<Rightarrow> (int \<times> endpoint list \<times> world) option" where
  "resolve_v4to6 os hostname port socktype = resolve_i os emplace_endpoint hostname port AF_INET6 AI_V4MAPPED socktype"
definition resolve_tov6 :: "os \<Rightarrow> string \<Rightarrow> 16 word \<Rightarrow> int \<Rightarrow> endpoint list \<Rightarrow> world \<Rightarrow> (int \<times> endpoint list \<times> world) option" where
  "resolve_tov6 os hostname port socktype = resolve_i os emplace_endpoint hostname port AF_INET6 (AI_ALL OR AI_V4MAPPED) socktype"

fun traverse_loop :: "(endpoint \<Rightarrow> 's \<Rightarrow> bool \<times> 's) \<Rightarrow> byte list option list \<Rightarrow> endpoint \<Rightarrow> 's \<Rightarrow> 's" where
  "traverse_loop handler [] ep st = st"
| "traverse_loop handler (None # ifs) ep st = traverse_loop handler ifs ep st"
| "traverse_loop handler (Some sa # ifs) ep st =
     (let ep = as_is_sockaddr sa ep
      in if ep_af ep \<noteq> AF_UNSPEC \<and> is_global ep
         then let (stop, st) = handler ep st in if stop then st else traverse_loop handler ifs ep st
         else traverse_loop handler ifs ep st)"

definition traverse_local_address :: "os \<Rightarrow> (endpoint \<Rightarrow> 's \<Rightarrow> bool \<times> 's) \<Rightarrow> 's \<Rightarrow> world \<Rightarrow> 's \<times> world" where
  "traverse_local_address os handler st w =
     (let (a, w) = sys os Sys_getifaddrs w
      in (if an_ret a = -1 then st else traverse_loop handler (an_ifs a) new_endpoint st, w))"

definition ipsv_ipv4 :: int where "ipsv_ipv4 = 1"
definition ipsv_ipv6 :: int where "ipsv_ipv6 = 2"
definition ipsv_dual_stack :: int where "ipsv_dual_stack = ipsv_ipv4 OR ipsv_ipv6"

definition note_family :: "endpoint \<Rightarrow> int \<Rightarrow> bool \<times> int" where
  "note_family ep flags =
     (let flags = (if ep_af ep = AF_INET then flags OR ipsv_ipv4 else if ep_af ep = AF_INET6 then flags OR ipsv_ipv6 else flags)
      in (flags = ipsv_dual_stack, flags))"

definition getipsv :: "os \<Rightarrow> world \<Rightarrow> int \<times> world" where
  "getipsv os w = traverse_local_address os note_family 0 w"

text \<open>
  The connects to a name: each attempt is one of the connects to an endpoint, on the same object.
  The closures capture the error and the object.
\<close>

type_synonym attempt = "endpoint \<Rightarrow> xxsocket \<Rightarrow> world \<Rightarrow> (int \<times> xxsocket \<times> world) option"

definition try_address :: "attempt \<Rightarrow> addrinfo \<Rightarrow> int \<times> xxsocket \<Rightarrow> world \<Rightarrow> (bool \<times> (int \<times> xxsocket) \<times> world) option" where
  "try_address conn ai st w =
     (let (_, x) = st in Option.bind (conn (as_is_addrinfo ai) x w) (\<lambda>(error, x, w). Some (error = 0, (error, x), w)))"

definition connect_name :: "os \<Rightarrow> attempt \<Rightarrow> string \<Rightarrow> 16 word \<Rightarrow> xxsocket \<Rightarrow> world \<Rightarrow> (int \<times> xxsocket \<times> world) option" where
  "connect_name os conn hostname port x w =
     Option.bind (resolve_i os (try_address conn) hostname port 0 0 SOCK_STREAM (-1, x) w) (\<lambda>(_, (error, x), w). Some (error, x, w))"

definition pconnect_name :: "os \<Rightarrow> net_env \<Rightarrow> string \<Rightarrow> 16 word \<Rightarrow> 16 word \<Rightarrow> xxsocket \<Rightarrow> world \<Rightarrow> (int \<times> xxsocket \<times> world) option" where
  "pconnect_name os env hostname port local_port = connect_name os (\<lambda>ep x w. Some (pconnect os env ep local_port x w)) hostname port"

definition pconnect_n_for_name :: "os \<Rightarrow> net_env \<Rightarrow> string \<Rightarrow> 16 word \<Rightarrow> int \<Rightarrow> 16 word \<Rightarrow> xxsocket \<Rightarrow> world \<Rightarrow> (int \<times> xxsocket \<times> world) option" where
  "pconnect_n_for_name os env hostname port wtimeout local_port =
     connect_name os (\<lambda>ep. pconnect_n_for os env ep wtimeout local_port) hostname port"

definition pconnect_n_name :: "os \<Rightarrow> net_env \<Rightarrow> string \<Rightarrow> 16 word \<Rightarrow> 16 word \<Rightarrow> xxsocket \<Rightarrow> world \<Rightarrow> (int \<times> xxsocket \<times> world) option" where
  "pconnect_n_name os env hostname port local_port x w =
     Option.bind (resolve_i os (\<lambda>ai (_, x) w. let (error, x, w) = pconnect_n os env (as_is_addrinfo ai) local_port x w in Some (True, (error, x), w))
        hostname port 0 0 SOCK_STREAM (-1, x) w) (\<lambda>(_, (error, x), w). Some (error, x, w))"

definition try_address_ipsv :: "os \<Rightarrow> attempt \<Rightarrow> int \<Rightarrow> string \<Rightarrow> 16 word \<Rightarrow> addrinfo \<Rightarrow> int \<times> xxsocket \<Rightarrow> world \<Rightarrow>
    (bool \<times> (int \<times> xxsocket) \<times> world) option" where
  "try_address_ipsv os conn flags hostname port ai st w =
     (if ai_family ai = AF_INET
      then if flags AND ipsv_ipv4 \<noteq> 0 then try_address conn ai st w
           else if flags AND ipsv_ipv6 \<noteq> 0
           then Option.bind (resolve_i os (try_address conn) hostname port AF_INET6 AI_V4MAPPED SOCK_STREAM st w)
             (\<lambda>(_, (error, x), w). Some (error = 0, (error, x), w))
           else Some (fst st = 0, st, w)
      else if ai_family ai = AF_INET6 \<and> flags AND ipsv_ipv6 \<noteq> 0 then try_address conn ai st w
      else Some (fst st = 0, st, w))"

definition xconnect_name :: "os \<Rightarrow> attempt \<Rightarrow> string \<Rightarrow> 16 word \<Rightarrow> xxsocket \<Rightarrow> world \<Rightarrow> (int \<times> xxsocket \<times> world) option" where
  "xconnect_name os conn hostname port x w =
     (let (flags, w) = getipsv os w
      in Option.bind (resolve_i os (try_address_ipsv os conn flags hostname port) hostname port AF_UNSPEC_hint AI_ALL SOCK_STREAM (-1, x) w)
           (\<lambda>(_, (error, x), w). Some (error, x, w)))"

definition xpconnect :: "os \<Rightarrow> net_env \<Rightarrow> string \<Rightarrow> 16 word \<Rightarrow> 16 word \<Rightarrow> xxsocket \<Rightarrow> world \<Rightarrow> (int \<times> xxsocket \<times> world) option" where
  "xpconnect os env hostname port local_port = xconnect_name os (\<lambda>ep x w. Some (pconnect os env ep local_port x w)) hostname port"

definition xpconnect_n :: "os \<Rightarrow> net_env \<Rightarrow> string \<Rightarrow> 16 word \<Rightarrow> int \<Rightarrow> 16 word \<Rightarrow> xxsocket \<Rightarrow> world \<Rightarrow> (int \<times> xxsocket \<times> world) option" where
  "xpconnect_n os env hostname port wtimeout local_port =
     xconnect_name os (\<lambda>ep. pconnect_n_for os env ep wtimeout local_port) hostname port"

section \<open>Error texts\<close>

definition YASIO_NO_ERROR :: string where "YASIO_NO_ERROR = ''No error.''"

definition xx_strerror :: "(int \<Rightarrow> string) \<Rightarrow> int \<Rightarrow> string" where
  "xx_strerror sys_text error = (if error \<noteq> 0 then sys_text error else YASIO_NO_ERROR)"

text \<open>\<open>strerror_r\<close> with error 0: \<open>strncpy\<close> of at most the length of the text with its zero.\<close>

definition strerror_r_none :: "string \<Rightarrow> string" where
  "strerror_r_none buf = splice 0 (take (min 10 (length buf)) (YASIO_NO_ERROR @ [CHR 0x00])) buf"

section \<open>Waiting and transferring\<close>

text \<open>Hypotheses on the system: no call takes back time and a wait takes some; a socket takes and
  gives no more bytes than it is asked to.\<close>

definition time_passes :: "os \<Rightarrow> bool" where
  "time_passes os \<longleftrightarrow> (\<forall>l c. 0 \<le> an_time (os l c)) \<and> (\<forall>l s sets tv. 0 < an_time (os l (Sys_select s sets tv)))"

definition sends_in_bounds :: "os \<Rightarrow> bool" where
  "sends_in_bounds os \<longleftrightarrow> (\<forall>l s d f. an_ret (os l (Sys_send s d f)) \<le> int (length d))"

definition recvs_in_bounds :: "os \<Rightarrow> bool" where
  "recvs_in_bounds os \<longleftrightarrow> (\<forall>l s n f. an_ret (os l (Sys_recv s n f)) \<le> int n \<and>
     (0 < an_ret (os l (Sys_recv s n f)) \<longrightarrow> length (an_data (os l (Sys_recv s n f))) = nat (an_ret (os l (Sys_recv s n f)))))"

lemma sys_simps [simp]:
  "fst (sys os c w) = os (w_calls w) c"
  "w_calls (snd (sys os c w)) = w_calls w @ [(c, os (w_calls w) c)]"
  "w_now (snd (sys os c w)) = w_now w + an_time (os (w_calls w) c)"
  "w_errno (snd (sys os c w)) = (if an_ret (os (w_calls w) c) < 0 then an_errno (os (w_calls w) c) else w_errno w)"
  by (simp_all add: sys_def Let_def)

lemma errno_simps [simp]:
  "w_calls (set_last_errno e w) = w_calls w" "w_now (set_last_errno e w) = w_now w" "w_errno (set_last_errno e w) = e"
  "get_last_errno w = w_errno w" "highp_clock w = w_now w"
  by (simp_all add: set_last_errno_def get_last_errno_def highp_clock_def)

lemma set_nonblocking_calls:
  "\<exists>l. w_calls (snd (set_nonblocking os s b w)) = w_calls w @ l \<and> (\<forall>x \<in> set l. fst x = Sys_getfl s \<or> (\<exists>f. fst x = Sys_setfl s f))"
  "time_passes os \<Longrightarrow> w_now w \<le> w_now (snd (set_nonblocking os s b w))"
  by (auto simp: set_nonblocking_def case_prod_unfold Let_def time_passes_def add_nonneg_nonneg)

text \<open>The bytes a socket has taken and given.\<close>

definition taken :: "int \<Rightarrow> syscall \<times> answer \<Rightarrow> byte list" where
  "taken s x = (case fst x of Sys_send s' d _ \<Rightarrow> if s' = s then take (nat (an_ret (snd x))) d else [] | _ \<Rightarrow> [])"

definition given :: "int \<Rightarrow> syscall \<times> answer \<Rightarrow> byte list" where
  "given s x = (case fst x of Sys_recv s' _ _ \<Rightarrow> if s' = s \<and> 0 < an_ret (snd x) then an_data (snd x) else [] | _ \<Rightarrow> [])"

lemma taken_simps [simp]:
  "taken s (Sys_send s' d f, a) = (if s' = s then take (nat (an_ret a)) d else [])"
  "taken s (Sys_select s' sets tv, a) = []" "taken s (Sys_getfl s', a) = []" "taken s (Sys_setfl s' fl, a) = []"
  by (simp_all add: taken_def)

lemma given_simps [simp]:
  "given s (Sys_recv s' n f, a) = (if s' = s \<and> 0 < an_ret a then an_data a else [])"
  "given s (Sys_select s' sets tv, a) = []" "given s (Sys_getfl s', a) = []" "given s (Sys_setfl s' fl, a) = []"
  by (simp_all add: given_def)

text \<open>A wait is a sequence of calls of \<open>select\<close>; the last one decides.\<close>

definition is_wait :: "int \<Rightarrow> syscall \<Rightarrow> bool" where
  "is_wait s c \<longleftrightarrow> (case c of Sys_select s' _ _ \<Rightarrow> s' = s | _ \<Rightarrow> False)"

definition waits :: "int \<Rightarrow> calls \<Rightarrow> bool" where
  "waits s l \<longleftrightarrow> (\<forall>x \<in> set l. is_wait s (fst x))"

lemma is_wait_select [simp]: "is_wait s (Sys_select s sets tv)"
  by (simp add: is_wait_def)

lemma waits_bytes: assumes "waits s l" shows "concat (map (taken s) l) = []" "concat (map (given s) l) = []"
  using assms by (auto simp: waits_def taken_def given_def is_wait_def split: syscall.splits)

lemma select_returns:
  assumes "time_passes os"
  shows "\<exists>n r w' l a. select os s sets wt w = Some (n, r, w') \<and> w_calls w' = w_calls w @ l \<and> waits s l \<and> l \<noteq> [] \<and>
    a = snd (last l) \<and> r = an_ready a \<and> w_now w < w_now w' \<and> (n = 0 \<longrightarrow> w_errno w' = ETIMEDOUT) \<and>
    (n < 0 \<longrightarrow> w_errno w' \<noteq> EINTR) \<and> (n \<noteq> 0 \<longrightarrow> n = an_ret a) \<and> (n = 0 \<and> an_ret a \<noteq> 0 \<longrightarrow> w_now w + wt \<le> w_now w')"
proof (induction "nat wt" arbitrary: wt w rule: less_induct)
  case less
  let ?c = "Sys_select s sets (wt sdiv 1000000, wt smod 1000000)"
  let ?w = "snd (sys os ?c w)" and ?a = "os (w_calls w) ?c"
  have t: "0 < an_time ?a" using assms unfolding time_passes_def by blast
  show ?case
  proof (cases "an_ret ?a < 0 \<and> an_errno ?a = EINTR \<and> 0 < wt - an_time ?a")
    case True
    then have "nat (wt - an_time ?a) < nat wt" using t by linarith
    from less [OF this, of ?w] obtain n r w' l where
      s: "select os s sets (wt - an_time ?a) ?w = Some (n, r, w')" and l: "w_calls w' = w_calls ?w @ l" "waits s l" "l \<noteq> []"
        "r = an_ready (snd (last l))" "w_now ?w < w_now w'" "n = 0 \<longrightarrow> w_errno w' = ETIMEDOUT" "n < 0 \<longrightarrow> w_errno w' \<noteq> EINTR"
        "n \<noteq> 0 \<longrightarrow> n = an_ret (snd (last l))" "n = 0 \<and> an_ret (snd (last l)) \<noteq> 0 \<longrightarrow> w_now ?w + (wt - an_time ?a) \<le> w_now w'" by blast
    have "select os s sets wt w = Some (n, r, w')"
      using True s by (subst select.simps) (simp add: case_prod_unfold Let_def)
    moreover have "waits s ((?c, ?a) # l)" using l(2) by (auto simp: waits_def)
    ultimately show ?thesis using l t by (intro exI [of _ n] exI [of _ r] exI [of _ w'] exI [of _ "(?c, ?a) # l"]) (auto simp: sys_def Let_def)
  next
    case False
    then have "select os s sets wt w = Some (if an_ret ?a < 0 \<and> an_errno ?a = EINTR then 0 else an_ret ?a, an_ready ?a,
      if (an_ret ?a < 0 \<and> an_errno ?a = EINTR) \<or> an_ret ?a = 0 then set_last_errno ETIMEDOUT ?w else ?w)"
      by (subst select.simps) (auto simp: case_prod_unfold Let_def)
    moreover have "waits s [(?c, ?a)]" by (auto simp: waits_def)
    ultimately show ?thesis using t False
      by (intro exI [of _ "if an_ret ?a < 0 \<and> an_errno ?a = EINTR then 0 else an_ret ?a"] exI [of _ "an_ready ?a"]
          exI [of _ "if (an_ret ?a < 0 \<and> an_errno ?a = EINTR) \<or> an_ret ?a = 0 then set_last_errno ETIMEDOUT ?w else ?w"] exI [of _ "[(?c, ?a)]"]) auto
  qed
qed

lemma ready_returns:
  assumes "time_passes os" "ready = handle_write_ready \<or> ready = handle_read_ready"
  shows "\<exists>n w' l. ready os s wt w = Some (n, w') \<and> w_calls w' = w_calls w @ l \<and> waits s l \<and> l \<noteq> [] \<and> w_now w < w_now w' \<and>
    (n < 0 \<longrightarrow> n = an_ret (snd (last l)))"
proof -
  define sets where "sets = (if ready = handle_write_ready then (False, True, False) else (True, False, False))"
  obtain n r w' l where s: "select os s sets wt w = Some (n, r, w')" "w_calls w' = w_calls w @ l" "waits s l" "l \<noteq> []"
      "w_now w < w_now w'" "n \<noteq> 0 \<longrightarrow> n = an_ret (snd (last l))"
    using select_returns [OF assms(1), of s sets wt w] by blast
  then have "ready os s wt w = Some (n, w')"
    using assms(2) by (auto simp: sets_def handle_write_ready_def handle_read_ready_def split: if_splits)
  with s(2-) show ?thesis by (intro exI [of _ n] exI [of _ w'] exI [of _ l]) auto
qed

text \<open>How a transfer can end early: the last call was a transfer that failed for good or moved
  nothing, or a wait that failed, or the time is over.\<close>

definition gave_up :: "(int \<Rightarrow> bool) \<Rightarrow> int \<Rightarrow> calls \<Rightarrow> world \<Rightarrow> world \<Rightarrow> bool" where
  "gave_up again wt l w w' \<longleftrightarrow>
     (case last l of
        (Sys_select _ _ _, a) \<Rightarrow> an_ret a = -1
      | (_, a) \<Rightarrow> an_ret a \<le> 0 \<and> \<not> (an_ret a = -1 \<and> again (w_errno w'))) \<or> w_now w + wt \<le> w_now w'"

lemma gave_up_later:
  assumes "gave_up again wt' l w1 w'" "l \<noteq> []" "w_now w + wt \<le> w_now w1 + wt'"
  shows "gave_up again wt (k @ l) w w'"
  using assms by (auto simp: gave_up_def)

lemma send_loop_returns:
  assumes "time_passes os" "sends_in_bounds os" "0 \<le> bt" "bt \<le> len" "len \<le> int (length buf)"
  shows "\<exists>n w' l. send_loop os s buf len flags bt wt w = Some (n, w') \<and> w_calls w' = w_calls w @ l \<and> bt \<le> n \<and> n \<le> len \<and>
    take (nat bt) buf @ concat (map (taken s) l) = take (nat n) buf \<and> w_now w \<le> w_now w' \<and> (bt < len \<longrightarrow> l \<noteq> []) \<and>
    (n < len \<longrightarrow> gave_up not_send_error wt l w w')"
  using assms(3,4)
proof (induction "nat (len - bt) + nat wt" arbitrary: bt wt w rule: less_induct)
  case less
  let ?d = "take (nat (len - bt)) (drop (nat bt) buf)"
  let ?c = "Sys_send s ?d flags"
  let ?w = "snd (sys os ?c w)" and ?a = "os (w_calls w) ?c"
  have t: "0 \<le> an_time ?a" using assms(1) unfolding time_passes_def by blast
  have b: "an_ret ?a \<le> int (length ?d)" using assms(2) unfolding sends_in_bounds_def by blast
  have ld: "length ?d = nat (len - bt)" using less.prems assms(5) by simp
  consider (all) "len \<le> bt" | (more) "bt < len" "0 < an_ret ?a" | (wait) "bt < len" "an_ret ?a = -1" "not_send_error (w_errno ?w)"
    | (stop) "bt < len" "an_ret ?a \<le> 0" "\<not> (an_ret ?a = -1 \<and> not_send_error (w_errno ?w))" by linarith
  then show ?case
  proof cases
    case all
    then show ?thesis using less.prems by (subst send_loop.simps) auto
  next
    case stop
    then have "send_loop os s buf len flags bt wt w = Some (bt, ?w)"
      by (subst send_loop.simps) (auto simp: case_prod_unfold Let_def)
    then show ?thesis using stop t less.prems
      by (intro exI [of _ bt] exI [of _ ?w] exI [of _ "[(?c, ?a)]"]) (auto simp: gave_up_def)
  next
    case more
    then have "nat (len - (bt + an_ret ?a)) + nat wt < nat (len - bt) + nat wt" by linarith
    moreover have "0 \<le> bt + an_ret ?a" "bt + an_ret ?a \<le> len" using more b ld less.prems by linarith+
    ultimately obtain n w' l where r: "send_loop os s buf len flags (bt + an_ret ?a) wt ?w = Some (n, w')"
      "w_calls w' = w_calls ?w @ l" "bt + an_ret ?a \<le> n" "n \<le> len"
      "take (nat (bt + an_ret ?a)) buf @ concat (map (taken s) l) = take (nat n) buf" "w_now ?w \<le> w_now w'"
      "bt + an_ret ?a < len \<longrightarrow> l \<noteq> []" "n < len \<longrightarrow> gave_up not_send_error wt l ?w w'"
      using less.hyps [of "bt + an_ret ?a" wt ?w] by blast
    have "send_loop os s buf len flags bt wt w = Some (n, w')"
      using more r(1) by (subst send_loop.simps) (simp add: case_prod_unfold Let_def)
    moreover have "take (nat bt) buf @ concat (map (taken s) ((?c, ?a) # l)) = take (nat n) buf"
    proof -
      have "take (nat (an_ret ?a)) ?d = take (nat (an_ret ?a)) (drop (nat bt) buf)" using b ld by (simp add: min_absorb1 nat_le_iff)
      moreover have "nat (bt + an_ret ?a) = nat bt + nat (an_ret ?a)" using more less.prems by (simp add: nat_add_distrib)
      ultimately show ?thesis using r(5) by (simp add: take_add)
    qed
    moreover have "n < len \<longrightarrow> gave_up not_send_error wt ((?c, ?a) # l) w w'"
      using r(3,4,7,8) t gave_up_later [of not_send_error wt l ?w w' w wt "[(?c, ?a)]"] by auto
    ultimately show ?thesis using r(2-6) t more
      by (intro exI [of _ n] exI [of _ w'] exI [of _ "(?c, ?a) # l"]) auto
  next
    case wait
    obtain rtn w1 k where k: "handle_write_ready os s wt ?w = Some (rtn, w1)" "w_calls w1 = w_calls ?w @ k" "waits s k" "k \<noteq> []"
      "w_now ?w < w_now w1" "rtn < 0 \<longrightarrow> rtn = an_ret (snd (last k))"
      using ready_returns [OF assms(1), of handle_write_ready s wt ?w] by blast
    let ?wt = "wt - (w_now w1 - w_now ?w)"
    show ?thesis
    proof (cases "rtn \<noteq> -1 \<and> 0 < ?wt")
      case True
      then have "nat (len - bt) + nat ?wt < nat (len - bt) + nat wt" using k(5) by linarith
      then obtain n w' l where r: "send_loop os s buf len flags bt ?wt w1 = Some (n, w')" "w_calls w' = w_calls w1 @ l" "bt \<le> n" "n \<le> len"
        "take (nat bt) buf @ concat (map (taken s) l) = take (nat n) buf" "w_now w1 \<le> w_now w'" "bt < len \<longrightarrow> l \<noteq> []"
        "n < len \<longrightarrow> gave_up not_send_error ?wt l w1 w'"
        using less.hyps [of bt ?wt w1] less.prems by blast
      have "send_loop os s buf len flags bt wt w = Some (n, w')"
        using wait True k(1) r(1) by (subst send_loop.simps) (simp add: case_prod_unfold Let_def)
      moreover have "n < len \<longrightarrow> gave_up not_send_error wt ((?c, ?a) # k @ l) w w'"
        using r(7,8) wait t gave_up_later [of not_send_error ?wt l w1 w' w wt "(?c, ?a) # k"] by auto
      ultimately show ?thesis using r(2-6) t wait k
        by (intro exI [of _ n] exI [of _ w'] exI [of _ "(?c, ?a) # k @ l"]) (auto simp: waits_bytes)
    next
      case False
      have "send_loop os s buf len flags bt wt w = Some (bt, w1)"
        using wait False k(1) by (subst send_loop.simps) (auto simp: case_prod_unfold Let_def)
      moreover have "is_wait s (fst (last k))" using k(3,4) by (simp add: waits_def)
      then obtain sets tv a where lk: "last k = (Sys_select s sets tv, a)"
        by (cases "last k") (auto simp: is_wait_def split: syscall.splits)
      have "gave_up not_send_error wt ((?c, ?a) # k) w w1"
        using False k(4,5,6) t lk by (auto simp: gave_up_def)
      ultimately show ?thesis using k t wait less.prems
        by (intro exI [of _ bt] exI [of _ w1] exI [of _ "(?c, ?a) # k"]) (auto simp: waits_bytes)
    qed
  qed
qed

lemma drop_splice: "k \<le> length m \<Longrightarrow> k + length d \<le> n \<Longrightarrow> drop n (splice k d m) = drop n m"
  by (simp add: splice_def)

lemma recv_loop_returns:
  assumes "time_passes os" "recvs_in_bounds os" "0 \<le> bt" "bt \<le> len" "len \<le> int (length buf)"
  shows "\<exists>n buf' w' l. recv_loop os s len flags buf bt wt w = Some (n, buf', w') \<and> w_calls w' = w_calls w @ l \<and> bt \<le> n \<and> n \<le> len \<and>
    take (nat n) buf' = take (nat bt) buf @ concat (map (given s) l) \<and> drop (nat n) buf' = drop (nat n) buf \<and> w_now w \<le> w_now w' \<and>
    length buf' = length buf \<and> (bt < len \<longrightarrow> l \<noteq> []) \<and> (n < len \<longrightarrow> gave_up not_recv_error wt l w w')"
  using assms(3,4,5)
proof (induction "nat (len - bt) + nat wt" arbitrary: bt wt w buf rule: less_induct)
  case less
  let ?c = "Sys_recv s (nat (len - bt)) flags"
  let ?w = "snd (sys os ?c w)" and ?a = "os (w_calls w) ?c"
  have t: "0 \<le> an_time ?a" using assms(1) unfolding time_passes_def by blast
  have b: "an_ret ?a \<le> len - bt" "0 < an_ret ?a \<Longrightarrow> length (an_data ?a) = nat (an_ret ?a)"
    using assms(2) less.prems unfolding recvs_in_bounds_def by (metis diff_ge_0_iff_ge int_nat_eq, blast)
  consider (all) "len \<le> bt" | (more) "bt < len" "0 < an_ret ?a" | (wait) "bt < len" "an_ret ?a = -1" "not_recv_error (w_errno ?w)"
    | (stop) "bt < len" "an_ret ?a \<le> 0" "\<not> (an_ret ?a = -1 \<and> not_recv_error (w_errno ?w))" by linarith
  then show ?case
  proof cases
    case all
    then show ?thesis using less.prems by (subst recv_loop.simps) auto
  next
    case stop
    then have "recv_loop os s len flags buf bt wt w = Some (bt, buf, ?w)"
      by (subst recv_loop.simps) (auto simp: case_prod_unfold Let_def)
    then show ?thesis using stop t less.prems
      by (intro exI [of _ bt] exI [of _ buf] exI [of _ ?w] exI [of _ "[(?c, ?a)]"]) (auto simp: gave_up_def)
  next
    case more
    let ?buf = "splice (nat bt) (an_data ?a) buf"
    have lb: "length ?buf = length buf" using more b less.prems by (intro length_splice) linarith
    have "nat (len - (bt + an_ret ?a)) + nat wt < nat (len - bt) + nat wt" using more by linarith
    moreover have "0 \<le> bt + an_ret ?a" "bt + an_ret ?a \<le> len" "len \<le> int (length ?buf)" using more b lb less.prems by linarith+
    ultimately obtain n buf' w' l where r: "recv_loop os s len flags ?buf (bt + an_ret ?a) wt ?w = Some (n, buf', w')"
      "w_calls w' = w_calls ?w @ l" "bt + an_ret ?a \<le> n" "n \<le> len"
      "take (nat n) buf' = take (nat (bt + an_ret ?a)) ?buf @ concat (map (given s) l)" "drop (nat n) buf' = drop (nat n) ?buf"
      "w_now ?w \<le> w_now w'" "length buf' = length ?buf" "bt + an_ret ?a < len \<longrightarrow> l \<noteq> []" "n < len \<longrightarrow> gave_up not_recv_error wt l ?w w'"
      using less.hyps [of "bt + an_ret ?a" wt ?buf ?w] by blast
    have "nat (bt + an_ret ?a) = nat bt + length (an_data ?a)" using more less.prems b by (simp add: nat_add_distrib)
    moreover have "nat bt + length (an_data ?a) \<le> nat n" using r(3) calculation nat_mono by metis
    moreover have "nat bt \<le> length buf" using less.prems more by linarith
    ultimately have "take (nat (bt + an_ret ?a)) ?buf = take (nat bt) buf @ an_data ?a" "drop (nat n) ?buf = drop (nat n) buf"
      by (simp_all add: drop_splice) (simp add: splice_def)
    then have "take (nat n) buf' = take (nat bt) buf @ concat (map (given s) ((?c, ?a) # l))" "drop (nat n) buf' = drop (nat n) buf"
      using r(5,6) more by simp_all
    moreover have "recv_loop os s len flags buf bt wt w = Some (n, buf', w')"
      using more r(1) by (subst recv_loop.simps) (simp add: case_prod_unfold Let_def)
    moreover have "n < len \<longrightarrow> gave_up not_recv_error wt ((?c, ?a) # l) w w'"
      using r(3,4,9,10) t gave_up_later [of not_recv_error wt l ?w w' w wt "[(?c, ?a)]"] by auto
    ultimately show ?thesis using r(2-4,7,8) lb t more
      by (intro exI [of _ n] exI [of _ buf'] exI [of _ w'] exI [of _ "(?c, ?a) # l"]) auto
  next
    case wait
    obtain rtn w1 k where k: "handle_read_ready os s wt ?w = Some (rtn, w1)" "w_calls w1 = w_calls ?w @ k" "waits s k" "k \<noteq> []"
      "w_now ?w < w_now w1" "rtn < 0 \<longrightarrow> rtn = an_ret (snd (last k))"
      using ready_returns [OF assms(1), of handle_read_ready s wt ?w] by blast
    let ?wt = "wt - (w_now w1 - w_now ?w)"
    show ?thesis
    proof (cases "rtn \<noteq> -1 \<and> 0 < ?wt")
      case True
      then have "nat (len - bt) + nat ?wt < nat (len - bt) + nat wt" using k(5) by linarith
      then obtain n buf' w' l where r: "recv_loop os s len flags buf bt ?wt w1 = Some (n, buf', w')" "w_calls w' = w_calls w1 @ l" "bt \<le> n" "n \<le> len"
        "take (nat n) buf' = take (nat bt) buf @ concat (map (given s) l)" "drop (nat n) buf' = drop (nat n) buf"
        "w_now w1 \<le> w_now w'" "length buf' = length buf" "bt < len \<longrightarrow> l \<noteq> []" "n < len \<longrightarrow> gave_up not_recv_error ?wt l w1 w'"
        using less.hyps [of bt ?wt buf w1] less.prems by blast
      have "recv_loop os s len flags buf bt wt w = Some (n, buf', w')"
        using wait True k(1) r(1) by (subst recv_loop.simps) (simp add: case_prod_unfold Let_def)
      moreover have "n < len \<longrightarrow> gave_up not_recv_error wt ((?c, ?a) # k @ l) w w'"
        using r(9,10) wait t gave_up_later [of not_recv_error ?wt l w1 w' w wt "(?c, ?a) # k"] by auto
      ultimately show ?thesis using r(2-8) t wait k
        by (intro exI [of _ n] exI [of _ buf'] exI [of _ w'] exI [of _ "(?c, ?a) # k @ l"]) (auto simp: waits_bytes)
    next
      case False
      have "recv_loop os s len flags buf bt wt w = Some (bt, buf, w1)"
        using wait False k(1) by (subst recv_loop.simps) (auto simp: case_prod_unfold Let_def)
      moreover have "is_wait s (fst (last k))" using k(3,4) by (simp add: waits_def)
      then obtain sets tv a where lk: "last k = (Sys_select s sets tv, a)"
        by (cases "last k") (auto simp: is_wait_def split: syscall.splits)
      have "gave_up not_recv_error wt ((?c, ?a) # k) w w1"
        using False k(4,5,6) t lk by (auto simp: gave_up_def)
      ultimately show ?thesis using k t wait less.prems
        by (intro exI [of _ bt] exI [of _ buf] exI [of _ w1] exI [of _ "(?c, ?a) # k"]) (auto simp: waits_bytes)
    qed
  qed
qed

lemma nonblocking_bytes:
  assumes "w_calls (snd (set_nonblocking os s b w)) = w_calls w @ l"
  shows "concat (map (taken s) l) = []" "concat (map (given s) l) = []"
proof -
  obtain l' where "w_calls (snd (set_nonblocking os s b w)) = w_calls w @ l'" "\<forall>x \<in> set l'. fst x = Sys_getfl s \<or> (\<exists>f. fst x = Sys_setfl s f)"
    using set_nonblocking_calls(1) by blast
  then show "concat (map (taken s) l) = []" "concat (map (given s) l) = []" using assms by (auto simp: taken_def given_def)
qed

lemma send_n_returns:
  assumes "time_passes os" "sends_in_bounds os" "0 \<le> len" "len \<le> int (length buf)"
  shows "\<exists>n w' l. send_n os s buf len wt flags w = Some (n, w') \<and> w_calls w' = w_calls w @ l \<and> 0 \<le> n \<and> n \<le> len \<and>
    concat (map (taken s) l) = take (nat n) buf \<and> (n < len \<longrightarrow> gave_up not_send_error wt l w w')"
proof -
  let ?w = "snd (set_nonblocking os s True w)"
  obtain k where k: "w_calls ?w = w_calls w @ k" using set_nonblocking_calls(1) by blast
  have t: "w_now w \<le> w_now ?w" using set_nonblocking_calls(2) [OF assms(1)] .
  obtain n w' l where r: "send_loop os s buf len flags 0 wt ?w = Some (n, w')" "w_calls w' = w_calls ?w @ l" "0 \<le> n" "n \<le> len"
    "take (nat 0) buf @ concat (map (taken s) l) = take (nat n) buf" "0 < len \<longrightarrow> l \<noteq> []" "n < len \<longrightarrow> gave_up not_send_error wt l ?w w'"
    using send_loop_returns [OF assms(1,2) order_refl assms(3,4), of s flags wt ?w] by blast
  have "n < len \<longrightarrow> gave_up not_send_error wt (k @ l) w w'" using r(3,6,7) t gave_up_later [of _ wt l ?w w' w wt k] by auto
  then show ?thesis
    using r(1-5) k nonblocking_bytes(1) [OF k]
    by (intro exI [of _ n] exI [of _ w'] exI [of _ "k @ l"]) (simp add: send_n_def case_prod_unfold)
qed

lemma recv_n_returns:
  assumes "time_passes os" "recvs_in_bounds os" "0 \<le> len" "len \<le> int (length buf)"
  shows "\<exists>n buf' w' l. recv_n os s buf len wt flags w = Some (n, buf', w') \<and> w_calls w' = w_calls w @ l \<and> 0 \<le> n \<and> n \<le> len \<and>
    buf' = concat (map (given s) l) @ drop (nat n) buf \<and> length buf' = length buf \<and> (n < len \<longrightarrow> gave_up not_recv_error wt l w w')"
proof -
  let ?w = "snd (set_nonblocking os s True w)"
  obtain k where k: "w_calls ?w = w_calls w @ k" using set_nonblocking_calls(1) by blast
  have t: "w_now w \<le> w_now ?w" using set_nonblocking_calls(2) [OF assms(1)] .
  obtain n buf' w' l where q: "recv_loop os s len flags buf 0 wt ?w = Some (n, buf', w')" "w_calls w' = w_calls ?w @ l" "0 \<le> n" "n \<le> len"
    "take (nat n) buf' = take (nat 0) buf @ concat (map (given s) l)" "drop (nat n) buf' = drop (nat n) buf" "length buf' = length buf"
    "0 < len \<longrightarrow> l \<noteq> []" "n < len \<longrightarrow> gave_up not_recv_error wt l ?w w'"
    using recv_loop_returns [OF assms(1,2) order_refl assms(3,4), of s flags wt ?w] by blast
  have "buf' = concat (map (given s) l) @ drop (nat n) buf" using q(5,6) append_take_drop_id [of "nat n" buf'] by simp
  moreover have "n < len \<longrightarrow> gave_up not_recv_error wt (k @ l) w w'" using q(3,8,9) t gave_up_later [of _ wt l ?w w' w wt k] by auto
  ultimately show ?thesis
    using q(1-4,7) k nonblocking_bytes(2) [OF k]
    by (intro exI [of _ n] exI [of _ buf'] exI [of _ w'] exI [of _ "k @ l"]) (simp add: recv_n_def case_prod_unfold)
qed

text \<open>
  C12: Sending and receiving all of a buffer with a timeout.  Both calls return.  The socket has taken
  the first \<open>n\<close> bytes of the buffer, in order and each once, where \<open>n\<close> is the result; the buffer
  begins with the \<open>n\<close> bytes that have been received and is unchanged behind them.  Less than was
  asked for is transferred only when a call fails for good or moves nothing, a wait fails, or the
  time is over.
\<close>

theorem transfer_all_or_give_up:
  assumes "time_passes os" "sends_in_bounds os" "recvs_in_bounds os" "0 \<le> len" "len \<le> int (length buf)"
  shows "(\<exists>n w' l. send_n os s buf len wt flags w = Some (n, w') \<and> w_calls w' = w_calls w @ l \<and> 0 \<le> n \<and> n \<le> len \<and>
      concat (map (taken s) l) = take (nat n) buf \<and> (n < len \<longrightarrow> gave_up not_send_error wt l w w')) \<and>
    (\<exists>n buf' w' l. recv_n os s buf len wt flags w = Some (n, buf', w') \<and> w_calls w' = w_calls w @ l \<and> 0 \<le> n \<and> n \<le> len \<and>
      buf' = concat (map (given s) l) @ drop (nat n) buf \<and> length buf' = length buf \<and> (n < len \<longrightarrow> gave_up not_recv_error wt l w w'))"
  by (intro conjI send_n_returns recv_n_returns assms)

text \<open>A system for the examples: a socket that takes one byte a call, every second call, and gives
  two zeros or nothing; a wait takes a millisecond.\<close>

definition demo_answer :: answer where
  "demo_answer = \<lparr>an_ret = 0, an_errno = 0, an_data = [], an_value = 0, an_ready = (False, False, False), an_addrs = [], an_ifs = [], an_time = 0\<rparr>"

definition demo_os :: os where
  "demo_os l c =
     (case c of
        Sys_send _ d _ \<Rightarrow> if even (length l) \<and> d \<noteq> [] then demo_answer\<lparr>an_ret := 1\<rparr> else demo_answer\<lparr>an_ret := -1, an_errno := EAGAIN\<rparr>
      | Sys_recv _ n _ \<Rightarrow> if even (length l) \<and> 2 \<le> n then demo_answer\<lparr>an_ret := 2, an_data := [0, 0]\<rparr> else demo_answer
      | Sys_select _ _ _ \<Rightarrow> demo_answer\<lparr>an_ret := 1, an_ready := (True, True, False), an_time := 1000\<rparr>
      | _ \<Rightarrow> demo_answer)"

definition demo_world :: world where "demo_world = \<lparr>w_calls = [], w_errno = 0, w_now = 0\<rparr>"

lemma demo_os_ok: "time_passes demo_os" "sends_in_bounds demo_os" "recvs_in_bounds demo_os"
  unfolding time_passes_def sends_in_bounds_def recvs_in_bounds_def
  by (auto simp: demo_os_def demo_answer_def Suc_le_eq split: syscall.split)

lemma transfer_all_or_give_up_witness:
  "\<exists>n w' l. send_n demo_os 5 [1, 2, 3] 3 5000 0 demo_world = Some (n, w') \<and> n \<le> 3 \<and> concat (map (taken 5) l) = take (nat n) [1, 2, 3]"
  using transfer_all_or_give_up [OF demo_os_ok, of 3 "[1, 2, 3]" 5 5000 0 demo_world] by auto

section \<open>Who owns a descriptor\<close>

text \<open>The descriptors that are open after a sequence of calls, and whether every call of
  \<open>close\<close> in it closed an open one.\<close>

definition ledger_step :: "syscall \<times> answer \<Rightarrow> int set \<times> bool \<Rightarrow> int set \<times> bool" where
  "ledger_step x st =
     (let (S, ok) = st; r = an_ret (snd x)
      in case fst x of
           Sys_socket _ _ _ \<Rightarrow> (if r \<noteq> invalid_socket then insert r S else S, ok)
         | Sys_accept _ \<Rightarrow> (if r \<noteq> invalid_socket then insert r S else S, ok)
         | Sys_close s \<Rightarrow> (S - {s}, ok \<and> s \<in> S)
         | _ \<Rightarrow> (S, ok))"

definition ledger :: "world \<Rightarrow> int set \<times> bool" where
  "ledger w = fold ledger_step (w_calls w) ({}, True)"

definition fresh_descriptors :: "os \<Rightarrow> bool" where
  "fresh_descriptors os \<longleftrightarrow> (\<forall>l c. (\<exists>af ty pr s. c = Sys_socket af ty pr \<or> c = Sys_accept s) \<longrightarrow>
     an_ret (os l c) \<notin> fst (fold ledger_step l ({}, True)))"

definition moves_no_descriptor :: "syscall \<Rightarrow> bool" where
  "moves_no_descriptor c \<longleftrightarrow> (case c of Sys_socket _ _ _ \<Rightarrow> False | Sys_accept _ \<Rightarrow> False | Sys_close _ \<Rightarrow> False | _ \<Rightarrow> True)"

lemma moves_no_descriptor_simps [simp]:
  "moves_no_descriptor (Sys_shutdown s h)" "moves_no_descriptor (Sys_getfl s)" "moves_no_descriptor (Sys_setfl s f)"
  "moves_no_descriptor (Sys_bind s e)" "moves_no_descriptor (Sys_listen s b)" "moves_no_descriptor (Sys_connect s e)"
  "moves_no_descriptor (Sys_select s r t)" "moves_no_descriptor (Sys_getsockopt s a b)" "moves_no_descriptor (Sys_setsockopt s a b v)"
  by (simp_all add: moves_no_descriptor_def)

lemma ledger_sys [simp]:
  "moves_no_descriptor c \<Longrightarrow> ledger (snd (sys os c w)) = ledger w"
  "ledger (snd (sys os (Sys_close s) w)) = (fst (ledger w) - {s}, snd (ledger w) \<and> s \<in> fst (ledger w))"
  "ledger (snd (sys os (Sys_socket af ty pr) w)) =
     (if an_ret (os (w_calls w) (Sys_socket af ty pr)) \<noteq> invalid_socket then insert (an_ret (os (w_calls w) (Sys_socket af ty pr))) (fst (ledger w)) else fst (ledger w), snd (ledger w))"
  "ledger (snd (sys os (Sys_accept s) w)) =
     (if an_ret (os (w_calls w) (Sys_accept s)) \<noteq> invalid_socket then insert (an_ret (os (w_calls w) (Sys_accept s))) (fst (ledger w)) else fst (ledger w), snd (ledger w))"
  by (auto simp: ledger_def ledger_step_def moves_no_descriptor_def case_prod_unfold Let_def split: syscall.splits)

lemma ledger_set_last_errno [simp]: "ledger (set_last_errno e w) = ledger w"
  by (simp add: ledger_def)

lemma fresh_descriptorsD:
  assumes "fresh_descriptors os"
  shows "an_ret (os (w_calls w) (Sys_socket af ty pr)) \<notin> fst (ledger w)" "an_ret (os (w_calls w) (Sys_accept s)) \<notin> fst (ledger w)"
  using assms unfolding fresh_descriptors_def ledger_def by blast+

lemma ledger_static [simp]:
  "ledger (snd (set_nonblocking os s b w)) = ledger w" "ledger (poptions os s w) = ledger w" "ledger (snd (connect os s ep w)) = ledger w"
  "ledger (snd (connect_n os s ep w)) = ledger w" "ledger (snd (set_optval os s lv nm v w)) = ledger w"
  "ledger (reuse_address os b x w) = ledger w" "ledger (snd (xx_bind os ep x w)) = ledger w" "ledger (snd (xx_listen os n x w)) = ledger w"
  "ledger (bind_local os env ep p x w) = ledger w" "ledger (snd (snd (get_optval os s lv nm w))) = ledger w"
  by (simp_all add: set_nonblocking_def poptions_def connect_def connect_n_def set_optval_def reuse_address_def xx_bind_def xx_listen_def
      bind_local_def bind_addr_def get_optval_def case_prod_unfold Let_def)

lemma select_ledger': "select os s sets wt w = Some y \<Longrightarrow> ledger (snd (snd y)) = ledger w"
proof (induction rule: select.raw_induct [rotated, consumes 1, case_names select])
  case (select sel os s sets wt w y)
  let ?w = "snd (sys os (Sys_select s sets (wt sdiv 1000000, wt smod 1000000)) w)"
  have *: "sel os s sets wt' ?w = Some y \<Longrightarrow> ledger (snd (snd y)) = ledger w" for wt'
    using select(1) [of os s sets wt' ?w y] by simp
  show ?case using select(2) by (auto simp: case_prod_unfold Let_def split: if_splits dest: *)
qed

lemma select_ledger: "select os s sets wt w = Some (n, r, w') \<Longrightarrow> ledger w' = ledger w"
  using select_ledger' by fastforce

text \<open>An accepted descriptor \<open>h\<close>.\<close>

definition admits :: "int \<Rightarrow> world \<Rightarrow> world \<Rightarrow> bool" where
  "admits h w w' \<longleftrightarrow> fst (ledger w') = (if h \<noteq> invalid_socket then insert h (fst (ledger w)) else fst (ledger w)) \<and>
     snd (ledger w') = snd (ledger w) \<and> h \<notin> fst (ledger w)"

lemma admits_accept:
  assumes "fresh_descriptors os" "ledger w' = ledger (snd (sys os (Sys_accept s) w))"
  shows "admits (an_ret (os (w_calls w) (Sys_accept s))) w w'"
  using assms fresh_descriptorsD(2) [OF assms(1), of w s] by (simp add: admits_def)

lemma admits_fails:
  assumes "fresh_descriptors os" "an_ret (os (w_calls w) (Sys_accept s)) = invalid_socket"
  shows "admits invalid_socket w (snd (sys os (Sys_accept s) w))"
  using admits_accept [OF assms(1), of "snd (sys os (Sys_accept s) w)" s w] assms(2) by simp

lemma admits_again:
  assumes "admits h (snd (sys os (Sys_accept s) w)) w'" "an_ret (os (w_calls w) (Sys_accept s)) = invalid_socket"
  shows "admits h w w'"
  using assms by (simp add: admits_def)

lemma accept_n_admits':
  "accept_n os x w = Some y \<Longrightarrow> fresh_descriptors os \<Longrightarrow> admits (fst (snd y)) w (snd (snd y))"
proof (induction rule: accept_n.raw_induct [where xa = "((os, x), w)" for os x w, unfolded prod.case, rotated, consumes 1, case_names accept])
  case (accept acc os x w y)
  let ?a = "os (w_calls w) (Sys_accept (xx_fd x))" and ?w = "snd (sys os (Sys_accept (xx_fd x)) w)"
  consider (taken) "an_ret ?a \<noteq> invalid_socket" "y = (0, an_ret ?a, snd (set_nonblocking os (an_ret ?a) True ?w))"
    | (again) "an_ret ?a = invalid_socket" "acc os x ?w = Some y" | (fails) "an_ret ?a = invalid_socket" "y = (w_errno ?w, an_ret ?a, ?w)"
    using accept(2) by (auto simp: case_prod_unfold Let_def split: if_splits)
  then show ?case
    by cases (use accept(3) admits_accept [OF accept(3)] admits_fails accept(1) [of os x ?w y] admits_again in auto)
qed

lemma paccept_admits':
  "paccept os x w = Some y \<Longrightarrow> fresh_descriptors os \<Longrightarrow> admits (fst (snd y)) w (snd (snd y))"
proof (induction rule: paccept.raw_induct [where xa = "((os, x), w)" for os x w, unfolded prod.case, rotated, consumes 1, case_names accept])
  case (accept acc os x w y)
  let ?a = "os (w_calls w) (Sys_accept (xx_fd x))" and ?w = "snd (sys os (Sys_accept (xx_fd x)) w)"
  consider (taken) "an_ret ?a \<noteq> invalid_socket" "y = (0, an_ret ?a, poptions os (an_ret ?a) ?w)"
    | (again) "an_ret ?a = invalid_socket" "acc os x ?w = Some y" | (fails) "an_ret ?a = invalid_socket" "y = (w_errno ?w, an_ret ?a, ?w)"
    using accept(2) by (auto simp: case_prod_unfold Let_def split: if_splits)
  then show ?case
    by cases (use accept(3) admits_accept [OF accept(3)] admits_fails accept(1) [of os x ?w y] admits_again in auto)
qed

lemma accepting_admits:
  assumes "fresh_descriptors os"
  shows "accept_n os x w = Some (e, h, w') \<Longrightarrow> admits h w w'" "paccept os x w = Some (e, h, w') \<Longrightarrow> admits h w w'"
  using accept_n_admits' [OF _ assms] paccept_admits' [OF _ assms] by fastforce+

text \<open>What each operation on an object does to the object and to the open descriptors.\<close>

definition opened :: "xxsocket \<Rightarrow> int set" where
  "opened x = (if is_open x then {xx_fd x} else {})"

text \<open>\<open>retakes x w x' w'\<close>: the object gave up the descriptor it owned, or kept it, and what it owns
  now is its own.\<close>

definition retakes :: "xxsocket \<Rightarrow> world \<Rightarrow> xxsocket \<Rightarrow> world \<Rightarrow> bool" where
  "retakes x w x' w' \<longleftrightarrow> fst (ledger w') = (fst (ledger w) - opened x) \<union> opened x' \<and> snd (ledger w') = snd (ledger w) \<and>
     (opened x' = opened x \<or> opened x' \<inter> (fst (ledger w) - opened x) = {})"

lemma retakes_refl: "opened x \<subseteq> fst (ledger w) \<Longrightarrow> ledger w' = ledger w \<Longrightarrow> retakes x w x w'"
  by (auto simp: retakes_def)

lemma retakes_ledger: "retakes x w x' w' \<Longrightarrow> ledger w'' = ledger w' \<Longrightarrow> retakes x w x' w''"
  by (simp add: retakes_def)

lemma xx_close_retakes:
  assumes "opened x \<subseteq> fst (ledger w)"
  shows "retakes x w (fst (xx_close os h x w)) (snd (xx_close os h x w))" "\<not> is_open (fst (xx_close os h x w))"
  using assms
  by (auto simp: xx_close_def retakes_def opened_def is_open_def case_prod_unfold Let_def)

lemma xx_open_retakes:
  assumes "fresh_descriptors os" "opened x \<subseteq> fst (ledger w)" "xx_open os af ty pr x w = (ok, x', w')"
  shows "retakes x w x' w'" "ok \<longleftrightarrow> is_open x'"
  using assms fresh_descriptorsD(1) [OF assms(1), of w af ty pr]
  by (auto simp: xx_open_def retakes_def opened_def is_open_def case_prod_unfold Let_def split: if_splits)

lemma retakes_trans:
  assumes "retakes x w x1 w1" "\<not> is_open x1" "retakes x1 w1 x' w'"
  shows "retakes x w x' w'"
  using assms by (auto simp: retakes_def opened_def split: if_splits)

lemma reopen_retakes:
  assumes "fresh_descriptors os" "opened x \<subseteq> fst (ledger w)" "reopen os af ty pr x w = (ok, x', w')"
  shows "retakes x w x' w'"
proof -
  obtain x1 w1 where c: "xx_close os SD_BOTH x w = (x1, w1)" by fastforce
  have "retakes x w x1 w1" "\<not> is_open x1" using xx_close_retakes [OF assms(2), of os SD_BOTH] by (auto simp: c)
  moreover have "retakes x1 w1 x' w'"
    using xx_open_retakes(1) [OF assms(1), of x1 w1 af ty pr ok x' w'] assms(3) c \<open>\<not> is_open x1\<close> by (simp add: reopen_def opened_def)
  ultimately show ?thesis by (rule retakes_trans)
qed

lemma popen_retakes:
  assumes "fresh_descriptors os" "opened x \<subseteq> fst (ledger w)" "popen os af ty pr x w = (ok, x', w')"
  shows "retakes x w x' w'"
proof -
  obtain b y v where o: "xx_open os af ty pr x w = (b, y, v)" by (metis prod_cases3)
  show ?thesis using xx_open_retakes(1) [OF assms(1,2) o] assms(3) by (auto simp: popen_def o elim: retakes_ledger)
qed

lemma connecting_retakes:
  assumes "fresh_descriptors os" "opened x \<subseteq> fst (ledger w)"
  shows "pconnect os env ep p x w = (n, x', w') \<Longrightarrow> retakes x w x' w'"
    and "pconnect_n os env ep p x w = (n, x', w') \<Longrightarrow> retakes x w x' w'"
    and "pserve os ep x w = (n, x', w') \<Longrightarrow> retakes x w x' w'"
proof -
  obtain ok y v where o: "reopen os (ep_af ep) SOCK_STREAM 0 x w = (ok, y, v)" by (metis prod_cases3)
  have "retakes x w y v" by (rule reopen_retakes [OF assms o])
  then show "pconnect os env ep p x w = (n, x', w') \<Longrightarrow> retakes x w x' w'"
    "pconnect_n os env ep p x w = (n, x', w') \<Longrightarrow> retakes x w x' w'" "pserve os ep x w = (n, x', w') \<Longrightarrow> retakes x w x' w'"
    by (auto simp: pconnect_def pconnect_n_def pserve_def o case_prod_unfold Let_def elim!: retakes_ledger split: if_splits)
qed

text \<open>The connect with a timeout keeps the books only when it succeeds.\<close>

lemma connect_n_for_ledger: "connect_n_for os s ep wt w = Some (0, w') \<Longrightarrow> ledger w' = ledger w"
  by (auto simp: connect_n_for_def connect_done_def case_prod_unfold Let_def bind_eq_Some_conv split: if_splits dest!: select_ledger)

lemma pconnect_n_for_retakes:
  assumes "fresh_descriptors os" "opened x \<subseteq> fst (ledger w)" "pconnect_n_for os env ep wt p x w = Some (0, x', w')"
  shows "retakes x w x' w'"
proof -
  obtain ok y v where o: "reopen os (ep_af ep) SOCK_STREAM 0 x w = (ok, y, v)" by (metis prod_cases3)
  have "retakes x w y v" by (rule reopen_retakes [OF assms(1,2) o])
  then show ?thesis using assms(3)
    by (auto simp: pconnect_n_for_def o bind_eq_Some_conv elim!: retakes_ledger split: if_splits dest!: connect_n_for_ledger)
qed

text \<open>
  A program of objects, of handles that it holds itself (released or accepted ones), and of the
  world.  A step is one member called on one object, or any call that moves no descriptor.  The
  connect with a timeout is a step when it succeeds.
\<close>

inductive sock_step :: "os \<Rightarrow> net_env \<Rightarrow> (nat \<Rightarrow> xxsocket) \<times> int set \<times> world \<Rightarrow> (nat \<Rightarrow> xxsocket) \<times> int set \<times> world \<Rightarrow> bool"
  for os env where
  Call: "moves_no_descriptor c \<Longrightarrow> sock_step os env (g, L, w) (g, L, snd (sys os c w))"
| Open: "xx_open os af ty pr (g i) w = (ok, x, w') \<Longrightarrow> sock_step os env (g, L, w) (g(i := x), L, w')"
| Popen: "popen os af ty pr (g i) w = (ok, x, w') \<Longrightarrow> sock_step os env (g, L, w) (g(i := x), L, w')"
| Reopen: "reopen os af ty pr (g i) w = (ok, x, w') \<Longrightarrow> sock_step os env (g, L, w) (g(i := x), L, w')"
| Close: "xx_close os how (g i) w = (x, w') \<Longrightarrow> sock_step os env (g, L, w) (g(i := x), L, w')"
| Destroy: "sock_step os env (g, L, w) (g(i := xx_new), L, xx_destroy os (g i) w)"
| Pconnect: "pconnect os env ep p (g i) w = (n, x, w') \<Longrightarrow> sock_step os env (g, L, w) (g(i := x), L, w')"
| Pconnect_n: "pconnect_n os env ep p (g i) w = (n, x, w') \<Longrightarrow> sock_step os env (g, L, w) (g(i := x), L, w')"
| Pconnect_n_for: "pconnect_n_for os env ep wt p (g i) w = Some (0, x, w') \<Longrightarrow> sock_step os env (g, L, w) (g(i := x), L, w')"
| Pserve: "pserve os ep (g i) w = (n, x, w') \<Longrightarrow> sock_step os env (g, L, w) (g(i := x), L, w')"
| Swap: "i \<noteq> j \<Longrightarrow> swap (g i) (g j) = (x, y) \<Longrightarrow> sock_step os env (g, L, w) (g(i := x, j := y), L, w)"
| Move: "i \<noteq> j \<Longrightarrow> \<not> is_open (g j) \<Longrightarrow> xx_move (g i) = (x, y) \<Longrightarrow> sock_step os env (g, L, w) (g(j := x, i := y), L, w)"
| Assign_handle: "h \<in> L \<Longrightarrow> sock_step os env (g, L, w) (g(i := assign_handle h (g i)), if is_open (g i) then L else L - {h}, w)"
| Release: "release_handle (g i) = (h, x) \<Longrightarrow> sock_step os env (g, L, w) (g(i := x), L \<union> ({h} - {invalid_socket}), w)"
| Accept: "i \<noteq> j \<Longrightarrow> \<not> is_open (g j) \<Longrightarrow> xx_accept os (g i) w = (x, w') \<Longrightarrow> sock_step os env (g, L, w) (g(j := x), L, w')"
| Accept_n: "accept_n os (g i) w = Some (e, h, w') \<Longrightarrow> sock_step os env (g, L, w) (g, L \<union> ({h} - {invalid_socket}), w')"
| Paccept: "paccept os (g i) w = Some (e, h, w') \<Longrightarrow> sock_step os env (g, L, w) (g, L \<union> ({h} - {invalid_socket}), w')"

definition books_ok :: "(nat \<Rightarrow> xxsocket) \<times> int set \<times> world \<Rightarrow> bool" where
  "books_ok st \<longleftrightarrow> (let (g, L, w) = st in snd (ledger w) \<and> fst (ledger w) = L \<union> (\<Union>i. opened (g i)) \<and> invalid_socket \<notin> L \<and>
     (\<forall>i j. i \<noteq> j \<longrightarrow> opened (g i) \<inter> opened (g j) = {}) \<and> (\<forall>i. opened (g i) \<inter> L = {}))"

lemma books_okI:
  assumes "snd (ledger w)" "fst (ledger w) = L \<union> (\<Union>i. opened (g i))" "invalid_socket \<notin> L"
    "\<And>i j. i \<noteq> j \<Longrightarrow> opened (g i) \<inter> opened (g j) = {}" "\<And>i. opened (g i) \<inter> L = {}"
  shows "books_ok (g, L, w)"
  using assms by (auto simp: books_ok_def)

lemma books_okD:
  assumes "books_ok (g, L, w)"
  shows "snd (ledger w)" "fst (ledger w) = L \<union> (\<Union>i. opened (g i))" "invalid_socket \<notin> L"
    "i \<noteq> j \<Longrightarrow> opened (g i) \<inter> opened (g j) = {}" "opened (g i) \<inter> L = {}" "opened (g i) \<subseteq> fst (ledger w)"
  using assms by (auto simp: books_ok_def)

lemma opened_update: "(\<Union>j. opened ((g(i := y)) j)) = opened y \<union> (\<Union>j \<in> - {i}. opened (g j))"
  by (auto split: if_splits)

lemma books_retakes:
  assumes b: "books_ok (g, L, w)" and r: "retakes (g i) w x w'"
  shows "books_ok (g(i := x), L, w')"
proof -
  define R where "R = L \<union> (\<Union>j \<in> - {i}. opened (g j))"
  have u: "(\<Union>j. opened ((g(i := y)) j)) = opened y \<union> (\<Union>j \<in> - {i}. opened (g j))" for y by (rule opened_update)
  have "fst (ledger w) = R \<union> opened (g i)" using books_okD(2) [OF b] u [of "g i"] by (auto simp: R_def)
  moreover have d: "opened (g i) \<inter> R = {}" using books_okD(4,5) [OF b] by (fastforce simp: R_def)
  ultimately have rest: "fst (ledger w) - opened (g i) = R" by auto
  then have x: "opened x \<inter> R = {}" using r d by (auto simp: retakes_def)
  show ?thesis
  proof (rule books_okI)
    show "fst (ledger w') = L \<union> (\<Union>j. opened ((g(i := x)) j))" using r rest u [of x] by (auto simp: retakes_def R_def)
    show "j \<noteq> k \<Longrightarrow> opened ((g(i := x)) j) \<inter> opened ((g(i := x)) k) = {}" for j k
      using x books_okD(4) [OF b, of j k] by (auto simp: R_def)
    show "opened ((g(i := x)) j) \<inter> L = {}" for j using x books_okD(5) [OF b, of j] by (auto simp: R_def)
  qed (use r books_okD(1,3) [OF b] in \<open>auto simp: retakes_def\<close>)
qed

lemma opened_simps [simp]:
  "opened xx_new = {}" "opened (x\<lparr>xx_fd := v\<rparr>) = (if v = invalid_socket then {} else {v})" "opened (xx_from v) = (if v = invalid_socket then {} else {v})"
  by (simp_all add: opened_def is_open_def xx_new_def xx_from_def)

lemma opened_iff: "v \<in> opened x \<longleftrightarrow> v = xx_fd x \<and> v \<noteq> invalid_socket"
  by (auto simp: opened_def is_open_def)

lemma books_two:
  assumes b: "books_ok (g, L, w)" and d: "i \<noteq> j" "opened x \<union> opened y = opened (g i) \<union> opened (g j)" "opened x \<inter> opened y = {}"
  shows "books_ok (g(i := x, j := y), L, w)"
proof -
  have u: "(\<Union>k. opened ((g(i := p, j := q)) k)) = opened p \<union> opened q \<union> (\<Union>k \<in> - {i, j}. opened (g k))" for p q
    using d(1) by (auto split: if_splits)
  have "(\<Union>k. opened (g k)) = opened (g i) \<union> opened (g j) \<union> (\<Union>k \<in> - {i, j}. opened (g k))" using u [of "g i" "g j"] by simp
  moreover have r: "k \<notin> {i, j} \<Longrightarrow> opened (g k) \<inter> (opened x \<union> opened y) = {}" for k
    using books_okD(4) [OF b, of k i] books_okD(4) [OF b, of k j] d(2) by auto
  moreover have "(opened x \<union> opened y) \<inter> L = {}" using books_okD(5) [OF b, of i] books_okD(5) [OF b, of j] d(2) by auto
  ultimately show ?thesis
  proof (intro books_okI)
    show "fst (ledger w) = L \<union> (\<Union>k. opened ((g(i := x, j := y)) k))"
      using books_okD(2) [OF b] u [of x y] u [of "g i" "g j"] d(2) by auto
    show "k \<noteq> m \<Longrightarrow> opened ((g(i := x, j := y)) k) \<inter> opened ((g(i := x, j := y)) m) = {}" for k m
      using d(1,3) r [of k] r [of m] books_okD(4) [OF b, of k m] by (auto split: if_splits)
    show "opened ((g(i := x, j := y)) k) \<inter> L = {}" for k
      using \<open>(opened x \<union> opened y) \<inter> L = {}\<close> books_okD(5) [OF b, of k] by auto
  qed (use books_okD(1,3) [OF b] in auto)
qed

lemma books_admits: "books_ok (g, L, w) \<Longrightarrow> admits h w w' \<Longrightarrow> books_ok (g, L \<union> ({h} - {invalid_socket}), w')"
  by (auto simp: books_ok_def admits_def split: if_splits)

lemma books_accept:
  assumes b: "books_ok (g, L, w)" and "admits h w w'" "\<not> is_open (g j)"
  shows "books_ok (g(j := xx_from h), L, w')"
  using books_retakes [OF b, of j "xx_from h" w'] assms(2,3) by (auto simp: retakes_def admits_def opened_def is_open_def xx_from_def)

lemma sock_step_books:
  assumes f: "fresh_descriptors os"
  shows "sock_step os env st st' \<Longrightarrow> books_ok st \<Longrightarrow> books_ok st'"
proof (induction rule: sock_step.induct)
  case (Call c g L w) then show ?case by (simp add: books_ok_def)
next
  case (Open af ty pr g i w ok x w' L)
  show ?case by (rule books_retakes [OF Open(2) xx_open_retakes(1) [OF f books_okD(6) [OF Open(2)] Open(1)]])
next
  case (Popen af ty pr g i w ok x w' L)
  show ?case by (rule books_retakes [OF Popen(2) popen_retakes [OF f books_okD(6) [OF Popen(2)] Popen(1)]])
next
  case (Reopen af ty pr g i w ok x w' L)
  show ?case by (rule books_retakes [OF Reopen(2) reopen_retakes [OF f books_okD(6) [OF Reopen(2)] Reopen(1)]])
next
  case (Close how g i w x w' L)
  have "retakes (g i) w x w'" using xx_close_retakes(1) [OF books_okD(6) [OF Close(2)], of i os how] Close(1) by simp
  then show ?case by (rule books_retakes [OF Close(2)])
next
  case (Destroy g L w i)
  have r: "retakes (g i) w (fst (xx_close os SD_BOTH (g i) w)) (xx_destroy os (g i) w)" "\<not> is_open (fst (xx_close os SD_BOTH (g i) w))"
    using xx_close_retakes [OF books_okD(6) [OF Destroy]] by (simp_all add: xx_destroy_def)
  have "opened (fst (xx_close os SD_BOTH (g i) w)) = {}" using r(2) by (simp add: opened_def)
  with r(1) have "retakes (g i) w xx_new (xx_destroy os (g i) w)" by (simp add: retakes_def)
  then show ?case by (rule books_retakes [OF Destroy])
next
  case (Pconnect ep p g i w n x w' L)
  show ?case by (rule books_retakes [OF Pconnect(2) connecting_retakes(1) [OF f books_okD(6) [OF Pconnect(2)] Pconnect(1)]])
next
  case (Pconnect_n ep p g i w n x w' L)
  show ?case by (rule books_retakes [OF Pconnect_n(2) connecting_retakes(2) [OF f books_okD(6) [OF Pconnect_n(2)] Pconnect_n(1)]])
next
  case (Pconnect_n_for ep wt p g i w x w' L)
  show ?case by (rule books_retakes [OF Pconnect_n_for(2) pconnect_n_for_retakes [OF f books_okD(6) [OF Pconnect_n_for(2)] Pconnect_n_for(1)]])
next
  case (Pserve ep g i w n x w' L)
  show ?case by (rule books_retakes [OF Pserve(2) connecting_retakes(3) [OF f books_okD(6) [OF Pserve(2)] Pserve(1)]])
next
  case (Swap i j g x y L w)
  have "opened x = opened (g j)" "opened y = opened (g i)" using Swap(2) by (auto simp: swap_def opened_def is_open_def)
  then show ?case using books_okD(4) [OF Swap(3,1)] by (intro books_two [OF Swap(3,1)]) auto
next
  case (Move i j g x y L w)
  have "opened x = opened (g i)" "opened y = {}" "opened (g j) = {}"
    using Move(2,3) by (auto simp: xx_move_def swap_def opened_def is_open_def xx_new_def)
  then show ?case by (intro books_two [OF Move(4) Move(1) [symmetric]]) auto
next
  case (Assign_handle h L g w i)
  show ?case
  proof (cases "is_open (g i)")
    case True
    then show ?thesis using Assign_handle by (simp add: assign_handle_def)
  next
    case False
    have h: "h \<noteq> invalid_socket" "\<And>k. h \<notin> opened (g k)" using books_okD(3,5) [OF Assign_handle(2)] Assign_handle(1) by auto
    have u: "(\<Union>k. opened ((g(i := (g i)\<lparr>xx_fd := h\<rparr>)) k)) = insert h (\<Union>k. opened (g k))"
      using False h(1) opened_update [of g i "(g i)\<lparr>xx_fd := h\<rparr>"] opened_update [of g i "g i"] by (simp add: opened_def is_open_def)
    have "books_ok (g(i := (g i)\<lparr>xx_fd := h\<rparr>), L - {h}, w)"
    proof (rule books_okI)
      show "fst (ledger w) = L - {h} \<union> (\<Union>k. opened ((g(i := (g i)\<lparr>xx_fd := h\<rparr>)) k))"
        unfolding u using books_okD(2) [OF Assign_handle(2)] Assign_handle(1) by auto
      show "k \<noteq> m \<Longrightarrow> opened ((g(i := (g i)\<lparr>xx_fd := h\<rparr>)) k) \<inter> opened ((g(i := (g i)\<lparr>xx_fd := h\<rparr>)) m) = {}" for k m
        using h books_okD(4) [OF Assign_handle(2), of k m] by auto
      show "opened ((g(i := (g i)\<lparr>xx_fd := h\<rparr>)) k) \<inter> (L - {h}) = {}" for k using books_okD(5) [OF Assign_handle(2), of k] by auto
    qed (use books_okD(1,3) [OF Assign_handle(2)] in auto)
    then show ?thesis using False by (simp add: assign_handle_def)
  qed
next
  case (Release g i h x L w)
  have u: "(\<Union>k. opened ((g(i := x)) k)) \<union> ({h} - {invalid_socket}) = (\<Union>k. opened (g k))"
    "\<And>k. opened ((g(i := x)) k) \<subseteq> opened (g k)" "opened x = {}" "{h} - {invalid_socket} = opened (g i)"
    using Release(1) by (auto simp: release_handle_def opened_iff split: if_splits)
  show ?case
  proof (rule books_okI)
    show "fst (ledger w) = (L \<union> ({h} - {invalid_socket})) \<union> (\<Union>k. opened ((g(i := x)) k))" using books_okD(2) [OF Release(2)] u(1) by blast
    show "k \<noteq> m \<Longrightarrow> opened ((g(i := x)) k) \<inter> opened ((g(i := x)) m) = {}" for k m using books_okD(4) [OF Release(2), of k m] u(2) by blast
    show "opened ((g(i := x)) k) \<inter> (L \<union> ({h} - {invalid_socket})) = {}" for k
      using books_okD(4) [OF Release(2), of k i] books_okD(5) [OF Release(2), of k] u(2) [of k] u(3,4) by (cases "k = i") auto
  qed (use books_okD(1,3) [OF Release(2)] in auto)
next
  case (Accept i j g w x w' L)
  then show ?case using books_accept [OF Accept(4) admits_accept [OF f]] by (auto simp: xx_accept_def case_prod_unfold Let_def)
next
  case (Accept_n g i w e h w' L)
  then show ?case using books_admits accepting_admits(1) [OF f] by blast
next
  case (Paccept g i w e h w' L)
  then show ?case using books_admits accepting_admits(2) [OF f] by blast
qed

lemma opened_disjoint_iff: "(\<forall>i j. i \<noteq> j \<longrightarrow> opened (g i) \<inter> opened (g j) = {}) \<longleftrightarrow> (\<forall>i j. is_open (g i) \<and> xx_fd (g i) = xx_fd (g j) \<longrightarrow> i = j)"
  by (auto simp: opened_def is_open_def) metis

lemma reachable_books:
  assumes "(sock_step os env)\<^sup>*\<^sup>* st st'" "books_ok st" "fresh_descriptors os"
  shows "books_ok st'"
  using assms by (induction rule: rtranclp_induct) (auto intro: sock_step_books)

text \<open>
  C18: Whatever a program does with its objects, a connect with a timeout that fails apart, every
  descriptor that is open belongs to exactly one object or to the program itself, none is lost, and
  no descriptor is closed that is not open.
\<close>

theorem descriptors_have_one_owner:
  assumes "(sock_step os env)\<^sup>*\<^sup>* (\<lambda>_. xx_new, {}, w0) (g, L, w)" "w_calls w0 = []" "fresh_descriptors os"
  shows "snd (ledger w) \<and> fst (ledger w) = L \<union> {xx_fd (g i) | i. is_open (g i)} \<and> {xx_fd (g i) | i. is_open (g i)} \<inter> L = {} \<and>
    (\<forall>i j. is_open (g i) \<and> xx_fd (g i) = xx_fd (g j) \<longrightarrow> i = j)"
proof -
  have "books_ok (\<lambda>_. xx_new, {}, w0)" using assms(2) by (simp add: books_ok_def ledger_def)
  then have b: "books_ok (g, L, w)" using reachable_books [OF assms(1) _ assms(3)] by blast
  have "(\<Union>i. opened (g i)) = {xx_fd (g i) | i. is_open (g i)}" by (auto simp: opened_def split: if_splits)
  moreover have "(\<Union>i. opened (g i)) \<inter> L = {}" using books_okD(5) [OF b] by blast
  moreover have "\<forall>i j. is_open (g i) \<and> xx_fd (g i) = xx_fd (g j) \<longrightarrow> i = j" using opened_disjoint_iff [of g] books_okD(4) [OF b] by blast
  ultimately show ?thesis using books_okD(1,2) [OF b] by simp
qed

text \<open>A system whose sockets are new, whose connects stay pending and whose waits time out.\<close>

definition next_descriptor :: "calls \<Rightarrow> int" where
  "next_descriptor l = Max (insert 2 (fst (fold ledger_step l ({}, True)))) + 1"

definition pending_os :: os where
  "pending_os l c =
     (case c of
        Sys_socket _ _ _ \<Rightarrow> demo_answer\<lparr>an_ret := next_descriptor l\<rparr>
      | Sys_accept _ \<Rightarrow> demo_answer\<lparr>an_ret := next_descriptor l\<rparr>
      | Sys_connect _ _ \<Rightarrow> demo_answer\<lparr>an_ret := -1, an_errno := EINPROGRESS\<rparr>
      | Sys_select _ _ _ \<Rightarrow> demo_answer\<lparr>an_time := 1\<rparr>
      | _ \<Rightarrow> demo_answer)"

lemma ledger_finite: "finite S \<Longrightarrow> finite (fst (fold ledger_step l (S, ok)))"
proof (induction l arbitrary: S ok)
  case (Cons x l)
  have "finite (fst (ledger_step x (S, ok)))" using Cons.prems by (auto simp: ledger_step_def Let_def split: syscall.splits)
  then show ?case using Cons.IH [of "fst (ledger_step x (S, ok))" "snd (ledger_step x (S, ok))"] by simp
qed simp

lemma next_descriptor_new: "next_descriptor l \<notin> fst (fold ledger_step l ({}, True))" "2 < next_descriptor l"
proof -
  have f: "finite (insert 2 (fst (fold ledger_step l ({}, True))))" using ledger_finite by blast
  show "next_descriptor l \<notin> fst (fold ledger_step l ({}, True))" using Max_ge [OF f, of "next_descriptor l"] by (auto simp: next_descriptor_def)
  show "2 < next_descriptor l" using Max_ge [OF f, of 2] by (simp add: next_descriptor_def)
qed

lemma pending_os_ok: "time_passes pending_os" "fresh_descriptors pending_os"
  unfolding time_passes_def fresh_descriptors_def using next_descriptor_new
  by (auto simp: pending_os_def demo_answer_def split: syscall.split)

lemma descriptors_have_one_owner_witness:
  "\<exists>x w y v. xx_open pending_os 2 1 0 xx_new demo_world = (True, x, w) \<and> xx_accept pending_os x w = (y, v) \<and>
    fst (ledger v) = {xx_fd x, xx_fd y} \<and> snd (ledger v)"
proof -
  define g :: "nat \<Rightarrow> xxsocket" where "g = (\<lambda>_. xx_new)"
  obtain ok x w where o: "xx_open pending_os 2 1 0 (g 0) demo_world = (ok, x, w)" by (metis prod_cases3)
  have "next_descriptor [] \<noteq> -1" using next_descriptor_new(2) [of "[]"] by simp
  then have ok: "ok" "is_open x" using o by (auto simp: xx_open_def sys_def Let_def g_def xx_new_def is_open_def invalid_socket_def pending_os_def demo_answer_def demo_world_def)
  obtain y v where a: "xx_accept pending_os ((g(0 := x)) 0) w = (y, v)" by fastforce
  have y: "is_open y" using a next_descriptor_new(2) [of "w_calls w"]
    by (auto simp: xx_accept_def sys_def Let_def xx_from_def is_open_def invalid_socket_def pending_os_def demo_answer_def)
  have "sock_step pending_os undefined (g, {}, demo_world) (g(0 := x), {}, w)" by (rule Open [where g = g and i = 0, OF o])
  moreover have "sock_step pending_os undefined (g(0 := x), {}, w) (g(0 := x, 1 := y), {}, v)"
    by (rule Accept [where g = "g(0 := x)" and i = 0 and j = 1, OF _ _ a]) (auto simp: g_def is_open_def xx_new_def)
  ultimately have "(sock_step pending_os undefined)\<^sup>*\<^sup>* (\<lambda>_. xx_new, {}, demo_world) (g(0 := x, 1 := y), {}, v)"
    unfolding g_def by (meson converse_rtranclp_into_rtranclp r_into_rtranclp)
  moreover define h where "h = g(0 := x, 1 := y)"
  ultimately have r: "(sock_step pending_os undefined)\<^sup>*\<^sup>* (\<lambda>_. xx_new, {}, demo_world) (h, {}, v)" by simp
  have "w_calls demo_world = []" by (simp add: demo_world_def)
  note s = descriptors_have_one_owner [OF r this pending_os_ok(2)]
  have "is_open (h i) \<longleftrightarrow> i = 0 \<or> i = 1" for i using ok y by (auto simp: h_def g_def is_open_def xx_new_def)
  then have "{xx_fd (h i) | i. is_open (h i)} = {xx_fd (h 0), xx_fd (h 1)}" by auto
  moreover have "h 0 = x" "h 1 = y" by (simp_all add: h_def)
  ultimately have "fst (ledger v) = {xx_fd x, xx_fd y}" "snd (ledger v)" using s by simp_all
  then show ?thesis using o a ok by (auto simp: g_def)
qed

text \<open>
  A connect with a timeout that times out closes the descriptor, but the object still takes it for
  its own: closing or destroying the object closes it again, or the one that has got its number.
\<close>

theorem timed_connect_closes_twice:
  assumes "fresh_descriptors os" "time_passes os" "opened x \<subseteq> fst (ledger w)" "\<And>l af ty pr. an_ret (os l (Sys_socket af ty pr)) \<noteq> invalid_socket"
    and "\<And>l s e. an_ret (os l (Sys_connect s e)) = -1 \<and> an_errno (os l (Sys_connect s e)) = EINPROGRESS"
    and "\<And>l s sets tv. an_ret (os l (Sys_select s sets tv)) = 0"
  shows "\<exists>x' w'. pconnect_n_for os env ep wt p x w = Some (-1, x', w') \<and> is_open x' \<and> xx_fd x' \<notin> fst (ledger w') \<and>
    \<not> snd (ledger (xx_destroy os x' w'))"
proof -
  obtain ok y v where o: "reopen os (ep_af ep) SOCK_STREAM 0 x w = (ok, y, v)" by (metis prod_cases3)
  obtain z u where c: "xx_close os SD_BOTH x w = (z, u)" by fastforce
  have "\<not> is_open z" using xx_close_retakes(2) [OF assms(3), of os SD_BOTH] c by simp
  then have y: "ok" "is_open y" using o c assms(4) by (auto simp: reopen_def xx_open_def is_open_def case_prod_unfold Let_def)
  let ?w = "bind_local os env ep p y v"
  let ?w1 = "snd (set_nonblocking os (xx_fd y) True ?w)"
  let ?w2 = "snd (sys os (Sys_connect (xx_fd y) ep) ?w1)"
  obtain n r w3 l where s: "select os (xx_fd y) (True, True, False) wt ?w2 = Some (n, r, w3)" "w_calls w3 = w_calls ?w2 @ l" "waits (xx_fd y) l" "l \<noteq> []"
    "n = 0 \<longrightarrow> w_errno w3 = ETIMEDOUT" "n \<noteq> 0 \<longrightarrow> n = an_ret (snd (last l))"
    using select_returns [OF assms(2), of "xx_fd y" "(True, True, False)" wt ?w2] by blast
  have "select os (xx_fd y) (True, True, False) wt ?w2 = Some (0, an_ready (os (w_calls ?w2) (Sys_select (xx_fd y) (True, True, False) (wt sdiv 1000000, wt smod 1000000))),
      set_last_errno ETIMEDOUT (snd (sys os (Sys_select (xx_fd y) (True, True, False) (wt sdiv 1000000, wt smod 1000000)) ?w2)))"
    using assms(6) by (subst select.simps) (simp add: case_prod_unfold Let_def)
  with s(1) have "n = 0" by simp
  let ?w4 = "snd (sys os (Sys_close (xx_fd y)) w3)"
  have "connect_n_for os (xx_fd y) ep wt ?w = Some (-1, ?w4)"
    using assms(5) s(1,5) \<open>n = 0\<close> by (simp add: connect_n_for_def connect_def connect_done_def case_prod_unfold Let_def errno_defs)
  then have "pconnect_n_for os env ep wt p x w = Some (-1, y, ?w4)" using o y by (simp add: pconnect_n_for_def)
  moreover have "xx_fd y \<notin> fst (ledger ?w4)" by simp
  moreover have "\<not> snd (ledger (xx_destroy os y ?w4))" using y(2) by (simp add: xx_destroy_def xx_close_def case_prod_unfold Let_def SD_BOTH_def)
  ultimately show ?thesis using y(2) by blast
qed

lemma timed_connect_closes_twice_witness:
  "\<exists>x' w'. pconnect_n_for pending_os (compat_env (\<lambda>_. 0)) new_endpoint 5000 0 xx_new demo_world = Some (-1, x', w') \<and> is_open x' \<and>
    xx_fd x' \<notin> fst (ledger w') \<and> \<not> snd (ledger (xx_destroy pending_os x' w'))"
proof (rule timed_connect_closes_twice [OF pending_os_ok(2,1)])
  show "an_ret (pending_os l (Sys_socket af ty pr)) \<noteq> invalid_socket" for l af ty pr
    using next_descriptor_new(2) [of l] by (simp add: pending_os_def invalid_socket_def demo_answer_def)
qed (simp_all add: pending_os_def demo_answer_def errno_defs)

section \<open>Interrupted calls\<close>

definition interrupts_end :: "os \<Rightarrow> bool" where
  "interrupts_end os \<longleftrightarrow> (\<exists>K. \<forall>l c. K \<le> length l \<longrightarrow> an_errno (os l c) \<noteq> EINTR)"

lemma disconnect_returns:
  assumes K: "\<forall>l c. K \<le> length l \<longrightarrow> an_errno (os l c) \<noteq> EINTR" and n: "\<forall>l. an_ret (os l (Sys_dissolve s)) \<le> 0"
  shows "\<exists>n w'. disconnect os s w = Some (n, w') \<and> n \<le> 0 \<and> (n < 0 \<longrightarrow> w_errno w' \<noteq> EINTR)"
proof (induction "K - length (w_calls w)" arbitrary: w rule: less_induct)
  case less
  let ?a = "os (w_calls w) (Sys_dissolve s)" and ?w = "snd (sys os (Sys_dissolve s) w)"
  have le: "an_ret ?a \<le> 0" using n by blast
  show ?case
  proof (cases "an_ret ?a < 0 \<and> an_errno ?a = EINTR")
    case True
    then have "\<not> K \<le> length (w_calls w)" using K by blast
    then have "K - length (w_calls ?w) < K - length (w_calls w)" by simp
    from less [OF this] show ?thesis using True by (subst disconnect.simps) (simp add: case_prod_unfold Let_def)
  next
    case False
    then show ?thesis using le by (subst disconnect.simps) (auto simp: case_prod_unfold Let_def)
  qed
qed

lemma accept_n_returns:
  assumes K: "\<forall>l c. K \<le> length l \<longrightarrow> an_errno (os l c) \<noteq> EINTR"
  shows "\<exists>e h w'. accept_n os x w = Some (e, h, w') \<and> (if h = invalid_socket then e = w_errno w' \<and> e \<noteq> EINTR else e = 0)"
proof (induction "K - length (w_calls w)" arbitrary: w rule: less_induct)
  case less
  let ?c = "Sys_accept (xx_fd x)"
  let ?a = "os (w_calls w) ?c" and ?w = "snd (sys os ?c w)"
  show ?case
  proof (cases "an_ret ?a = invalid_socket \<and> an_errno ?a = EINTR")
    case True
    then have "\<not> K \<le> length (w_calls w)" using K by blast
    then have "K - length (w_calls ?w) < K - length (w_calls w)" by simp
    from less [OF this] show ?thesis using True by (subst accept_n.simps) (simp add: case_prod_unfold Let_def invalid_socket_def)
  next
    case False
    then show ?thesis by (subst accept_n.simps) (auto simp: case_prod_unfold Let_def invalid_socket_def)
  qed
qed

lemma paccept_eq: "paccept os x w = accept_n os x w"
proof -
  have "accept_n os x w = Some y \<Longrightarrow> paccept os x w = Some y" for y
  proof (induction rule: accept_n.raw_induct [where xa = "((os, x), w)" for os x w, unfolded prod.case, rotated, consumes 1, case_names accept])
    case (accept acc os x w y)
    show ?case using accept(2) accept(1) [of os x "snd (sys os (Sys_accept (xx_fd x)) w)" y]
      by (subst paccept.simps) (auto simp: case_prod_unfold Let_def poptions_def split: if_splits)
  qed
  moreover have "paccept os x w = Some y \<Longrightarrow> accept_n os x w = Some y" for y
  proof (induction rule: paccept.raw_induct [where xa = "((os, x), w)" for os x w, unfolded prod.case, rotated, consumes 1, case_names accept])
    case (accept acc os x w y)
    show ?case using accept(2) accept(1) [of os x "snd (sys os (Sys_accept (xx_fd x)) w)" y]
      by (subst accept_n.simps) (auto simp: case_prod_unfold Let_def poptions_def split: if_splits)
  qed
  ultimately show ?thesis by (metis not_Some_eq)
qed

text \<open>
  The calls that are repeated when a signal interrupts them return once the signals end: a new
  descriptor, which no longer blocks, and no error, or no descriptor and an error that is not the
  interruption.  \<open>paccept\<close> and \<open>accept_n\<close> are the same function.
\<close>

theorem interrupted_calls_return:
  assumes "interrupts_end os" "\<forall>l. an_ret (os l (Sys_dissolve s)) \<le> 0"
  shows "(\<exists>e h w'. accept_n os x w = Some (e, h, w') \<and> paccept os x w = Some (e, h, w') \<and>
      (if h = invalid_socket then e = w_errno w' \<and> e \<noteq> EINTR else e = 0)) \<and>
    (\<exists>n w'. disconnect os s w = Some (n, w') \<and> n \<le> 0 \<and> (n < 0 \<longrightarrow> w_errno w' \<noteq> EINTR))"
proof -
  obtain K where "\<forall>l c. K \<le> length l \<longrightarrow> an_errno (os l c) \<noteq> EINTR" using assms(1) by (auto simp: interrupts_end_def)
  from accept_n_returns [OF this, of x w] disconnect_returns [OF this assms(2), of w] show ?thesis by (simp add: paccept_eq)
qed

text \<open>A system whose first three calls are interrupted.\<close>

definition signal_os :: os where
  "signal_os l c = (if length l < 3 then demo_answer\<lparr>an_ret := -1, an_errno := EINTR\<rparr> else demo_answer)"

lemma interrupted_calls_return_witness:
  "(\<exists>e h w'. accept_n signal_os xx_new demo_world = Some (e, h, w')) \<and> (\<exists>n w'. disconnect signal_os 5 demo_world = Some (n, w'))"
proof -
  have "interrupts_end signal_os" unfolding interrupts_end_def signal_os_def by (auto intro!: exI [of _ 3] simp: demo_answer_def EINTR_def)
  moreover have "\<forall>l. an_ret (signal_os l (Sys_dissolve 5)) \<le> 0" by (simp add: signal_os_def demo_answer_def)
  ultimately show ?thesis using interrupted_calls_return [of signal_os 5 xx_new demo_world] by auto
qed

section \<open>Connecting by name\<close>

text \<open>\<open>adds P w w'\<close>: from \<open>w\<close> to \<open>w'\<close> only calls with \<open>P\<close> have been made.\<close>

definition adds :: "(syscall \<Rightarrow> bool) \<Rightarrow> world \<Rightarrow> world \<Rightarrow> bool" where
  "adds P w w' \<longleftrightarrow> (\<exists>l. w_calls w' = w_calls w @ l \<and> (\<forall>x \<in> set l. P (fst x)))"

lemma adds_refl: "adds P w w"
  by (simp add: adds_def)

lemma adds_trans: "adds P w w' \<Longrightarrow> adds P w' w'' \<Longrightarrow> adds P w w''"
  unfolding adds_def by (metis append_assoc Un_iff set_append)

lemma adds_sys: "adds P w w' \<Longrightarrow> P c \<Longrightarrow> adds P w (snd (sys os c w'))"
  by (auto simp: adds_def)

definition family_in :: "int set \<Rightarrow> syscall \<Rightarrow> bool" where
  "family_in F c \<longleftrightarrow> (case c of Sys_connect _ ep \<Rightarrow> ep_af ep \<in> F | _ \<Rightarrow> True)"

lemma family_in_simps [simp]:
  "family_in F (Sys_connect s ep) \<longleftrightarrow> ep_af ep \<in> F" "family_in F (Sys_getfl s)" "family_in F (Sys_setfl s f)" "family_in F (Sys_socket a t p)"
  "family_in F (Sys_shutdown s h)" "family_in F (Sys_close s)" "family_in F (Sys_bind s ep)" "family_in F (Sys_getaddrinfo n sv f a st)"
  "family_in F Sys_getifaddrs"
  by (simp_all add: family_in_def)

text \<open>An error of zero means that the last call has connected the object.\<close>

definition connected :: "int \<times> xxsocket \<Rightarrow> world \<Rightarrow> bool" where
  "connected st w \<longleftrightarrow> (fst st = 0 \<longrightarrow> w_calls w \<noteq> [] \<and> an_ret (snd (last (w_calls w))) = 0 \<and> is_open (snd st) \<and>
     (\<exists>ep. fst (last (w_calls w)) = Sys_connect (xx_fd (snd st)) ep))"

lemma pconnect_adds:
  assumes "pconnect os env ep p x w = (n, x', w')" "ep_af ep \<in> F"
  shows "adds (family_in F) w w' \<and> connected (n, x') w'"
proof -
  obtain z u where c: "xx_close os SD_BOTH x w = (z, u)" by fastforce
  have zu: "z = fst (xx_close os SD_BOTH x w)" "u = snd (xx_close os SD_BOTH x w)" by (simp_all add: c)
  have 1: "adds (family_in F) w u" unfolding zu
    by (auto simp: xx_close_def set_nonblocking_def case_prod_unfold Let_def intro!: adds_sys adds_refl)
  obtain ok y v where o: "xx_open os (ep_af ep) SOCK_STREAM 0 z u = (ok, y, v)" by (metis prod_cases3)
  then have 2: "adds (family_in F) w v" "ok = is_open y" using 1 by (auto simp: xx_open_def case_prod_unfold Let_def intro!: adds_sys split: if_splits)
  have r: "reopen os (ep_af ep) SOCK_STREAM 0 x w = (ok, y, v)" by (simp add: reopen_def c o)
  have 3: "adds (family_in F) w (bind_local os env ep p y v)"
    using 2(1) by (auto simp: bind_local_def bind_addr_def xx_bind_def case_prod_unfold Let_def intro!: adds_sys)
  have "ok \<Longrightarrow> n = an_ret (os (w_calls (bind_local os env ep p y v)) (Sys_connect (xx_fd y) ep)) \<and> x' = y \<and>
      w' = snd (sys os (Sys_connect (xx_fd y) ep) (bind_local os env ep p y v))" "\<not> ok \<Longrightarrow> n = -1 \<and> x' = y \<and> w' = v"
    using assms(1) by (auto simp: pconnect_def r connect_def case_prod_unfold Let_def)
  then show ?thesis using 2 3 assms(2) adds_sys [OF 3, of "Sys_connect (xx_fd y) ep" os] by (cases ok) (auto simp: connected_def)
qed

text \<open>What a callback of \<open>resolve_i\<close> must do: stop exactly when it has connected.\<close>

definition connects_or_goes_on :: "(syscall \<Rightarrow> bool) \<Rightarrow> (addrinfo \<Rightarrow> int \<times> xxsocket \<Rightarrow> world \<Rightarrow> (bool \<times> (int \<times> xxsocket) \<times> world) option) \<Rightarrow> addrinfo \<Rightarrow> bool" where
  "connects_or_goes_on P callback ai \<longleftrightarrow> (\<forall>st w. fst st \<noteq> 0 \<longrightarrow>
     (\<exists>stop st' w'. callback ai st w = Some (stop, st', w') \<and> adds P w w' \<and> (stop \<longleftrightarrow> fst st' = 0) \<and> connected st' w'))"

lemma resolve_loop_connects:
  assumes "\<And>ai. ai \<in> set ais \<Longrightarrow> ai_family ai = AF_INET6 \<or> ai_family ai = AF_INET \<Longrightarrow> connects_or_goes_on P callback ai" "fst st \<noteq> 0"
  shows "\<exists>st' w'. resolve_loop callback ais st w = Some (st', w') \<and> adds P w w' \<and> connected st' w'"
  using assms
proof (induction ais arbitrary: st w)
  case Nil
  then show ?case by (simp add: connected_def adds_refl)
next
  case (Cons ai ais)
  show ?case
  proof (cases "ai_family ai = AF_INET6 \<or> ai_family ai = AF_INET")
    case True
    then have "connects_or_goes_on P callback ai" using Cons.prems(1) [of ai] by simp
    then obtain stop st1 w1 where c: "callback ai st w = Some (stop, st1, w1)" "adds P w w1" "stop \<longleftrightarrow> fst st1 = 0" "connected st1 w1"
      using Cons.prems(2) unfolding connects_or_goes_on_def by blast
    show ?thesis
    proof (cases stop)
      case False
      have "\<exists>st' w'. resolve_loop callback ais st1 w1 = Some (st', w') \<and> adds P w1 w' \<and> connected st' w'"
        by (rule Cons.IH) (use Cons.prems(1) c(3) False in simp_all)
      then obtain st' w' where "resolve_loop callback ais st1 w1 = Some (st', w')" "adds P w1 w'" "connected st' w'" by blast
      then show ?thesis using True c(1) False adds_trans [OF c(2), of w'] by simp
    qed (use True c in auto)
  qed (use Cons in auto)
qed

lemma resolve_i_connects:
  assumes "\<And>l ai. ai \<in> set (an_addrs (os l (Sys_getaddrinfo hostname (if 0 < port then Some (format_u (unat port)) else None) flags af socktype))) \<Longrightarrow>
      ai_family ai = AF_INET6 \<or> ai_family ai = AF_INET \<Longrightarrow> connects_or_goes_on P callback ai"
    and "fst st \<noteq> 0" "\<And>n sv f a t. P (Sys_getaddrinfo n sv f a t)"
  shows "\<exists>r st' w'. resolve_i os callback hostname port af flags socktype st w = Some (r, st', w') \<and> adds P w w' \<and> connected st' w'"
proof -
  let ?c = "Sys_getaddrinfo hostname (if 0 < port then Some (format_u (unat port)) else None) flags af socktype"
  let ?w = "snd (sys os ?c w)"
  have a: "adds P w ?w" by (intro adds_sys adds_refl assms(3))
  have "connects_or_goes_on P callback ai"
    if "ai \<in> set (an_addrs (os (w_calls w) ?c))" "ai_family ai = AF_INET6 \<or> ai_family ai = AF_INET" for ai using that by (rule assms(1))
  from resolve_loop_connects [of "an_addrs (os (w_calls w) ?c)" P callback st ?w, OF this assms(2)]
  obtain st' w' where r: "resolve_loop callback (an_addrs (os (w_calls w) ?c)) st ?w = Some (st', w')" "adds P ?w w'" "connected st' w'" by blast
  show ?thesis
  proof (cases "an_addrs (os (w_calls w) ?c) = []")
    case True
    then have "resolve_i os callback hostname port af flags socktype st w = Some (an_ret (os (w_calls w) ?c), st, ?w)"
      by (simp add: resolve_i_def case_prod_unfold Let_def)
    then show ?thesis using a assms(2) by (simp add: connected_def)
  next
    case False
    then have "resolve_i os callback hostname port af flags socktype st w = Some (an_ret (os (w_calls w) ?c), st', w')"
      using r(1) by (simp add: resolve_i_def case_prod_unfold Let_def)
    then show ?thesis using adds_trans [OF a r(2)] r(3) by blast
  qed
qed

lemma ep_af_addrinfo:
  assumes "2 \<le> length (ai_addr ai)" "length (ai_addr ai) \<le> 28"
  shows "ep_af (as_is_addrinfo ai) = ep_af (ai_addr ai)"
  using assms by (simp add: ep_af_def as_is_addrinfo_def as_is_raw_def ep_set_len_def ep_get_def ep_put_def splice_def min_def)

definition resolver_honest :: "os \<Rightarrow> bool" where
  "resolver_honest os \<longleftrightarrow> (\<forall>l n sv f af st. \<forall>ai \<in> set (an_addrs (os l (Sys_getaddrinfo n sv f af st))).
     ep_af (ai_addr ai) = ai_family ai \<and> 2 \<le> length (ai_addr ai) \<and> length (ai_addr ai) \<le> 28 \<and> (af \<noteq> 0 \<longrightarrow> ai_family ai = af))"

definition sockaddr_ok :: "byte list \<Rightarrow> bool" where
  "sockaddr_ok sa \<longleftrightarrow> (ep_af sa = AF_INET \<longrightarrow> 16 \<le> length sa) \<and> (ep_af sa = AF_INET6 \<longrightarrow> 28 \<le> length sa)"

text \<open>An address of an interface that counts: of one of the two families, neither loopback nor link-local.\<close>

definition counts :: "byte list \<Rightarrow> bool" where
  "counts sa \<longleftrightarrow> ep_af sa = AF_INET \<and> is_global_in4_addr (le_word (ep_get 4 4 sa)) \<or> ep_af sa = AF_INET6 \<and> is_global_in6_addr (ep_get 8 16 sa)"

lemma AF_UNSPEC_less: "AF_UNSPEC \<noteq> AF_INET" "AF_UNSPEC \<noteq> AF_INET6" "AF_INET \<noteq> AF_INET6" "AF_INET \<noteq> AF_UNSPEC" "AF_INET6 \<noteq> AF_UNSPEC" "AF_INET6 \<noteq> AF_INET"
  by (simp_all add: AF_INET_def AF_INET6_def AF_UNSPEC_def)

lemma as_is_sockaddr_counts:
  assumes "length ep = 32" "sockaddr_ok sa"
  shows "length (as_is_sockaddr sa ep) = 32" "ep_af (as_is_sockaddr sa ep) \<noteq> AF_UNSPEC \<and> is_global (as_is_sockaddr sa ep) \<longleftrightarrow> counts sa"
    "counts sa \<Longrightarrow> ep_af (as_is_sockaddr sa ep) = ep_af sa"
proof -
  consider (v4) "ep_af sa = AF_INET" "16 \<le> length sa" | (v6) "ep_af sa = AF_INET6" "28 \<le> length sa" | (no) "ep_af sa \<noteq> AF_INET" "ep_af sa \<noteq> AF_INET6"
    using assms(2) by (auto simp: sockaddr_ok_def)
  then have "length (as_is_sockaddr sa ep) = 32 \<and> (ep_af (as_is_sockaddr sa ep) \<noteq> AF_UNSPEC \<and> is_global (as_is_sockaddr sa ep) \<longleftrightarrow> counts sa) \<and>
    (counts sa \<longrightarrow> ep_af (as_is_sockaddr sa ep) = ep_af sa)"
  proof cases
    case v4
    define e where "e = as_is_sockaddr sa ep"
    have e: "e = ep_put 28 [16] (splice 0 (take 16 sa) ep)" using v4 by (simp add: e_def as_is_sockaddr_def ep_set_len_def Let_def)
    have "ep_get 0 2 e = ep_get 0 2 sa" "ep_get 4 4 e = ep_get 4 4 sa" "length e = 32"
      using v4 assms(1) by (simp_all add: e ep_get_def ep_put_def splice_def take_drop)
    then show ?thesis using v4 AF_UNSPEC_less unfolding e_def [symmetric] by (simp add: is_global_def counts_def ep_af_def ep_s_addr_def)
  next
    case v6
    define e where "e = as_is_sockaddr sa ep"
    have e: "e = ep_put 28 [28] (splice 0 (take 28 sa) ep)" using v6 AF_UNSPEC_less by (simp add: e_def as_is_sockaddr_def ep_set_len_def Let_def)
    have "ep_get 0 2 e = ep_get 0 2 sa" "ep_get 8 16 e = ep_get 8 16 sa" "length e = 32"
      using v6 assms(1) by (simp_all add: e ep_get_def ep_put_def splice_def take_drop)
    then show ?thesis using v6 AF_UNSPEC_less unfolding e_def [symmetric] by (simp add: is_global_def counts_def ep_af_def)
  next
    case no
    then have e: "as_is_sockaddr sa ep = as_unspec ep" by (simp add: as_is_sockaddr_def Let_def)
    have "length (as_unspec ep) = 32" using assms(1) by (simp add: as_unspec_def ep_set_len_def ep_set_af_def ep_put_def splice_def)
    moreover have "ep_af (as_unspec ep) = AF_UNSPEC" using assms(1) by (simp add: as_unspec_fields ep_valid_def)
    ultimately show ?thesis using no by (simp add: e counts_def)
  qed
  then show "length (as_is_sockaddr sa ep) = 32" "ep_af (as_is_sockaddr sa ep) \<noteq> AF_UNSPEC \<and> is_global (as_is_sockaddr sa ep) \<longleftrightarrow> counts sa"
    "counts sa \<Longrightarrow> ep_af (as_is_sockaddr sa ep) = ep_af sa" by blast+
qed

definition has_family :: "int \<Rightarrow> byte list option list \<Rightarrow> bool" where
  "has_family af ifs \<longleftrightarrow> (\<exists>sa. Some sa \<in> set ifs \<and> ep_af sa = af \<and> counts sa)"

definition families :: "byte list option list \<Rightarrow> int" where
  "families ifs = (if has_family AF_INET ifs then ipsv_ipv4 else 0) OR (if has_family AF_INET6 ifs then ipsv_ipv6 else 0)"

lemma has_family_Cons [simp]:
  "has_family af (None # ifs) \<longleftrightarrow> has_family af ifs" "has_family af (Some sa # ifs) \<longleftrightarrow> ep_af sa = af \<and> counts sa \<or> has_family af ifs"
  "\<not> has_family af []"
  by (auto simp: has_family_def)

lemma traverse_families:
  assumes "length ep = 32" "\<And>sa. Some sa \<in> set ifs \<Longrightarrow> sockaddr_ok sa" "flags \<in> {0, ipsv_ipv4, ipsv_ipv6}"
  shows "traverse_loop note_family ifs ep flags = flags OR families ifs"
  using assms
proof (induction ifs arbitrary: ep flags)
  case Nil
  then show ?case by (simp add: families_def)
next
  case (Cons i ifs)
  show ?case
  proof (cases i)
    case None
    then show ?thesis using Cons by (simp add: families_def)
  next
    case (Some sa)
    note sa = as_is_sockaddr_counts [OF Cons.prems(1) Cons.prems(2) [of sa]]
    show ?thesis
    proof (cases "counts sa")
      case False
      then have "traverse_loop note_family (i # ifs) ep flags = traverse_loop note_family ifs (as_is_sockaddr sa ep) flags"
        using sa(2) Some by (auto simp: Let_def)
      also have "\<dots> = flags OR families ifs" using sa(1) Some Cons.prems by (intro Cons.IH) auto
      finally show ?thesis using False Some by (simp add: families_def)
    next
      case True
      define fl where "fl = snd (note_family (as_is_sockaddr sa ep) flags)"
      have af: "ep_af sa = AF_INET \<or> ep_af sa = AF_INET6" using True by (auto simp: counts_def)
      have nf: "note_family (as_is_sockaddr sa ep) flags = (fl = ipsv_dual_stack, fl)" by (simp add: fl_def note_family_def Let_def)
      have fl: "fl = (if ep_af sa = AF_INET then flags OR ipsv_ipv4 else flags OR ipsv_ipv6)"
        using af AF_UNSPEC_less sa(3) True Some by (auto simp: fl_def note_family_def Let_def)
      have flags: "fl \<in> {ipsv_ipv4, ipsv_ipv6, ipsv_dual_stack}" using Cons.prems(3) unfolding fl by (auto simp: ipsv_ipv4_def ipsv_ipv6_def ipsv_dual_stack_def)
      have fam: "flags OR families (i # ifs) = fl OR families ifs" using af AF_UNSPEC_less True Some
        by (auto simp: fl families_def or.assoc or.commute or.left_commute or.idem or.left_idem)
      show ?thesis
      proof (cases "fl = ipsv_dual_stack")
        case True
        have "ipsv_dual_stack OR families ifs = ipsv_dual_stack" by (auto simp: families_def ipsv_ipv4_def ipsv_ipv6_def ipsv_dual_stack_def)
        then show ?thesis using True Some sa(2) \<open>counts sa\<close> nf fam by (simp add: Let_def)
      next
        case False
        then have "traverse_loop note_family ifs (as_is_sockaddr sa ep) fl = fl OR families ifs"
          using flags Some sa(1) Cons.prems(2) by (intro Cons.IH) auto
        then show ?thesis using False Some sa(2) \<open>counts sa\<close> nf fam by (simp add: Let_def)
      qed
    qed
  qed
qed

lemma getipsv_families:
  assumes "an_ret (os (w_calls w) Sys_getifaddrs) \<noteq> -1" "\<And>sa. Some sa \<in> set (an_ifs (os (w_calls w) Sys_getifaddrs)) \<Longrightarrow> sockaddr_ok sa"
  shows "getipsv os w = (families (an_ifs (os (w_calls w) Sys_getifaddrs)), snd (sys os Sys_getifaddrs w))"
proof -
  have "length new_endpoint = 32" by (simp add: new_endpoint_def as_unspec_def ep_set_len_def ep_set_af_def ep_put_def splice_def)
  from traverse_families [of new_endpoint "an_ifs (os (w_calls w) Sys_getifaddrs)" 0, OF this assms(2)] show ?thesis
    using assms(1) by (simp add: getipsv_def traverse_local_address_def case_prod_unfold Let_def)
qed

lemma try_address_connects:
  assumes "2 \<le> length (ai_addr ai)" "length (ai_addr ai) \<le> 28" "ep_af (ai_addr ai) \<in> F"
  shows "connects_or_goes_on (family_in F) (try_address (\<lambda>ep x w. Some (pconnect os env ep p x w))) ai"
  unfolding connects_or_goes_on_def
proof (intro allI impI)
  fix st :: "int \<times> xxsocket" and w
  obtain n x' w' where c: "pconnect os env (as_is_addrinfo ai) p (snd st) w = (n, x', w')" by (metis prod_cases3)
  then have "try_address (\<lambda>ep x w. Some (pconnect os env ep p x w)) ai st w = Some (n = 0, (n, x'), w')"
    by (simp add: try_address_def case_prod_unfold)
  then show "\<exists>stop st' w'. try_address (\<lambda>ep x w. Some (pconnect os env ep p x w)) ai st w = Some (stop, st', w') \<and>
      adds (family_in F) w w' \<and> stop = (fst st' = 0) \<and> connected st' w'"
    using pconnect_adds [OF c, of F] assms ep_af_addrinfo [OF assms(1,2)] by auto
qed

definition family_flag :: "int \<Rightarrow> int" where
  "family_flag af = (if af = AF_INET then ipsv_ipv4 else if af = AF_INET6 then ipsv_ipv6 else 0)"

lemma try_address_ipsv_connects:
  assumes r: "resolver_honest os" and ai: "2 \<le> length (ai_addr ai)" "length (ai_addr ai) \<le> 28" "ep_af (ai_addr ai) = ai_family ai"
    and F: "\<And>af. flags AND family_flag af \<noteq> 0 \<Longrightarrow> af \<in> F"
  shows "connects_or_goes_on (family_in F) (try_address_ipsv os (\<lambda>ep x w. Some (pconnect os env ep p x w)) flags hostname port) ai"
proof -
  let ?conn = "\<lambda>ep x w. Some (pconnect os env ep p x w)"
  note one = try_address_connects [where os = os and env = env and p = p and F = F]
  consider (v4) "ai_family ai = AF_INET" "flags AND ipsv_ipv4 \<noteq> 0" | (mapped) "ai_family ai = AF_INET" "flags AND ipsv_ipv4 = 0" "flags AND ipsv_ipv6 \<noteq> 0"
    | (v6) "ai_family ai = AF_INET6" "flags AND ipsv_ipv6 \<noteq> 0"
    | (none) "ai_family ai = AF_INET \<longrightarrow> flags AND ipsv_ipv4 = 0 \<and> flags AND ipsv_ipv6 = 0" "ai_family ai = AF_INET6 \<longrightarrow> flags AND ipsv_ipv6 = 0" by blast
  then show ?thesis
  proof cases
    case v4
    then have "try_address_ipsv os ?conn flags hostname port ai = try_address ?conn ai" by (intro ext) (simp add: try_address_ipsv_def)
    then show ?thesis using one [OF ai(1,2)] F [of AF_INET] v4 ai(3) unfolding connects_or_goes_on_def by (simp add: family_flag_def)
  next
    case v6
    then have "try_address_ipsv os ?conn flags hostname port ai = try_address ?conn ai"
      using AF_UNSPEC_less by (intro ext) (simp add: try_address_ipsv_def)
    then show ?thesis using one [OF ai(1,2)] F [of AF_INET6] v6 ai(3) AF_UNSPEC_less unfolding connects_or_goes_on_def by (simp add: family_flag_def)
  next
    case none
    then have "try_address_ipsv os ?conn flags hostname port ai st w = Some (fst st = 0, st, w)" for st w by (auto simp: try_address_ipsv_def)
    then show ?thesis by (auto simp: connects_or_goes_on_def connected_def adds_refl)
  next
    case mapped
    show ?thesis
      unfolding connects_or_goes_on_def
    proof (intro allI impI)
      fix st :: "int \<times> xxsocket" and w assume st: "fst st \<noteq> 0"
      have six: "AF_INET6 \<in> F" using F [of AF_INET6] mapped(3) AF_UNSPEC_less by (simp add: family_flag_def)
      have "\<exists>r st' w'. resolve_i os (try_address ?conn) hostname port AF_INET6 AI_V4MAPPED SOCK_STREAM st w = Some (r, st', w') \<and>
          adds (family_in F) w w' \<and> connected st' w'"
      proof (rule resolve_i_connects [OF _ st])
        fix l b assume "b \<in> set (an_addrs (os l (Sys_getaddrinfo hostname (if 0 < port then Some (format_u (unat port)) else None) AI_V4MAPPED AF_INET6 SOCK_STREAM)))"
        then have "ep_af (ai_addr b) = AF_INET6" "2 \<le> length (ai_addr b)" "length (ai_addr b) \<le> 28"
          using r by (fastforce simp: resolver_honest_def AF_INET6_def)+
        then show "connects_or_goes_on (family_in F) (try_address ?conn) b" using six by (intro one) auto
      qed simp
      then show "\<exists>stop st' w'. try_address_ipsv os ?conn flags hostname port ai st w = Some (stop, st', w') \<and>
          adds (family_in F) w w' \<and> stop = (fst st' = 0) \<and> connected st' w'"
        using mapped by (auto simp: try_address_ipsv_def)
    qed
  qed
qed

text \<open>
  C19: Connecting to a name with detection of the local protocols.  Whatever addresses the resolver
  hands out, and in whatever order, only addresses of a family are tried of which the host has an
  address that is neither loopback nor link-local: on a network with IPv6 only no IPv4 address is
  ever tried.  The call returns, and 0 means that its last call has connected the socket that the
  object then owns.
\<close>

theorem xpconnect_uses_local_families:
  assumes "resolver_honest os" "an_ret (os (w_calls w) Sys_getifaddrs) \<noteq> -1" "\<And>sa. Some sa \<in> set (an_ifs (os (w_calls w) Sys_getifaddrs)) \<Longrightarrow> sockaddr_ok sa"
  shows "\<exists>e x' w'. xpconnect os env hostname port local_port x w = Some (e, x', w') \<and> connected (e, x') w' \<and>
    adds (family_in {af. has_family af (an_ifs (os (w_calls w) Sys_getifaddrs))}) w w'"
proof -
  let ?ifs = "an_ifs (os (w_calls w) Sys_getifaddrs)"
  let ?F = "{af. has_family af ?ifs}" and ?conn = "\<lambda>ep x w. Some (pconnect os env ep local_port x w)"
  let ?w = "snd (sys os Sys_getifaddrs w)"
  have F: "af \<in> ?F" if "families ?ifs AND family_flag af \<noteq> 0" for af
    using that by (auto simp: families_def family_flag_def ipsv_ipv4_def ipsv_ipv6_def split: if_splits)
  have a: "adds (family_in ?F) w ?w" by (intro adds_sys adds_refl) simp
  have "\<exists>r st' w'. resolve_i os (try_address_ipsv os ?conn (families ?ifs) hostname port) hostname port AF_UNSPEC_hint AI_ALL SOCK_STREAM (-1, x) ?w = Some (r, st', w') \<and>
      adds (family_in ?F) ?w w' \<and> connected st' w'"
  proof (rule resolve_i_connects)
    fix l b assume "b \<in> set (an_addrs (os l (Sys_getaddrinfo hostname (if 0 < port then Some (format_u (unat port)) else None) AI_ALL AF_UNSPEC_hint SOCK_STREAM)))"
    then have "ep_af (ai_addr b) = ai_family b" "2 \<le> length (ai_addr b)" "length (ai_addr b) \<le> 28"
      using assms(1) by (fastforce simp: resolver_honest_def)+
    then show "connects_or_goes_on (family_in ?F) (try_address_ipsv os ?conn (families ?ifs) hostname port) b"
      using F by (intro try_address_ipsv_connects assms(1)) auto
  qed simp_all
  then obtain r e x' w' where "resolve_i os (try_address_ipsv os ?conn (families ?ifs) hostname port) hostname port AF_UNSPEC_hint AI_ALL SOCK_STREAM (-1, x) ?w = Some (r, (e, x'), w')"
      "adds (family_in ?F) ?w w'" "connected (e, x') w'" by (metis prod.collapse)
  then show ?thesis using adds_trans [OF a, of w'] getipsv_families [of os w, OF assms(2,3)] by (auto simp: xpconnect_def xconnect_name_def)
qed

text \<open>A host with one IPv6 address and a resolver that hands out an address of each family.\<close>

definition demo_v4 :: addrinfo where
  "demo_v4 = \<lparr>ai_family = AF_INET, ai_addr = [2, 0] @ replicate 14 0\<rparr>"
definition demo_v6 :: addrinfo where
  "demo_v6 = \<lparr>ai_family = AF_INET6, ai_addr = [10, 0] @ replicate 6 0 @ [0x20, 1] @ replicate 18 0\<rparr>"

definition dual_os :: os where
  "dual_os l c =
     (case c of
        Sys_getifaddrs \<Rightarrow> demo_answer\<lparr>an_ifs := [None, Some (ai_addr demo_v6)]\<rparr>
      | Sys_getaddrinfo _ _ _ af _ \<Rightarrow> demo_answer\<lparr>an_addrs := (if af = AF_INET then [demo_v4] else if af = AF_INET6 then [demo_v6] else if af = 0 then [demo_v4, demo_v6] else [])\<rparr>
      | _ \<Rightarrow> demo_answer)"

lemma xpconnect_uses_local_families_witness:
  "\<exists>e x' w'. xpconnect dual_os (compat_env (\<lambda>_. 0)) ''host'' 80 0 xx_new demo_world = Some (e, x', w') \<and>
    adds (family_in {af. has_family af [None, Some (ai_addr demo_v6)]}) demo_world w' \<and> \<not> has_family AF_INET [None, Some (ai_addr demo_v6)]"
proof -
  have af: "ep_af (ai_addr demo_v4) = AF_INET" "ep_af (ai_addr demo_v6) = AF_INET6"
    by (simp_all add: demo_v4_def demo_v6_def ep_af_def ep_get_def AF_INET_def AF_INET6_def)
  have ok: "2 \<le> length (ai_addr demo_v4)" "length (ai_addr demo_v4) = 16" "2 \<le> length (ai_addr demo_v6)" "length (ai_addr demo_v6) = 28"
    by (simp_all add: demo_v4_def demo_v6_def)
  have "resolver_honest dual_os" unfolding resolver_honest_def
    by (auto simp: dual_os_def demo_answer_def af ok) (simp_all add: demo_v4_def demo_v6_def)
  moreover have "sockaddr_ok (ai_addr demo_v6)" using AF_UNSPEC_less by (simp add: sockaddr_ok_def af ok)
  ultimately show ?thesis
    using xpconnect_uses_local_families [of dual_os demo_world "compat_env (\<lambda>_. 0)" "''host''" 80 0 xx_new] AF_UNSPEC_less
    by (auto simp: dual_os_def demo_answer_def demo_world_def af)
qed

end
