(* ===== verification/RefPtr.thy ===== *)
theory RefPtr
  imports Prelude
begin

text \<open>
  Intrusive reference counts and the smart pointer over them (\<open>yasio/ref_ptr.hpp\<close>).  The objects do
  not contain \<open>ref_ptr\<close>s themselves.  The theorems: the counter of an object is the number of its
  references, those apart that the assignment operators lose.
\<close>

section \<open>Reference counts\<close>

text \<open>
  The counter of an object at an address (0 is the null pointer), \<open>None\<close> where there is no object.
  The members called on a deleted object have no defined behaviour.
\<close>

record refs =
  rc_count :: "nat \<Rightarrow> 32 word option"
  rp_ptr :: "nat \<Rightarrow> nat"

definition retain :: "nat \<Rightarrow> refs \<Rightarrow> refs result" where
  "retain p s = (case rc_count s p of None \<Rightarrow> Inl Undefined | Some n \<Rightarrow> Inr (s\<lparr>rc_count := (rc_count s)(p \<mapsto> n + 1)\<rparr>))"

definition release :: "nat \<Rightarrow> refs \<Rightarrow> refs result" where
  "release p s = (case rc_count s p of None \<Rightarrow> Inl Undefined
     | Some n \<Rightarrow> let n = n - 1 in Inr (s\<lparr>rc_count := (rc_count s)(p := if n = 0 then None else Some n)\<rparr>))"

definition safe_retain :: "nat \<Rightarrow> refs \<Rightarrow> refs result" where
  "safe_retain p s = (if p \<noteq> 0 then retain p s else Inr s)"

definition safe_release :: "nat \<Rightarrow> refs \<Rightarrow> refs result" where
  "safe_release p s = (if p \<noteq> 0 then release p s else Inr s)"

definition new_object :: "nat \<Rightarrow> refs \<Rightarrow> refs" where
  "new_object p s = s\<lparr>rc_count := (rc_count s)(p \<mapsto> 1)\<rparr>"

text \<open>The members of \<open>ref_ptr\<close>; \<open>i\<close> and \<open>j\<close> number the \<open>ref_ptr\<close> objects.\<close>

definition set_ptr :: "nat \<Rightarrow> nat \<Rightarrow> refs \<Rightarrow> refs" where
  "set_ptr i p s = s\<lparr>rp_ptr := (rp_ptr s)(i := p)\<rparr>"

definition rp_own :: "nat \<Rightarrow> nat \<Rightarrow> refs \<Rightarrow> refs result" where
  "rp_own i p s = safe_retain p (set_ptr i p s)"

definition rp_copy :: "nat \<Rightarrow> nat \<Rightarrow> refs \<Rightarrow> refs result" where
  "rp_copy i right s = (let s = set_ptr i (rp_ptr s right) s in safe_retain (rp_ptr s i) s)"

definition rp_release :: "nat \<Rightarrow> refs \<Rightarrow> nat \<times> refs" where
  "rp_release i s = (rp_ptr s i, set_ptr i 0 s)"

definition rp_move :: "nat \<Rightarrow> nat \<Rightarrow> refs \<Rightarrow> refs" where
  "rp_move i right s = (let (p, s) = rp_release right s in set_ptr i p s)"

definition rp_reset :: "nat \<Rightarrow> nat \<Rightarrow> refs \<Rightarrow> refs result" where
  "rp_reset i p s =
     (if rp_ptr s i \<noteq> p
      then andthen (if rp_ptr s i \<noteq> 0 then safe_release (rp_ptr s i) s else Inr s) (\<lambda>s. Inr (set_ptr i p s))
      else Inr s)"

definition rp_assign :: "nat \<Rightarrow> nat \<Rightarrow> refs \<Rightarrow> refs result" where
  "rp_assign i right s =
     (if i = right then Inr s else andthen (rp_reset i (rp_ptr s right) s) (\<lambda>s. safe_retain (rp_ptr s i) s))"

definition rp_move_assign :: "nat \<Rightarrow> nat \<Rightarrow> refs \<Rightarrow> refs result" where
  "rp_move_assign i right s = (let (p, s) = rp_release right s in rp_reset i p s)"

definition rp_assign_null :: "nat \<Rightarrow> refs \<Rightarrow> refs result" where
  "rp_assign_null i s = rp_reset i 0 s"

definition rp_destroy :: "nat \<Rightarrow> refs \<Rightarrow> refs result" where
  "rp_destroy i s = andthen (safe_release (rp_ptr s i) s) (\<lambda>s. Inr (set_ptr i 0 s))"

section \<open>Who holds a reference\<close>

text \<open>
  A program with \<open>K\<close> \<open>ref_ptr\<close> objects, references of its own (\<open>raw\<close>), and the references that
  have been lost (\<open>lost\<close>): an assignment of a pointer the object has already loses one.  A program
  keeps to the rules of references: it resets with, and releases, references that it has, and no
  object gets \<open>2 ^ 32\<close> references.
\<close>

definition refs_of :: "refs \<Rightarrow> nat \<Rightarrow> int" where
  "refs_of s a = (case rc_count s a of None \<Rightarrow> 0 | Some n \<Rightarrow> uint n)"

definition one :: "nat \<Rightarrow> nat \<Rightarrow> int" where "one a b = (if a = b then 1 else 0)"

definition held :: "nat \<Rightarrow> refs \<Rightarrow> nat \<Rightarrow> int" where
  "held K s a = (\<Sum>k<K. one a (rp_ptr s k))"

inductive ref_step :: "nat \<Rightarrow> refs \<times> (nat \<Rightarrow> int) \<times> (nat \<Rightarrow> int) \<Rightarrow> refs \<times> (nat \<Rightarrow> int) \<times> (nat \<Rightarrow> int) \<Rightarrow> bool" for K where
  New: "p \<noteq> 0 \<Longrightarrow> rc_count s p = None \<Longrightarrow> ref_step K (s, raw, lost) (new_object p s, raw(p := raw p + 1), lost)"
| Retain: "rc_count s p \<noteq> None \<Longrightarrow> refs_of s p < 2 ^ 32 - 1 \<Longrightarrow> retain p s = Inr s' \<Longrightarrow> ref_step K (s, raw, lost) (s', raw(p := raw p + 1), lost)"
| Release: "0 < raw p \<Longrightarrow> release p s = Inr s' \<Longrightarrow> ref_step K (s, raw, lost) (s', raw(p := raw p - 1), lost)"
| Take: "i < K \<Longrightarrow> rp_ptr s i = 0 \<Longrightarrow> 0 < raw p \<Longrightarrow> ref_step K (s, raw, lost) (set_ptr i p s, raw(p := raw p - 1), lost)"
| Own: "i < K \<Longrightarrow> rp_ptr s i = 0 \<Longrightarrow> p = 0 \<or> rc_count s p \<noteq> None \<and> refs_of s p < 2 ^ 32 - 1 \<Longrightarrow> rp_own i p s = Inr s' \<Longrightarrow>
    ref_step K (s, raw, lost) (s', raw, lost)"
| Copy: "i < K \<Longrightarrow> j < K \<Longrightarrow> rp_ptr s i = 0 \<Longrightarrow> refs_of s (rp_ptr s j) < 2 ^ 32 - 1 \<Longrightarrow> rp_copy i j s = Inr s' \<Longrightarrow> ref_step K (s, raw, lost) (s', raw, lost)"
| Move: "i < K \<Longrightarrow> j < K \<Longrightarrow> rp_ptr s i = 0 \<Longrightarrow> ref_step K (s, raw, lost) (rp_move i j s, raw, lost)"
| Assign: "i < K \<Longrightarrow> j < K \<Longrightarrow> refs_of s (rp_ptr s j) < 2 ^ 32 - 1 \<Longrightarrow> rp_assign i j s = Inr s' \<Longrightarrow> p = rp_ptr s j \<Longrightarrow>
    ref_step K (s, raw, lost) (s', raw, if i \<noteq> j \<and> rp_ptr s i = p \<and> p \<noteq> 0 then lost(p := lost p + 1) else lost)"
| Move_assign: "i < K \<Longrightarrow> j < K \<Longrightarrow> rp_move_assign i j s = Inr s' \<Longrightarrow> p = rp_ptr s j \<Longrightarrow>
    ref_step K (s, raw, lost) (s', raw, if i \<noteq> j \<and> rp_ptr s i = p \<and> p \<noteq> 0 then lost(p := lost p + 1) else lost)"
| Reset: "i < K \<Longrightarrow> p = 0 \<or> 0 < raw p \<Longrightarrow> rp_reset i p s = Inr s' \<Longrightarrow>
    ref_step K (s, raw, lost) (s', if p = 0 then raw else raw(p := raw p - 1), if rp_ptr s i = p \<and> p \<noteq> 0 then lost(p := lost p + 1) else lost)"
| Rel: "i < K \<Longrightarrow> rp_release i s = (p, s') \<Longrightarrow> ref_step K (s, raw, lost) (s', if p = 0 then raw else raw(p := raw p + 1), lost)"
| Destroy: "i < K \<Longrightarrow> rp_destroy i s = Inr s' \<Longrightarrow> ref_step K (s, raw, lost) (s', raw, lost)"

definition counts_ok :: "nat \<Rightarrow> refs \<times> (nat \<Rightarrow> int) \<times> (nat \<Rightarrow> int) \<Rightarrow> bool" where
  "counts_ok K st \<longleftrightarrow> (let (s, raw, lost) = st in rc_count s 0 = None \<and>
     (\<forall>a. a \<noteq> 0 \<longrightarrow> refs_of s a = held K s a + raw a + lost a) \<and> (\<forall>a. rc_count s a \<noteq> Some 0 \<and> 0 \<le> raw a \<and> 0 \<le> lost a) \<and> raw 0 = 0)"

lemma held_nonneg: "0 \<le> held K s a"
  by (simp add: held_def one_def sum_nonneg)

lemma held_pos: "i < K \<Longrightarrow> 1 \<le> held K s (rp_ptr s i)"
  using member_le_sum [of i "{..<K}" "\<lambda>k. one (rp_ptr s i) (rp_ptr s k)"] by (simp add: held_def one_def)

lemma held_set_ptr: "i < K \<Longrightarrow> held K (set_ptr i p s) a = held K s a - one a (rp_ptr s i) + one a p"
  unfolding held_def set_ptr_def using sum_upd [of i K "one a" "rp_ptr s" p] by simp

lemma refs_simps [simp]:
  "rc_count (set_ptr i p s) = rc_count s" "refs_of (set_ptr i p s) a = refs_of s a" "rp_ptr (set_ptr i p s) = (rp_ptr s)(i := p)"
  by (simp_all add: set_ptr_def refs_of_def)

lemma held_ptr: "rp_ptr s' = rp_ptr s \<Longrightarrow> held K s' a = held K s a"
  by (simp add: held_def)

text \<open>\<open>shifts d p s s'\<close>: the counts of \<open>s'\<close> are those of \<open>s\<close> but for \<open>d\<close> more at \<open>p\<close>.\<close>

definition shifts :: "int \<Rightarrow> nat \<Rightarrow> refs \<Rightarrow> refs \<Rightarrow> bool" where
  "shifts d p s s' \<longleftrightarrow> rp_ptr s' = rp_ptr s \<and> rc_count s' 0 = rc_count s 0 \<and>
     (\<forall>a. a \<noteq> 0 \<longrightarrow> refs_of s' a = refs_of s a + d * one a p) \<and> ((\<forall>a. rc_count s a \<noteq> Some 0) \<longrightarrow> (\<forall>a. rc_count s' a \<noteq> Some 0))"

lemma uint_suc: "uint (n :: 32 word) < 2 ^ 32 - 1 \<Longrightarrow> uint (n + 1) = uint n + 1"
  by (simp add: uint_word_ariths)

lemma uint_pred: "n \<noteq> (0 :: 32 word) \<Longrightarrow> uint (n - 1) = uint n - 1"
proof -
  assume "n \<noteq> 0"
  then have "0 < uint n" by (metis uint_0_iff uint_ge_0 order_le_less)
  then show ?thesis using uint_lt2p [of n] by (simp add: uint_word_ariths)
qed

lemma retain_shifts:
  assumes "rc_count s p \<noteq> None" "refs_of s p < 2 ^ 32 - 1" "p \<noteq> 0"
  shows "\<exists>s'. retain p s = Inr s' \<and> shifts 1 p s s'"
proof -
  obtain n where n: "rc_count s p = Some n" using assms(1) by blast
  then have u: "uint (n + 1) = uint n + 1" using assms(2) by (intro uint_suc) (simp add: refs_of_def)
  then have "n + 1 \<noteq> 0" using uint_ge_0 [of n] by fastforce
  then show ?thesis using n u assms(3) by (auto simp: retain_def shifts_def refs_of_def one_def)
qed

lemma release_shifts:
  assumes "0 < refs_of s p" "p \<noteq> 0"
  shows "\<exists>s'. release p s = Inr s' \<and> shifts (-1) p s s'"
proof -
  obtain n where n: "rc_count s p = Some n" "0 < uint n" using assms(1) by (auto simp: refs_of_def split: option.splits)
  then have "n \<noteq> 0" by auto
  then have "uint (n - 1) = uint n - 1" by (rule uint_pred)
  moreover have "n - 1 = 0 \<Longrightarrow> uint n = 1" using calculation by simp
  ultimately show ?thesis using n assms(2) by (auto simp: release_def shifts_def refs_of_def one_def Let_def)
qed

lemma counts_okI:
  assumes "rc_count s 0 = None" "\<And>a. a \<noteq> 0 \<Longrightarrow> refs_of s a = held K s a + raw a + lost a" "\<And>a. rc_count s a \<noteq> Some 0"
    "\<And>a. 0 \<le> raw a" "\<And>a. 0 \<le> lost a" "raw 0 = 0"
  shows "counts_ok K (s, raw, lost)"
  using assms by (simp add: counts_ok_def)

lemma counts_okD:
  assumes "counts_ok K (s, raw, lost)"
  shows "rc_count s 0 = None" "a \<noteq> 0 \<Longrightarrow> refs_of s a = held K s a + raw a + lost a" "rc_count s a \<noteq> Some 0" "0 \<le> raw a" "0 \<le> lost a" "raw 0 = 0"
  using assms by (auto simp: counts_ok_def)

lemma shiftsD:
  assumes "shifts d p s s'"
  shows "rp_ptr s' = rp_ptr s" "rc_count s' 0 = rc_count s 0" "a \<noteq> 0 \<Longrightarrow> refs_of s' a = refs_of s a + d * one a p"
    "(\<And>a. rc_count s a \<noteq> Some 0) \<Longrightarrow> rc_count s' b \<noteq> Some 0" "held K s' a = held K s a"
  using assms by (auto simp: shifts_def held_def)

lemma live_iff: "counts_ok K (s, raw, lost) \<Longrightarrow> rc_count s p \<noteq> None \<longleftrightarrow> 0 < refs_of s p"
  using counts_okD(3) [of K s raw lost p] by (cases "rc_count s p") (auto simp: refs_of_def simp flip: uint_0_iff intro: order_neq_le_trans [OF _ uint_ge_0])

lemma held_live: "counts_ok K (s, raw, lost) \<Longrightarrow> i < K \<Longrightarrow> rp_ptr s i \<noteq> 0 \<Longrightarrow> 0 < refs_of s (rp_ptr s i)"
  using counts_okD(2,4,5) [of K s raw lost "rp_ptr s i"] held_pos [of i K s] by (smt (verit))

lemma raw_live: "counts_ok K (s, raw, lost) \<Longrightarrow> 0 < raw p \<Longrightarrow> 0 < refs_of s p \<and> p \<noteq> 0"
  using counts_okD(2,5) [of K s raw lost p] counts_okD(6) [of K s raw lost] held_nonneg [of K s p] by (cases "p = 0") (auto simp: add_pos_nonneg add_nonneg_pos)

text \<open>Storing \<open>q\<close> in the \<open>ref_ptr\<close> \<open>i\<close> after the counts have been shifted.\<close>

lemma store_counts:
  assumes c: "counts_ok K (s, raw, lost)" and s: "shifts d p s s'" "i < K"
    and r: "\<And>a. a \<noteq> 0 \<Longrightarrow> d * one a p + raw a + lost a = one a q - one a (rp_ptr s i) + raw' a + lost' a"
    and n: "\<And>a. 0 \<le> raw' a" "\<And>a. 0 \<le> lost' a" "raw' 0 = 0"
  shows "counts_ok K (set_ptr i q s', raw', lost')"
proof (rule counts_okI)
  show "rc_count (set_ptr i q s') 0 = None" using shiftsD(2) [OF s(1)] counts_okD(1) [OF c] by simp
  show "a \<noteq> 0 \<Longrightarrow> refs_of (set_ptr i q s') a = held K (set_ptr i q s') a + raw' a + lost' a" for a
    using shiftsD(3) [OF s(1), of a] counts_okD(2) [OF c, of a] r [of a] held_set_ptr [OF s(2), of q s' a] shiftsD(1,5) [OF s(1)] by simp
  show "rc_count (set_ptr i q s') a \<noteq> Some 0" for a using shiftsD(4) [OF s(1)] counts_okD(3) [OF c] by simp
qed (use n in simp_all)

lemma shifts_refl: "shifts 0 p s s"
  by (simp add: shifts_def)

lemma set_ptr_same: "set_ptr i (rp_ptr s i) s = s"
  by (simp add: set_ptr_def)

lemma keep_counts:
  assumes c: "counts_ok K (s, raw, lost)" and s: "shifts d p s s'"
    and r: "\<And>a. a \<noteq> 0 \<Longrightarrow> d * one a p + raw a + lost a = raw' a + lost' a"
    and n: "\<And>a. 0 \<le> raw' a" "\<And>a. 0 \<le> lost' a" "raw' 0 = 0"
  shows "counts_ok K (s', raw', lost')"
proof (rule counts_okI)
  show "rc_count s' 0 = None" using shiftsD(2) [OF s(1)] counts_okD(1) [OF c] by simp
  show "a \<noteq> 0 \<Longrightarrow> refs_of s' a = held K s' a + raw' a + lost' a" for a
    using shiftsD(3) [OF s(1), of a] counts_okD(2) [OF c, of a] r [of a] shiftsD(5) [OF s(1)] by simp
  show "rc_count s' a \<noteq> Some 0" for a using shiftsD(4) [OF s(1)] counts_okD(3) [OF c] by simp
qed (use n in simp_all)

lemma safe_release_shifts:
  assumes "counts_ok K (s, raw, lost)" "i < K"
  shows "\<exists>s'. safe_release (rp_ptr s i) s = Inr s' \<and> shifts (if rp_ptr s i = 0 then 0 else -1) (rp_ptr s i) s s'"
  using release_shifts [OF held_live [OF assms]] shifts_refl [of 0 s] by (cases "rp_ptr s i = 0") (auto simp: safe_release_def)

text \<open>\<open>reset\<close> stores the pointer and releases the old one, unless they are the same.\<close>

lemma reset_result:
  assumes c: "counts_ok K (s, raw, lost)" "i < K" "rp_ptr s i \<noteq> p"
  shows "\<exists>s'. rp_reset i p s = Inr (set_ptr i p s') \<and> shifts (if rp_ptr s i = 0 then 0 else -1) (rp_ptr s i) s s'"
  using safe_release_shifts [OF c(1,2)] c(3) by (auto simp: rp_reset_def safe_release_def)

lemma one_simps [simp]: "one a a = 1" "a \<noteq> b \<Longrightarrow> one a b = 0"
  by (simp_all add: one_def)

lemma assign_counts:
  assumes c: "counts_ok K (s, raw, lost)" and i: "i < K" "j < K" "refs_of s (rp_ptr s j) < 2 ^ 32 - 1"
  defines "p \<equiv> rp_ptr s j"
  shows "\<exists>s'. rp_assign i j s = Inr s' \<and> counts_ok K (s', raw, if i \<noteq> j \<and> rp_ptr s i = p \<and> p \<noteq> 0 then lost(p := lost p + 1) else lost)"
proof -
  consider (self) "i = j" | (null) "i \<noteq> j" "p = 0" "rp_ptr s i = 0" | (same) "i \<noteq> j" "p \<noteq> 0" "rp_ptr s i = p"
    | (clear) "i \<noteq> j" "p = 0" "rp_ptr s i \<noteq> 0" | (change) "i \<noteq> j" "p \<noteq> 0" "rp_ptr s i \<noteq> p" by blast
  then show ?thesis
  proof cases
    case self
    then show ?thesis using c by (simp add: rp_assign_def)
  next
    case null
    then show ?thesis using c by (simp add: rp_assign_def rp_reset_def p_def safe_retain_def)
  next
    case same
    have "rc_count s p \<noteq> None" using live_iff [OF c, of p] held_live [OF c i(2)] same by (simp add: p_def)
    then obtain s' where s': "retain p s = Inr s'" "shifts 1 p s s'" using retain_shifts [of s p] i(3) same by (auto simp: p_def)
    have "counts_ok K (s', raw, lost(p := lost p + 1))"
      by (rule keep_counts [OF c s'(2)]) (use counts_okD(4,5,6) [OF c] in \<open>auto simp: one_def intro: add_nonneg_nonneg\<close>)
    then show ?thesis using same s' by (simp add: rp_assign_def rp_reset_def safe_retain_def flip: p_def)
  next
    case clear
    then obtain s' where s': "rp_reset i p s = Inr (set_ptr i p s')" "shifts (-1) (rp_ptr s i) s s'" using reset_result [OF c i(1), of p] by auto
    have "counts_ok K (set_ptr i p s', raw, lost)"
      by (rule store_counts [OF c s'(2) i(1)]) (use counts_okD(4,5,6) [OF c] clear in \<open>auto simp: one_def\<close>)
    then show ?thesis using clear s' by (simp add: rp_assign_def safe_retain_def flip: p_def)
  next
    case change
    then obtain s' where s': "rp_reset i p s = Inr (set_ptr i p s')" "shifts (if rp_ptr s i = 0 then 0 else -1) (rp_ptr s i) s s'"
      using reset_result [OF c i(1), of p] by auto
    let ?s = "set_ptr i p s'"
    have eq: "refs_of ?s p = refs_of s p" using shiftsD(3) [OF s'(2) change(2)] change(3) by simp
    moreover have "0 < refs_of s p" using held_live [OF c i(2)] change(2) by (simp add: p_def)
    ultimately have "rc_count ?s p \<noteq> None" by (auto simp: refs_of_def split: option.splits)
    then obtain s'' where s'': "retain p ?s = Inr s''" "shifts 1 p ?s s''" using retain_shifts [of ?s p] i(3) change(2) eq by (auto simp: p_def)
    have "counts_ok K (s'', raw, lost)"
    proof (rule counts_okI)
      show "a \<noteq> 0 \<Longrightarrow> refs_of s'' a = held K s'' a + raw a + lost a" for a
        using shiftsD(3) [OF s''(2), of a] shiftsD(3) [OF s'(2), of a] shiftsD(5) [OF s''(2), of K a] shiftsD(1,5) [OF s'(2)]
          held_set_ptr [OF i(1), of p s' a] counts_okD(2) [OF c, of a] by (auto simp: one_def)
      show "rc_count s'' a \<noteq> Some 0" for a using shiftsD(4) [OF s''(2)] shiftsD(4) [OF s'(2)] counts_okD(3) [OF c] by simp
    qed (use shiftsD(2) [OF s''(2)] shiftsD(2) [OF s'(2)] counts_okD(1,4,5,6) [OF c] in auto)
    then show ?thesis using change s' s'' by (simp add: rp_assign_def safe_retain_def flip: p_def)
  qed
qed

lemma own_counts:
  assumes c: "counts_ok K (s, raw, lost)" and i: "i < K" "rp_ptr s i = 0" "p = 0 \<or> rc_count s p \<noteq> None \<and> refs_of s p < 2 ^ 32 - 1"
  shows "\<exists>s'. rp_own i p s = Inr s' \<and> counts_ok K (s', raw, lost)"
proof (cases "p = 0")
  case True
  then show ?thesis using c i(2) set_ptr_same [of i s] by (simp add: rp_own_def safe_retain_def)
next
  case False
  then obtain s' where s': "retain p (set_ptr i p s) = Inr s'" "shifts 1 p (set_ptr i p s) s'"
    using retain_shifts [of "set_ptr i p s" p] i(3) by auto
  have "counts_ok K (s', raw, lost)"
  proof (rule counts_okI)
    show "a \<noteq> 0 \<Longrightarrow> refs_of s' a = held K s' a + raw a + lost a" for a
      using shiftsD(3) [OF s'(2), of a] shiftsD(5) [OF s'(2), of K a] held_set_ptr [OF i(1), of p s a] counts_okD(2) [OF c, of a] i(2) by simp
    show "rc_count s' a \<noteq> Some 0" for a using shiftsD(4) [OF s'(2)] counts_okD(3) [OF c] by simp
  qed (use shiftsD(2) [OF s'(2)] counts_okD(1,4,5,6) [OF c] in auto)
  then show ?thesis using False s' by (simp add: rp_own_def safe_retain_def)
qed

lemma copy_is_own: "rp_copy i j s = rp_own i (rp_ptr s j) s"
  by (simp add: rp_copy_def rp_own_def Let_def)

lemma move_counts:
  assumes c: "counts_ok K (s, raw, lost)" and i: "i < K" "j < K" "rp_ptr s i = 0"
  shows "counts_ok K (rp_move i j s, raw, lost)"
proof (rule counts_okI)
  show "a \<noteq> 0 \<Longrightarrow> refs_of (rp_move i j s) a = held K (rp_move i j s) a + raw a + lost a" for a
    using held_set_ptr [OF i(1), of "rp_ptr s j" "set_ptr j 0 s" a] held_set_ptr [OF i(2), of 0 s a] counts_okD(2) [OF c, of a] i(3)
    by (simp add: rp_move_def rp_release_def)
qed (use counts_okD [OF c] in \<open>auto simp: rp_move_def rp_release_def\<close>)

lemma move_assign_counts:
  assumes c: "counts_ok K (s, raw, lost)" and i: "i < K" "j < K"
  defines "p \<equiv> rp_ptr s j"
  shows "\<exists>s'. rp_move_assign i j s = Inr s' \<and> counts_ok K (s', raw, if i \<noteq> j \<and> rp_ptr s i = p \<and> p \<noteq> 0 then lost(p := lost p + 1) else lost)"
proof -
  let ?s = "set_ptr j 0 s"
  have m: "rp_move_assign i j s = rp_reset i p ?s" by (simp add: rp_move_assign_def rp_release_def p_def)
  have n: "\<And>a. 0 \<le> raw a" "\<And>a. 0 \<le> lost a" "raw 0 = 0" using counts_okD [OF c] by auto
  consider (self) "i = j" | (same) "i \<noteq> j" "rp_ptr s i = p" | (change) "i \<noteq> j" "rp_ptr s i \<noteq> p" by blast
  then show ?thesis
  proof cases
    case self
    then have "rp_reset i p ?s = Inr s" by (auto simp: rp_reset_def p_def safe_release_def set_ptr_def fun_upd_idem)
    then show ?thesis using c self m by simp
  next
    case same
    have "counts_ok K (set_ptr j 0 s, raw, if p \<noteq> 0 then lost(p := lost p + 1) else lost)"
      by (rule store_counts [OF c shifts_refl i(2)]) (use n in \<open>auto simp: one_def p_def\<close>)
    then show ?thesis using same m by (simp add: rp_reset_def)
  next
    case change
    obtain s' where s': "safe_release (rp_ptr s i) s = Inr s'" "shifts (if rp_ptr s i = 0 then 0 else -1) (rp_ptr s i) s s'"
      using safe_release_shifts [OF c i(1)] by blast
    have "safe_release (rp_ptr s i) ?s = Inr (set_ptr j 0 s')" using s'(1)
      by (cases "rp_ptr s i = 0") (auto simp: safe_release_def release_def Let_def set_ptr_def split: option.splits)
    then have r: "rp_reset i p ?s = Inr (set_ptr i p (set_ptr j 0 s'))" using change by (auto simp: rp_reset_def safe_release_def)
    have "counts_ok K (set_ptr i p (set_ptr j 0 s'), raw, lost)"
    proof (rule counts_okI)
      show "a \<noteq> 0 \<Longrightarrow> refs_of (set_ptr i p (set_ptr j 0 s')) a = held K (set_ptr i p (set_ptr j 0 s')) a + raw a + lost a" for a
        using held_set_ptr [OF i(1), of p "set_ptr j 0 s'" a] held_set_ptr [OF i(2), of 0 s' a] shiftsD(1,5) [OF s'(2)] shiftsD(3) [OF s'(2), of a]
          counts_okD(2) [OF c, of a] change(1) by (auto simp: p_def one_def)
      show "rc_count (set_ptr i p (set_ptr j 0 s')) a \<noteq> Some 0" for a using shiftsD(4) [OF s'(2)] counts_okD(3) [OF c] by simp
    qed (use shiftsD(2) [OF s'(2)] counts_okD(1) [OF c] n in auto)
    then show ?thesis using change m r by simp
  qed
qed

lemma destroy_counts:
  assumes c: "counts_ok K (s, raw, lost)" "i < K"
  shows "\<exists>s'. rp_destroy i s = Inr s' \<and> counts_ok K (s', raw, lost)"
proof -
  obtain s' where s': "safe_release (rp_ptr s i) s = Inr s'" "shifts (if rp_ptr s i = 0 then 0 else -1) (rp_ptr s i) s s'"
    using safe_release_shifts [OF c] by blast
  have "counts_ok K (set_ptr i 0 s', raw, lost)"
    by (rule store_counts [OF c(1) s'(2) c(2)]) (use counts_okD [OF c(1)] in \<open>auto simp: one_def\<close>)
  then show ?thesis using s' by (simp add: rp_destroy_def)
qed

lemma reset_counts:
  assumes c: "counts_ok K (s, raw, lost)" and i: "i < K" "p = 0 \<or> 0 < raw p"
  shows "\<exists>s'. rp_reset i p s = Inr s' \<and>
    counts_ok K (s', if p = 0 then raw else raw(p := raw p - 1), if rp_ptr s i = p \<and> p \<noteq> 0 then lost(p := lost p + 1) else lost)"
proof (cases "rp_ptr s i = p")
  case True
  have "counts_ok K (s, if p = 0 then raw else raw(p := raw p - 1), if p \<noteq> 0 then lost(p := lost p + 1) else lost)"
    by (rule keep_counts [OF c shifts_refl]) (use counts_okD [OF c] i(2) in \<open>auto simp: add_nonneg_nonneg\<close>)
  then show ?thesis using True by (simp add: rp_reset_def)
next
  case False
  then obtain s' where s': "rp_reset i p s = Inr (set_ptr i p s')" "shifts (if rp_ptr s i = 0 then 0 else -1) (rp_ptr s i) s s'"
    using reset_result [OF c i(1), of p] by auto
  have "counts_ok K (set_ptr i p s', if p = 0 then raw else raw(p := raw p - 1), lost)"
    by (rule store_counts [OF c s'(2) i(1)]) (use counts_okD [OF c] i(2) in \<open>auto simp: one_def\<close>)
  then show ?thesis using False s' by simp
qed

lemma ref_step_counts: "ref_step K st st' \<Longrightarrow> counts_ok K st \<Longrightarrow> counts_ok K st'"
proof (induction rule: ref_step.induct)
  case (New p s raw lost)
  then have "\<And>a. refs_of (new_object p s) a = (if a = p then 1 else refs_of s a)" "refs_of s p = 0" "held K (new_object p s) = held K s"
    by (auto simp: new_object_def refs_of_def held_def fun_eq_iff)
  then show ?case using New counts_okD [OF New(3)] by (intro counts_okI) (auto simp: new_object_def)
next
  case (Retain s p s' raw lost)
  have "p \<noteq> 0" using Retain(1) counts_okD(1) [OF Retain(4)] by (cases "p = 0") auto
  then have s: "shifts 1 p s s'" using retain_shifts [OF Retain(1,2)] Retain(3) by auto
  show ?case by (rule keep_counts [OF Retain(4) s]) (use counts_okD [OF Retain(4)] \<open>p \<noteq> 0\<close> in \<open>auto simp: one_def\<close>)
next
  case (Release raw p s s' lost)
  have "p \<noteq> 0" using Release(1) counts_okD(6) [OF Release(3)] by (cases "p = 0") auto
  then have s: "shifts (-1) p s s'" using release_shifts [of s p] raw_live [OF Release(3,1)] Release(2) by auto
  show ?case by (rule keep_counts [OF Release(3) s]) (use counts_okD [OF Release(3)] \<open>p \<noteq> 0\<close> Release(1) in \<open>auto simp: one_def\<close>)
next
  case (Take i s raw p lost)
  have "p \<noteq> 0" using raw_live [OF Take(4,3)] by simp
  show ?case by (rule store_counts [OF Take(4) shifts_refl Take(1)]) (use counts_okD [OF Take(4)] Take(2,3) \<open>p \<noteq> 0\<close> in \<open>auto simp: one_def\<close>)
next
  case (Own i s p s' raw lost)
  then show ?case using own_counts [of K s raw lost i p] by auto
next
  case (Copy i j s s' raw lost)
  have "rp_ptr s j = 0 \<or> rc_count s (rp_ptr s j) \<noteq> None \<and> refs_of s (rp_ptr s j) < 2 ^ 32 - 1"
    using held_live [OF Copy(6,2)] live_iff [OF Copy(6)] Copy(4) by blast
  from own_counts [OF Copy(6,1,3) this] show ?case using Copy(5) by (auto simp: copy_is_own)
next
  case (Move i j s raw lost)
  then show ?case by (intro move_counts) auto
next
  case (Assign i j s s' p raw lost)
  then show ?case using assign_counts [OF Assign(6,1,2,3)] by auto
next
  case (Move_assign i j s s' p raw lost)
  then show ?case using move_assign_counts [OF Move_assign(5,1,2)] by auto
next
  case (Reset i p raw s s' lost)
  then show ?case using reset_counts [OF Reset(4,1,2)] by auto
next
  case (Rel i s p s' raw lost)
  then have e: "s' = set_ptr i 0 s" "p = rp_ptr s i" by (auto simp: rp_release_def)
  show ?case unfolding e by (rule store_counts [OF Rel(3) shifts_refl Rel(1)]) (use counts_okD [OF Rel(3)] in \<open>auto simp: one_def\<close>)
next
  case (Destroy i s s' raw lost)
  then show ?case using destroy_counts [OF Destroy(3,1)] by auto
qed

definition no_refs :: refs where "no_refs = \<lparr>rc_count = (\<lambda>_. None), rp_ptr = (\<lambda>_. 0)\<rparr>"

lemma no_refs_ok: "counts_ok K (no_refs, \<lambda>_. 0, \<lambda>_. 0)"
  by (simp add: counts_ok_def no_refs_def refs_of_def held_def one_def)

lemma reachable_counts: "(ref_step K)\<^sup>*\<^sup>* (no_refs, \<lambda>_. 0, \<lambda>_. 0) st \<Longrightarrow> counts_ok K st"
  by (induction rule: rtranclp_induct) (auto intro: no_refs_ok ref_step_counts)

text \<open>
  C26: References add up.  Whatever a program does with its \<open>ref_ptr\<close>s, the counter of an object is the
  number of \<open>ref_ptr\<close>s that point to it plus the references of the program plus the assignments
  that gave a \<open>ref_ptr\<close> the object it had already, and the object is deleted when that is zero.  No
  \<open>ref_ptr\<close> points to a deleted object, so assigning, moving, and destroying are defined.
\<close>

theorem references_add_up:
  assumes "(ref_step K)\<^sup>*\<^sup>* (no_refs, \<lambda>_. 0, \<lambda>_. 0) (s, raw, lost)" "a \<noteq> 0" "i < K" "j < K" "refs_of s (rp_ptr s j) < 2 ^ 32 - 1"
  shows "refs_of s a = held K s a + raw a + lost a \<and> (rc_count s a = None \<longleftrightarrow> held K s a = 0 \<and> raw a = 0 \<and> lost a = 0) \<and>
    (rp_ptr s i = 0 \<or> rc_count s (rp_ptr s i) \<noteq> None) \<and>
    (\<exists>s'. rp_assign i j s = Inr s') \<and> (\<exists>s'. rp_move_assign i j s = Inr s') \<and> (\<exists>s'. rp_destroy i s = Inr s')"
proof -
  note c = reachable_counts [OF assms(1)]
  have eq: "refs_of s a = held K s a + raw a + lost a" by (rule counts_okD(2) [OF c assms(2)])
  moreover have "rc_count s a = None \<longleftrightarrow> held K s a = 0 \<and> raw a = 0 \<and> lost a = 0"
    using live_iff [OF c, of a] eq held_nonneg [of K s a] counts_okD(4,5) [OF c, of a] by linarith
  moreover have "rp_ptr s i = 0 \<or> rc_count s (rp_ptr s i) \<noteq> None" using held_live [OF c assms(3)] live_iff [OF c] by blast
  ultimately show ?thesis
    using assign_counts [OF c assms(3,4,5)] move_assign_counts [OF c assms(3,4)] destroy_counts [OF c assms(3)] by blast
qed

text \<open>
  Assigning one \<open>ref_ptr\<close> to another of the same object takes a reference that nothing releases (a
  copy) or drops one (a move): when both are destroyed the object is left.
\<close>

theorem same_object_assignment_leaks:
  assumes "i \<noteq> j" "rp_ptr s i = p" "rp_ptr s j = p" "p \<noteq> 0" "rc_count s p = Some 2"
  shows "(\<exists>s1 s2 s3. rp_assign i j s = Inr s1 \<and> rp_destroy i s1 = Inr s2 \<and> rp_destroy j s2 = Inr s3 \<and> rc_count s3 p = Some 1) \<and>
    (\<exists>s1 s2 s3. rp_move_assign i j s = Inr s1 \<and> rp_destroy i s1 = Inr s2 \<and> rp_destroy j s2 = Inr s3 \<and> rc_count s3 p = Some 1)"
  using assms
  by (simp add: rp_assign_def rp_move_assign_def rp_release_def rp_reset_def rp_destroy_def safe_retain_def safe_release_def retain_def release_def set_ptr_def)

text \<open>Two pointers to the object at 7.\<close>

definition demo_refs :: refs where
  "demo_refs = \<lparr>rc_count = [7 \<mapsto> 2], rp_ptr = (\<lambda>i. if i < 2 then 7 else 0)\<rparr>"

lemma same_object_assignment_leaks_witness: "\<exists>s1. rp_assign 0 1 demo_refs = Inr s1 \<and> rc_count demo_refs 7 = Some 2"
  using same_object_assignment_leaks [of 0 1 demo_refs 7] by (auto simp: demo_refs_def)

lemma demo_refs_reachable: "(ref_step 2)\<^sup>*\<^sup>* (no_refs, \<lambda>_. 0, \<lambda>_. 0) (demo_refs, \<lambda>_. 0, \<lambda>_. 0)"
proof -
  let ?s1 = "new_object 7 no_refs" and ?r = "(\<lambda>_. 0)(7 := 0 + 1 :: int)"
  have 1: "ref_step 2 (no_refs, \<lambda>_. 0, \<lambda>_. 0) (?s1, ?r, \<lambda>_. 0)" using New [of 7 no_refs 2 "\<lambda>_. 0" "\<lambda>_. 0"] by (simp add: no_refs_def)
  have z: "?r(7 := ?r 7 - 1) = (\<lambda>_. 0)" by auto
  have 2: "ref_step 2 (?s1, ?r, \<lambda>_. 0) (set_ptr 0 7 ?s1, \<lambda>_. 0, \<lambda>_. 0)"
    using Take [of 0 2 ?s1 ?r 7 "\<lambda>_. 0"] unfolding z by (simp add: no_refs_def new_object_def)
  have c: "rp_copy 1 0 (set_ptr 0 7 ?s1) = Inr demo_refs"
    by (auto simp: rp_copy_def safe_retain_def retain_def set_ptr_def new_object_def no_refs_def demo_refs_def fun_eq_iff)
  have 3: "ref_step 2 (set_ptr 0 7 ?s1, \<lambda>_. 0, \<lambda>_. 0) (demo_refs, \<lambda>_. 0, \<lambda>_. 0)"
    by (rule Copy [OF _ _ _ _ c]) (simp_all add: set_ptr_def new_object_def no_refs_def refs_of_def)
  show ?thesis using 1 2 3 by (meson converse_rtranclp_into_rtranclp r_into_rtranclp)
qed

lemma references_add_up_witness: "refs_of demo_refs 7 = held 2 demo_refs 7 + 0 + 0"
  using references_add_up [OF demo_refs_reachable, of 7 0 1] by (simp add: demo_refs_def refs_of_def)

end
