(* ===== verification/Singleton.thy ===== *)
theory Singleton
  imports Prelude
begin

text \<open>
  The double-checked singleton (\<open>yasio/singleton.hpp\<close>), as a relation between the steps of its
  threads: each load, store and operation of the mutex is a step.  The theorems: one instance, no
  instance deleted twice, and the race with \<open>destroy\<close>.
\<close>

section \<open>The instance\<close>

text \<open>
  Instances are numbered as they are constructed, 0 is the null pointer.  A thread in
  \<open>get_instance\<close> is at the first test, waits for the mutex, has it, has constructed an instance that
  it is about to store, is about to give the mutex back, or is about to read the pointer to return.
\<close>

datatype place = Outside | First_test | Waiting | Second_test | Built nat | Leaving | Reading

record single =
  sg_single :: nat
  sg_mutex :: "nat option"
  sg_made :: nat
  sg_deleted :: "nat list"
  sg_place :: "nat \<Rightarrow> place"
  sg_results :: "nat list"

definition at_place :: "nat \<Rightarrow> place \<Rightarrow> single \<Rightarrow> single" where
  "at_place t p s = s\<lparr>sg_place := (sg_place s)(t := p)\<rparr>"

definition construct :: "single \<Rightarrow> nat \<times> single" where
  "construct s = (Suc (sg_made s), s\<lparr>sg_made := Suc (sg_made s)\<rparr>)"

text \<open>The next step of a thread, \<open>None\<close> while the mutex is taken.\<close>

definition get_instance_step :: "nat \<Rightarrow> single \<Rightarrow> single option" where
  "get_instance_step t s =
     (case sg_place s t of
        Outside \<Rightarrow> Some (at_place t First_test s)
      | First_test \<Rightarrow> Some (at_place t (if sg_single s \<noteq> 0 then Reading else Waiting) s)
      | Waiting \<Rightarrow> if sg_mutex s = None then Some (at_place t Second_test (s\<lparr>sg_mutex := Some t\<rparr>)) else None
      | Second_test \<Rightarrow>
          Some (if sg_single s = 0 then let (inst, s) = construct s in at_place t (Built inst) s else at_place t Leaving s)
      | Built inst \<Rightarrow> Some (at_place t Leaving (s\<lparr>sg_single := inst\<rparr>))
      | Leaving \<Rightarrow> Some (at_place t Reading (s\<lparr>sg_mutex := None\<rparr>))
      | Reading \<Rightarrow> Some (at_place t Outside (s\<lparr>sg_results := sg_results s @ [sg_single s]\<rparr>)))"

definition destroy :: "single \<Rightarrow> single" where
  "destroy s = (let inst = sg_single s; s = s\<lparr>sg_single := 0\<rparr> in if inst \<noteq> 0 then s\<lparr>sg_deleted := sg_deleted s @ [inst]\<rparr> else s)"

definition peek :: "single \<Rightarrow> nat" where "peek s = sg_single s"

inductive call_step :: "single \<Rightarrow> single \<Rightarrow> bool" where
  "get_instance_step t s = Some s' \<Longrightarrow> call_step s s'"

inductive single_step :: "single \<Rightarrow> single \<Rightarrow> bool" where
  Call: "get_instance_step t s = Some s' \<Longrightarrow> single_step s s'"
| Destroy: "single_step s (destroy s)"

definition new_single :: single where
  "new_single = \<lparr>sg_single = 0, sg_mutex = None, sg_made = 0, sg_deleted = [], sg_place = (\<lambda>_. Outside), sg_results = []\<rparr>"

definition inside :: "place \<Rightarrow> bool" where
  "inside p \<longleftrightarrow> (case p of Second_test \<Rightarrow> True | Built _ \<Rightarrow> True | Leaving \<Rightarrow> True | _ \<Rightarrow> False)"

lemma inside_simps [simp]:
  "inside Second_test" "inside (Built n)" "inside Leaving" "\<not> inside Outside" "\<not> inside First_test" "\<not> inside Waiting" "\<not> inside Reading"
  by (simp_all add: inside_def)

text \<open>One thread is inside the mutex; an instance under construction is the newest; the pointer and
  the deleted instances are different instances that have been made.\<close>

definition single_ok :: "single \<Rightarrow> bool" where
  "single_ok s \<longleftrightarrow> (\<forall>t. inside (sg_place s t) \<longleftrightarrow> sg_mutex s = Some t) \<and>
     (\<forall>t n. sg_place s t = Built n \<longrightarrow> n = sg_made s \<and> 0 < n \<and> sg_single s = 0 \<and> n \<notin> set (sg_deleted s)) \<and>
     sg_single s \<le> sg_made s \<and> (\<forall>d \<in> set (sg_deleted s). 0 < d \<and> d \<le> sg_made s) \<and> distinct (sg_deleted s) \<and>
     (sg_single s \<notin> set (sg_deleted s)) \<and> 
     (\<forall>n. 0 < n \<and> n \<le> sg_made s \<longrightarrow> n = sg_single s \<or> n \<in> set (sg_deleted s) \<or> (\<exists>t. sg_place s t = Built n))"

lemma at_place_simps [simp]:
  "sg_single (at_place t p s) = sg_single s" "sg_mutex (at_place t p s) = sg_mutex s" "sg_made (at_place t p s) = sg_made s"
  "sg_deleted (at_place t p s) = sg_deleted s" "sg_place (at_place t p s) = (sg_place s)(t := p)" "sg_results (at_place t p s) = sg_results s"
  by (simp_all add: at_place_def)

lemma destroy_place [simp]: "sg_place (destroy s) = sg_place s" "sg_single (destroy s) = 0" "sg_results (destroy s) = sg_results s"
  by (simp_all add: destroy_def Let_def)

lemma single_okD:
  assumes "single_ok s"
  shows "inside (sg_place s t) \<longleftrightarrow> sg_mutex s = Some t"
    "sg_place s t = Built n \<Longrightarrow> n = sg_made s \<and> 0 < n \<and> sg_single s = 0 \<and> n \<notin> set (sg_deleted s)"
    "sg_single s \<le> sg_made s" "d \<in> set (sg_deleted s) \<Longrightarrow> 0 < d \<and> d \<le> sg_made s" "distinct (sg_deleted s)" "sg_single s \<notin> set (sg_deleted s)"
    "0 < n \<Longrightarrow> n \<le> sg_made s \<Longrightarrow> n = sg_single s \<or> n \<in> set (sg_deleted s) \<or> (\<exists>t. sg_place s t = Built n)"
  using assms unfolding single_ok_def by blast+

lemma moved_ok:
  assumes k: "single_ok s" and e: "sg_single s' = sg_single s" "sg_made s' = sg_made s" "sg_deleted s' = sg_deleted s" "sg_place s' = (sg_place s)(t := p)"
    and b: "\<And>n. p \<noteq> Built n" "\<And>n. sg_place s t \<noteq> Built n" and m: "\<And>u. inside (sg_place s' u) \<longleftrightarrow> sg_mutex s' = Some u"
  shows "single_ok s'"
proof -
  have B: "sg_place s' u = Built n \<longleftrightarrow> sg_place s u = Built n" for u n using b by (simp add: e(4))
  show ?thesis using k m unfolding single_ok_def B e(1-3) by blast
qed

lemma single_step_ok:
  assumes k: "single_ok s" and "get_instance_step t s = Some s'"
  shows "single_ok s'"
proof -
  note d = single_okD [OF k]
  have alone: "u \<noteq> t \<Longrightarrow> \<not> inside (sg_place s u)" if "inside (sg_place s t)" for u using d(1) [of u] d(1) [of t] that by simp
  show ?thesis
  proof (cases "sg_place s t")
    case Outside
    then have s': "s' = at_place t First_test s" using assms(2) by (simp add: get_instance_step_def)
    show ?thesis using d(1) [of t] d(1) Outside by (intro moved_ok [OF k, of s' t First_test]) (auto simp: s')
  next
    case First_test
    define p where "p = (if sg_single s \<noteq> 0 then Reading else Waiting)"
    have p: "\<And>n. p \<noteq> Built n" "\<not> inside p" by (simp_all add: p_def)
    have s': "s' = at_place t p s" using assms(2) First_test by (simp add: get_instance_step_def p_def)
    show ?thesis using d(1) [of t] d(1) First_test p by (intro moved_ok [OF k, of s' t p]) (auto simp: s')
  next
    case Waiting
    then have s': "sg_mutex s = None" "s' = at_place t Second_test (s\<lparr>sg_mutex := Some t\<rparr>)" using assms(2) by (auto simp: get_instance_step_def split: if_splits)
    then have out: "\<not> inside (sg_place s u)" for u using d(1) [of u] by simp
    show ?thesis using out Waiting by (intro moved_ok [OF k, of s' t Second_test]) (auto simp: s'(2))
  next
    case Second_test
    have nb: "sg_place s u \<noteq> Built n" for u n using Second_test alone [of u] by (cases "u = t") force+
    show ?thesis
    proof (cases "sg_single s = 0")
      case True
      then have s': "s' = at_place t (Built (Suc (sg_made s))) (s\<lparr>sg_made := Suc (sg_made s)\<rparr>)"
        using assms(2) Second_test by (simp add: get_instance_step_def construct_def)
      have new: "Suc (sg_made s) \<notin> set (sg_deleted s)" using d(4) by fastforce
      have old: "0 < n \<Longrightarrow> n \<le> sg_made s \<Longrightarrow> n \<in> set (sg_deleted s)" for n using d(7) [of n] nb True by auto
      have del: "x \<in> set (sg_deleted s) \<Longrightarrow> 0 < x \<and> x \<le> Suc (sg_made s)" for x using d(4) [of x] by simp
      have m: "inside (sg_place s' u) \<longleftrightarrow> sg_mutex s' = Some u" for u using d(1) [of u] d(1) [of t] Second_test by (auto simp: s')
      have B: "sg_place s' u = Built n \<longleftrightarrow> u = t \<and> n = Suc (sg_made s)" for u n using nb by (auto simp: s')
      show ?thesis unfolding single_ok_def B
        using m new old del d(5,6) True by (auto simp: s' le_Suc_eq)
    next
      case False
      then have s': "s' = at_place t Leaving s" using assms(2) Second_test by (simp add: get_instance_step_def)
      show ?thesis using d(1) [of t] d(1) Second_test by (intro moved_ok [OF k, of s' t Leaving]) (auto simp: s')
    qed
  next
    case (Built n)
    have s': "s' = at_place t Leaving (s\<lparr>sg_single := n\<rparr>)" using assms(2) Built by (simp add: get_instance_step_def)
    note n = d(2) [OF Built]
    have B: "sg_place s' u \<noteq> Built m" for u m using Built alone [of u] by (cases "u = t") (force simp: s')+
    have S: "sg_place s u = Built m \<Longrightarrow> m = n" for u m using d(2) [of u m] n by simp
    have m: "inside (sg_place s' u) \<longleftrightarrow> sg_mutex s' = Some u" for u using d(1) [of u] d(1) [of t] Built by (auto simp: s')
    have all: "0 < m \<Longrightarrow> m \<le> sg_made s \<Longrightarrow> m = n \<or> m \<in> set (sg_deleted s)" for m using d(7) [of m] n S by auto
    show ?thesis unfolding single_ok_def using B m all n d(4,5) by (auto simp: s')
  next
    case Leaving
    have s': "s' = at_place t Reading (s\<lparr>sg_mutex := None\<rparr>)" using assms(2) Leaving by (simp add: get_instance_step_def)
    show ?thesis using alone Leaving by (intro moved_ok [OF k, of s' t Reading]) (auto simp: s')
  next
    case Reading
    have s': "s' = at_place t Outside (s\<lparr>sg_results := sg_results s @ [sg_single s]\<rparr>)" using assms(2) Reading by (simp add: get_instance_step_def)
    show ?thesis using d(1) [of t] d(1) Reading by (intro moved_ok [OF k, of s' t Outside]) (auto simp: s')
  qed
qed

lemma destroy_ok: "single_ok s \<Longrightarrow> single_ok (destroy s)"
  by (auto simp: single_ok_def destroy_def Let_def)

lemma new_single_ok: "single_ok new_single"
  by (simp add: single_ok_def new_single_def)

lemma single_reachable_ok: "single_step\<^sup>*\<^sup>* new_single s \<Longrightarrow> single_ok s"
  by (induction rule: rtranclp_induct) (auto intro: new_single_ok single_step_ok destroy_ok elim!: single_step.cases)

text \<open>As long as nobody calls \<open>destroy\<close>: a thread that will read the pointer finds the instance.\<close>

definition settled :: "single \<Rightarrow> bool" where
  "settled s \<longleftrightarrow> sg_deleted s = [] \<and> sg_made s \<le> 1 \<and> (\<forall>t. sg_place s t = Leaving \<or> sg_place s t = Reading \<longrightarrow> sg_single s = 1) \<and> set (sg_results s) \<subseteq> {1}"

lemma call_step_settled:
  assumes "single_ok s" "settled s" "get_instance_step t s = Some s'"
  shows "settled s'"
proof -
  note d = single_okD [OF assms(1)]
  have b: "sg_single s \<noteq> 0 \<Longrightarrow> sg_single s = 1" using d(3) assms(2) by (auto simp: settled_def)
  show ?thesis
  proof (cases "sg_place s t")
    case Second_test
    have "sg_place s u \<noteq> Built n" for u n using d(1) [of u] d(1) [of t] Second_test by (cases "u = t") force+
    then have "sg_single s = 0 \<Longrightarrow> sg_made s = 0" using d(7) [of 1] assms(2) by (auto simp: settled_def le_Suc_eq)
    then show ?thesis using assms(2,3) Second_test b by (auto simp: get_instance_step_def construct_def settled_def Let_def split: if_splits)
  next
    case (Built n)
    then show ?thesis using assms(2,3) d(2) [OF Built] by (auto simp: get_instance_step_def settled_def split: if_splits)
  qed (use assms(2,3) b in \<open>auto simp: get_instance_step_def settled_def split: if_splits\<close>)
qed

lemma call_step_single: "call_step\<^sup>*\<^sup>* s s' \<Longrightarrow> single_step\<^sup>*\<^sup>* s s'"
  by (induction rule: rtranclp_induct) (auto elim!: call_step.cases intro: rtranclp.rtrancl_into_rtrancl Call)

lemma calls_settled: "call_step\<^sup>*\<^sup>* new_single s \<Longrightarrow> settled s"
proof (induction rule: rtranclp_induct)
  case base
  show ?case by (simp add: settled_def new_single_def)
next
  case (step s s')
  from step(2) obtain t where "get_instance_step t s = Some s'" by (auto elim: call_step.cases)
  then show ?case using call_step_settled [OF single_reachable_ok [OF call_step_single [OF step(1)]] step(3)] by blast
qed

text \<open>
  C27: The double-checked lock.  However the threads interleave, at most one instance is constructed and
  every call returns it; a call never waits for ever, since the thread that has the mutex can go on.
\<close>

theorem one_instance:
  assumes "call_step\<^sup>*\<^sup>* new_single s"
  shows "sg_made s \<le> 1 \<and> set (sg_results s) \<subseteq> {1} \<and> peek s \<in> {0, 1} \<and>
    (get_instance_step t s = None \<longrightarrow> (\<exists>u s'. sg_mutex s = Some u \<and> get_instance_step u s = Some s'))"
proof -
  have k: "single_ok s" using single_reachable_ok [OF call_step_single [OF assms]] .
  have w: "get_instance_step t s = None \<Longrightarrow> sg_mutex s \<noteq> None" by (auto simp: get_instance_step_def split: place.splits if_splits)
  have "sg_mutex s = Some u \<Longrightarrow> get_instance_step u s \<noteq> None" for u
    using single_okD(1) [OF k, of u] by (auto simp: get_instance_step_def inside_def split: place.splits)
  then show ?thesis using calls_settled [OF assms] single_okD(3) [OF k] w by (auto simp: settled_def peek_def)
qed

text \<open>
  With \<open>destroy\<close>, too, no instance is deleted twice and the pointer never names a deleted instance.
\<close>

theorem deleted_once:
  assumes "single_step\<^sup>*\<^sup>* new_single s"
  shows "distinct (sg_deleted s) \<and> peek s \<notin> set (sg_deleted s) \<and> (\<forall>n. 0 < n \<and> n \<le> sg_made s \<longrightarrow> n = peek s \<or> n \<in> set (sg_deleted s) \<or> (\<exists>t. sg_place s t = Built n))"
  using single_okD(5,6,7) [OF single_reachable_ok [OF assms]] by (auto simp: peek_def)

text \<open>But the pointer is read again for the return: a call that races with \<open>destroy\<close> returns null.\<close>

theorem instance_may_be_null:
  assumes "sg_place s t = First_test" "sg_single s \<noteq> 0" "get_instance_step t s = Some s1" "get_instance_step t (destroy s1) = Some s2"
  shows "sg_results s2 = sg_results s @ [0]"
  using assms by (auto simp: get_instance_step_def destroy_def Let_def)

definition demo_single :: single where
  "demo_single = new_single\<lparr>sg_single := 1, sg_made := 1, sg_place := (\<lambda>_. Outside)(0 := First_test)\<rparr>"

lemma instance_may_be_null_witness:
  "\<exists>s1 s2. get_instance_step 0 demo_single = Some s1 \<and> get_instance_step 0 (destroy s1) = Some s2 \<and> sg_results s2 = [0]"
proof -
  obtain s1 where s1: "get_instance_step 0 demo_single = Some s1" "sg_place s1 0 = Reading"
    by (simp add: demo_single_def new_single_def get_instance_step_def)
  obtain s2 where s2: "get_instance_step 0 (destroy s1) = Some s2" using s1(2) by (simp add: get_instance_step_def)
  have "sg_results s2 = sg_results demo_single @ [0]"
    by (rule instance_may_be_null [OF _ _ s1(1) s2]) (simp_all add: demo_single_def new_single_def)
  then show ?thesis using s1 s2 by (auto simp: demo_single_def new_single_def)
qed

lemma one_instance_witness: "\<exists>s. call_step\<^sup>*\<^sup>* new_single s \<and> sg_place s 3 = First_test \<and> sg_made s \<le> 1 \<and> set (sg_results s) \<subseteq> {1}"
proof -
  have "call_step new_single (at_place 3 First_test new_single)"
    by (rule call_step.intros [of 3]) (simp add: get_instance_step_def new_single_def)
  then have r: "call_step\<^sup>*\<^sup>* new_single (at_place 3 First_test new_single)" by simp
  then show ?thesis using one_instance [OF r] by (intro exI [of _ "at_place 3 First_test new_single"]) simp
qed

lemma deleted_once_witness: "distinct (sg_deleted (destroy new_single))"
  using deleted_once [of "destroy new_single"] single_step.Destroy [of new_single] by blast

end
