(* ===== verification/Kcp.thy ===== *)
theory Kcp
  imports Unpack SendQueue "HOL-Library.Multiset"
begin

text \<open>
  The KCP transport (\<open>io_transport_kcp\<close> in \<open>yasio/io_service.cpp\<close>), compiled in on request: a UDP transport
  whose datagrams go through the KCP library, which makes reliable messages of them.  The library is a
  parameter, a record of its functions on control blocks of any type.  The transport's \<open>do_read\<close> and
  \<open>do_write\<close> are here; what the service does with the bytes is \<open>deliver\<close> of \<open>Unpack\<close>.  Also the options of
  KCP and the frequency they impose on the loop.
\<close>

section \<open>Options\<close>

record kcp_options =
  kcp_conv :: int
  kcp_nodelay :: int
  kcp_interval :: int
  kcp_resend :: int
  kcp_ncwnd :: int
  kcp_sndwnd :: int
  kcp_rcvwnd :: int
  kcp_mtu :: int
  kcp_minrto :: int

definition default_kcp_options :: kcp_options where
  "default_kcp_options = \<lparr>kcp_conv = 0, kcp_nodelay = 1, kcp_interval = 10, kcp_resend = 2, kcp_ncwnd = 1,
     kcp_sndwnd = 32, kcp_rcvwnd = 128, kcp_mtu = 1400, kcp_minrto = 30\<rparr>"

datatype kcp_option =
    YOPT_C_KCP_CONV int int
  | YOPT_C_KCP_NODELAY int int int int int
  | YOPT_C_KCP_WINDOW_SIZE int int int
  | YOPT_C_KCP_MTU int int
  | YOPT_C_KCP_RTO_MIN int int

text \<open>The options of the channels, created with their defaults when they are first asked for.\<close>

definition kcp_options_of :: "(nat \<Rightarrow> kcp_options option) \<Rightarrow> nat \<Rightarrow> kcp_options" where
  "kcp_options_of opts i = (case opts i of None \<Rightarrow> default_kcp_options | Some o' \<Rightarrow> o')"

definition mod_kcp_options ::
  "nat \<Rightarrow> int \<Rightarrow> (kcp_options \<Rightarrow> kcp_options) \<Rightarrow> (nat \<Rightarrow> kcp_options option) \<Rightarrow> nat \<Rightarrow> kcp_options option" where
  "mod_kcp_options channels index f opts =
     (if 0 \<le> index \<and> nat index < channels then opts(nat index \<mapsto> f (kcp_options_of opts (nat index))) else opts)"

definition set_kcp_option ::
  "nat \<Rightarrow> kcp_option \<Rightarrow> (nat \<Rightarrow> kcp_options option) \<Rightarrow> nat \<Rightarrow> kcp_options option" where
  "set_kcp_option channels opt opts =
     (case opt of
        YOPT_C_KCP_CONV i v \<Rightarrow> mod_kcp_options channels i (\<lambda>o'. o'\<lparr>kcp_conv := v\<rparr>) opts
      | YOPT_C_KCP_NODELAY i nodelay interval resend nc \<Rightarrow>
          mod_kcp_options channels i
            (\<lambda>o'. o'\<lparr>kcp_nodelay := nodelay, kcp_interval := interval, kcp_resend := resend, kcp_ncwnd := nc\<rparr>) opts
      | YOPT_C_KCP_WINDOW_SIZE i sndwnd rcvwnd \<Rightarrow> mod_kcp_options channels i (\<lambda>o'. o'\<lparr>kcp_sndwnd := sndwnd, kcp_rcvwnd := rcvwnd\<rparr>) opts
      | YOPT_C_KCP_MTU i v \<Rightarrow> mod_kcp_options channels i (\<lambda>o'. o'\<lparr>kcp_mtu := v\<rparr>) opts
      | YOPT_C_KCP_RTO_MIN i v \<Rightarrow> mod_kcp_options channels i (\<lambda>o'. o'\<lparr>kcp_minrto := v\<rparr>) opts)"

section \<open>The transport\<close>

text \<open>
  The library, on control blocks of a type it chooses.  \<open>flush\<close> and \<open>update\<close> also give the datagrams
  they hand to the output callback.
\<close>

record 'k ikcp =
  ik_create :: "32 word \<Rightarrow> 'k"
  ik_nodelay :: "'k \<Rightarrow> int \<Rightarrow> int \<Rightarrow> int \<Rightarrow> int \<Rightarrow> 'k"
  ik_wndsize :: "'k \<Rightarrow> int \<Rightarrow> int \<Rightarrow> 'k"
  ik_setmtu :: "'k \<Rightarrow> int \<Rightarrow> 'k"
  ik_set_minrto :: "'k \<Rightarrow> int \<Rightarrow> 'k"
  ik_input :: "'k \<Rightarrow> byte list \<Rightarrow> int \<times> 'k"
  ik_peeksize :: "'k \<Rightarrow> int"
  ik_recv :: "'k \<Rightarrow> int \<Rightarrow> int \<times> byte list \<times> 'k"
  ik_send :: "'k \<Rightarrow> byte list \<Rightarrow> int \<times> 'k"
  ik_flush :: "'k \<Rightarrow> byte list list \<times> 'k"
  ik_update :: "'k \<Rightarrow> 32 word \<Rightarrow> byte list list \<times> 'k"
  ik_check :: "'k \<Rightarrow> 32 word \<Rightarrow> 32 word"

text \<open>\<open>kt_wire\<close> records the datagrams given to the socket; no destination stands for its peer.\<close>

record 'k io_transport_kcp =
  kt_udp :: io_transport
  kt_kcp :: 'k
  kt_rawbuf :: "byte list"
  kt_expire_time :: "32 word"
  kt_wire :: "(byte list \<times> endpoint option) list"

definition new_kcp_transport :: "'k ikcp \<Rightarrow> kcp_options \<Rightarrow> io_transport \<Rightarrow> 'k io_transport_kcp" where
  "new_kcp_transport api kopts udp =
     (let k = ik_create api (of_int (kcp_conv kopts));
          k = ik_nodelay api k (kcp_nodelay kopts) (kcp_interval kopts) (kcp_resend kopts) (kcp_ncwnd kopts);
          k = ik_wndsize api k (kcp_sndwnd kopts) (kcp_rcvwnd kopts);
          k = ik_setmtu api k (kcp_mtu kopts);
          k = ik_set_minrto api k (kcp_minrto kopts)
      in \<lparr>kt_udp = udp, kt_kcp = k, kt_rawbuf = replicate yasio_max_rcvbuf 0, kt_expire_time = 0, kt_wire = []\<rparr>)"

text \<open>The output callback: one datagram through the write primitive of UDP, whose errors are ignored.\<close>

definition kcp_output :: "byte list \<Rightarrow> 'k io_transport_kcp \<Rightarrow> 'k io_transport_kcp" where
  "kcp_output d kt =
     (let (dest, t) = ensure_destination (kt_udp kt)
      in kt\<lparr>kt_udp := t, kt_wire := kt_wire kt @ [(take yasio_udp_mss d, if tr_connected t then None else dest)]\<rparr>)"

definition kcp_outputs :: "byte list list \<Rightarrow> 'k io_transport_kcp \<Rightarrow> 'k io_transport_kcp" where
  "kcp_outputs ds kt = fold kcp_output ds kt"

section \<open>Sending\<close>

text \<open>\<open>write_cb_\<close>: the count \<open>ikcp_send\<close> gives and the error.\<close>

definition kcp_write_cb :: "'k ikcp \<Rightarrow> byte list \<Rightarrow> 'k io_transport_kcp \<Rightarrow> int \<times> int \<times> 'k io_transport_kcp" where
  "kcp_write_cb api data kt =
     (let (nsent, k) = ik_send api (kt_kcp kt) data
      in if nsent > 0
         then let (ds, k) = ik_flush api k
              in (nsent, 0, (kcp_outputs ds (kt\<lparr>kt_kcp := k\<rparr>))\<lparr>kt_expire_time := 0\<rparr>)
         else (nsent, EMSGSIZE, kt\<lparr>kt_kcp := k\<rparr>))"

text \<open>\<open>call_write\<close> on the operation at the head, over this primitive; \<open>udp\<close> is the mask of the channel.\<close>

definition kcp_call_write ::
  "'k ikcp \<Rightarrow> bool \<Rightarrow> send_op \<Rightarrow> 'k io_transport_kcp \<Rightarrow> (int \<times> int \<times> 'k io_transport_kcp \<times> write_out) result" where
  "kcp_call_write api udp op kt =
     (let rest = drop (op_offset op) (op_buffer op);
          (n, error, kt) = kcp_write_cb api rest kt;
          wo = write_done (kt_udp kt)
      in if n > 0
         then if nat n > length rest then Inl Undefined
              else let op' = op\<lparr>op_offset := op_offset op + nat n\<rparr>;
                       wo' = wo\<lparr>wo_transport := set_head op' (wo_transport wo), wo_wire := take (nat n) rest\<rparr>
                   in if op_offset op' = length (op_buffer op')
                      then andthen (complete_op op' 0 wo') (\<lambda>wo. Inr (n, 0, kt, wo))
                      else Inr (n, 0, kt, wo')
         else if n < 0
         then if not_send_error error then Inr (0, error, kt, wo)
              else if udp then andthen (complete_op op error wo) (\<lambda>wo. Inr (0, error, kt, wo))
              else Inr (n, error, kt, wo)
         else Inr (0, error, kt, wo))"

text \<open>\<open>io_transport::do_write\<close> over it.\<close>

definition kcp_flush_queue ::
  "'k ikcp \<Rightarrow> bool \<Rightarrow> 'k io_transport_kcp \<Rightarrow> (write_out \<times> 'k io_transport_kcp) result" where
  "kcp_flush_queue api udp kt =
     (let t = kt_udp kt
      in if io_socket t = None then Inr ((write_done t)\<lparr>wo_ok := False\<rparr>, kt)
         else case cq_peek (tr_send_queue t) of
                None \<Rightarrow> Inr (after_write 0 (write_done t), kt)
              | Some op \<Rightarrow>
                  andthen (kcp_call_write api udp op kt) (\<lambda>(n, error, kt, wo).
                    if n < 0
                    then Inr (wo\<lparr>wo_ok := False, wo_transport := set_last_errno error WRITE (wo_transport wo)\<rparr>, kt)
                    else Inr (after_write error wo, kt)))"

text \<open>The clock of the library: \<open>(IINT32)(current - expire_time_) >= 0\<close>.\<close>

definition kcp_due :: "32 word \<Rightarrow> 'k io_transport_kcp \<Rightarrow> bool" where
  "kcp_due current kt \<longleftrightarrow> 0 \<le> sint (current - kt_expire_time kt)"

definition kcp_update :: "'k ikcp \<Rightarrow> 32 word \<Rightarrow> 'k io_transport_kcp \<Rightarrow> 'k io_transport_kcp" where
  "kcp_update api current kt =
     (if kcp_due current kt
      then let (ds, k) = ik_update api (kt_kcp kt) current;
               kt = kcp_outputs ds (kt\<lparr>kt_kcp := k\<rparr>)
           in kt\<lparr>kt_expire_time := ik_check api (kt_kcp kt) current\<rparr>
      else kt)"

definition kcp_clock :: "int \<Rightarrow> 32 word" where
  "kcp_clock milliseconds = of_int milliseconds"

definition kcp_do_write ::
  "'k ikcp \<Rightarrow> bool \<Rightarrow> int \<Rightarrow> 'k io_transport_kcp \<Rightarrow> (write_out \<times> 'k io_transport_kcp) result" where
  "kcp_do_write api udp now kt =
     andthen (kcp_flush_queue api udp kt) (\<lambda>(wo, kt).
       let kt = kcp_update api (kcp_clock now) (kt\<lparr>kt_udp := wo_transport wo\<rparr>)
       in Inr (wo\<lparr>wo_transport := kt_udp kt\<rparr>, kt))"

section \<open>Receiving\<close>

definition kcp_handle_input :: "'k ikcp \<Rightarrow> byte list \<Rightarrow> int \<Rightarrow> 'k io_transport_kcp \<Rightarrow> int \<times> int \<times> 'k io_transport_kcp" where
  "kcp_handle_input api buf error kt =
     (let (r, k) = ik_input api (kt_kcp kt) buf
      in if r = 0 then (int (length buf), error, kt\<lparr>kt_kcp := k, kt_expire_time := 0\<rparr>)
         else (-1, ERR_invalid_packet, kt\<lparr>kt_kcp := k\<rparr>))"

text \<open>
  The part of \<open>do_read\<close> behind the socket: \<open>n\<close> is the count of the raw read.  The receive buffer grows
  when the message does not fit; the bytes it grows by are the ones the library fills.
\<close>

definition kcp_fetch ::
  "'k ikcp \<Rightarrow> int \<Rightarrow> 'k io_transport_kcp \<Rightarrow> (int \<times> bool \<times> 'k io_transport_kcp) result" where
  "kcp_fetch api n kt =
     (let t = kt_udp kt; size = ik_peeksize api (kt_kcp kt)
      in andthen
        (if size > 0
         then if tr_offset t < 0 then Inl Undefined
              else let off = nat (tr_offset t); need = nat size + off;
                       buf = tr_buffer t @ replicate (need - length (tr_buffer t)) 0;
                       (n, data, k) = ik_recv api (kt_kcp kt) size
                   in if length data > nat size \<or> n > int (length data) then Inl Undefined
                      else Inr (n, kt\<lparr>kt_kcp := k, kt_udp := t\<lparr>tr_buffer := splice off data buf\<rparr>\<rparr>)
         else Inr (n, kt))
        (\<lambda>(n, kt). if n > 0 then Inr (n, True, kt) else if n < 0 then Inr (0, False, kt) else Inr (n, False, kt)))"

definition kcp_process ::
  "'k ikcp \<Rightarrow> int \<Rightarrow> int \<Rightarrow> 'k io_transport_kcp \<Rightarrow> (int \<times> int \<times> bool \<times> 'k io_transport_kcp) result" where
  "kcp_process api n error kt =
     (let (error, kt) = (if n > 0 then snd (kcp_handle_input api (take (nat n) (kt_rawbuf kt)) error kt) else (error, kt))
      in if error = 0 then andthen (kcp_fetch api n kt) (\<lambda>(n, no_wait, kt). Inr (n, error, no_wait, kt))
         else Inr (n, error, False, kt))"

definition kcp_transport_do_read ::
  "'k ikcp \<Rightarrow> io_channel \<Rightarrow> recv_result \<Rightarrow> 'k io_transport_kcp
     \<Rightarrow> (int \<times> int \<times> bool \<times> io_channel \<times> 'k io_transport_kcp) result" where
  "kcp_transport_do_read api ctx r kt =
     (let (n, error, ctx) = call_read ctx r
      in andthen
        (case r of
           Recvd d \<Rightarrow> if length d \<le> length (kt_rawbuf kt) then Inr (kt\<lparr>kt_rawbuf := splice 0 d (kt_rawbuf kt)\<rparr>) else Inl Undefined
         | Recv_fail _ \<Rightarrow> Inr kt)
        (\<lambda>kt. andthen (kcp_process api n error kt) (\<lambda>(n, error, no_wait, kt). Inr (n, error, no_wait, ctx, kt))))"

text \<open>\<open>io_service::do_read\<close> on such a transport.\<close>

definition kcp_do_read ::
  "bool \<Rightarrow> 'k ikcp \<Rightarrow> io_channel \<Rightarrow> recv_result \<Rightarrow> 'k io_transport_kcp \<Rightarrow> (read_out \<times> 'k io_transport_kcp) result" where
  "kcp_do_read forward_packet api ctx r kt =
     (if io_socket (kt_udp kt) = None then Inr (read_done False ctx (kt_udp kt), kt)
      else andthen (kcp_transport_do_read api ctx r kt) (\<lambda>(n, error, no_wait, ctx, kt).
             andthen (deliver forward_packet (n, error, ctx, kt_udp kt)) (\<lambda>ro.
               Inr (ro\<lparr>ro_no_wait := ro_no_wait ro \<or> no_wait\<rparr>, kt\<lparr>kt_udp := ro_transport ro\<rparr>))))"

section \<open>The frequency of the loop\<close>

text \<open>
  \<open>nsched_\<close> and \<open>sched_freq_\<close>, the longest wait of a turn in microseconds: \<open>active_transport\<close> and
  \<open>handle_close\<close> on a channel of this kind.  \<open>kcp_interval_usec\<close> is \<open>interval()\<close>.
\<close>

record sched =
  sc_nsched :: int
  sc_freq :: int

definition yasio_max_wait_usec :: int where "yasio_max_wait_usec = 5 * 60 * 1000 * 1000"

definition new_sched :: sched where "new_sched = \<lparr>sc_nsched = 0, sc_freq = yasio_max_wait_usec\<rparr>"

definition kcp_interval_usec :: "int \<Rightarrow> int" where "kcp_interval_usec ms = ms * 1000"

definition sched_opened :: "int \<Rightarrow> sched \<Rightarrow> sched" where
  "sched_opened interval s =
     (let s = s\<lparr>sc_nsched := sc_nsched s + 1\<rparr>
      in if sc_freq s > interval then s\<lparr>sc_freq := interval\<rparr> else s)"

definition sched_closed :: "sched \<Rightarrow> sched" where
  "sched_closed s =
     (let s = s\<lparr>sc_nsched := sc_nsched s - 1\<rparr>
      in if sc_nsched s \<le> 0 then s\<lparr>sc_freq := yasio_max_wait_usec\<rparr> else s)"

section \<open>The clock\<close>

lemma sint_of_int_diff:
  assumes "- (2 ^ 31) \<le> a - b" "a - b < (2 :: int) ^ 31"
  shows "sint (of_int a - of_int b :: 32 word) = a - b"
proof -
  have "of_int a - of_int b = (of_int (a - b) :: 32 word)" by simp
  then show ?thesis using assms signed_take_bit_int_eq_self [of 31 "a - b"] sint_sbintrunc' [where ?'a = 32, of "a - b"] by simp
qed

lemma kcp_update_not_due: "\<not> kcp_due current kt \<Longrightarrow> kcp_update api current kt = kt"
  by (simp add: kcp_update_def)

text \<open>C38: The 32-bit clock wraps around, and the comparison of deadlines survives it: with a
  deadline less than \<open>2 ^ 31\<close> milliseconds away \<open>ikcp_update\<close> runs exactly from that time on, and the
  next deadline is the one the library asks for.\<close>

theorem kcp_deadline_wraps:
  assumes "kt_expire_time kt = of_int deadline" "- (2 ^ 31) \<le> now - deadline" "now - deadline < 2 ^ 31"
  shows "kcp_update api (kcp_clock now) kt =
    (if deadline \<le> now
     then let (ds, k) = ik_update api (kt_kcp kt) (kcp_clock now); kt' = kcp_outputs ds (kt\<lparr>kt_kcp := k\<rparr>)
          in kt'\<lparr>kt_expire_time := ik_check api (kt_kcp kt') (kcp_clock now)\<rparr>
     else kt)"
  using sint_of_int_diff [OF assms(2,3)] assms(1) by (simp add: kcp_update_def kcp_due_def kcp_clock_def)

text \<open>What sets the deadline: only an update does it to anything but 0.\<close>

lemma kcp_outputs_expire [simp]: "kt_expire_time (kcp_outputs ds kt) = kt_expire_time kt"
proof -
  have "kt_expire_time (kcp_output d kt) = kt_expire_time kt" for d and kt :: "'a io_transport_kcp"
    by (simp add: kcp_output_def split: prod.split)
  then show ?thesis unfolding kcp_outputs_def by (induction ds arbitrary: kt) simp_all
qed

lemma kcp_write_cb_expire: "kcp_write_cb api d kt = (n, e, kt') \<Longrightarrow> kt_expire_time kt' \<in> {0, kt_expire_time kt}"
  by (auto simp: kcp_write_cb_def split: prod.splits if_splits)

lemma kcp_flush_queue_expire:
  assumes "kcp_flush_queue api udp kt = Inr (wo, kt')"
  shows "kt_expire_time kt' \<in> {0, kt_expire_time kt}"
proof -
  have "kt_expire_time kt1 \<in> {0, kt_expire_time kt}" if "kcp_call_write api udp op kt = Inr (n, e, kt1, wo1)" for op n e kt1 wo1
  proof -
    obtain n0 e0 kt0 where w: "kcp_write_cb api (drop (op_offset op) (op_buffer op)) kt = (n0, e0, kt0)" by (cases "kcp_write_cb api (drop (op_offset op) (op_buffer op)) kt")
    from that have "kt1 = kt0" by (auto simp: kcp_call_write_def w Let_def andthen_Inr_iff split: if_splits)
    then show ?thesis using kcp_write_cb_expire [OF w] by simp
  qed
  then show ?thesis using assms
    by (fastforce simp: kcp_flush_queue_def Let_def andthen_Inr_iff split: if_splits option.splits)
qed

lemma kcp_transport_do_read_expire:
  assumes "kcp_transport_do_read api ctx r kt = Inr (n, e, w, ctx', kt')"
  shows "kt_expire_time kt' \<in> {0, kt_expire_time kt}"
proof -
  have f: "kt_expire_time k2 = kt_expire_time k1" if "kcp_fetch api m k1 = Inr (n', w', k2)" for m k1 n' w' k2
    using that by (auto simp: kcp_fetch_def Let_def andthen_Inr_iff split: if_splits prod.splits)
  have h: "kt_expire_time (snd (snd (kcp_handle_input api b e1 k1))) \<in> {0, kt_expire_time k1}" for b e1 k1
    by (simp add: kcp_handle_input_def split: prod.split)
  have p: "kt_expire_time k2 \<in> {0, kt_expire_time k1}" if "kcp_process api m e0 k1 = Inr (n', e', w', k2)" for m e0 k1 n' e' w' k2
    using that h [of "take (nat m) (kt_rawbuf k1)" e0 k1]
    by (auto simp: kcp_process_def Let_def andthen_Inr_iff split: if_splits prod.splits dest!: f)
  obtain m e0 c0 where c: "call_read ctx r = (m, e0, c0)" by (cases "call_read ctx r")
  from assms show ?thesis
    unfolding kcp_transport_do_read_def c by (auto simp: andthen_Inr_iff split: if_splits recv_result.splits dest!: p)
qed

text \<open>The mark for "at once" is the deadline 0.  In the second half of each period of the 32-bit
  clock, which begins after 24.8 days of uptime, that is a deadline in the future: no update runs on a
  connection opened then, and whatever it sends or receives leaves the deadline at 0.\<close>

theorem kcp_zero_deadline_sleeps:
  assumes "2 ^ 31 \<le> now mod 2 ^ 32" "kt_expire_time kt = 0"
  shows "kcp_update api (kcp_clock now) kt = kt \<and>
    (\<forall>udp wo kt'. kcp_do_write api udp now kt = Inr (wo, kt') \<longrightarrow>
       kt_expire_time kt' = 0 \<and> (\<exists>wo' kt1. kcp_flush_queue api udp kt = Inr (wo', kt1) \<and> kt_kcp kt' = kt_kcp kt1)) \<and>
    (\<forall>fwd ctx r ro kt'. kcp_do_read fwd api ctx r kt = Inr (ro, kt') \<longrightarrow> kt_expire_time kt' = 0)"
proof -
  have "(0 :: int) \<le> now mod 2 ^ 32" "now mod 2 ^ 32 < (2 :: int) ^ 32" by simp_all
  moreover have "(of_int (now mod 2 ^ 32 - 2 ^ 32) :: 32 word) = of_int now"
    by (simp only: word_of_int_eq_iff take_bit_eq_mod) (simp add: mod_diff_right_eq)
  ultimately have "sint (of_int now :: 32 word) < 0"
    using sint_of_int_diff [of "now mod 2 ^ 32 - 2 ^ 32" 0] assms(1) by simp
  then have sleeps: "kt_expire_time k = 0 \<Longrightarrow> kcp_update api (kcp_clock now) k = k" for k
    by (simp add: kcp_update_def kcp_due_def kcp_clock_def)
  have "kt_expire_time kt' = 0 \<and> (\<exists>wo' kt1. kcp_flush_queue api udp kt = Inr (wo', kt1) \<and> kt_kcp kt' = kt_kcp kt1)"
    if "kcp_do_write api udp now kt = Inr (wo, kt')" for udp wo kt'
  proof -
    from that obtain wo1 kt1 where kt1: "kcp_flush_queue api udp kt = Inr (wo1, kt1)"
      "kt' = kcp_update api (kcp_clock now) (kt1\<lparr>kt_udp := wo_transport wo1\<rparr>)"
      by (auto simp: kcp_do_write_def andthen_Inr_iff Let_def)
    then have "kt' = kt1\<lparr>kt_udp := wo_transport wo1\<rparr>" "kt_expire_time kt1 = 0"
      using sleeps [of "kt1\<lparr>kt_udp := wo_transport wo1\<rparr>"] kcp_flush_queue_expire [OF kt1(1)] assms(2) by auto
    then show ?thesis using kt1(1) by simp
  qed
  moreover have "kt_expire_time kt' = 0" if "kcp_do_read fwd api ctx r kt = Inr (ro, kt')" for fwd ctx r ro kt'
    using that assms(2) kcp_transport_do_read_expire
    by (fastforce simp: kcp_do_read_def andthen_Inr_iff split: if_splits)
  ultimately show ?thesis using sleeps assms(2) by blast
qed

section \<open>The frequency\<close>

datatype sched_event = Opened int | Closed int

text \<open>The intervals of the open connections after a sequence of openings and closings.\<close>

fun sched_run :: "sched_event list \<Rightarrow> int multiset \<times> sched \<Rightarrow> int multiset \<times> sched" where
  "sched_run [] st = st"
| "sched_run (Opened i # es) (m, s) = sched_run es (add_mset i m, sched_opened i s)"
| "sched_run (Closed i # es) (m, s) = (if i \<in># m then sched_run es (m - {#i#}, sched_closed s) else sched_run es (m, s))"

definition sched_ok :: "int multiset \<Rightarrow> sched \<Rightarrow> bool" where
  "sched_ok m s \<longleftrightarrow> sc_nsched s = int (size m) \<and> sc_freq s \<le> yasio_max_wait_usec \<and> (\<forall>i \<in># m. sc_freq s \<le> i) \<and>
     (m = {#} \<longrightarrow> sc_freq s = yasio_max_wait_usec)"

lemma sched_opened_ok: "sched_ok m s \<Longrightarrow> sched_ok (add_mset i m) (sched_opened i s)"
  by (auto simp: sched_ok_def sched_opened_def Let_def)

lemma sched_closed_ok: "sched_ok m s \<Longrightarrow> i \<in># m \<Longrightarrow> sched_ok (m - {#i#}) (sched_closed s)"
  by (drule multi_member_split) (auto simp: sched_ok_def sched_closed_def Let_def)

text \<open>However connections open and close, the service waits no longer than the interval of any
  open KCP connection, and five minutes when there is none.\<close>

theorem sched_wakes_kcp:
  "sched_run es ({#}, new_sched) = (m, s) \<Longrightarrow> sched_ok m s"
proof -
  have "sched_ok m0 s0 \<Longrightarrow> sched_run es (m0, s0) = (m, s) \<Longrightarrow> sched_ok m s" for m0 s0
    by (induction es "(m0, s0)" arbitrary: m0 s0 rule: sched_run.induct)
      (auto simp: sched_opened_ok sched_closed_ok split: if_splits)
  moreover have "sched_ok {#} new_sched" by (simp add: sched_ok_def new_sched_def)
  ultimately show "sched_run es ({#}, new_sched) = (m, s) \<Longrightarrow> sched_ok m s" by blast
qed

section \<open>Streams of messages\<close>

text \<open>
  What the library makes of the datagrams, one turn each (an empty one is a turn in which none has
  arrived): the message it hands out, or nothing.  \<open>None\<close> when a datagram is refused, completes no
  message, or the library announces one size and gives another.
\<close>

definition kcp_message :: "'k ikcp \<Rightarrow> byte list \<Rightarrow> 'k \<Rightarrow> (byte list \<times> 'k) option" where
  "kcp_message api d k =
     (let (r, k) = (if d = [] then (0, k) else ik_input api k d); size = ik_peeksize api k
      in if r \<noteq> 0 then None
         else if size > 0
         then let (n, m, k) = ik_recv api k size in if n = size \<and> int (length m) = size then Some (m, k) else None
         else if d = [] then Some ([], k) else None)"

fun kcp_messages :: "'k ikcp \<Rightarrow> byte list list \<Rightarrow> 'k \<Rightarrow> (byte list list \<times> 'k) option" where
  "kcp_messages api [] k = Some ([], k)"
| "kcp_messages api (d # ds) k =
     (case kcp_message api d k of None \<Rightarrow> None
      | Some (m, k) \<Rightarrow> (case kcp_messages api ds k of None \<Rightarrow> None | Some (ms, k) \<Rightarrow> Some (m # ms, k)))"

fun kcp_run :: "'k ikcp \<Rightarrow> io_channel \<Rightarrow> 'k io_transport_kcp \<Rightarrow> byte list list
    \<Rightarrow> (bool \<times> io_channel \<times> 'k io_transport_kcp \<times> byte list list) result" where
  "kcp_run api ctx kt [] = Inr (True, ctx, kt, [])"
| "kcp_run api ctx kt (d # ds) =
     andthen (kcp_do_read False api ctx (arrives d) kt) (\<lambda>(ro, kt).
       if ro_ok ro
       then andthen (kcp_run api (ro_channel ro) kt ds) (\<lambda>(ok, ctx, kt, pkts). Inr (ok, ctx, kt, ro_packets ro @ pkts))
       else Inr (False, ro_channel ro, kt, ro_packets ro))"

text \<open>Channels that differ in the byte counter only: the counter counts raw bytes here.\<close>

definition same_channel :: "io_channel \<Rightarrow> io_channel \<Rightarrow> bool" where
  "same_channel c c' \<longleftrightarrow> (\<exists>n. c' = c\<lparr>ch_bytes_transferred := n\<rparr>)"

lemma same_channel_refl [simp]: "same_channel c c"
  unfolding same_channel_def by (intro exI [of _ "ch_bytes_transferred c"]) simp

lemma same_channel_upd: "same_channel c c' \<Longrightarrow> same_channel (c\<lparr>ch_bytes_transferred := a\<rparr>) (c'\<lparr>ch_bytes_transferred := b\<rparr>)"
  "same_channel c c' \<Longrightarrow> same_channel c (c'\<lparr>ch_bytes_transferred := b\<rparr>)"
  "same_channel c c' \<Longrightarrow> same_channel (c\<lparr>ch_bytes_transferred := a\<rparr>) c'"
proof -
  show "same_channel c c' \<Longrightarrow> same_channel (c\<lparr>ch_bytes_transferred := a\<rparr>) c'"
    by (auto simp: same_channel_def)
qed (auto simp: same_channel_def)

definition same_read :: "read_out \<Rightarrow> read_out \<Rightarrow> bool" where
  "same_read ro ro' \<longleftrightarrow> ro_ok ro' = ro_ok ro \<and> ro_transport ro' = ro_transport ro \<and> ro_packets ro' = ro_packets ro \<and>
     ro_forwarded ro' = ro_forwarded ro \<and> same_channel (ro_channel ro) (ro_channel ro')"

lemma unpacked_channel:
  "unpacked ctx' r = map_sum id (ro_channel_update (\<lambda>_. ctx')) (unpacked ctx r)"
  by (cases r) (auto simp: unpacked_def read_done_def)

lemma deliver_channel:
  "deliver fwd (n, e, ctx\<lparr>ch_bytes_transferred := k\<rparr>, t) =
     map_sum id (ro_channel_update (\<lambda>_. ctx\<lparr>ch_bytes_transferred := k\<rparr>)) (deliver fwd (n, e, ctx, t))"
proof -
  note u = unpacked_channel [of "ctx\<lparr>ch_bytes_transferred := k\<rparr>" _ ctx]
  show ?thesis
  proof (cases "channel_decode ctx (take (nat (tr_offset t + n)) (tr_buffer t))")
    case (Inl x)
    then show ?thesis by (simp add: deliver_def Let_def u) (simp add: read_done_def)
  next
    case (Inr len)
    then show ?thesis by (simp add: deliver_def Let_def u) (simp add: read_done_def)
  qed
qed

lemma deliver_same_channel:
  assumes "same_channel ctx ctx'" "deliver fwd (n, e, ctx, t) = Inr ro"
  shows "\<exists>ro'. deliver fwd (n, e, ctx', t) = Inr ro' \<and> same_read ro ro'"
  using assms deliver_keeps_channel [OF assms(2)]
  by (auto simp: same_channel_def deliver_channel same_read_def)

lemma kcp_fetch_message:
  assumes "ik_peeksize api (kt_kcp kt) = int (length m)" "m \<noteq> []" "ik_recv api (kt_kcp kt) (int (length m)) = (int (length m), m, k')"
    and "0 \<le> tr_offset (kt_udp kt)" "nat (tr_offset (kt_udp kt)) + length m \<le> length (tr_buffer (kt_udp kt))"
  shows "kcp_fetch api n kt = Inr (int (length m), True, kt\<lparr>kt_kcp := k',
    kt_udp := (kt_udp kt)\<lparr>tr_buffer := splice (nat (tr_offset (kt_udp kt))) m (tr_buffer (kt_udp kt))\<rparr>\<rparr>)"
  using assms by (simp add: kcp_fetch_def Let_def)

lemma kcp_transport_turn:
  assumes m: "kcp_message api d (kt_kcp kt) = Some (m, k')" and d: "length d \<le> length (kt_rawbuf kt)"
    and cr: "call_read ctx (arrives d) = (int (length d), 0, cr)"
    and fits: "m \<noteq> [] \<Longrightarrow> 0 \<le> tr_offset (kt_udp kt) \<and> nat (tr_offset (kt_udp kt)) + length m \<le> length (tr_buffer (kt_udp kt))"
  shows "\<exists>w kt'. kcp_transport_do_read api ctx (arrives d) kt = Inr (int (length m), 0, w, cr, kt') \<and> kt_kcp kt' = k' \<and>
    length (kt_rawbuf kt') = length (kt_rawbuf kt) \<and>
    kt_udp kt' = (kt_udp kt)\<lparr>tr_buffer := splice (nat (tr_offset (kt_udp kt))) m (tr_buffer (kt_udp kt))\<rparr>"
proof (cases "d = []")
  case True
  show ?thesis
  proof (cases "ik_peeksize api (kt_kcp kt) > 0")
    case size: True
    with m True obtain n where "ik_recv api (kt_kcp kt) (ik_peeksize api (kt_kcp kt)) = (n, m, k')"
      "n = ik_peeksize api (kt_kcp kt)" "int (length m) = ik_peeksize api (kt_kcp kt)"
      by (auto simp: kcp_message_def Let_def split: prod.splits if_splits)
    moreover from this size have "m \<noteq> []" by auto
    ultimately show ?thesis using True cr kcp_fetch_message [of api kt m k' 0] fits
      by (auto simp: kcp_transport_do_read_def kcp_process_def arrives_def)
  next
    case False
    with m True have "m = []" "k' = kt_kcp kt" by (auto simp: kcp_message_def Let_def split: if_splits)
    then show ?thesis using True cr False by (auto simp: kcp_transport_do_read_def kcp_process_def arrives_def kcp_fetch_def Let_def)
  qed
next
  case False
  obtain k where k: "ik_input api (kt_kcp kt) d = (0, k)" "ik_peeksize api k = int (length m)" "0 < ik_peeksize api k"
      "ik_recv api k (int (length m)) = (int (length m), m, k')"
    using m False by (cases "m = []") (auto simp: kcp_message_def Let_def split: prod.splits if_splits)
  from k(2,3) have "m \<noteq> []" by auto
  then show ?thesis using k False cr d fits
    kcp_fetch_message [of api "kt\<lparr>kt_rawbuf := splice 0 d (kt_rawbuf kt), kt_kcp := k, kt_expire_time := 0\<rparr>" m k' "int (length d)"]
    by (auto simp: kcp_transport_do_read_def kcp_process_def arrives_def kcp_handle_input_def)
qed

text \<open>A turn that hands out a message is a turn of a stream transport on that message.\<close>

lemma kcp_turn:
  assumes m: "kcp_message api d (kt_kcp kt) = Some (m, k')" and c: "same_channel ctx ctx'"
    and d: "length d \<le> length (kt_rawbuf kt)" and sock: "io_socket (kt_udp kt) \<noteq> None"
    and ro: "do_read False ctx (arrives m) (kt_udp kt) = Inr ro"
  shows "\<exists>ro' kt'. kcp_do_read False api ctx' (arrives d) kt = Inr (ro', kt') \<and> same_read ro ro' \<and>
    kt_udp kt' = ro_transport ro \<and> kt_kcp kt' = k' \<and> length (kt_rawbuf kt') = length (kt_rawbuf kt)"
proof -
  define t where "t = (kt_udp kt)\<lparr>tr_buffer := splice (nat (tr_offset (kt_udp kt))) m (tr_buffer (kt_udp kt))\<rparr>"
  have fits: "m \<noteq> [] \<Longrightarrow> 0 \<le> tr_offset (kt_udp kt) \<and> nat (tr_offset (kt_udp kt)) + length m \<le> length (tr_buffer (kt_udp kt))"
    using ro sock by (auto simp: do_read_def andthen_Inr_iff transport_do_read_def Let_def arrives_def split: if_splits prod.splits)
  obtain cs where cs: "transport_do_read ctx (arrives m) (kt_udp kt) = Inr (int (length m), 0, cs, t)" "same_channel cs ctx'"
    using fits c by (cases "m = []")
      (auto simp: t_def transport_do_read_def call_read_def not_recv_error_def Let_def arrives_def same_channel_upd)
  obtain cr where cr: "call_read ctx' (arrives d) = (int (length d), 0, cr)" "same_channel cs cr"
    using cs(2) call_read_arrives [of ctx' d] by (auto simp: same_channel_upd split: if_splits)
  obtain w kt' where kt': "kcp_transport_do_read api ctx' (arrives d) kt = Inr (int (length m), 0, w, cr, kt')" "kt_kcp kt' = k'"
      "length (kt_rawbuf kt') = length (kt_rawbuf kt)" "kt_udp kt' = t"
    using kcp_transport_turn [OF m d cr(1) fits] by (auto simp: t_def)
  have "deliver False (int (length m), 0, cs, t) = Inr ro" using ro cs(1) sock by (simp add: do_read_def)
  from deliver_same_channel [OF cr(2) this] obtain ro' where
    "deliver False (int (length m), 0, cr, t) = Inr ro'" "same_read ro ro'" by blast
  then show ?thesis using kt' sock
    by (auto simp: kcp_do_read_def same_read_def intro!: exI [of _ "kt'\<lparr>kt_udp := ro_transport ro\<rparr>"])
qed

lemma kcp_run_as_stream:
  assumes "kcp_messages api ds (kt_kcp kt) = Some (ms, k')" "same_channel ctx ctx'" "\<forall>d \<in> set ds. length d \<le> length (kt_rawbuf kt)"
    and "io_socket (kt_udp kt) \<noteq> None" "run_reads ctx (kt_udp kt) ms = Inr (True, ctx1, t1, pkts)"
  shows "\<exists>ctx2 kt2. kcp_run api ctx' kt ds = Inr (True, ctx2, kt2, pkts) \<and> kt_udp kt2 = t1 \<and> kt_kcp kt2 = k'"
  using assms
proof (induction ds arbitrary: kt ms ctx ctx' pkts)
  case (Cons d ds)
  obtain m k ms' where m: "kcp_message api d (kt_kcp kt) = Some (m, k)" "kcp_messages api ds k = Some (ms', k')" "ms = m # ms'"
    using Cons.prems(1) by (auto split: option.splits prod.splits)
  obtain ro pkts' where ro: "do_read False ctx (arrives m) (kt_udp kt) = Inr ro" "ro_ok ro"
      "run_reads (ro_channel ro) (ro_transport ro) ms' = Inr (True, ctx1, t1, pkts')" "pkts = ro_packets ro @ pkts'"
    using Cons.prems(5) m(3) by (auto simp: andthen_Inr_iff split: if_splits)
  obtain ro' kt' where kt': "kcp_do_read False api ctx' (arrives d) kt = Inr (ro', kt')" "same_read ro ro'"
      "kt_udp kt' = ro_transport ro" "kt_kcp kt' = k" "length (kt_rawbuf kt') = length (kt_rawbuf kt)"
    using kcp_turn [OF m(1) Cons.prems(2) _ Cons.prems(4) ro(1)] Cons.prems(3) by auto
  have "\<exists>ctx2 kt2. kcp_run api (ro_channel ro') kt' ds = Inr (True, ctx2, kt2, pkts') \<and> kt_udp kt2 = t1 \<and> kt_kcp kt2 = k'"
    using Cons.IH [of kt' ms' "ro_channel ro" "ro_channel ro'" pkts'] m ro kt' do_read_identity [OF ro(1)] Cons.prems(3,4)
    by (auto simp: same_read_def)
  then show ?case using kt' ro(2,4) by (auto simp: same_read_def)
qed simp

text \<open>C7: Frames sent over KCP come out as they went in: when the library hands out messages that
  make up the frames, one per turn, cut anywhere, every frame is reported once, in order, without its
  stripped part.\<close>

theorem kcp_stream_reassembled:
  assumes "lf_channel maxlen off lsize adj strip ctx" "strip \<le> header_length off lsize"
    and "list_all (lf_frame (ch_uparams ctx) (header_length off lsize)) fs"
    and "concat ms = concat fs" "answers_fit ctx (new_transport ident c udp (Some fd)) ms"
    and "kt = new_kcp_transport api kopts (new_transport ident c udp (Some fd))" "\<forall>d \<in> set ds. length d \<le> yasio_max_rcvbuf"
    and "kcp_messages api ds (kt_kcp kt) = Some (ms @ replicate (length fs) [], k')"
  shows "\<exists>ctx' kt'. kcp_run api ctx kt ds = Inr (True, ctx', kt', map (drop strip) fs) \<and> kt_kcp kt' = k'"
proof -
  have kt: "kt_udp kt = new_transport ident c udp (Some fd)" "length (kt_rawbuf kt) = yasio_max_rcvbuf"
    by (simp_all add: assms(6) new_kcp_transport_def Let_def)
  have "io_socket (kt_udp kt) \<noteq> None" by (simp add: kt(1) new_transport_def)
  moreover obtain ctx1 t1 where "run_reads ctx (kt_udp kt) (ms @ replicate (length fs) []) = Inr (True, ctx1, t1, map (drop strip) fs)"
    using lf_stream_reassembled [OF assms(1-5)] kt(1) by auto
  ultimately show ?thesis
    using kcp_run_as_stream [OF assms(8) same_channel_refl _ _, of ctx ctx1 t1 "map (drop strip) fs"] assms(7) kt(2) by auto
qed

section \<open>Datagrams without a message\<close>

text \<open>A library that takes every datagram for a message, but for the empty one and those that start with 0, which
  acknowledge; those that start with 255 are refused.\<close>

definition echo_kcp :: "byte list list ikcp" where
  "echo_kcp = \<lparr>ik_create = (\<lambda>_. []), ik_nodelay = (\<lambda>k _ _ _ _. k), ik_wndsize = (\<lambda>k _ _. k), ik_setmtu = (\<lambda>k _. k),
     ik_set_minrto = (\<lambda>k _. k),
     ik_input = (\<lambda>k d. if d = [] \<or> hd d = 0 then (0, k) else if hd d = 255 then (-1, k) else (0, k @ [d])),
     ik_peeksize = (\<lambda>k. if k = [] then -1 else int (length (hd k))),
     ik_recv = (\<lambda>k n. (n, hd k, tl k)),
     ik_send = (\<lambda>k d. (int (length d), k)), ik_flush = (\<lambda>k. ([], k)), ik_update = (\<lambda>k now. ([], k)),
     ik_check = (\<lambda>k now. now + 10)\<rparr>"

lemma kcp_raw_count:
  assumes d: "d \<noteq> []" "length d \<le> length (kt_rawbuf kt)" and k: "ik_input api (kt_kcp kt) d = (r, k)" "ik_peeksize api k \<le> 0"
  shows "\<exists>cr w kt'. kcp_transport_do_read api ctx (Recvd d) kt =
      Inr (int (length d), if r = 0 then 0 else ERR_invalid_packet, w, ctx\<lparr>ch_bytes_transferred := cr\<rparr>, kt') \<and> kt_udp kt' = kt_udp kt"
  using assms by (auto simp: kcp_transport_do_read_def kcp_process_def call_read_def kcp_handle_input_def kcp_fetch_def Let_def)

text \<open>C40: A datagram that completes no message, like an acknowledgement, or that the library refuses
  is taken for data all the same: its length, without its bytes, is what the service goes on with.  Without
  a length field that many bytes of whatever the receive buffer holds are reported as a packet, and a
  refused datagram does not end the connection.\<close>

theorem kcp_stale_bytes_delivered:
  assumes "d \<noteq> []" "length d \<le> length (kt_rawbuf kt)" "length d \<le> length (tr_buffer (kt_udp kt))"
    and "ik_input api (kt_kcp kt) d = (r, k)" "ik_peeksize api k \<le> 0"
    and "io_socket (kt_udp kt) \<noteq> None" "tr_offset (kt_udp kt) = 0" "tr_expected_size (kt_udp kt) = -1" "tr_expected_packet (kt_udp kt) = []"
    and "ch_decode_len ctx = None" "length_field_offset (ch_uparams ctx) < 0" "initial_bytes_to_strip (ch_uparams ctx) = 0"
  shows "\<exists>ro kt'. kcp_do_read False api ctx (Recvd d) kt = Inr (ro, kt') \<and> ro_ok ro \<and>
    ro_packets ro = [take (length d) (tr_buffer (kt_udp kt))]"
proof -
  obtain cr w kt' where kt': "kcp_transport_do_read api ctx (Recvd d) kt =
      Inr (int (length d), if r = 0 then 0 else ERR_invalid_packet, w, ctx\<lparr>ch_bytes_transferred := cr\<rparr>, kt')" "kt_udp kt' = kt_udp kt"
    using kcp_raw_count [OF assms(1,2,4,5)] by blast
  have "channel_decode ctx (take (length d) (tr_buffer (kt_udp kt))) = Inr (int (length d))"
    using assms(3,10,11) by (simp add: channel_decode_def builtin_decode_len_def)
  then have dl: "\<exists>ro. deliver False (int (length d), e, ctx\<lparr>ch_bytes_transferred := cr\<rparr>, kt_udp kt) = Inr ro \<and> ro_ok ro \<and>
      ro_packets ro = [take (length d) (tr_buffer (kt_udp kt))]" for e
    using assms(1,3,7-9,12) by (simp add: deliver_def Let_def unpack_def unpacked_def read_done_def)
  then obtain ro where "deliver False (int (length d), if r = 0 then 0 else ERR_invalid_packet, ctx\<lparr>ch_bytes_transferred := cr\<rparr>, kt_udp kt) = Inr ro"
    "ro_ok ro" "ro_packets ro = [take (length d) (tr_buffer (kt_udp kt))]" by blast
  moreover obtain fd where "io_socket (kt_udp kt) = Some fd" using assms(6) by blast
  ultimately show ?thesis using kt' by (simp add: kcp_do_read_def)
qed

definition demo_kcp :: "byte list \<Rightarrow> byte list list io_transport_kcp" where
  "demo_kcp buf = (new_kcp_transport echo_kcp default_kcp_options (new_transport 9 0 True (Some 6)))
     \<lparr>kt_udp := (new_transport 9 0 True (Some 6))\<lparr>tr_buffer := buf\<rparr>, kt_rawbuf := replicate 8 0\<rparr>"

theorem kcp_stale_bytes_delivered_witness:
  "\<exists>ro kt'. kcp_do_read False echo_kcp (new_channel 1 0) (Recvd [0, 1, 2]) (demo_kcp [7, 8, 9, 10]) = Inr (ro, kt') \<and> ro_ok ro \<and>
     ro_packets ro = [[7, 8, 9]]"
  using kcp_stale_bytes_delivered [of "[0, 1, 2]" "demo_kcp [7, 8, 9, 10]" echo_kcp 0 "[]" "new_channel 1 0"]
  by (simp add: demo_kcp_def echo_kcp_def new_kcp_transport_def new_transport_def new_channel_def default_uparams_def)

theorem kcp_stream_reassembled_witness:
  "\<exists>ctx' kt'. kcp_run echo_kcp demo_channel (new_kcp_transport echo_kcp default_kcp_options (new_transport 9 0 True (Some 6)))
     [[2, 7], [8, 1, 9], [], []] = Inr (True, ctx', kt', [[2, 7, 8], [1, 9]])"
proof -
  let ?kt = "new_kcp_transport echo_kcp default_kcp_options (new_transport 9 0 True (Some 6))"
  have "kcp_messages echo_kcp [[2, 7], [8, 1, 9], [], []] (kt_kcp ?kt) = Some ([[2, 7], [8, 1, 9], [], []], [])"
    by (simp add: kcp_message_def echo_kcp_def new_kcp_transport_def)
  then show ?thesis
    using kcp_stream_reassembled [of 1024 0 1 1 0 demo_channel "[[2, 7, 8], [1, 9]]" "[[2, 7], [8, 1, 9]]" 9 0 True 6 ?kt echo_kcp
        default_kcp_options "[[2, 7], [8, 1, 9], [], []]" "[]"]
      demo_stream(1,2) demo_stream(3) [of "[[2, 7], [8, 1, 9]]" 9 0 True 6]
    by (simp add: yasio_max_rcvbuf_def header_length_def del: kcp_messages.simps kcp_run.simps) blast
qed

theorem kcp_deadline_wraps_witness:
  "kt_expire_time (kcp_update echo_kcp (kcp_clock (2 ^ 32 + 3)) ((demo_kcp [])\<lparr>kt_expire_time := -2\<rparr>)) = 13"
  using kcp_deadline_wraps [of "(demo_kcp [])\<lparr>kt_expire_time := -2\<rparr>" "2 ^ 32 - 2" "2 ^ 32 + 3" echo_kcp]
  by (simp add: echo_kcp_def demo_kcp_def kcp_clock_def kcp_outputs_def)

theorem kcp_zero_deadline_sleeps_witness:
  "kcp_update echo_kcp (kcp_clock (25 * 86400000)) (demo_kcp []) = demo_kcp []"
  using kcp_zero_deadline_sleeps [of "25 * 86400000" "demo_kcp []" echo_kcp] by (simp add: demo_kcp_def new_kcp_transport_def)

theorem sched_wakes_kcp_witness:
  "sched_run [Opened 10000, Opened 20000, Closed 10000] ({#}, new_sched) = ({#20000#}, \<lparr>sc_nsched = 1, sc_freq = 10000\<rparr>) \<and>
     sched_ok {#20000#} \<lparr>sc_nsched = 1, sc_freq = 10000\<rparr>"
  using sched_wakes_kcp [of "[Opened 10000, Opened 20000, Closed 10000]" "{#20000#}" "\<lparr>sc_nsched = 1, sc_freq = 10000\<rparr>"]
  by (simp add: sched_opened_def sched_closed_def new_sched_def yasio_max_wait_usec_def)

end
