(* ===== verification/Tls.thy ===== *)
theory Tls
  imports Unpack SendQueue Split XxSocket
begin

text \<open>
  TLS connections, compiled in on request: the wrappers of OpenSSL (\<open>impl/openssl.hpp\<close>) and mbed TLS
  (\<open>impl/mbedtls.hpp\<close>), the transport over either (\<open>io_transport_ssl\<close> in \<open>io_service.cpp\<close>) in the turns of
  the loop, and the contexts the service keeps.  What the libraries answer is a parameter, one record per
  call; \<open>tls_backend\<close> is what the transport relies on, and both wrappers give it.
\<close>

section \<open>OpenSSL\<close>

definition ERR_ssl_handshake_failed :: int where "ERR_ssl_handshake_failed = -23"
definition ERR_ssl_write_failed :: int where "ERR_ssl_write_failed = -22"
definition ERR_ssl_read_failed :: int where "ERR_ssl_read_failed = -21"

definition SSL_ERROR_WANT_READ :: int where "SSL_ERROR_WANT_READ = 2"
definition SSL_ERROR_WANT_WRITE :: int where "SSL_ERROR_WANT_WRITE = 3"
definition SSL_ERROR_SYSCALL :: int where "SSL_ERROR_SYSCALL = 5"
definition SSL_ERROR_ZERO_RETURN :: int where "SSL_ERROR_ZERO_RETURN = 6"

text \<open>
  What a call of the library leaves: its result, \<open>SSL_get_error\<close>, the first entry of the error queue
  (0 when it is empty), \<open>errno\<close>, and the plain text a read has written.
\<close>

record ssl_answer =
  sa_ret :: int
  sa_error :: int
  sa_queue :: "64 word"
  sa_errno :: int
  sa_data :: "byte list"

definition YSSL_ERR_MASK :: "32 word" where "YSSL_ERR_MASK = 0x80000000"

definition ossl_do_handshake :: "ssl_answer \<Rightarrow> int \<Rightarrow> int \<times> int" where
  "ossl_do_handshake a err =
     (if sa_ret a = 1 then (0, err)
      else let sslerr = sa_error a
           in if sslerr = SSL_ERROR_WANT_READ \<or> sslerr = SSL_ERROR_WANT_WRITE then (-1, EWOULDBLOCK)
              else (if sslerr \<noteq> SSL_ERROR_SYSCALL then sint (ucast (sa_queue a OR ucast YSSL_ERR_MASK) :: 32 word) else sa_errno a,
                    ERR_ssl_handshake_failed))"

datatype error_text = Ssl_text "32 word" | System_text int

definition ossl_strerror :: "int \<Rightarrow> error_text" where
  "ossl_strerror sslerr =
     (let w = of_int sslerr :: 32 word
      in if testbits w YSSL_ERR_MASK then Ssl_text (w AND NOT YSSL_ERR_MASK) else System_text sslerr)"

definition ossl_write :: "ssl_answer \<Rightarrow> int \<Rightarrow> int \<times> int" where
  "ossl_write a err =
     (if sa_ret a > 0 then (sa_ret a, err)
      else let sslerr = sa_error a
           in if sslerr = SSL_ERROR_ZERO_RETURN then (0, sa_errno a)
              else (-1, if sslerr = SSL_ERROR_WANT_READ \<or> sslerr = SSL_ERROR_WANT_WRITE then EWOULDBLOCK else ERR_ssl_write_failed))"

definition ossl_read :: "ssl_answer \<Rightarrow> int \<Rightarrow> int \<times> int" where
  "ossl_read a err =
     (if sa_ret a > 0 then (sa_ret a, err)
      else let sslerr = sa_error a
           in if sslerr = SSL_ERROR_WANT_READ \<or> sslerr = SSL_ERROR_WANT_WRITE then (-1, EWOULDBLOCK)
              else let err = (if sslerr = SSL_ERROR_SYSCALL then sa_errno a else ERR_ssl_read_failed)
                   in if sslerr = SSL_ERROR_ZERO_RETURN \<or> sa_queue a = 0 then (0, err) else (-1, err))"

text \<open>The callbacks through which the library reaches the socket: the result, and the retry flags for writing and reading.\<close>

definition MSG_NOSIGNAL :: int where "MSG_NOSIGNAL = 0x4000"

definition ossl_bio_write :: "os \<Rightarrow> int \<Rightarrow> byte list \<Rightarrow> int \<Rightarrow> world \<Rightarrow> int \<times> (bool \<times> bool) \<times> world" where
  "ossl_bio_write os fd buf blen w =
     (let (nwritten, w) = send os fd buf blen MSG_NOSIGNAL w;
          retry = nwritten < 0 \<and> (EAGAIN = get_last_errno w \<or> EWOULDBLOCK = get_last_errno w)
      in (nwritten, (retry, False), w))"

definition ossl_bio_read :: "os \<Rightarrow> int option \<Rightarrow> byte list option \<Rightarrow> int \<Rightarrow> world \<Rightarrow> int \<times> byte list option \<times> (bool \<times> bool) option \<times> world" where
  "ossl_bio_read os backend buf blen w =
     (case (buf, backend) of
        (Some b, Some fd) \<Rightarrow>
          let (nread, b, w) = recv os fd b blen 0 w;
              retry = nread < 0 \<and> (EAGAIN = get_last_errno w \<or> EWOULDBLOCK = get_last_errno w)
          in (nread, Some b, Some (False, retry), w)
      | _ \<Rightarrow> (0, buf, None, w))"

section \<open>mbed TLS\<close>

definition MBEDTLS_ERR_SSL_WANT_READ :: int where "MBEDTLS_ERR_SSL_WANT_READ = -0x6900"
definition MBEDTLS_ERR_SSL_WANT_WRITE :: int where "MBEDTLS_ERR_SSL_WANT_WRITE = -0x6880"
definition MBEDTLS_ERR_SSL_PEER_CLOSE_NOTIFY :: int where "MBEDTLS_ERR_SSL_PEER_CLOSE_NOTIFY = -0x7880"
definition MBEDTLS_ERR_NET_CONN_RESET :: int where "MBEDTLS_ERR_NET_CONN_RESET = -0x0050"
definition MBEDTLS_ERR_NET_SEND_FAILED :: int where "MBEDTLS_ERR_NET_SEND_FAILED = -0x004E"
definition EPIPE :: int where "EPIPE = 32"
definition ECONNRESET :: int where "ECONNRESET = 104"

text \<open>Here a call leaves its result, whether the handshake is over, and \<open>errno\<close>.\<close>

record mbed_answer =
  ma_ret :: int
  ma_over :: bool
  ma_errno :: int
  ma_data :: "byte list"

definition mbed_want :: "int \<Rightarrow> bool" where
  "mbed_want ret \<longleftrightarrow> ret = MBEDTLS_ERR_SSL_WANT_READ \<or> ret = MBEDTLS_ERR_SSL_WANT_WRITE"

definition mbed_do_handshake :: "mbed_answer \<Rightarrow> int \<Rightarrow> int \<times> int" where
  "mbed_do_handshake a err =
     (let ret = ma_ret a
      in if ret = 0 then (if ma_over a then (0, err) else (-1, EWOULDBLOCK))
         else if mbed_want ret then (ret, EWOULDBLOCK)
         else (ret, ERR_ssl_handshake_failed))"

definition mbed_write :: "mbed_answer \<Rightarrow> int \<Rightarrow> int \<times> int" where
  "mbed_write a err =
     (let n = ma_ret a
      in if n > 0 then (n, err) else (-1, if mbed_want n then EWOULDBLOCK else ERR_ssl_write_failed))"

text \<open>At the end of the stream the session is told to close as well.\<close>

definition mbed_read :: "mbed_answer \<Rightarrow> int \<Rightarrow> int \<times> int" where
  "mbed_read a err =
     (let n = ma_ret a
      in if n > 0 then (n, err)
         else if n = MBEDTLS_ERR_SSL_PEER_CLOSE_NOTIFY \<or> n = 0 then (0, ma_errno a)
         else (n, if mbed_want n then EWOULDBLOCK else ERR_ssl_read_failed))"

definition mbed_send :: "os \<Rightarrow> int \<Rightarrow> byte list \<Rightarrow> nat \<Rightarrow> world \<Rightarrow> int \<times> world" where
  "mbed_send os fd buf len w =
     (let (ret, w) = send os fd buf (to_int32 (int len)) MSG_NOSIGNAL w
      in if ret < 0
         then let err = get_last_errno w
              in if err = EWOULDBLOCK \<or> err = EAGAIN then (MBEDTLS_ERR_SSL_WANT_WRITE, w)
                 else if err = EPIPE \<or> err = ECONNRESET then (MBEDTLS_ERR_NET_CONN_RESET, w)
                 else if err = EINTR then (MBEDTLS_ERR_SSL_WANT_WRITE, w)
                 else (MBEDTLS_ERR_NET_SEND_FAILED, w)
         else (ret, w))"

section \<open>What the transport relies on\<close>

record 'a tls_api =
  ta_handshake :: "'a \<Rightarrow> int \<Rightarrow> int \<times> int"
  ta_read :: "'a \<Rightarrow> int \<Rightarrow> int \<times> int"
  ta_write :: "'a \<Rightarrow> int \<Rightarrow> int \<times> int"
  ta_data :: "'a \<Rightarrow> byte list"

definition openssl :: "ssl_answer tls_api" where
  "openssl = \<lparr>ta_handshake = ossl_do_handshake, ta_read = ossl_read, ta_write = ossl_write, ta_data = sa_data\<rparr>"

definition mbedtls :: "mbed_answer tls_api" where
  "mbedtls = \<lparr>ta_handshake = mbed_do_handshake, ta_read = mbed_read, ta_write = mbed_write, ta_data = ma_data\<rparr>"

text \<open>
  The contract of \<open>yssl_do_handshake\<close>, \<open>yssl_read\<close> and \<open>yssl_write\<close> in \<open>yasio/ssl.hpp\<close>: the error
  is left alone on success, says to try again, or is the error of the operation.
\<close>

locale tls_backend =
  fixes api :: "'a tls_api"
  assumes handshake_error: "ta_handshake api a 0 = (r, e) \<Longrightarrow> r = 0 \<and> e = 0 \<or> e = EWOULDBLOCK \<or> e = ERR_ssl_handshake_failed"
    and read_error: "ta_read api a 0 = (n, e) \<Longrightarrow> 0 < n \<Longrightarrow> e = 0"
    and write_error: "ta_write api a 0 = (n, e) \<Longrightarrow> 0 < n \<Longrightarrow> e = 0"
    and write_fails: "ta_write api a 0 = (n, e) \<Longrightarrow> n < 0 \<Longrightarrow> e = EWOULDBLOCK \<or> e = ERR_ssl_write_failed"

interpretation ossl: tls_backend openssl
  by unfold_locales
    (auto simp: openssl_def ossl_do_handshake_def ossl_read_def ossl_write_def Let_def split: if_splits)

interpretation mbed: tls_backend mbedtls
  by unfold_locales
    (auto simp: mbedtls_def mbed_do_handshake_def mbed_read_def mbed_write_def Let_def split: if_splits)

section \<open>The transport\<close>

text \<open>Which callbacks \<open>read_cb_\<close> and \<open>write_cb_\<close> are; before the handshake is over there is none for writing.\<close>

datatype ssl_primitives = Handshaking | Established

record io_transport_ssl =
  st_tcp :: io_transport
  st_primitives :: ssl_primitives
  st_ssl :: bool  \<comment> \<open>there is a session\<close>

definition new_ssl_transport :: "nat \<Rightarrow> nat \<Rightarrow> nat option \<Rightarrow> io_transport_ssl" where
  "new_ssl_transport ident ctx sock =
     \<lparr>st_tcp = (new_transport ident ctx False sock)\<lparr>io_state := CONNECTING\<rparr>, st_primitives = Handshaking, st_ssl = True\<rparr>"

text \<open>\<open>do_ssl_handshake\<close>: the error it leaves (its result is always -1), the events and whether it wakes the loop up.\<close>

definition do_ssl_handshake ::
  "'a tls_api \<Rightarrow> 'a \<Rightarrow> io_channel \<Rightarrow> io_transport_ssl \<Rightarrow> int \<times> io_transport_ssl \<times> io_event list \<times> bool" where
  "do_ssl_handshake api a ctx st =
     (let (ret, error) = ta_handshake api a 0
      in if ret = 0 \<and> error = 0
         then let t = (st_tcp st)\<lparr>io_state := OPENED\<rparr>
              in (EWOULDBLOCK, st\<lparr>st_tcp := t, st_primitives := Established\<rparr>, [transport_event YEK_ON_OPEN 0 t], False)
         else if error = EWOULDBLOCK then (error, st, [], True)
         else (error, st, if ch_is YCM_CLIENT ctx then [channel_event YEK_ON_OPEN error ctx] else [], False))"

definition ssl_read_cb ::
  "'a tls_api \<Rightarrow> bool \<Rightarrow> 'a \<Rightarrow> io_channel \<Rightarrow> io_transport_ssl \<Rightarrow> recv_result \<times> io_transport_ssl \<times> io_event list \<times> bool" where
  "ssl_read_cb api revent a ctx st =
     (case st_primitives st of
        Handshaking \<Rightarrow> let (error, st, evs, wake) = do_ssl_handshake api a ctx st in (Recv_fail error, st, evs, wake)
      | Established \<Rightarrow>
          if revent
          then let (n, error) = ta_read api a 0
               in (if n > 0 then Recvd (ta_data api a) else if n = 0 then Recvd [] else Recv_fail error, st, [], False)
          else (Recv_fail EWOULDBLOCK, st, [], False))"

text \<open>
  The result of \<open>write_cb_\<close>.  A count of 0 with an error has the effect of that error when it is one
  of those that are waited for, and of a send of nothing otherwise.
\<close>

definition ssl_write_cb :: "'a tls_api \<Rightarrow> 'a \<Rightarrow> send_result" where
  "ssl_write_cb api a =
     (let (n, error) = ta_write api a 0
      in if n > 0 then Sent (nat n)
         else if n = 0 then (if not_send_error error then Send_fail error else Sent 0)
         else Send_fail error)"

definition ssl_do_write :: "'a tls_api \<Rightarrow> 'a \<Rightarrow> io_transport_ssl \<Rightarrow> write_out result" where
  "ssl_do_write api a st =
     (if st_primitives st = Handshaking \<and> io_socket (st_tcp st) \<noteq> None \<and> cq_peek (tr_send_queue (st_tcp st)) \<noteq> None
      then Inl BadFunctionCall
      else do_write False (ssl_write_cb api a) (st_tcp st))"

section \<open>A connection in the loop\<close>

text \<open>
  One connection with its channel: the events fired, the packets handed to the callback directly,
  how often the loop was woken up.
\<close>

record tls_conn =
  tc_alive :: bool
  tc_st :: io_transport_ssl
  tc_ctx :: io_channel
  tc_events :: "io_event list"
  tc_forwarded :: "byte list list"
  tc_wakeups :: nat
  tc_wire :: "byte list"

definition tls_start :: "nat \<Rightarrow> nat \<Rightarrow> io_channel \<Rightarrow> tls_conn" where
  "tls_start ident fd ctx =
     \<lparr>tc_alive = True, tc_st = new_ssl_transport ident (ch_index ctx) (Some fd), tc_ctx = ctx, tc_events = [],
      tc_forwarded = [], tc_wakeups = 0, tc_wire = []\<rparr>"

text \<open>\<open>handle_close\<close>: \<open>YEK_ON_CLOSE\<close> for a connection that was open, and \<open>do_ssl_shutdown\<close>.\<close>

definition tls_close :: "io_transport_ssl \<Rightarrow> tls_conn \<Rightarrow> tls_conn" where
  "tls_close st c =
     (let t = st_tcp st
      in c\<lparr>tc_alive := False,
           tc_st := st\<lparr>st_ssl := False, st_tcp := t\<lparr>io_error := 0, io_state := CLOSED, io_opmask := 0, io_socket := None\<rparr>\<rparr>,
           tc_events := tc_events c @ (if io_state t = OPENED then [transport_event YEK_ON_CLOSE (io_error t) t] else [])\<rparr>)"

text \<open>
  The turn of the connection in \<open>process_transports\<close>, with what the library answers to the read and to
  the write.  \<open>opm\<close> is the mask of the channel together with the service's stop flag.
\<close>

definition tls_turn :: "'a tls_api \<Rightarrow> bool \<Rightarrow> bool \<Rightarrow> 8 word \<Rightarrow> 'a \<Rightarrow> 'a \<Rightarrow> tls_conn \<Rightarrow> tls_conn result" where
  "tls_turn api forward_packet revent opm ra wa c =
     (if \<not> tc_alive c then Inr c
      else let (r, st, evs, wake) = ssl_read_cb api revent ra (tc_ctx c) (tc_st c)
           in andthen (do_read forward_packet (tc_ctx c) r (st_tcp st)) (\<lambda>ro.
                let st = st\<lparr>st_tcp := ro_transport ro\<rparr>;
                    c = c\<lparr>tc_ctx := ro_channel ro,
                          tc_events := tc_events c @ evs @ map (\<lambda>p. packet_event p (ro_transport ro)) (ro_packets ro),
                          tc_forwarded := tc_forwarded c @ ro_forwarded ro,
                          tc_wakeups := tc_wakeups c + (if wake then 1 else 0)\<rparr>
                in if \<not> ro_ok ro then Inr (tls_close st c)
                   else andthen (ssl_do_write api wa st) (\<lambda>wo.
                     let st = st\<lparr>st_tcp := wo_transport wo\<rparr>;
                         c = c\<lparr>tc_st := st, tc_wire := tc_wire c @ wo_wire wo\<rparr>
                     in if wo_ok wo \<and> io_opmask (st_tcp st) OR opm = 0 then Inr c
                        else let t = (if wo_ok wo \<and> io_error (st_tcp st) = 0
                                      then (st_tcp st)\<lparr>io_error := ERR_shutdown_by_localhost\<rparr> else st_tcp st)
                             in Inr (tls_close (st\<lparr>st_tcp := t\<rparr>) c))))"

text \<open>The user's \<open>write\<close> and \<open>close\<close> on its handle.\<close>

datatype 'a tls_step = Tls_write "byte list" "nat option" | Tls_close | Tls_turn bool "8 word" 'a 'a

definition tls_user :: "(io_transport \<Rightarrow> io_transport) \<Rightarrow> tls_conn \<Rightarrow> tls_conn" where
  "tls_user f c = (if tc_alive c then c\<lparr>tc_st := (tc_st c)\<lparr>st_tcp := f (st_tcp (tc_st c))\<rparr>\<rparr> else c)"

definition user_write :: "byte list \<Rightarrow> nat option \<Rightarrow> io_transport \<Rightarrow> io_transport" where
  "user_write buf h t = (case service_write buf h (Some t) of (_, Some t') \<Rightarrow> t' | _ \<Rightarrow> t)"

definition tls_step :: "'a tls_api \<Rightarrow> bool \<Rightarrow> 'a tls_step \<Rightarrow> tls_conn \<Rightarrow> tls_conn result" where
  "tls_step api forward_packet s c =
     (case s of
        Tls_write buf h \<Rightarrow> Inr (tls_user (user_write buf h) c)
      | Tls_close \<Rightarrow> Inr (tls_user (\<lambda>t. t\<lparr>io_opmask := setbits (io_opmask t) YOPM_CLOSE\<rparr>) c)
      | Tls_turn revent opm ra wa \<Rightarrow> tls_turn api forward_packet revent opm ra wa c)"

fun tls_run :: "'a tls_api \<Rightarrow> bool \<Rightarrow> 'a tls_step list \<Rightarrow> tls_conn \<Rightarrow> tls_conn result" where
  "tls_run api forward_packet [] c = Inr c"
| "tls_run api forward_packet (s # ss) c = andthen (tls_step api forward_packet s c) (tls_run api forward_packet ss)"

text \<open>The steps that ask for the connection to be closed.\<close>

fun asks_close :: "'a tls_step \<Rightarrow> bool" where
  "asks_close Tls_close \<longleftrightarrow> True"
| "asks_close (Tls_turn _ opm _ _) \<longleftrightarrow> opm \<noteq> 0"
| "asks_close (Tls_write _ _) \<longleftrightarrow> False"

section \<open>The protocol of events\<close>

lemma do_read_nothing:
  assumes "io_socket t \<noteq> None" "tr_offset t = 0" "tr_expected_size t = -1" "channel_decode ctx [] = Inr 0"
  shows "do_read fwd ctx (Recv_fail EWOULDBLOCK) t = Inr (read_done True ctx t)"
proof -
  have "t\<lparr>tr_offset := 0\<rparr> = t" using assms(2) by (cases t) simp
  then show ?thesis using assms
    by (auto simp: do_read_def transport_do_read_def call_read_def not_recv_error_def deliver_def Let_def read_done_def)
qed

lemma do_read_failed:
  assumes "io_socket t \<noteq> None" "\<not> not_recv_error e"
  shows "do_read fwd ctx (Recv_fail e) t = Inr (read_done False ctx (IoTypes.set_last_errno e READ t))"
  using assms by (auto simp: do_read_def transport_do_read_def call_read_def deliver_def Let_def)

lemma do_write_nothing:
  assumes "io_socket t \<noteq> None" "tr_send_queue t = []" "\<not> io_pollout t"
  shows "do_write udp ans t = Inr (write_done t)"
  using assms by (auto simp: do_write_def Let_def cq_peek_def cq_empty_def after_write_def)

lemma do_write_keeps:
  assumes "do_write udp ans t = Inr wo"
  shows "io_state (wo_transport wo) = io_state t \<and> io_socket (wo_transport wo) = io_socket t"
proof -
  have c: "io_state (wo_transport wo2) = io_state (wo_transport wo1) \<and> io_socket (wo_transport wo2) = io_socket (wo_transport wo1)"
    if "complete_op op e wo1 = Inr wo2" for op e wo1 wo2
    using that by (auto simp: complete_op_def andthen_Inr_iff)
  have w: "io_state (wo_transport wo2) = io_state (wo_transport wo1) \<and> io_socket (wo_transport wo2) = io_socket (wo_transport wo1)"
    if "call_write udp ans op wo1 = Inr (n, e, wo2)" for op n e wo1 wo2
    using that by (auto simp: call_write_def Let_def andthen_Inr_iff set_head_def split: send_result.splits if_splits dest!: c)
  show ?thesis using assms
    by (auto simp: do_write_def Let_def andthen_Inr_iff split: if_splits option.splits dest!: w)
qed

text \<open>Kinds and statuses of events; no event, the failed handshake of a client, or an opened connection.\<close>

definition ev_kinds :: "io_event list \<Rightarrow> (event_kind \<times> int) list" where
  "ev_kinds evs = map (\<lambda>e. (ev_kind e, ev_status e)) evs"

definition tls_protocol :: "bool \<Rightarrow> bool \<Rightarrow> bool \<Rightarrow> io_event list \<Rightarrow> bool" where
  "tls_protocol client close_asked alive evs \<longleftrightarrow>
     evs = [] \<and> (alive \<or> close_asked \<or> \<not> client) \<or>
     client \<and> \<not> alive \<and> ev_kinds evs = [(YEK_ON_OPEN, ERR_ssl_handshake_failed)] \<or>
     (\<exists>n e. ev_kinds evs = (YEK_ON_OPEN, 0) # replicate n (YEK_ON_PACKET, 0) @ (if alive then [] else [(YEK_ON_CLOSE, e)]))"

lemma event_simps [simp]:
  "ev_kind (transport_event k s t) = k" "ev_status (transport_event k s t) = s"
  "ev_kind (channel_event k s ctx) = k" "ev_status (channel_event k s ctx) = s"
  "ev_kind (packet_event p t) = YEK_ON_PACKET" "ev_status (packet_event p t) = 0"
  by (simp_all add: transport_event_def channel_event_def packet_event_def)

lemma ev_kinds_simps [simp]:
  "ev_kinds [] = []" "ev_kinds (e # es) = (ev_kind e, ev_status e) # ev_kinds es" "ev_kinds (a @ b) = ev_kinds a @ ev_kinds b"
  "ev_kinds (map (\<lambda>p. packet_event p t) ps) = replicate (length ps) (YEK_ON_PACKET, 0)"
  by (simp_all add: ev_kinds_def o_def map_replicate_const)

lemma tls_protocol_closed:
  assumes "ev_kinds evs = (YEK_ON_OPEN, 0) # replicate n (YEK_ON_PACKET, 0) @ [(YEK_ON_CLOSE, e)]"
  shows "tls_protocol client asked False evs"
  using assms unfolding tls_protocol_def by auto

lemma tls_protocol_short:
  "tls_protocol client True False []" "tls_protocol False asked False []"
  "ev_kinds evs = [(YEK_ON_OPEN, ERR_ssl_handshake_failed)] \<Longrightarrow> tls_protocol True asked False evs"
  "ev_kinds evs = [(YEK_ON_OPEN, 0), (YEK_ON_CLOSE, e)] \<Longrightarrow> tls_protocol client asked False evs"
  using tls_protocol_closed [of evs 0] by (auto simp: tls_protocol_def)

definition hs_transport :: "nat \<Rightarrow> nat \<Rightarrow> io_channel \<Rightarrow> 8 word \<Rightarrow> io_transport" where
  "hs_transport ident fd ctx m =
     (new_transport ident (ch_index ctx) False (Some fd))\<lparr>io_state := CONNECTING, io_opmask := m\<rparr>"

definition tls_waiting :: "nat \<Rightarrow> nat \<Rightarrow> io_channel \<Rightarrow> bool \<Rightarrow> tls_conn \<Rightarrow> bool" where
  "tls_waiting ident fd ctx close_asked c \<longleftrightarrow> tc_alive c \<and> st_primitives (tc_st c) = Handshaking \<and> tc_ctx c = ctx \<and> tc_events c = [] \<and>
     tc_forwarded c = [] \<and> tc_wire c = [] \<and> (\<exists>m. st_tcp (tc_st c) = hs_transport ident fd ctx m \<and> (m = 0 \<or> close_asked))"

definition tls_open :: "tls_conn \<Rightarrow> bool" where
  "tls_open c \<longleftrightarrow> tc_alive c \<and> st_primitives (tc_st c) = Established \<and> io_state (st_tcp (tc_st c)) = OPENED \<and>
     io_socket (st_tcp (tc_st c)) \<noteq> None \<and> (\<exists>n. ev_kinds (tc_events c) = (YEK_ON_OPEN, 0) # replicate n (YEK_ON_PACKET, 0))"

definition tls_inv :: "nat \<Rightarrow> nat \<Rightarrow> io_channel \<Rightarrow> bool \<Rightarrow> tls_conn \<Rightarrow> bool" where
  "tls_inv ident fd ctx close_asked c \<longleftrightarrow> tls_waiting ident fd ctx close_asked c \<or> tls_open c \<or>
     \<not> tc_alive c \<and> tls_protocol (ch_is YCM_CLIENT ctx) close_asked False (tc_events c)"

lemma tls_inv_protocol: "tls_inv ident fd ctx asked c \<Longrightarrow> tls_protocol (ch_is YCM_CLIENT ctx) asked (tc_alive c) (tc_events c)"
  by (auto simp: tls_inv_def tls_waiting_def tls_open_def tls_protocol_def)

lemma hs_transport_simps [simp]:
  "io_socket (hs_transport i fd ctx m) = Some fd" "tr_offset (hs_transport i fd ctx m) = 0"
  "tr_expected_size (hs_transport i fd ctx m) = -1" "tr_send_queue (hs_transport i fd ctx m) = []"
  "\<not> io_pollout (hs_transport i fd ctx m)" "io_state (hs_transport i fd ctx m) = CONNECTING" "io_opmask (hs_transport i fd ctx m) = m"
  "(hs_transport i fd ctx m)\<lparr>io_opmask := m'\<rparr> = hs_transport i fd ctx m'" "io_error (hs_transport i fd ctx m) = 0"
  by (simp_all add: hs_transport_def new_transport_def)

lemma tls_start_waiting: "tls_waiting ident fd ctx asked (tls_start ident fd ctx)"
  by (auto simp: tls_waiting_def tls_start_def new_ssl_transport_def hs_transport_def new_transport_def intro!: exI [of _ 0])

lemma user_write_keeps: "io_state (user_write buf h t) = io_state t" "io_socket (user_write buf h t) = io_socket t"
  by (auto simp: user_write_def service_write_def virtual_write_def transport_write_def udp_write_to_def ensure_destination_def Let_def)

lemma user_write_refused: "io_state t \<noteq> OPENED \<Longrightarrow> user_write buf h t = t"
  by (simp add: user_write_def service_write_def tr_is_open_def)

lemma tls_user_open:
  assumes "tls_open c" "\<And>t. io_state (f t) = io_state t \<and> io_socket (f t) = io_socket t"
  shows "tls_open (tls_user f c)"
  using assms by (simp add: tls_open_def tls_user_def)

lemma tls_user_inv:
  assumes "tls_inv ident fd ctx asked c" "\<And>t. io_state (f t) = io_state t" "\<And>t. io_socket (f t) = io_socket t"
    and "\<And>t. io_state t \<noteq> OPENED \<Longrightarrow> f t = t"
  shows "tls_inv ident fd ctx asked (tls_user f c)"
proof (cases "tls_open c")
  case True
  then show ?thesis using tls_user_open [of c f] assms(2,3) by (simp add: tls_inv_def)
next
  case False
  then have "\<not> tc_alive c \<or> io_state (st_tcp (tc_st c)) = CONNECTING" using assms(1) by (auto simp: tls_inv_def tls_waiting_def)
  then have "tls_user f c = c" using assms(4) by (auto simp: tls_user_def)
  then show ?thesis using assms(1) by simp
qed

lemma tls_user_close:
  assumes "tls_inv ident fd ctx asked c"
  shows "tls_inv ident fd ctx True (tls_user (\<lambda>t. t\<lparr>io_opmask := g t\<rparr>) c)"
proof (cases "tls_open c")
  case True
  then show ?thesis using tls_user_open [of c "\<lambda>t. t\<lparr>io_opmask := g t\<rparr>"] by (simp add: tls_inv_def)
next
  case False
  then show ?thesis using assms
    by (auto simp: tls_inv_def tls_user_def tls_waiting_def tls_protocol_def)
qed

context tls_backend begin

lemma waiting_turn:
  assumes w: "tls_waiting ident fd ctx asked c" and d: "channel_decode ctx [] = Inr 0"
    and t: "tls_turn api fwd revent opm ra wa c = Inr c'"
  shows "tls_inv ident fd ctx (asked \<or> opm \<noteq> 0) c'"
proof -
  obtain m where m: "st_tcp (tc_st c) = hs_transport ident fd ctx m" "m = 0 \<or> asked"
    and c: "tc_alive c" "st_primitives (tc_st c) = Handshaking" "tc_ctx c = ctx" "tc_events c = []" "tc_forwarded c = []" "tc_wire c = []"
    using w by (auto simp: tls_waiting_def)
  obtain r e where h: "ta_handshake api ra 0 = (r, e)" by (cases "ta_handshake api ra 0")
  consider (over) "r = 0" "e = 0" | (again) "e = EWOULDBLOCK" | (failed) "e = ERR_ssl_handshake_failed"
    using handshake_error [OF h] by blast
  then show ?thesis
  proof cases
    case over
    let ?t = "(hs_transport ident fd ctx m)\<lparr>io_state := OPENED\<rparr>"
    have r: "do_read fwd ctx (Recv_fail EWOULDBLOCK) ?t = Inr (read_done True ctx ?t)"
      by (rule do_read_nothing) (simp_all add: d)
    have w: "do_write False ans ?t = Inr (write_done ?t)" for ans by (rule do_write_nothing) simp_all
    show ?thesis using t c m over
      by (auto simp: tls_turn_def ssl_read_cb_def do_ssl_handshake_def Let_def h r w read_done_def ssl_do_write_def tls_close_def
          tls_inv_def tls_open_def tls_protocol_short or_eq_0_iff split: if_splits)
  next
    case again
    then have e: "e \<noteq> 0" by (simp add: EWOULDBLOCK_def)
    have r: "do_read fwd ctx (Recv_fail EWOULDBLOCK) (hs_transport ident fd ctx m) = Inr (read_done True ctx (hs_transport ident fd ctx m))"
      by (rule do_read_nothing) (simp_all add: d)
    have w: "do_write False ans (hs_transport ident fd ctx m) = Inr (write_done (hs_transport ident fd ctx m))" for ans
      by (rule do_write_nothing) simp_all
    show ?thesis using t c m again e
      by (auto simp: tls_turn_def ssl_read_cb_def do_ssl_handshake_def Let_def h r w read_done_def ssl_do_write_def tls_close_def
          tls_inv_def tls_waiting_def tls_protocol_short cq_peek_def cq_empty_def or_eq_0_iff split: if_splits)
  next
    case failed
    let ?e = ERR_ssl_handshake_failed
    have e: "?e \<noteq> 0" "?e \<noteq> EWOULDBLOCK" "\<not> not_recv_error ?e"
      by (simp_all add: ERR_ssl_handshake_failed_def EWOULDBLOCK_def not_recv_error_def EAGAIN_def EINTR_def)
    have h: "ta_handshake api ra 0 = (r, ?e)" using h failed by simp
    have r: "do_read fwd ctx (Recv_fail ?e) (hs_transport ident fd ctx m) =
        Inr (read_done False ctx (IoTypes.set_last_errno ?e READ (hs_transport ident fd ctx m)))"
      by (rule do_read_failed) (simp_all add: e)
    show ?thesis using t c(1-4) m(1) e
      by (auto simp: tls_turn_def ssl_read_cb_def do_ssl_handshake_def Let_def h r read_done_def tls_close_def
          tls_inv_def tls_protocol_short or_eq_0_iff split: if_splits)
  qed
qed

lemma open_turn:
  assumes o': "tls_open c" and t: "tls_turn api fwd revent opm ra wa c = Inr c'"
  shows "tls_inv ident fd ctx asked c'"
proof -
  obtain n where c: "tc_alive c" "st_primitives (tc_st c) = Established" "io_state (st_tcp (tc_st c)) = OPENED"
    "io_socket (st_tcp (tc_st c)) \<noteq> None" "ev_kinds (tc_events c) = (YEK_ON_OPEN, 0) # replicate n (YEK_ON_PACKET, 0)"
    using o' by (auto simp: tls_open_def)
  obtain r where r: "ssl_read_cb api revent ra (tc_ctx c) (tc_st c) = (r, tc_st c, [], False)"
    by (cases "ta_read api ra 0"; cases revent) (auto simp: ssl_read_cb_def c(2))
  from t c(1) obtain ro where ro: "do_read fwd (tc_ctx c) r (st_tcp (tc_st c)) = Inr ro"
    by (auto simp: tls_turn_def r andthen_Inr_iff)
  note id = do_read_identity [OF ro]
  let ?pk = "map (\<lambda>p. packet_event p (ro_transport ro)) (ro_packets ro)"
  have k: "ev_kinds (tc_events c @ ?pk) = (YEK_ON_OPEN, 0) # replicate (n + length (ro_packets ro)) (YEK_ON_PACKET, 0)"
    by (simp add: c(5) replicate_add)
  have closed: "tls_inv ident fd ctx asked (tls_close st x)"
    if "tc_events x = tc_events c @ ?pk" "io_state (st_tcp st) = OPENED" for st x
  proof -
    have "ev_kinds (tc_events (tls_close st x)) = ev_kinds (tc_events c @ ?pk) @ [(YEK_ON_CLOSE, io_error (st_tcp st))]"
      using that by (simp add: tls_close_def Let_def)
    also have "\<dots> = (YEK_ON_OPEN, 0) # replicate (n + length (ro_packets ro)) (YEK_ON_PACKET, 0) @ [(YEK_ON_CLOSE, io_error (st_tcp st))]"
      by (subst k) simp
    finally have "ev_kinds (tc_events (tls_close st x)) =
      (YEK_ON_OPEN, 0) # replicate (n + length (ro_packets ro)) (YEK_ON_PACKET, 0) @ [(YEK_ON_CLOSE, io_error (st_tcp st))]" .
    from tls_protocol_closed [OF this] show ?thesis by (simp add: tls_inv_def tls_close_def Let_def)
  qed
  show ?thesis
  proof (cases "ro_ok ro")
    case False
    with t c(1) ro have "c' = tls_close ((tc_st c)\<lparr>st_tcp := ro_transport ro\<rparr>)
      (c\<lparr>tc_ctx := ro_channel ro, tc_events := tc_events c @ ?pk, tc_forwarded := tc_forwarded c @ ro_forwarded ro, tc_wakeups := tc_wakeups c\<rparr>)"
      by (auto simp: tls_turn_def r)
    then show ?thesis using closed id c(3) by simp
  next
    case True
    with t c(1,2) ro obtain wo where wo: "do_write False (ssl_write_cb api wa) (ro_transport ro) = Inr wo"
      by (auto simp: tls_turn_def r andthen_Inr_iff ssl_do_write_def Let_def)
    note keep = do_write_keeps [OF wo]
    define st2 where "st2 = (tc_st c)\<lparr>st_tcp := wo_transport wo\<rparr>"
    define c2 where "c2 = c\<lparr>tc_ctx := ro_channel ro, tc_events := tc_events c @ ?pk, tc_forwarded := tc_forwarded c @ ro_forwarded ro,
      tc_wakeups := tc_wakeups c, tc_st := st2, tc_wire := tc_wire c @ wo_wire wo\<rparr>"
    define t2 where "t2 = (if wo_ok wo \<and> io_error (wo_transport wo) = 0 then (wo_transport wo)\<lparr>io_error := ERR_shutdown_by_localhost\<rparr> else wo_transport wo)"
    have eq: "tls_turn api fwd revent opm ra wa c =
        (if wo_ok wo \<and> io_opmask (wo_transport wo) OR opm = 0 then Inr c2 else Inr (tls_close (st2\<lparr>st_tcp := t2\<rparr>) c2))"
      by (simp add: tls_turn_def c(1,2) r ro True ssl_do_write_def wo Let_def c2_def st2_def t2_def)
    show ?thesis
    proof (cases "wo_ok wo \<and> io_opmask (wo_transport wo) OR opm = 0")
      case True
      have "tls_open c2" unfolding tls_open_def c2_def st2_def using c(1,2,3,4) id keep k by auto
      then show ?thesis using t eq True by (simp add: tls_inv_def)
    next
      case False
      then have "c' = tls_close (st2\<lparr>st_tcp := t2\<rparr>) c2" using t unfolding eq by auto
      moreover have "io_state t2 = OPENED" using id keep c(3) by (simp add: t2_def)
      ultimately show ?thesis using closed [of c2 "st2\<lparr>st_tcp := t2\<rparr>"] by (simp add: c2_def)
    qed
  qed
qed

lemma run_inv:
  assumes "channel_decode ctx [] = Inr 0"
  shows "tls_inv ident fd ctx asked c \<Longrightarrow> tls_run api fwd ss c = Inr c' \<Longrightarrow> tls_inv ident fd ctx (asked \<or> list_ex asks_close ss) c'"
proof (induction ss arbitrary: c asked)
  case (Cons s ss)
  obtain c1 where c1: "tls_step api fwd s c = Inr c1" "tls_run api fwd ss c1 = Inr c'" using Cons.prems(2) by (auto simp: andthen_Inr_iff)
  have "tls_inv ident fd ctx (asked \<or> asks_close s) c1"
  proof (cases s)
    case (Tls_turn revent opm ra wa)
    then have t: "tls_turn api fwd revent opm ra wa c = Inr c1" using c1(1) by (simp add: tls_step_def)
    have "tls_inv ident fd ctx (asked \<or> opm \<noteq> 0) c1"
    proof (cases "tls_waiting ident fd ctx asked c \<or> tls_open c")
      case True
      then show ?thesis using waiting_turn [OF _ assms t] open_turn [OF _ t] by blast
    next
      case False
      then have "\<not> tc_alive c" using Cons.prems(1) by (simp add: tls_inv_def)
      then show ?thesis using t Cons.prems(1) by (auto simp: tls_turn_def tls_inv_def tls_waiting_def tls_open_def tls_protocol_def)
    qed
    then show ?thesis using Tls_turn by simp
  next
    case (Tls_write buf h)
    then have "c1 = tls_user (user_write buf h) c" using c1(1) by (simp add: tls_step_def)
    then have "tls_inv ident fd ctx asked c1" using tls_user_inv [OF Cons.prems(1)] by (simp add: user_write_keeps user_write_refused)
    then show ?thesis using Tls_write by simp
  next
    case Tls_close
    then have "c1 = tls_user (\<lambda>t. t\<lparr>io_opmask := setbits (io_opmask t) YOPM_CLOSE\<rparr>) c" using c1(1) by (simp add: tls_step_def)
    then have "tls_inv ident fd ctx True c1"
      using tls_user_close [OF Cons.prems(1)] by simp
    then show ?thesis using Tls_close by simp
  qed
  from Cons.IH [OF this c1(2)] show ?case by (simp add: disj_assoc)
qed simp

end

text \<open>C8: Whatever the library answers and whatever the user does, a TLS connection reports nothing
  before its handshake is over, then one \<open>YEK_ON_OPEN\<close>, its packets and one \<open>YEK_ON_CLOSE\<close>; a client whose
  handshake fails reports that once, and ends without any event only when it is closed before.  Both
  back ends.\<close>

theorem tls_event_protocol:
  assumes "channel_decode ctx [] = Inr 0"
  shows "(\<forall>fwd ss c. tls_run openssl fwd ss (tls_start ident fd ctx) = Inr c \<longrightarrow>
      tls_protocol (ch_is YCM_CLIENT ctx) (list_ex asks_close ss) (tc_alive c) (tc_events c)) \<and>
    (\<forall>fwd ss c. tls_run mbedtls fwd ss (tls_start ident fd ctx) = Inr c \<longrightarrow>
      tls_protocol (ch_is YCM_CLIENT ctx) (list_ex asks_close ss) (tc_alive c) (tc_events c))"
proof -
  have "tls_inv ident fd ctx False (tls_start ident fd ctx)" using tls_start_waiting by (simp add: tls_inv_def)
  then show ?thesis
    using ossl.run_inv [OF assms, of ident fd False] mbed.run_inv [OF assms, of ident fd False] tls_inv_protocol by fastforce
qed

section \<open>The stream of packets\<close>

text \<open>What a read adds to the plain text; \<open>None\<close> when it ends the connection.\<close>

definition tls_chunk :: "'a tls_api \<Rightarrow> 'a \<Rightarrow> byte list option" where
  "tls_chunk api a =
     (let (n, e) = ta_read api a 0
      in if n > 0 \<and> n = int (length (ta_data api a)) then Some (ta_data api a)
         else if n < 0 \<and> e = EWOULDBLOCK then Some [] else None)"

definition tls_again :: "'a tls_api \<Rightarrow> 'a \<Rightarrow> bool" where
  "tls_again api a \<longleftrightarrow> snd (ta_handshake api a 0) = EWOULDBLOCK"

definition tls_over :: "'a tls_api \<Rightarrow> 'a \<Rightarrow> bool" where
  "tls_over api a \<longleftrightarrow> ta_handshake api a 0 = (0, 0)"

definition packets_of :: "io_event list \<Rightarrow> byte list list" where
  "packets_of evs = map ev_packet (filter (\<lambda>e. ev_kind e = YEK_ON_PACKET) evs)"

lemma packets_of_simps [simp]:
  "packets_of [] = []" "packets_of (a @ b) = packets_of a @ packets_of b"
  "packets_of [transport_event YEK_ON_OPEN s t] = []" "packets_of (map (\<lambda>p. packet_event p t) ps) = ps"
proof -
  show "packets_of (map (\<lambda>p. packet_event p t) ps) = ps"
    by (induction ps) (simp_all add: packets_of_def packet_event_def)
qed (simp_all add: packets_of_def)

text \<open>The turns of a handshake, whether or not the socket is ready, and those that follow.\<close>

definition tls_script :: "bool \<Rightarrow> 'a \<Rightarrow> 'a list \<Rightarrow> 'a list \<Rightarrow> 'a tls_step list" where
  "tls_script revent wa hs rs = map (\<lambda>a. Tls_turn revent 0 a wa) hs @ map (\<lambda>a. Tls_turn True 0 a wa) rs"

text \<open>An open connection with nothing to send and no request to close.\<close>

definition tls_idle :: "tls_conn \<Rightarrow> bool" where
  "tls_idle c \<longleftrightarrow> tc_alive c \<and> st_primitives (tc_st c) = Established \<and> io_socket (st_tcp (tc_st c)) \<noteq> None \<and>
     tr_send_queue (st_tcp (tc_st c)) = [] \<and> \<not> io_pollout (st_tcp (tc_st c)) \<and> io_opmask (st_tcp (tc_st c)) = 0"

context tls_backend begin

lemma again_turn:
  assumes w: "tls_waiting ident fd ctx False c" and d: "channel_decode ctx [] = Inr 0" and a: "tls_again api ra"
  shows "\<exists>c'. tls_turn api fwd revent 0 ra wa c = Inr c' \<and> tls_waiting ident fd ctx False c' \<and> tc_wakeups c' = Suc (tc_wakeups c)"
proof -
  let ?t = "hs_transport ident fd ctx 0"
  have c: "st_tcp (tc_st c) = ?t" "tc_alive c" "st_primitives (tc_st c) = Handshaking" "tc_ctx c = ctx" "tc_events c = []"
      "tc_forwarded c = []" "tc_wire c = []" using w by (auto simp: tls_waiting_def)
  obtain r where h: "ta_handshake api ra 0 = (r, EWOULDBLOCK)" using a by (cases "ta_handshake api ra 0") (simp add: tls_again_def)
  have r: "do_read fwd ctx (Recv_fail EWOULDBLOCK) ?t = Inr (read_done True ctx ?t)"
    by (rule do_read_nothing) (simp_all add: d)
  have w: "do_write False ans ?t = Inr (write_done ?t)" for ans by (rule do_write_nothing) simp_all
  have "EWOULDBLOCK \<noteq> 0" by (simp add: EWOULDBLOCK_def)
  then show ?thesis using c
    by (auto simp: tls_turn_def ssl_read_cb_def do_ssl_handshake_def Let_def h r w read_done_def ssl_do_write_def tls_waiting_def
        cq_peek_def cq_empty_def)
qed

lemma over_turn:
  assumes w: "tls_waiting ident fd ctx False c" and d: "channel_decode ctx [] = Inr 0" and a: "tls_over api ra"
  shows "\<exists>c'. tls_turn api fwd revent 0 ra wa c = Inr c' \<and> tls_idle c' \<and> tc_ctx c' = ctx \<and> tc_wakeups c' = tc_wakeups c \<and>
    st_tcp (tc_st c') = new_transport ident (ch_index ctx) False (Some fd) \<and>
    tc_events c' = [transport_event YEK_ON_OPEN 0 (new_transport ident (ch_index ctx) False (Some fd))]"
proof -
  let ?t = "new_transport ident (ch_index ctx) False (Some fd)"
  have c: "st_tcp (tc_st c) = hs_transport ident fd ctx 0" "tc_alive c" "st_primitives (tc_st c) = Handshaking" "tc_ctx c = ctx"
      "tc_events c = []" using w by (auto simp: tls_waiting_def)
  have t: "(hs_transport ident fd ctx 0)\<lparr>io_state := OPENED\<rparr> = ?t" by (simp add: hs_transport_def new_transport_def)
  have r: "do_read fwd ctx (Recv_fail EWOULDBLOCK) ?t = Inr (read_done True ctx ?t)"
    by (rule do_read_nothing) (simp_all add: d new_transport_def)
  have w: "do_write False ans ?t = Inr (write_done ?t)" for ans by (rule do_write_nothing) (simp_all add: new_transport_def)
  have "io_opmask ?t = 0" "io_socket ?t \<noteq> None" "tr_send_queue ?t = []" "\<not> io_pollout ?t" by (simp_all add: new_transport_def)
  then show ?thesis using c a
    by (auto simp: tls_turn_def ssl_read_cb_def do_ssl_handshake_def Let_def tls_over_def t r w read_done_def ssl_do_write_def tls_idle_def)
qed

lemma handshake_run:
  assumes "channel_decode ctx [] = Inr 0" "\<forall>a \<in> set hs. tls_again api a" "tls_over api f"
  shows "tls_waiting ident fd ctx False c \<Longrightarrow>
    \<exists>c'. tls_run api fwd (map (\<lambda>a. Tls_turn revent 0 a wa) (hs @ [f])) c = Inr c' \<and> tls_idle c' \<and> tc_ctx c' = ctx \<and>
      tc_wakeups c' = tc_wakeups c + length hs \<and> st_tcp (tc_st c') = new_transport ident (ch_index ctx) False (Some fd) \<and>
      tc_events c' = [transport_event YEK_ON_OPEN 0 (new_transport ident (ch_index ctx) False (Some fd))]"
  using assms(2)
proof (induction hs arbitrary: c)
  case Nil
  then show ?case using over_turn [OF Nil.prems(1) assms(1,3), of fwd revent wa] by (auto simp: tls_step_def)
next
  case (Cons a hs)
  obtain c1 where c1: "tls_turn api fwd revent 0 a wa c = Inr c1" "tls_waiting ident fd ctx False c1" "tc_wakeups c1 = Suc (tc_wakeups c)"
    using again_turn [OF Cons.prems(1) assms(1), of a fwd revent wa] Cons.prems(2) by auto
  with Cons.IH [OF c1(2)] Cons.prems(2) show ?case by (auto simp: tls_step_def)
qed

text \<open>A read of an idle connection is a read of a TCP connection on the plain text.\<close>

lemma idle_turn:
  assumes i: "tls_idle c" and ch: "tls_chunk api ra = Some d"
    and ro: "do_read False (tc_ctx c) (arrives d) (st_tcp (tc_st c)) = Inr ro" "ro_ok ro"
  shows "\<exists>c'. tls_turn api False True 0 ra wa c = Inr c' \<and> tls_idle c' \<and> tc_ctx c' = ro_channel ro \<and> tc_wakeups c' = tc_wakeups c \<and>
    st_tcp (tc_st c') = ro_transport ro \<and> tc_events c' = tc_events c @ map (\<lambda>p. packet_event p (ro_transport ro)) (ro_packets ro)"
proof -
  have c: "tc_alive c" "st_primitives (tc_st c) = Established" using i by (simp_all add: tls_idle_def)
  obtain n e where n: "ta_read api ra 0 = (n, e)" by (cases "ta_read api ra 0")
  have r: "ssl_read_cb api True ra (tc_ctx c) (tc_st c) = (arrives d, tc_st c, [], False)"
    using ch by (auto simp: ssl_read_cb_def c n tls_chunk_def arrives_def split: if_splits)
  note id = do_read_identity [OF ro(1)]
  have w: "do_write False ans (ro_transport ro) = Inr (write_done (ro_transport ro))" for ans
    using i id by (intro do_write_nothing) (simp_all add: tls_idle_def)
  show ?thesis using i id ro c
    by (auto simp: tls_turn_def r Let_def ssl_do_write_def w tls_idle_def)
qed

lemma idle_run:
  assumes "tls_idle c" "map (tls_chunk api) rs = map Some ds" "run_reads (tc_ctx c) (st_tcp (tc_st c)) ds = Inr (True, ctx', t', pkts)"
  shows "\<exists>c'. tls_run api False (map (\<lambda>a. Tls_turn True 0 a wa) rs) c = Inr c' \<and> tls_idle c' \<and> tc_wakeups c' = tc_wakeups c \<and>
    packets_of (tc_events c') = packets_of (tc_events c) @ pkts"
  using assms
proof (induction rs arbitrary: c ds pkts)
  case (Cons a rs)
  obtain d ds' where d: "ds = d # ds'" "tls_chunk api a = Some d" "map (tls_chunk api) rs = map Some ds'"
    using Cons.prems(2) by (cases ds) auto
  obtain ro pkts' where ro: "do_read False (tc_ctx c) (arrives d) (st_tcp (tc_st c)) = Inr ro" "ro_ok ro"
      "run_reads (ro_channel ro) (ro_transport ro) ds' = Inr (True, ctx', t', pkts')" "pkts = ro_packets ro @ pkts'"
    using Cons.prems(3) d(1) by (auto simp: andthen_Inr_iff split: if_splits)
  obtain c1 where c1: "tls_turn api False True 0 a wa c = Inr c1" "tls_idle c1" "tc_ctx c1 = ro_channel ro" "tc_wakeups c1 = tc_wakeups c"
      "st_tcp (tc_st c1) = ro_transport ro" "tc_events c1 = tc_events c @ map (\<lambda>p. packet_event p (ro_transport ro)) (ro_packets ro)"
    using idle_turn [OF Cons.prems(1) d(2) ro(1,2)] by blast
  from Cons.IH [OF c1(2) d(3)] ro c1 show ?case by (auto simp: tls_step_def)
qed auto

lemma run_append: "tls_run api fwd (a @ b) c = andthen (tls_run api fwd a c) (tls_run api fwd b)"
proof (induction a arbitrary: c)
  case (Cons s a)
  then show ?case by (cases "tls_step api fwd s c") simp_all
qed simp

lemma stream_reassembled:
  assumes "lf_channel maxlen off lsize adj strip ctx" "strip \<le> header_length off lsize"
    and "list_all (lf_frame (ch_uparams ctx) (header_length off lsize)) fs"
    and "concat ds = concat fs" "answers_fit ctx (new_transport ident (ch_index ctx) False (Some fd)) ds"
    and "\<forall>a \<in> set hs. tls_again api a" "tls_over api f" "map (tls_chunk api) rs = map Some (ds @ replicate (length fs) [])"
  shows "\<exists>c. tls_run api False (tls_script revent wa (hs @ [f]) rs) (tls_start ident fd ctx) =
    Inr c \<and> tc_alive c \<and> packets_of (tc_events c) = map (drop strip) fs \<and> tc_wakeups c = length hs"
proof -
  let ?t = "new_transport ident (ch_index ctx) False (Some fd)"
  obtain ctx1 t1 where s: "run_reads ctx ?t (ds @ replicate (length fs) []) = Inr (True, ctx1, t1, map (drop strip) fs)"
    using lf_stream_reassembled [OF assms(1-5)] by blast
  obtain up where up: "ch_decode_len ctx = None" "ch_uparams ctx = store_unpack_params maxlen (int off) lsize adj up"
    using assms(1) by (auto simp: lf_channel_def)
  have "builtin_decode_len (ch_uparams ctx) [] = Inr 0"
    unfolding up(2) by (rule frame_decoder.short [OF length_field.frame_decoder_axioms]) (simp add: frame_decoder.hdr_pos [OF length_field.frame_decoder_axioms])
  then have dec: "channel_decode ctx [] = Inr 0" by (simp add: channel_decode_def up(1))
  obtain c1 where c1: "tls_run api False (map (\<lambda>a. Tls_turn revent 0 a wa) (hs @ [f])) (tls_start ident fd ctx) = Inr c1" "tls_idle c1"
      "tc_ctx c1 = ctx" "tc_wakeups c1 = length hs" "st_tcp (tc_st c1) = ?t" "tc_events c1 = [transport_event YEK_ON_OPEN 0 ?t]"
    using handshake_run [OF dec assms(6,7) tls_start_waiting [of ident fd ctx False], where fwd = False and revent = revent and wa = wa]
    by (auto simp: tls_start_def)
  obtain c2 where c2: "tls_run api False (map (\<lambda>a. Tls_turn True 0 a wa) rs) c1 = Inr c2" "tls_idle c2" "tc_wakeups c2 = tc_wakeups c1"
      "packets_of (tc_events c2) = packets_of (tc_events c1) @ map (drop strip) fs"
    using idle_run [OF c1(2) assms(8)] s c1(3,5) by auto
  have "tls_run api False (tls_script revent wa (hs @ [f]) rs) (tls_start ident fd ctx) = Inr c2"
    by (simp only: tls_script_def run_append c1(1) andthen_simps c2(1))
  then show ?thesis using c1(4,6) c2 by (auto simp: tls_idle_def)
qed

end

text \<open>C9: Frames sent over TLS come out as they went in.  The handshake takes any number of turns, and
  each unfinished one wakes the loop up again; after it, plain text that makes up the frames, cut
  anywhere, is reported as one packet per frame, in order, without its stripped part.  Both back ends.\<close>

theorem tls_stream_reassembled:
  assumes "lf_channel maxlen off lsize adj strip ctx" "strip \<le> header_length off lsize"
    and "list_all (lf_frame (ch_uparams ctx) (header_length off lsize)) fs"
    and "concat ds = concat fs" "answers_fit ctx (new_transport ident (ch_index ctx) False (Some fd)) ds"
  shows "(\<forall>hs f rs v wa. list_all (tls_again openssl) hs \<and> tls_over openssl f \<and>
      map (tls_chunk openssl) rs = map Some (ds @ replicate (length fs) []) \<longrightarrow>
      (\<exists>c. tls_run openssl False (tls_script v wa (hs @ [f]) rs) (tls_start ident fd ctx) = Inr c \<and>
        tc_alive c \<and> packets_of (tc_events c) = map (drop strip) fs \<and> tc_wakeups c = length hs)) \<and>
    (\<forall>hs f rs v wa. list_all (tls_again mbedtls) hs \<and> tls_over mbedtls f \<and>
      map (tls_chunk mbedtls) rs = map Some (ds @ replicate (length fs) []) \<longrightarrow>
      (\<exists>c. tls_run mbedtls False (tls_script v wa (hs @ [f]) rs) (tls_start ident fd ctx) = Inr c \<and>
        tc_alive c \<and> packets_of (tc_events c) = map (drop strip) fs \<and> tc_wakeups c = length hs))"
  using ossl.stream_reassembled [OF assms] mbed.stream_reassembled [OF assms] unfolding list_all_iff by blast

definition ossl_again :: ssl_answer where
  "ossl_again = \<lparr>sa_ret = -1, sa_error = SSL_ERROR_WANT_READ, sa_queue = 0, sa_errno = 0, sa_data = []\<rparr>"

definition ossl_data :: "byte list \<Rightarrow> ssl_answer" where
  "ossl_data d = \<lparr>sa_ret = int (length d), sa_error = 0, sa_queue = 0, sa_errno = 0, sa_data = d\<rparr>"

theorem tls_stream_reassembled_witness:
  "\<exists>c. tls_run openssl False (tls_script True ossl_again [ossl_again, ossl_again, ossl_data [1]]
      [ossl_data [2], ossl_data [7, 8, 1], ossl_data [9], ossl_again, ossl_again]) (tls_start 9 6 demo_channel) = Inr c \<and>
    tc_alive c \<and> packets_of (tc_events c) = [[2, 7, 8], [1, 9]] \<and> tc_wakeups c = 2"
proof -
  let ?rs = "[ossl_data [2], ossl_data [7, 8, 1], ossl_data [9], ossl_again, ossl_again]"
  have a: "list_all (tls_again openssl) [ossl_again, ossl_again]" "tls_over openssl (ossl_data [1])"
    by (simp_all add: tls_again_def tls_over_def openssl_def ossl_do_handshake_def ossl_again_def ossl_data_def)
  have "map (tls_chunk openssl) ?rs = map Some ([[2], [7, 8, 1], [9]] @ replicate (length [[2, 7, 8], [1, 9]]) [])"
    by (simp add: tls_chunk_def openssl_def ossl_read_def ossl_again_def ossl_data_def SSL_ERROR_WANT_READ_def SSL_ERROR_WANT_WRITE_def)
  moreover have "\<forall>hs f rs v wa. list_all (tls_again openssl) hs \<and> tls_over openssl f \<and>
      map (tls_chunk openssl) rs = map Some ([[2], [7, 8, 1], [9]] @ replicate (length [[2, 7, 8], [1, 9 :: byte]]) []) \<longrightarrow>
      (\<exists>c. tls_run openssl False (tls_script v wa (hs @ [f]) rs) (tls_start 9 6 demo_channel) = Inr c \<and>
        tc_alive c \<and> packets_of (tc_events c) = map (drop 0) [[2, 7, 8], [1, 9]] \<and> tc_wakeups c = length hs)"
  proof (rule tls_stream_reassembled [of 1024 0 1 1 0, THEN conjunct1])
    show "answers_fit demo_channel (new_transport 9 (ch_index demo_channel) False (Some 6)) [[2], [7, 8, 1], [9]]"
      by (rule demo_stream(3)) (simp add: yasio_max_rcvbuf_def)
  qed (use demo_stream(1,2) in simp_all)
  ultimately show ?thesis
    using a by (elim allE [of _ "[ossl_again, ossl_again]"]) force
qed

text \<open>The mark \<open>YSSL_ERR_MASK\<close> on the result of a failed handshake: \<open>yssl_strerror\<close> finds the entry of the error
  queue again, or the number of the system.\<close>

lemma handshake_failure_text:
  assumes "ossl_do_handshake a 0 = (r, ERR_ssl_handshake_failed)"
  shows "sa_error a \<noteq> SSL_ERROR_SYSCALL \<Longrightarrow> ossl_strerror r = Ssl_text (ucast (sa_queue a) AND NOT YSSL_ERR_MASK)"
    and "sa_error a = SSL_ERROR_SYSCALL \<Longrightarrow> 0 \<le> sa_errno a \<Longrightarrow> sa_errno a < 2 ^ 31 \<Longrightarrow> ossl_strerror r = System_text (sa_errno a)"
proof -
  show "ossl_strerror r = Ssl_text (ucast (sa_queue a) AND NOT YSSL_ERR_MASK)" if "sa_error a \<noteq> SSL_ERROR_SYSCALL"
  proof -
    have r: "r = sint (ucast (sa_queue a) OR YSSL_ERR_MASK :: 32 word)"
      using assms that by (auto simp: ossl_do_handshake_def Let_def ERR_ssl_handshake_failed_def EWOULDBLOCK_def unsigned_or_eq YSSL_ERR_MASK_def split: if_splits)
    have "testbits (ucast (sa_queue a) OR YSSL_ERR_MASK :: 32 word) YSSL_ERR_MASK"
      by (simp add: testbits_setbits_same [unfolded setbits_def] YSSL_ERR_MASK_def)
    moreover have "(ucast (sa_queue a) OR YSSL_ERR_MASK :: 32 word) AND NOT YSSL_ERR_MASK = ucast (sa_queue a) AND NOT YSSL_ERR_MASK"
      by (simp add: bit.conj_disj_distrib2)
    ultimately show ?thesis by (simp add: ossl_strerror_def r)
  qed
  show "ossl_strerror r = System_text (sa_errno a)" if e: "sa_error a = SSL_ERROR_SYSCALL" "0 \<le> sa_errno a" "sa_errno a < 2 ^ 31"
  proof -
    have r: "r = sa_errno a"
      using assms e(1) by (auto simp: ossl_do_handshake_def Let_def ERR_ssl_handshake_failed_def EWOULDBLOCK_def split: if_splits)
    have "\<not> bit (sa_errno a) 31" using e(2,3) by (simp add: bit_iff_odd)
    moreover have "bit YSSL_ERR_MASK n \<longleftrightarrow> n = 31" for n
    proof -
      have "YSSL_ERR_MASK = 2 ^ 31" by (simp add: YSSL_ERR_MASK_def)
      then have "bit YSSL_ERR_MASK n \<longleftrightarrow> possible_bit TYPE(32 word) n \<and> n = 31" by (metis bit_exp_iff)
      then show ?thesis by auto
    qed
    ultimately have "(of_int (sa_errno a) :: 32 word) AND YSSL_ERR_MASK = 0"
      by (auto intro!: bit_word_eqI simp: bit_simps)
    then have "\<not> testbits (of_int (sa_errno a) :: 32 word) YSSL_ERR_MASK" by (simp add: testbits_def)
    then show ?thesis by (simp add: ossl_strerror_def r)
  qed
qed

section \<open>Contexts\<close>

record yssl_options =
  yo_crtfile :: "string option"
  yo_keyfile :: "string option"
  yo_client :: bool

definition yasio_valid_str :: "string option \<Rightarrow> bool" where
  "yasio_valid_str s \<longleftrightarrow> (case s of None \<Rightarrow> False | Some s \<Rightarrow> s \<noteq> [])"

definition yasio_c_str :: "string \<Rightarrow> string option" where
  "yasio_c_str s = (if s \<noteq> [] then Some s else None)"

text \<open>
  The callback of \<open>split\<close> that loads one file of the list: the state is the count of failures, the
  files tried with the outcome, and the text, in which the part is terminated for the time of the call.
\<close>

definition load_part :: "(string \<Rightarrow> bool) \<Rightarrow> nat \<Rightarrow> nat option \<Rightarrow> int \<times> (string \<times> bool) list \<times> string \<Rightarrow> int \<times> (string \<times> bool) list \<times> string" where
  "load_part load start stop = (\<lambda>(fail_count, tried, text).
     let (null_term, text) = split_term_new stop text;
         name = c_string text start;
         ok = load name
     in (if \<not> ok then fail_count + 1 else fail_count, tried @ [(name, ok)], split_term_end null_term text))"

definition load_files :: "(string \<Rightarrow> bool) \<Rightarrow> string \<Rightarrow> (int \<times> (string \<times> bool) list) option" where
  "load_files load text =
     map_option (\<lambda>(fail_count, tried, _). (fail_count, tried)) (split text CHR '','' (load_part load) (0, [], text))"

text \<open>OpenSSL: what its functions for files answer.\<close>

record ossl_env =
  oe_mode :: "64 word"
  oe_load_verify :: "string \<Rightarrow> bool"
  oe_use_certificate :: "string \<Rightarrow> int"
  oe_use_private_key :: "string \<Rightarrow> int"

record ossl_ctx =
  ox_mode :: "64 word"
  ox_ca_files :: "(string \<times> bool) list"
  ox_verify_peer :: bool
  ox_post_handshake_auth :: bool
  ox_partial_chain :: bool
  ox_certificate :: "string option"
  ox_private_key :: "string option"

definition SSL_MODE_ENABLE_PARTIAL_WRITE :: "64 word" where "SSL_MODE_ENABLE_PARTIAL_WRITE = 1"
definition SSL_MODE_RELEASE_BUFFERS :: "64 word" where "SSL_MODE_RELEASE_BUFFERS = 0x10"

definition use_file :: "(string \<Rightarrow> int) \<Rightarrow> string option \<Rightarrow> string option" where
  "use_file use f = (case f of Some name \<Rightarrow> if yasio_valid_str f \<and> use name > 0 then Some name else None | None \<Rightarrow> None)"

definition ossl_ctx_new :: "ossl_env \<Rightarrow> yssl_options \<Rightarrow> ossl_ctx option" where
  "ossl_ctx_new env opts =
     (let mode = oe_mode env OR SSL_MODE_RELEASE_BUFFERS;
          cx = \<lparr>ox_mode = SSL_MODE_ENABLE_PARTIAL_WRITE OR mode, ox_ca_files = [], ox_verify_peer = False,
                ox_post_handshake_auth = False, ox_partial_chain = False, ox_certificate = None, ox_private_key = None\<rparr>
      in if yo_client opts
         then case (if yasio_valid_str (yo_crtfile opts) then load_files (oe_load_verify env) (the (yo_crtfile opts)) else Some (-1, [])) of
                None \<Rightarrow> None
              | Some (fail_count, tried) \<Rightarrow>
                  let cx = cx\<lparr>ox_ca_files := tried\<rparr>
                  in Some (if fail_count = 0 then cx\<lparr>ox_verify_peer := True, ox_post_handshake_auth := True, ox_partial_chain := True\<rparr>
                           else cx\<lparr>ox_verify_peer := False\<rparr>)
         else Some (cx\<lparr>ox_certificate := use_file (oe_use_certificate env) (yo_crtfile opts),
                       ox_private_key := use_file (oe_use_private_key env) (yo_keyfile opts),
                       ox_verify_peer := True\<rparr>))"

text \<open>mbed TLS: the authentication mode stays the library's own while it is not set.\<close>

datatype authmode = VERIFY_OPTIONAL | VERIFY_REQUIRED

record mbed_env =
  me_seed :: int
  me_parse_crt :: "string \<Rightarrow> int"
  me_parse_key :: "string \<Rightarrow> int"
  me_own_cert :: int

record mbed_ctx =
  mx_rng :: bool
  mx_crt_files :: "(string \<times> bool) list"
  mx_authmode :: "authmode option"
  mx_ca_chain :: bool
  mx_private_key :: "string option"
  mx_own_cert :: bool

definition mbed_ctx_new :: "mbed_env \<Rightarrow> yssl_options \<Rightarrow> mbed_ctx option" where
  "mbed_ctx_new env opts =
     (let cx = \<lparr>mx_rng = False, mx_crt_files = [], mx_authmode = None, mx_ca_chain = False, mx_private_key = None, mx_own_cert = False\<rparr>
      in if me_seed env \<noteq> 0 then Some cx
         else let cx = cx\<lparr>mx_rng := True\<rparr>
              in case (if yasio_valid_str (yo_crtfile opts)
                       then map_option (\<lambda>(fail_count, tried). (if fail_count = 0 then VERIFY_REQUIRED else VERIFY_OPTIONAL, tried))
                              (load_files (\<lambda>name. me_parse_crt env name = 0) (the (yo_crtfile opts)))
                       else Some (VERIFY_OPTIONAL, [])) of
                   None \<Rightarrow> None
                 | Some (authmode, tried) \<Rightarrow>
                     let cx = cx\<lparr>mx_crt_files := tried\<rparr>
                     in if yo_client opts then Some (cx\<lparr>mx_authmode := Some authmode, mx_ca_chain := True\<rparr>)
                        else if yasio_valid_str (yo_keyfile opts) \<and> me_parse_key env (the (yo_keyfile opts)) \<noteq> 0 then Some cx
                        else let cx = cx\<lparr>mx_private_key := (if yasio_valid_str (yo_keyfile opts) then yo_keyfile opts else None),
                                        mx_ca_chain := True\<rparr>
                             in Some (cx\<lparr>mx_own_cert := (me_own_cert env = 0)\<rparr>))"

text \<open>The name a new session of a client announces, and the one it compares the certificate with.\<close>

record yssl_session =
  ys_fd :: int
  ys_connect :: bool
  ys_server_name :: "string option"
  ys_verify_name :: "string option"

definition ossl_new :: "int \<Rightarrow> string \<Rightarrow> bool \<Rightarrow> yssl_session" where
  "ossl_new fd hostname client =
     \<lparr>ys_fd = fd, ys_connect = client, ys_server_name = (if client then Some hostname else None), ys_verify_name = None\<rparr>"

definition mbed_new :: "int \<Rightarrow> string \<Rightarrow> bool \<Rightarrow> yssl_session" where
  "mbed_new fd hostname client =
     (let name = (if client then Some hostname else None)
      in \<lparr>ys_fd = fd, ys_connect = client, ys_server_name = name, ys_verify_name = name\<rparr>)"

section \<open>The contexts of the service\<close>

text \<open>Contexts are numbered; \<open>sr_live\<close> are those not freed.\<close>

datatype ssl_role = YSSL_CLIENT | YSSL_SERVER

record ssl_roles =
  sr_role :: "ssl_role \<Rightarrow> nat option"
  sr_live :: "nat list"
  sr_next :: nat

definition init_ssl_context :: "ssl_role \<Rightarrow> ssl_roles \<Rightarrow> nat \<times> ssl_roles" where
  "init_ssl_context role r =
     (sr_next r, r\<lparr>sr_role := (sr_role r)(role \<mapsto> sr_next r), sr_live := sr_live r @ [sr_next r], sr_next := Suc (sr_next r)\<rparr>)"

definition cleanup_ssl_context :: "ssl_role \<Rightarrow> ssl_roles \<Rightarrow> ssl_roles" where
  "cleanup_ssl_context role r =
     (case sr_role r role of
        Some c \<Rightarrow> r\<lparr>sr_role := (sr_role r)(role := None), sr_live := removeAll c (sr_live r)\<rparr>
      | None \<Rightarrow> r)"

definition get_ssl_context :: "bool \<Rightarrow> ssl_roles \<Rightarrow> nat option \<times> ssl_roles" where
  "get_ssl_context client r =
     (if client then (sr_role r YSSL_CLIENT, r)
      else case sr_role r YSSL_SERVER of
             Some c \<Rightarrow> (Some c, r)
           | None \<Rightarrow> let (c, r) = init_ssl_context YSSL_SERVER r in (Some c, r))"

text \<open>One run of the service's thread, with the requests of its transports in between.\<close>

definition ssl_worker :: "bool list \<Rightarrow> ssl_roles \<Rightarrow> ssl_roles" where
  "ssl_worker requests r =
     (let r = snd (init_ssl_context YSSL_CLIENT r);
          r = fold (\<lambda>client r. snd (get_ssl_context client r)) requests r
      in cleanup_ssl_context YSSL_SERVER (cleanup_ssl_context YSSL_CLIENT r))"

definition new_ssl_roles :: ssl_roles where
  "new_ssl_roles = \<lparr>sr_role = (\<lambda>_. None), sr_live = [], sr_next = 0\<rparr>"

section \<open>What is verified\<close>

lemma visit_load:
  assumes "CHR 0x00 \<notin> set s" "\<forall>q \<in> set ps. part_in s q"
  shows "visit (always (load_part load)) ps (n, tried, s) =
    (n + int (length (filter (\<lambda>f. \<not> load f) (map (part_text s) ps))), tried @ map (\<lambda>f. (f, load f)) (map (part_text s) ps), s)"
  using assms(2)
proof (induction ps arbitrary: n tried)
  case (Cons q ps)
  obtain a b where q: "q = (a, b)" by (cases q)
  have p: "part_in s (a, b)" using Cons.prems q by simp
  obtain t s' where t: "split_term_new b s = (t, s')" by (cases "split_term_new b s")
  have "c_string s' a = part_text s (a, b)" "split_term_end t s' = s" using part_is_c_string [OF assms(1) p] t by simp_all
  then show ?case using Cons q t by (simp add: always_def load_part_def)
qed simp

lemma load_files_fields:
  assumes "CHR 0x00 \<notin> set s"
  shows "load_files load s = Some (int (length (filter (\<lambda>f. \<not> load f) (Split.fields CHR '','' s))), map (\<lambda>f. (f, load f)) (Split.fields CHR '','' s))"
proof -
  have "0 \<le> length s" "CHR '','' \<noteq> CHR 0x00" by simp_all
  from split_if_loop_fields [OF this(1) assms this(2)] obtain ps where
    ps: "map (part_text s) ps = Split.fields CHR '','' (drop 0 s)" "\<forall>q \<in> set ps. part_in s q"
    "\<forall>pred (st :: int \<times> (string \<times> bool) list \<times> string). split_if_loop s CHR '','' pred 0 0 st = Some (visit pred ps st)"
    by blast
  then show ?thesis using visit_load [OF assms ps(2), of load 0 "[]"]
    by (simp add: load_files_def Split.split_def split_if_def)
qed

text \<open>C14: A client verifies its peer exactly when it is given a list of CA files and every file of it
  loads; each file of the list is tried once, in order.  One file that does not load turns the
  verification off.  Both back ends.\<close>

theorem tls_verifies_iff_all_load:
  assumes "CHR 0x00 \<notin> set file" "me_seed menv = 0"
  shows "(\<exists>cx. ossl_ctx_new env \<lparr>yo_crtfile = yasio_c_str file, yo_keyfile = None, yo_client = True\<rparr> = Some cx \<and>
      (ox_verify_peer cx \<longleftrightarrow> file \<noteq> [] \<and> (\<forall>f \<in> set (Split.fields CHR '','' file). oe_load_verify env f)) \<and>
      map fst (ox_ca_files cx) = (if file = [] then [] else Split.fields CHR '','' file)) \<and>
    (\<exists>cx. mbed_ctx_new menv \<lparr>yo_crtfile = yasio_c_str file, yo_keyfile = None, yo_client = True\<rparr> = Some cx \<and>
      (mx_authmode cx = Some VERIFY_REQUIRED \<longleftrightarrow> file \<noteq> [] \<and> (\<forall>f \<in> set (Split.fields CHR '','' file). me_parse_crt menv f = 0)) \<and>
      map fst (mx_crt_files cx) = (if file = [] then [] else Split.fields CHR '','' file))"
proof (cases "file = []")
  case False
  then have v: "yasio_valid_str (yasio_c_str file)" "the (yasio_c_str file) = file"
    by (simp_all add: yasio_valid_str_def yasio_c_str_def)
  show ?thesis using False assms(2) v
    by (auto simp: ossl_ctx_new_def mbed_ctx_new_def load_files_fields [OF assms(1)] Let_def o_def filter_empty_conv)
qed (simp add: ossl_ctx_new_def mbed_ctx_new_def yasio_valid_str_def yasio_c_str_def Let_def assms(2))

theorem tls_verifies_iff_all_load_witness:
  "\<exists>cx. ossl_ctx_new \<lparr>oe_mode = 0, oe_load_verify = (\<lambda>f. f = ''a.pem''), oe_use_certificate = (\<lambda>_. 1), oe_use_private_key = (\<lambda>_. 1)\<rparr>
      \<lparr>yo_crtfile = yasio_c_str ''a.pem,b'', yo_keyfile = None, yo_client = True\<rparr> = Some cx \<and>
    \<not> ox_verify_peer cx \<and> map fst (ox_ca_files cx) = [''a.pem'', ''b'']"
  using tls_verifies_iff_all_load [of "''a.pem,b''"
      "\<lparr>me_seed = 0, me_parse_crt = (\<lambda>_. 0), me_parse_key = (\<lambda>_. 0), me_own_cert = 0\<rparr>"
      "\<lparr>oe_mode = 0, oe_load_verify = (\<lambda>f. f = ''a.pem''), oe_use_certificate = (\<lambda>_. 1), oe_use_private_key = (\<lambda>_. 1)\<rparr>", THEN conjunct1]
  by auto

section \<open>The life of a context\<close>

text \<open>The thread of the service makes the context of the clients when it starts and that of the
  servers when the first server connection asks for it; when it ends both are freed, each once, and a
  new run finds no stale one.\<close>

theorem ssl_contexts_freed:
  assumes "sr_role r = (\<lambda>_. None)" "sr_live r = []"
  shows "sr_role (ssl_worker requests r) = (\<lambda>_. None) \<and> sr_live (ssl_worker requests r) = [] \<and>
    sr_next (ssl_worker requests r) = sr_next r + (if False \<in> set requests then 2 else 1)"
proof -
  let ?n = "sr_next r"
  let ?r1 = "snd (init_ssl_context YSSL_CLIENT r)"
  have run: "sr_role r' YSSL_CLIENT = Some ?n \<Longrightarrow>
      (sr_role r' YSSL_SERVER = None \<and> sr_live r' = [?n] \<and> sr_next r' = Suc ?n \<or>
       sr_role r' YSSL_SERVER = Some (Suc ?n) \<and> sr_live r' = [?n, Suc ?n] \<and> sr_next r' = Suc (Suc ?n)) \<Longrightarrow>
      r2 = fold (\<lambda>client r. snd (get_ssl_context client r)) requests r' \<Longrightarrow>
      sr_role r2 YSSL_CLIENT = Some ?n \<and>
      (sr_role r2 YSSL_SERVER = None \<and> sr_live r2 = [?n] \<and> sr_next r2 = Suc ?n \<and> sr_role r' YSSL_SERVER = None \<and> False \<notin> set requests \<or>
       sr_role r2 YSSL_SERVER = Some (Suc ?n) \<and> sr_live r2 = [?n, Suc ?n] \<and> sr_next r2 = Suc (Suc ?n) \<and>
         (sr_role r' YSSL_SERVER \<noteq> None \<or> False \<in> set requests))" for r' r2
  proof (induction requests arbitrary: r')
    case (Cons q qs)
    show ?case
    proof (cases q)
      case True
      then show ?thesis using Cons by (simp add: get_ssl_context_def)
    next
      case False
      then show ?thesis using Cons.prems Cons.IH [of "snd (get_ssl_context False r')"]
        by (auto simp: get_ssl_context_def init_ssl_context_def)
    qed
  qed auto
  have r1: "sr_role ?r1 YSSL_CLIENT = Some ?n" "sr_role ?r1 YSSL_SERVER = None" "sr_live ?r1 = [?n]" "sr_next ?r1 = Suc ?n"
    using assms by (simp_all add: init_ssl_context_def)
  define r2 where "r2 = fold (\<lambda>client r. snd (get_ssl_context client r)) requests ?r1"
  have all: "f = (\<lambda>_. None) \<longleftrightarrow> f YSSL_CLIENT = None \<and> f YSSL_SERVER = None" for f :: "ssl_role \<Rightarrow> nat option"
    by (auto simp: fun_eq_iff) (metis ssl_role.exhaust)
  show ?thesis using run [OF r1(1) _ r2_def] r1(2-4)
    by (auto simp: ssl_worker_def Let_def r2_def [symmetric] cleanup_ssl_context_def all)
qed

theorem ssl_contexts_freed_witness: "sr_live (ssl_worker [False, True, False] new_ssl_roles) = [] \<and>
    sr_next (ssl_worker [False, True, False] new_ssl_roles) = 2"
  using ssl_contexts_freed [of new_ssl_roles "[False, True, False]"] by (simp add: new_ssl_roles_def)

section \<open>Signals\<close>

text \<open>A send that a signal has interrupted is tried again by mbed TLS and not by OpenSSL, whose callback
  leaves the retry flag alone: the library then reports a system error, which ends the connection.\<close>

lemma signal_ends_openssl_only:
  assumes "\<And>c. an_ret (os (w_calls w) c) = -1" "\<And>c. an_errno (os (w_calls w) c) = EINTR"
  shows "(fst (snd (ossl_bio_write os fd buf len w)) = (False, False)) \<and> fst (ossl_bio_write os fd buf len w) = -1 \<and>
    fst (mbed_send os fd buf n w) = MBEDTLS_ERR_SSL_WANT_WRITE"
  using assms by (simp add: ossl_bio_write_def mbed_send_def send_def sys_def Let_def get_last_errno_def errno_defs EPIPE_def ECONNRESET_def)

section \<open>Bytes the library holds\<close>

text \<open>An open connection reads only when its socket is ready: plain text that the library has already
  decrypted, because the receive buffer had no room for all of a record, waits for the next bytes from
  the network.\<close>

lemma decrypted_bytes_wait:
  assumes "st_primitives (tc_st c) = Established"
  shows "tls_turn api fwd False opm ra wa c = tls_turn api fwd False opm ra' wa c"
  using assms by (simp add: tls_turn_def ssl_read_cb_def)

theorem tls_event_protocol_witness:
  "\<exists>c. tls_run openssl False (map (\<lambda>a. Tls_turn True 0 a ossl_again) ([ossl_again] @ [ossl_data [1]])) (tls_start 9 6 demo_channel) = Inr c \<and>
     tls_protocol (ch_is YCM_CLIENT demo_channel) False (tc_alive c) (tc_events c)"
proof -
  have d: "channel_decode demo_channel [] = Inr 0"
    by (simp add: channel_decode_def demo_channel_def new_channel_def builtin_decode_len_def store_unpack_params_def default_uparams_def clamp_def)
  have "\<forall>a \<in> set [ossl_again]. tls_again openssl a" "tls_over openssl (ossl_data [1])"
    by (simp_all add: tls_again_def tls_over_def openssl_def ossl_do_handshake_def ossl_again_def ossl_data_def)
  from ossl.handshake_run [OF d this tls_start_waiting [of 9 6 demo_channel False], where fwd = False and revent = True and wa = ossl_again]
  show ?thesis using tls_event_protocol [OF d, of 9 6, THEN conjunct1] by fastforce
qed

end
