(* ===== verification/Ares.thy ===== *)
theory Ares
  imports XxSocket IoWatcher ServiceFlow
begin

text \<open>
  Resolving with c-ares (\<open>yasio/io_service.cpp\<close>, compiled in with \<open>YASIO_USE_CARES\<close>): the queries of the
  channels and their count, the callbacks, the descriptors and timeouts of the library in the loop, its
  channel and name servers, and \<open>do_resolve\<close> and the turn of a client channel in this build.  Where
  \<open>IoService\<close> has a resolver thread, the library and its answers are a parameter here; the two builds
  are compared.
\<close>

section \<open>The state and the library\<close>

text \<open>
  \<open>ar_ares\<close> and \<open>ar_work\<close> are the members \<open>ares_\<close> and \<open>ares_outstanding_work_\<close>, the next three the options
  of the service.  The other fields are what c-ares holds: the unanswered queries, each by the channel that is its argument; the
  queries asked for (host, service, family); the list of name servers set last; the timeout in milliseconds, the tries and
  whether the file of \<open>systemd\<close> is read.
\<close>

record ares_service =
  ar_service :: service
  ar_ares :: "nat option"
  ar_work :: int
  ar_name_servers :: string
  ar_queries_timeout :: int  \<comment> \<open>microseconds\<close>
  ar_queries_tries :: int
  ar_queries :: "nat list"
  ar_asked :: "(string \<times> string option \<times> int) list"
  ar_servers :: "string option"
  ar_options :: "(int \<times> int \<times> bool) option"
  ar_next :: nat

text \<open>
  The answers of c-ares: the status of \<open>ares_init_options\<close>, whether \<open>YASIO_SYSTEMD_RESOLV_PATH\<close> is a file, the servers it has once a list was set
  (\<open>None\<close>: the call fails), an answer given within \<open>ares_getaddrinfo\<close>, the sockets to watch with what
  the macros for the bits of \<open>ares_getsock\<close> say, \<open>ares_timeout\<close>, and the answers given within
  \<open>ares_process_fd\<close>.
\<close>

record ares_env =
  ae_init :: int
  ae_resolv_conf :: bool
  ae_get_servers :: "string option \<Rightarrow> (int \<times> byte list \<times> 16 word) list option"
  ae_at_once :: "nat \<Rightarrow> (int \<times> addrinfo list option) option"
  ae_socks :: "int list"
  ae_readable :: "nat \<Rightarrow> bool"
  ae_writable :: "nat \<Rightarrow> bool"
  ae_timeout :: "int \<times> int \<Rightarrow> int \<times> int"
  ae_process :: "int option \<Rightarrow> int option \<Rightarrow> (nat \<times> int \<times> addrinfo list option) list"

definition ARES_SUCCESS :: int where "ARES_SUCCESS = 0"
definition ARES_ECANCELLED :: int where "ARES_ECANCELLED = 24"
definition ARES_GETSOCK_MAXNUM :: nat where "ARES_GETSOCK_MAXNUM = 16"

section \<open>Queries\<close>

definition ares_work_started :: "ares_service \<Rightarrow> ares_service" where
  "ares_work_started a = a\<lparr>ar_work := ar_work a + 1\<rparr>"

definition ares_work_finished :: "ares_service \<Rightarrow> ares_service" where
  "ares_work_finished a = (if ar_work a > 0 then a\<lparr>ar_work := ar_work a - 1\<rparr> else a)"

definition ares_sock_state_cb :: "nat \<Rightarrow> bool \<Rightarrow> bool \<Rightarrow> service \<Rightarrow> service" where
  "ares_sock_state_cb fd readable writable s =
     (let events = (if readable then 1 else 0) + (if writable then 2 else 0)
      in if events \<noteq> 0 then mod_event fd events 0 s else mod_event fd 0 READWRITE s)"

definition ip_endpoints :: "addrinfo list \<Rightarrow> endpoint list" where
  "ip_endpoints nodes =
     map (\<lambda>ai. as_is_sockaddr (ai_addr ai) (replicate 32 0)) (filter (\<lambda>ai. ai_family ai = AF_INET6 \<or> ai_family ai = AF_INET) nodes)"

definition ares_getaddrinfo_cb :: "sys \<Rightarrow> nat \<Rightarrow> int \<Rightarrow> addrinfo list option \<Rightarrow> ares_service \<Rightarrow> ares_service" where
  "ares_getaddrinfo_cb sy i status answerlist a =
     (let a = ares_work_finished a;
          s = ar_service a;
          s = (case answerlist of
                 Some nodes \<Rightarrow>
                   if status = ARES_SUCCESS
                   then set_ctx i ((ctx_of s i)\<lparr>ch_remote_eps := ch_remote_eps (ctx_of s i) @ ip_endpoints nodes\<rparr>) s else s
               | None \<Rightarrow> s);
          s = (if ch_remote_eps (ctx_of s i) \<noteq> []
               then let (now, s) = IoService.highp_clock sy s in set_ctx i ((ctx_of s i)\<lparr>ch_query_success_time := now\<rparr>) s
               else set_ctx i (IoTypes.set_last_errno ERR_resolve_host_failed NONE (ctx_of s i)) s)
      in a\<lparr>ar_service := wakeup s\<rparr>)"

text \<open>The library answers each query it holds once.\<close>

definition ares_answer :: "sys \<Rightarrow> nat \<times> int \<times> addrinfo list option \<Rightarrow> ares_service \<Rightarrow> ares_service" where
  "ares_answer sy q a =
     (case q of (i, status, answerlist) \<Rightarrow>
        if i \<in> set (ar_queries a) then ares_getaddrinfo_cb sy i status answerlist (a\<lparr>ar_queries := remove1 i (ar_queries a)\<rparr>) else a)"

definition ares_answers :: "sys \<Rightarrow> (nat \<times> int \<times> addrinfo list option) list \<Rightarrow> ares_service \<Rightarrow> ares_service" where
  "ares_answers sy qs a = fold (ares_answer sy) qs a"

section \<open>The descriptors of the library\<close>

fun fds_loop :: "ares_env \<Rightarrow> nat \<Rightarrow> nat \<Rightarrow> nat" where
  "fds_loop env i 0 = 0"
| "fds_loop env i (Suc n) =
     (let events = (if ae_readable env i then 1 else 0) + (if ae_writable env i then 2 else 0 :: nat)
      in if events \<noteq> 0 then Suc (fds_loop env (Suc i) n) else 0)"

text \<open>The number of descriptors and the time to wait.  A call without a channel of the library is not defined.\<close>

definition ares_get_fds :: "ares_env \<Rightarrow> int \<Rightarrow> ares_service \<Rightarrow> (nat \<times> int) result" where
  "ares_get_fds env waitd_usec a =
     (if ar_work a \<noteq> 0
      then if ar_ares a = None then Inl Undefined
           else let nfds = fds_loop env 0 ARES_GETSOCK_MAXNUM
                in Inr (if nfds \<noteq> 0
                        then let (sec, usec) = ae_timeout env (waitd_usec sdiv 1000000, waitd_usec smod 1000000)
                             in (nfds, sec * 1000000 + usec)
                        else (nfds, waitd_usec))
      else Inr (0, waitd_usec))"

definition do_ares_process_fds :: "sys \<Rightarrow> ares_env \<Rightarrow> (int \<Rightarrow> 32 word) \<Rightarrow> nat \<Rightarrow> ares_service \<Rightarrow> ares_service result" where
  "do_ares_process_fds sy env ready nfds a =
     (if nfds \<noteq> 0 \<and> ar_ares a = None then Inl Undefined
      else Inr (fold (\<lambda>k. let fd = ae_socks env ! k
                          in ares_answers sy (ae_process env
                               (if ready fd AND SE_read \<noteq> 0 then Some fd else None)
                               (if ready fd AND SE_write \<noteq> 0 then Some fd else None))) [0..<nfds] a))"

section \<open>The library's channel\<close>

definition YASIO_FALLBACK_NAME_SERVERS :: string where
  "YASIO_FALLBACK_NAME_SERVERS = ''8.8.8.8,223.5.5.5,114.114.114.114''"

fun servers_csv :: "net_env \<Rightarrow> (int \<times> byte list \<times> 16 word) list \<Rightarrow> string \<Rightarrow> string result" where
  "servers_csv net [] nscsv = Inr nscsv"
| "servers_csv net ((family, addr, udp_port) # ns) nscsv =
     andthen (format_to net (as_in_raw family addr udp_port (replicate 32 0)) max_fmt_len (fmt_default OR fmt_no_local))
       (\<lambda>s. servers_csv net ns (if s \<noteq> [] then nscsv @ s @ '','' else nscsv))"

definition config_ares_name_servers :: "sys \<Rightarrow> ares_env \<Rightarrow> ares_service \<Rightarrow> ares_service result" where
  "config_ares_name_servers sy env a =
     (let a = (if ar_name_servers a \<noteq> [] then a\<lparr>ar_servers := Some (ar_name_servers a)\<rparr> else a)
      in case ae_get_servers env (ar_servers a) of
           None \<Rightarrow> Inr a
         | Some ns \<Rightarrow>
             andthen (servers_csv (sy_net sy) ns [])
               (\<lambda>nscsv. Inr (if nscsv \<noteq> [] then a else a\<lparr>ar_servers := Some YASIO_FALLBACK_NAME_SERVERS\<rparr>)))"

text \<open>\<open>ares_cancel\<close> answers every query that is pending.\<close>

definition destroy_ares_channel :: "sys \<Rightarrow> ares_service \<Rightarrow> ares_service" where
  "destroy_ares_channel sy a =
     (if ar_ares a \<noteq> None
      then (ares_answers sy (map (\<lambda>i. (i, ARES_ECANCELLED, None)) (ar_queries a)) a)\<lparr>ar_ares := None\<rparr>
      else a)"

definition recreate_ares_channel :: "sys \<Rightarrow> ares_env \<Rightarrow> ares_service \<Rightarrow> ares_service result" where
  "recreate_ares_channel sy env a =
     (let a = (if ar_ares a \<noteq> None then destroy_ares_channel sy a else a)
      in if ae_init env = ARES_SUCCESS
         then config_ares_name_servers sy env (a\<lparr>ar_ares := Some (ar_next a), ar_next := Suc (ar_next a), ar_servers := None,
           ar_options := Some (to_int32 (ar_queries_timeout a sdiv 1000), ar_queries_tries a, ae_resolv_conf env)\<rparr>)
         else Inr a)"

section \<open>Resolving\<close>

definition ares_start_query :: "sys \<Rightarrow> ares_env \<Rightarrow> nat \<Rightarrow> ares_service \<Rightarrow> ares_service result" where
  "ares_start_query sy env i a =
     (let s = set_ctx i (IoTypes.set_last_errno EINPROGRESS NONE (ctx_of (ar_service a) i)) (ar_service a);
          ctx = ctx_of s i;
          sport = (if ch_remote_port ctx > 0 then Some (format_u (unat (ch_remote_port ctx))) else None);
          a = ares_work_started (a\<lparr>ar_service := s\<rparr>)
      in if ar_ares a = None then Inl Undefined
         else let a = a\<lparr>ar_queries := ar_queries a @ [i], ar_asked := ar_asked a @ [(ch_remote_host ctx, sport, sy_local_af sy)]\<rparr>
              in Inr (case ae_at_once env i of None \<Rightarrow> a | Some (status, answerlist) \<Rightarrow> ares_answer sy (i, status, answerlist) a))"

definition ares_update_dns_status :: "sys \<Rightarrow> ares_env \<Rightarrow> ares_service \<Rightarrow> ares_service result" where
  "ares_update_dns_status sy env a =
     (if sv_dns_dirty (ar_service a)
      then andthen (recreate_ares_channel sy env (a\<lparr>ar_service := (ar_service a)\<lparr>sv_dns_dirty := False\<rparr>\<rparr>)) (\<lambda>a.
        let s = ar_service a
        in Inr (a\<lparr>ar_service := s\<lparr>sv_channels := map (\<lambda>c. c\<lparr>ch_query_success_time := 0\<rparr>) (sv_channels s)\<rparr>\<rparr>))
      else Inr a)"

text \<open>The end of \<open>do_resolve\<close>: there is no address to connect to.\<close>

definition ares_query :: "sys \<Rightarrow> ares_env \<Rightarrow> nat \<Rightarrow> ares_service \<Rightarrow> (int \<times> ares_service) result" where
  "ares_query sy env i a =
     (let s = ar_service a
      in if ch_remote_host (ctx_of s i) \<noteq> []
         then andthen (if io_error (ctx_of s i) = 0 then ares_start_query sy env i a else Inr a) (\<lambda>a. Inr (-1, a))
         else Inr (-1, a\<lparr>ar_service := set_ctx i ((ctx_of s i)\<lparr>io_error := ERR_no_available_address\<rparr>) s\<rparr>))"

definition ares_do_resolve :: "sys \<Rightarrow> ares_env \<Rightarrow> nat \<Rightarrow> ares_service \<Rightarrow> (int \<times> ares_service) result" where
  "ares_do_resolve sy env i a =
     (let a = a\<lparr>ar_service := set_ctx i (refresh_address sy (ctx_of (ar_service a) i)) (ar_service a)\<rparr>
      in if ch_remote_eps (ctx_of (ar_service a) i) \<noteq> []
         then if \<not> ch_is YCPF_NEEDS_QUERY (ctx_of (ar_service a) i) then Inr (0, a)
              else andthen (ares_update_dns_status sy env a) (\<lambda>a.
                     if io_error (ctx_of (ar_service a) i) = EINPROGRESS then Inr (0, a)
                     else let (old, s) = address_expired sy i (ar_service a)
                          in if \<not> old then Inr (0, a\<lparr>ar_service := s\<rparr>)
                             else ares_query sy env i (a\<lparr>ar_service := set_ctx i ((ctx_of s i)\<lparr>ch_remote_eps := []\<rparr>) s\<rparr>))
         else ares_query sy env i a)"

definition on_service :: "(service \<Rightarrow> service result) \<Rightarrow> ares_service \<Rightarrow> ares_service result" where
  "on_service f a = andthen (f (ar_service a)) (\<lambda>s. Inr (a\<lparr>ar_service := s\<rparr>))"

text \<open>The turn of a client channel with this resolver.\<close>

definition ares_client_turn :: "sys \<Rightarrow> ares_env \<Rightarrow> nat \<Rightarrow> ares_service \<Rightarrow> ares_service result" where
  "ares_client_turn sy env i a =
     (let ctx = ctx_of (ar_service a) i;
          a = (if testbits (io_opmask ctx) YOPM_OPEN
               then a\<lparr>ar_service := set_ctx i (ctx\<lparr>io_opmask := clearbits (io_opmask ctx) YOPM_OPEN, io_state := RESOLVING\<rparr>) (ar_service a)\<rparr>
               else a)
      in if io_state (ctx_of (ar_service a) i) = RESOLVING
         then andthen (ares_do_resolve sy env i a) (\<lambda>(r, a).
                if r = 0 then on_service (do_connect sy i) a
                else let s = ar_service a
                     in Inr (if io_error (ctx_of s i) \<noteq> EINPROGRESS
                             then a\<lparr>ar_service := handle_connect_failed i (io_error (ctx_of s i)) s\<rparr> else a))
         else if io_state (ctx_of (ar_service a) i) = CONNECTING then on_service (do_connect_completion sy i) a
         else Inr a)"

definition ares_worker_exit :: "sys \<Rightarrow> ares_service \<Rightarrow> ares_service" where
  "ares_worker_exit sy a = (let a = destroy_ares_channel sy a in a\<lparr>ar_service := handle_worker_exit (ar_service a)\<rparr>)"

text \<open>
  The first part of a pass of the loop: the wait for the descriptors and the answers of the library.
  \<open>polled\<close> is the result of the poll, as in \<open>run_pass\<close>, and \<open>ready\<close> what it reports of each descriptor;
  after a failure the rest of the pass is skipped.
\<close>

definition ares_frame :: "sys \<Rightarrow> ares_env \<Rightarrow> (int \<Rightarrow> 32 word) \<Rightarrow> nat + int \<Rightarrow> ares_service \<Rightarrow> (int \<times> ares_service) result" where
  "ares_frame sy env ready polled a =
     (let (waitd_usec, s) = begin_frame sy (ar_service a)
      in andthen (ares_get_fds env waitd_usec a) (\<lambda>(nfds, waitd_usec).
           case (if waitd_usec > 0 then polled else Inl 0) of
             Inr ec \<Rightarrow> Inr (waitd_usec, a\<lparr>ar_service := s\<rparr>)
           | Inl n \<Rightarrow> andthen (do_ares_process_fds sy env ready nfds (a\<lparr>ar_service := s\<rparr>)) (\<lambda>a. Inr (waitd_usec, a))))"

text \<open>The option \<open>YOPT_S_DNS_LIST\<close>, and the service before its thread runs.\<close>

definition set_dns_list :: "string \<Rightarrow> ares_service \<Rightarrow> ares_service" where
  "set_dns_list csv a = a\<lparr>ar_name_servers := csv, ar_service := (ar_service a)\<lparr>sv_dns_dirty := True\<rparr>\<rparr>"

definition new_ares :: "service \<Rightarrow> ares_service" where
  "new_ares s =
     \<lparr>ar_service = s, ar_ares = None, ar_work = 0, ar_name_servers = [], ar_queries_timeout = 5000000, ar_queries_tries = 5,
      ar_queries = [], ar_asked = [], ar_servers = None, ar_options = None, ar_next = 0\<rparr>"

section \<open>Every query is counted\<close>

text \<open>
  What happens to the library's side of the service: the thread starts or ends, a frame begins, a client
  channel has its turn, the user sets the list of servers; anything else leaves that side alone.
\<close>

inductive ares_step :: "ares_service \<Rightarrow> ares_service \<Rightarrow> bool" where
  Ares_start: "recreate_ares_channel sy env a = Inr a' \<Longrightarrow> ares_step a a'"
| Ares_frame: "ares_frame sy env ready polled a = Inr (w, a') \<Longrightarrow> ares_step a a'"
| Ares_turn: "ares_client_turn sy env i a = Inr a' \<Longrightarrow> ares_step a a'"
| Ares_exit: "ares_step a (ares_worker_exit sy a)"
| Ares_list: "ares_step a (set_dns_list csv a)"
| Ares_else: "ares_step a (a\<lparr>ar_service := s\<rparr>)"

definition ares_ok :: "ares_service \<Rightarrow> bool" where
  "ares_ok a \<longleftrightarrow> ar_work a = int (length (ar_queries a)) \<and> (ar_ares a = None \<longrightarrow> ar_queries a = [])"

lemma ares_ok_service [simp]: "ares_ok (a\<lparr>ar_service := s\<rparr>) = ares_ok a"
  by (simp add: ares_ok_def)

lemma ares_cb_fields [simp]:
  "ar_queries (ares_getaddrinfo_cb sy i st ans a) = ar_queries a" "ar_ares (ares_getaddrinfo_cb sy i st ans a) = ar_ares a"
  "ar_work (ares_getaddrinfo_cb sy i st ans a) = (if ar_work a > 0 then ar_work a - 1 else ar_work a)"
  by (simp_all add: ares_getaddrinfo_cb_def ares_work_finished_def Let_def)

lemma ares_answer_queries: "ar_queries (ares_answer sy (i, st, ans) a) = remove1 i (ar_queries a)"
  by (simp add: ares_answer_def remove1_idem)

lemma ares_answer_ares [simp]: "ar_ares (ares_answer sy q a) = ar_ares a"
  by (cases q) (simp add: ares_answer_def)

lemma ares_answer_ok [simp]: "ares_ok a \<Longrightarrow> ares_ok (ares_answer sy q a)"
  by (cases q) (auto simp: ares_answer_def ares_ok_def length_remove1 of_nat_diff Suc_le_eq)

lemma ares_answers_keep [simp]:
  "ares_ok a \<Longrightarrow> ares_ok (ares_answers sy qs a)" "ar_ares (ares_answers sy qs a) = ar_ares a"
  by (induction qs arbitrary: a) (simp_all add: ares_answers_def)

lemma ares_cancel_all: "ar_queries (ares_answers sy (map (\<lambda>i. (i, st, None)) (ar_queries a)) a) = []"
proof -
  have "ar_queries (fold (ares_answer sy) (map (\<lambda>i. (i, st, None)) is) a) = fold remove1 is (ar_queries a)" for "is" a
    by (induction "is" arbitrary: a) (simp_all add: ares_answer_queries)
  moreover have "fold remove1 is is = []" for "is" :: "nat list" by (induction "is") simp_all
  ultimately show ?thesis by (simp add: ares_answers_def)
qed

lemma ares_destroy_ok: "ares_ok a \<Longrightarrow> ares_ok (destroy_ares_channel sy a) \<and> ar_ares (destroy_ares_channel sy a) = None \<and> ar_queries (destroy_ares_channel sy a) = []"
  using ares_answers_keep(1) [of a sy "map (\<lambda>i. (i, ARES_ECANCELLED, None)) (ar_queries a)"]
  by (auto simp: destroy_ares_channel_def ares_cancel_all ares_ok_def)

lemma config_ok: "config_ares_name_servers sy env a = Inr a' \<Longrightarrow>
    ar_work a' = ar_work a \<and> ar_queries a' = ar_queries a \<and> ar_ares a' = ar_ares a \<and> ar_service a' = ar_service a"
  by (auto simp: config_ares_name_servers_def Let_def andthen_Inr_iff split: option.splits if_splits)

lemma recreate_ok: "recreate_ares_channel sy env a = Inr a' \<Longrightarrow> ares_ok a \<Longrightarrow> ares_ok a'"
  using ares_destroy_ok [of a sy]
  by (auto simp: recreate_ares_channel_def Let_def ares_ok_def dest!: config_ok split: if_splits)

lemma update_dns_ok: "ares_update_dns_status sy env a = Inr a' \<Longrightarrow> ares_ok a \<Longrightarrow> ares_ok a'"
  by (auto simp: ares_update_dns_status_def andthen_Inr_iff Let_def dest!: recreate_ok split: if_splits)

lemma start_query_ok: "ares_start_query sy env i a = Inr a' \<Longrightarrow> ares_ok a \<Longrightarrow> ares_ok a'"
  by (auto simp: ares_start_query_def ares_work_started_def Let_def ares_ok_def [of a] ares_ok_def [of "a\<lparr>ar_work := w\<rparr>" for w]
      split: if_splits option.splits intro!: ares_answer_ok) (simp_all add: ares_ok_def)

lemma query_ok: "ares_query sy env i a = Inr (r, a') \<Longrightarrow> ares_ok a \<Longrightarrow> ares_ok a'"
  by (auto simp: ares_query_def Let_def andthen_Inr_iff split: if_splits dest!: start_query_ok)

lemma do_resolve_ok: "ares_do_resolve sy env i a = Inr (r, a') \<Longrightarrow> ares_ok a \<Longrightarrow> ares_ok a'"
  by (auto simp: ares_do_resolve_def Let_def andthen_Inr_iff split: if_splits prod.splits dest!: update_dns_ok query_ok)

lemma on_service_ok: "on_service f a = Inr a' \<Longrightarrow> ares_ok a \<Longrightarrow> ares_ok a'"
  by (auto simp: on_service_def andthen_Inr_iff)

lemma client_turn_ok: "ares_client_turn sy env i a = Inr a' \<Longrightarrow> ares_ok a \<Longrightarrow> ares_ok a'"
  by (auto simp: ares_client_turn_def Let_def andthen_Inr_iff split: if_splits prod.splits dest: do_resolve_ok on_service_ok)

lemma process_fds_ok: "do_ares_process_fds sy env ready n a = Inr a' \<Longrightarrow> ares_ok a \<Longrightarrow> ares_ok a'"
proof -
  have "ares_ok a \<Longrightarrow> ares_ok (fold (\<lambda>k. ares_answers sy (g k)) ks a)" for g ks
    by (induction ks arbitrary: a) simp_all
  then show "do_ares_process_fds sy env ready n a = Inr a' \<Longrightarrow> ares_ok a \<Longrightarrow> ares_ok a'"
    by (auto simp: do_ares_process_fds_def Let_def split: if_splits)
qed

lemma ares_step_ok: "ares_step a a' \<Longrightarrow> ares_ok a \<Longrightarrow> ares_ok a'"
proof (induction rule: ares_step.induct)
  case (Ares_frame sy env ready polled a w a')
  then show ?case
    by (cases polled) (auto simp: ares_frame_def andthen_Inr_iff split: prod.splits if_splits dest!: process_fds_ok)
next
  case (Ares_exit a sy)
  then show ?case using ares_destroy_ok [of a sy] by (simp add: ares_worker_exit_def Let_def)
next
  case (Ares_list a csv)
  then show ?case by (simp add: set_dns_list_def ares_ok_def)
qed (use recreate_ok client_turn_ok in auto)

lemma ares_reachable_ok: "ares_step\<^sup>*\<^sup>* (new_ares s) a \<Longrightarrow> ares_ok a"
  by (induction rule: rtranclp_induct) (auto simp: new_ares_def ares_ok_def [of "new_ares s", unfolded new_ares_def] intro: ares_step_ok)

text \<open>C10: The count of outstanding queries is the number of those the library has not answered, whatever
  it answers and whenever, in calls that ask, process or cancel; so the loop asks it for descriptors
  only while there is a channel of it, and when the thread ends nothing is outstanding.\<close>

theorem ares_work_balanced:
  assumes "ares_step\<^sup>*\<^sup>* (new_ares s) a"
  shows "ar_work a = int (length (ar_queries a)) \<and>
    (\<forall>env w. \<exists>n w'. ares_get_fds env w a = Inr (n, w') \<and> (\<forall>sy ready. \<exists>a'. do_ares_process_fds sy env ready n a = Inr a')) \<and>
    (\<forall>sy. ar_work (ares_worker_exit sy a) = 0 \<and> ar_ares (ares_worker_exit sy a) = None)"
proof -
  have ok: "ares_ok a" by (rule ares_reachable_ok [OF assms])
  have "\<exists>n w'. ares_get_fds env w a = Inr (n, w') \<and> (\<forall>sy ready. \<exists>a'. do_ares_process_fds sy env ready n a = Inr a')" for env w
    using ok by (auto simp: ares_get_fds_def do_ares_process_fds_def Let_def ares_ok_def split: prod.splits)
  moreover have "ar_work (ares_worker_exit sy a) = 0 \<and> ar_ares (ares_worker_exit sy a) = None" for sy
    using ares_destroy_ok [OF ok, of sy] by (auto simp: ares_worker_exit_def Let_def ares_ok_def)
  ultimately show ?thesis using ok by (simp add: ares_ok_def)
qed

section \<open>The two resolvers\<close>


lemma set_ctx_twice [simp]: "set_ctx i c' (set_ctx i c s) = set_ctx i c' s"
  by (simp add: set_ctx_def)

lemma set_ctx_reads: "set_ctx i c (s\<lparr>ts_reads := n\<rparr>) = (set_ctx i c s)\<lparr>ts_reads := n\<rparr>" "ctx_of (s\<lparr>ts_reads := n\<rparr>) = ctx_of s"
  by (simp_all add: set_ctx_def ctx_of_def fun_eq_iff)








lemma ares_do_resolve_unfold:
  assumes "b = a\<lparr>ar_service := set_ctx i (refresh_address sy (ctx_of (ar_service a) i)) (ar_service a)\<rparr>"
  shows "ares_do_resolve sy env i a =
      (if ch_remote_eps (ctx_of (ar_service b) i) \<noteq> []
       then if \<not> ch_is YCPF_NEEDS_QUERY (ctx_of (ar_service b) i) then Inr (0, b)
            else andthen (ares_update_dns_status sy env b) (\<lambda>a.
                   if io_error (ctx_of (ar_service a) i) = EINPROGRESS then Inr (0, a)
                   else let (old, s) = address_expired sy i (ar_service a)
                        in if \<not> old then Inr (0, a\<lparr>ar_service := s\<rparr>)
                           else ares_query sy env i (a\<lparr>ar_service := set_ctx i ((ctx_of s i)\<lparr>ch_remote_eps := []\<rparr>) s\<rparr>))
       else ares_query sy env i b)"
  unfolding ares_do_resolve_def assms by (simp only: Let_def)


lemma ar_service_inj [simp]: "b\<lparr>ar_service := x\<rparr> = b\<lparr>ar_service := y\<rparr> \<longleftrightarrow> x = y"
    "b\<lparr>ar_service := x\<rparr> = b \<longleftrightarrow> x = ar_service b"
  by (cases b; auto)+


section \<open>The wait\<close>

lemma fds_loop_bounds: "fds_loop env i n \<le> n \<and> (\<forall>k < fds_loop env i n. ae_readable env (i + k) \<or> ae_writable env (i + k))"
proof (induction n arbitrary: i)
  case (Suc n)
  have "ae_readable env (i + k) \<or> ae_writable env (i + k)" if "k < fds_loop env i (Suc n)" for k
    using that Suc.IH [of "Suc i"] by (cases k) (auto split: if_splits)
  then show ?case using Suc.IH [of "Suc i"] by auto
qed simp

text \<open>The time the loop waits is never longer than the timers allow, and shorter only for the
  library's own timeouts; no more descriptors are taken than the array holds, each one that the library
  wants to watch.  \<open>ares_timeout\<close> is documented to return no more than its argument.\<close>

theorem ares_wait_bounded:
  assumes "\<forall>sec usec. 0 \<le> sec \<and> 0 \<le> usec \<and> usec < 1000000 \<longrightarrow>
      (case ae_timeout env (sec, usec) of (sec', usec') \<Rightarrow> 0 \<le> sec' \<and> 0 \<le> usec' \<and> sec' * 1000000 + usec' \<le> sec * 1000000 + usec)"
    and "0 \<le> waitd_usec" "ares_get_fds env waitd_usec a = Inr (nfds, w)"
  shows "0 \<le> w \<and> w \<le> waitd_usec \<and> nfds \<le> 16 \<and> (\<forall>k < nfds. ae_readable env k \<or> ae_writable env k) \<and> (ar_work a = 0 \<longrightarrow> nfds = 0 \<and> w = waitd_usec)"
proof -
  let ?sec = "waitd_usec sdiv 1000000" and ?usec = "waitd_usec smod 1000000"
  have s: "?sec = waitd_usec div 1000000" "?usec = waitd_usec mod 1000000"
    using assms(2) by (simp_all add: signed_divide_int_def signed_modulo_int_def sgn_if)
  have "case ae_timeout env (?sec, ?usec) of (sec', usec') \<Rightarrow> 0 \<le> sec' \<and> 0 \<le> usec' \<and> sec' * 1000000 + usec' \<le> ?sec * 1000000 + ?usec"
    using assms(2) by (intro assms(1) [rule_format]) (simp add: s pos_imp_zdiv_nonneg_iff)
  moreover have "?sec * 1000000 + ?usec = waitd_usec" by (simp add: s)
  ultimately show ?thesis using assms(2,3) fds_loop_bounds [of env 0 16]
    by (auto simp: ares_get_fds_def ARES_GETSOCK_MAXNUM_def Let_def split: if_splits prod.splits)
qed

section \<open>Changing the settings\<close>

lemma ctx_of_set_other: "k \<noteq> j \<Longrightarrow> ctx_of (set_ctx k c s) j = ctx_of s j"
  by (simp add: ctx_of_def set_ctx_def)

lemma cb_ctx:
  assumes "j < length (sv_channels (ar_service a))"
  shows "k \<noteq> j \<Longrightarrow> ctx_of (ar_service (ares_getaddrinfo_cb sy k st ans a)) j = ctx_of (ar_service a) j"
    and "ch_remote_eps (ctx_of (ar_service a) j) = [] \<Longrightarrow>
      ctx_of (ar_service (ares_getaddrinfo_cb sy j st None a)) j = IoTypes.set_last_errno ERR_resolve_host_failed NONE (ctx_of (ar_service a) j)"
    and "length (sv_channels (ar_service (ares_getaddrinfo_cb sy k st ans a))) = length (sv_channels (ar_service a))"
  using assms
  by (auto simp: ares_getaddrinfo_cb_def ares_work_finished_def Let_def IoService.highp_clock_def set_ctx_reads ctx_of_set_ctx
      ctx_of_set_other split: option.splits)

lemma cancel_ctx:
  assumes "j < length (sv_channels (ar_service a))" "ch_remote_eps (ctx_of (ar_service a) j) = []"
  shows "ctx_of (ar_service (ares_answers sy (map (\<lambda>k. (k, st, None)) (ar_queries a)) a)) j =
      (if j \<in> set (ar_queries a) then IoTypes.set_last_errno ERR_resolve_host_failed NONE (ctx_of (ar_service a) j) else ctx_of (ar_service a) j) \<and>
    length (sv_channels (ar_service (ares_answers sy (map (\<lambda>k. (k, st, None)) (ar_queries a)) a))) = length (sv_channels (ar_service a))"
proof -
  have "ar_queries a = ks \<Longrightarrow> j < length (sv_channels (ar_service a)) \<Longrightarrow> ch_remote_eps (ctx_of (ar_service a) j) = [] \<Longrightarrow>
      ctx_of (ar_service (ares_answers sy (map (\<lambda>k. (k, st, None)) ks) a)) j =
        (if j \<in> set ks then IoTypes.set_last_errno ERR_resolve_host_failed NONE (ctx_of (ar_service a) j) else ctx_of (ar_service a) j) \<and>
      length (sv_channels (ar_service (ares_answers sy (map (\<lambda>k. (k, st, None)) ks) a))) = length (sv_channels (ar_service a))" for ks a
  proof (induction ks arbitrary: a)
    case (Cons k ks)
    let ?b = "a\<lparr>ar_queries := ks\<rparr>"
    let ?a = "ares_getaddrinfo_cb sy k st None ?b"
    have step: "ares_answers sy ((k, st, None) # map (\<lambda>k. (k, st, None)) ks) a = ares_answers sy (map (\<lambda>k. (k, st, None)) ks) ?a"
      using Cons.prems(1) by (simp add: ares_answers_def ares_answer_def)
    have c: "ctx_of (ar_service ?a) j = (if k = j then IoTypes.set_last_errno ERR_resolve_host_failed NONE (ctx_of (ar_service a) j) else ctx_of (ar_service a) j)"
      "length (sv_channels (ar_service ?a)) = length (sv_channels (ar_service a))"
      using cb_ctx [of j ?b] Cons.prems by auto
    have "ch_remote_eps (ctx_of (ar_service ?a) j) = []" using c(1) Cons.prems(3) by (simp add: IoTypes.set_last_errno_def)
    then show ?case using Cons.IH [of ?a] Cons.prems c
      by (auto simp: step IoTypes.set_last_errno_def)
  qed (simp add: ares_answers_def)
  then show ?thesis using assms by blast
qed

lemma update_dns_cancels:
  assumes "ares_update_dns_status sy env a = Inr a'" "sv_dns_dirty (ar_service a)" "ar_ares a \<noteq> None"
    and "j \<in> set (ar_queries a)" "j < length (sv_channels (ar_service a))" "ch_remote_eps (ctx_of (ar_service a) j) = []"
  shows "ctx_of (ar_service a') j = (IoTypes.set_last_errno ERR_resolve_host_failed NONE (ctx_of (ar_service a) j))\<lparr>ch_query_success_time := 0\<rparr> \<and>
    length (sv_channels (ar_service a')) = length (sv_channels (ar_service a))"
proof -
  let ?b = "a\<lparr>ar_service := (ar_service a)\<lparr>sv_dns_dirty := False\<rparr>\<rparr>"
  have c: "ctx_of (s\<lparr>sv_dns_dirty := d\<rparr>) = ctx_of s" for s d by (simp add: ctx_of_def fun_eq_iff)
  obtain b where b: "recreate_ares_channel sy env ?b = Inr b"
    "a' = b\<lparr>ar_service := (ar_service b)\<lparr>sv_channels := map (\<lambda>c. c\<lparr>ch_query_success_time := 0\<rparr>) (sv_channels (ar_service b))\<rparr>\<rparr>"
    using assms(1,2) by (auto simp: ares_update_dns_status_def andthen_Inr_iff Let_def)
  have "ar_service b = ar_service (destroy_ares_channel sy ?b)"
    using b(1) assms(3) by (auto simp: recreate_ares_channel_def Let_def dest!: config_ok split: if_splits)
  then have "ctx_of (ar_service b) j = IoTypes.set_last_errno ERR_resolve_host_failed NONE (ctx_of (ar_service a) j)"
    "length (sv_channels (ar_service b)) = length (sv_channels (ar_service a))"
    using cancel_ctx [of j ?b sy ARES_ECANCELLED] assms(3-6) by (auto simp: destroy_ares_channel_def c)
  then show ?thesis using assms(5) by (auto simp: b(2) ctx_of_def)
qed

text \<open>C39: When the DNS settings are changed, the next channel whose address has expired makes a new
  channel of the library, and the queries of all other channels fail: a client that was waiting for its
  address is told that its host cannot be resolved, and is closed.\<close>

theorem dns_change_fails_pending:
  assumes "ares_step\<^sup>*\<^sup>* (new_ares s0) a" "j \<in> set (ar_queries a)" "sv_dns_dirty (ar_service a)"
    and "i \<noteq> j" "i < length (sv_channels (ar_service a))" "j < length (sv_channels (ar_service a))"
    and "ch_remote_eps (refresh_address sy (ctx_of (ar_service a) i)) \<noteq> []"
      "ch_is YCPF_NEEDS_QUERY (refresh_address sy (ctx_of (ar_service a) i))"
    and "ch_remote_eps (ctx_of (ar_service a) j) = []" "ch_remote_host (ctx_of (ar_service a) j) \<noteq> []"
      "\<not> ch_is YCPF_HOST_DIRTY (ctx_of (ar_service a) j)" "\<not> ch_is YCPF_PORT_DIRTY (ctx_of (ar_service a) j)"
      "io_state (ctx_of (ar_service a) j) = RESOLVING" "\<not> testbits (io_opmask (ctx_of (ar_service a) j)) YOPM_OPEN"
    and "ares_do_resolve sy env i a = Inr (r, a')"
  shows "\<exists>a''. ares_client_turn sy env' j a' = Inr a'' \<and> io_state (ctx_of (ar_service a'') j) = CLOSED \<and>
    (\<exists>e. fired (ar_service a'') = fired (ar_service a') @ [e] \<and> ev_kind e = YEK_ON_OPEN \<and> ev_status e = ERR_resolve_host_failed)"
proof -
  define b where "b = a\<lparr>ar_service := set_ctx i (refresh_address sy (ctx_of (ar_service a) i)) (ar_service a)\<rparr>"
  have sb: "ar_service b = set_ctx i (refresh_address sy (ctx_of (ar_service a) i)) (ar_service a)" by (simp add: b_def)
  have bi: "ctx_of (ar_service b) i = refresh_address sy (ctx_of (ar_service a) i)"
    and bj: "ctx_of (ar_service b) j = ctx_of (ar_service a) j"
    and bn: "length (sv_channels (ar_service b)) = length (sv_channels (ar_service a))" "sv_dns_dirty (ar_service b)" "ar_ares b \<noteq> None"
    using assms(2-6) ares_reachable_ok [OF assms(1)]
    by (auto simp: b_def ctx_of_set_ctx ctx_of_set_other ares_ok_def) (simp add: set_ctx_def)
  obtain c where c: "ares_update_dns_status sy env b = Inr c"
    using assms(7,8,15) by (auto simp: ares_do_resolve_unfold [OF b_def] bi andthen_Inr_iff)
  define x where "x = (IoTypes.set_last_errno ERR_resolve_host_failed NONE (ctx_of (ar_service a) j))\<lparr>ch_query_success_time := 0\<rparr>"
  have cj: "ctx_of (ar_service c) j = x" "length (sv_channels (ar_service c)) = length (sv_channels (ar_service a))"
    using update_dns_cancels [OF c bn(2,3), of j] assms(2,6,9) bj bn(1) by (simp_all add: b_def x_def)
  have q: "ctx_of (ar_service e') j = ctx_of (ar_service e) j \<and> length (sv_channels (ar_service e')) = length (sv_channels (ar_service e))"
    if "ares_query sy env i e = Inr (r', e')" "j < length (sv_channels (ar_service e))" for e e' r'
    using that assms(4)
    by (auto simp: ares_query_def ares_start_query_def ares_work_started_def ares_answer_def Let_def andthen_Inr_iff ctx_of_set_other cb_ctx
        split: if_splits option.splits)
  have j: "ctx_of (ar_service a') j = x" "length (sv_channels (ar_service a')) = length (sv_channels (ar_service a))"
    using assms(4,6,7,8,15) cj q
    by (auto simp: ares_do_resolve_unfold [OF b_def] bi c address_expired_def IoService.highp_clock_def
        ctx_of_set_other set_ctx_reads split: if_splits)
  have "refresh_address sy x = x" "ch_remote_eps x = []" "ch_remote_host x \<noteq> []" "io_error x = ERR_resolve_host_failed"
    "io_state x = RESOLVING" "\<not> testbits (io_opmask x) YOPM_OPEN"
    using assms(9-14) by (simp_all add: x_def refresh_address_def ch_is_def IoTypes.set_last_errno_def)
  moreover have "set_ctx j x (ar_service a') = ar_service a'" using j(1) by (auto simp: set_ctx_def ctx_of_def)
  ultimately have "ares_client_turn sy env' j a' = Inr (a'\<lparr>ar_service := handle_connect_failed j ERR_resolve_host_failed (ar_service a')\<rparr>)"
    using j assms(6) by (simp add: ares_client_turn_def ares_do_resolve_def ares_query_def Let_def ctx_of_set_ctx
        ERR_resolve_host_failed_def EINPROGRESS_def)
  then show ?thesis using connect_failed_result(1,2) [of j "ar_service a'"] j(2) assms(6) by (simp add: channel_event_def)
qed

section \<open>The name servers\<close>

lemma format_server:
  assumes "format_to (compat_env ifs) e n (fmt_default OR fmt_no_local) = Inr s"
  shows "s \<noteq> [] \<longleftrightarrow> is_global e"
proof -
  have "is_global e \<Longrightarrow> ep_af e = AF_INET \<or> ep_af e = AF_INET6" by (auto simp: is_global_def split: if_splits)
  then show ?thesis using assms
    by (auto simp: format_to_def andthen_Inr_iff fmt_defs compat_env_def inet_ntop_def inet_ntop4_def Let_def split: if_splits option.splits)
qed

lemma servers_csv_empty:
  assumes "servers_csv (compat_env ifs) ns buf = Inr csv"
  shows "csv = [] \<longleftrightarrow> buf = [] \<and> (\<forall>(family, addr, port) \<in> set ns. \<not> is_global (as_in_raw family addr port (replicate 32 0)))"
  using assms
proof (induction ns arbitrary: buf)
  case (Cons n ns)
  obtain family addr port where n: "n = (family, addr, port)" by (cases n)
  obtain s where s: "format_to (compat_env ifs) (as_in_raw family addr port (replicate 32 0)) max_fmt_len (fmt_default OR fmt_no_local) = Inr s"
    "servers_csv (compat_env ifs) ns (if s \<noteq> [] then buf @ s @ '','' else buf) = Inr csv"
    using Cons.prems by (auto simp: n andthen_Inr_iff)
  show ?case using Cons.IH [OF s(2)] format_server [OF s(1)] by (cases "s = []") (simp_all add: n)
qed simp

text \<open>The library keeps the list of the user, or the system's, only if one of its servers is
  neither local nor link-local; otherwise the built-in public servers take its place, also when the user
  has asked for a server on the local machine.\<close>

theorem name_servers_fall_back:
  assumes "sy_net sy = compat_env ifs" "config_ares_name_servers sy env a = Inr a'"
    and "ae_get_servers env (if ar_name_servers a \<noteq> [] then Some (ar_name_servers a) else ar_servers a) = Some ns"
  shows "ar_servers a' =
    (if \<exists>(family, addr, port) \<in> set ns. is_global (as_in_raw family addr port (replicate 32 0))
     then (if ar_name_servers a \<noteq> [] then Some (ar_name_servers a) else ar_servers a)
     else Some YASIO_FALLBACK_NAME_SERVERS)"
proof -
  let ?a = "if ar_name_servers a \<noteq> [] then a\<lparr>ar_servers := Some (ar_name_servers a)\<rparr> else a"
  have s: "ar_servers ?a = (if ar_name_servers a \<noteq> [] then Some (ar_name_servers a) else ar_servers a)" by simp
  have "andthen (servers_csv (compat_env ifs) ns [])
      (\<lambda>nscsv. Inr (if nscsv \<noteq> [] then ?a else ?a\<lparr>ar_servers := Some YASIO_FALLBACK_NAME_SERVERS\<rparr>)) = Inr a'"
    using assms(2,3) by (simp only: config_ares_name_servers_def Let_def s assms(1) option.case)
  then obtain csv where "servers_csv (compat_env ifs) ns [] = Inr csv"
    "a' = (if csv \<noteq> [] then ?a else ?a\<lparr>ar_servers := Some YASIO_FALLBACK_NAME_SERVERS\<rparr>)"
    unfolding andthen_Inr_iff by blast
  then show ?thesis using servers_csv_empty [of ifs ns "[]" csv] by (auto split: if_splits)
qed

section \<open>Two channels with names\<close>

text \<open>Channel 0 has an address, channel 1 asks for one; then the settings are changed.\<close>

definition demo_names :: service where
  "demo_names = (new_service [])\<lparr>sv_channels :=
     [(new_channel 1 0)\<lparr>ch_properties := YCPF_NEEDS_QUERY, ch_remote_host := ''a'', ch_remote_eps := [replicate 32 1]\<rparr>,
      (new_channel 2 1)\<lparr>io_state := RESOLVING, ch_properties := YCPF_NEEDS_QUERY, ch_remote_host := ''b'', ch_remote_port := 80\<rparr>]\<rparr>"

definition demo_ares :: ares_env where
  "demo_ares = \<lparr>ae_init = 0, ae_resolv_conf = True, ae_get_servers = (\<lambda>_. Some [(AF_INET, [127, 0, 0, 1], 53)]), ae_at_once = (\<lambda>_. None), ae_socks = [7],
     ae_readable = (\<lambda>k. k = 0), ae_writable = (\<lambda>_. False), ae_timeout = (\<lambda>_. (0, 500)), ae_process = (\<lambda>_ _. [])\<rparr>"

definition demo_asking :: ares_service where
  "demo_asking =
     \<lparr>ar_service = (start_query 1 demo_names)\<lparr>sv_dns_dirty := True\<rparr>, ar_ares = Some 0, ar_work = 1, ar_name_servers = [],
      ar_queries_timeout = 5000000, ar_queries_tries = 5, ar_queries = [1], ar_asked = [(''b'', Some ''80'', AF_INET)], ar_servers = Some YASIO_FALLBACK_NAME_SERVERS,
      ar_options = Some (5000, 5, True), ar_next = 1\<rparr>"

lemma demo_server_local: "\<not> is_global (as_in_raw AF_INET [127, 0, 0, 1] 53 (replicate 32 0))"
  by code_simp

lemma demo_config: "config_ares_name_servers demo_sys demo_ares a = Inr (a\<lparr>ar_servers := Some YASIO_FALLBACK_NAME_SERVERS\<rparr>)"
  using demo_server_local by (simp add: config_ares_name_servers_def demo_ares_def format_to_def fmt_defs)

lemma demo_recreate:
  "\<exists>b. recreate_ares_channel demo_sys demo_ares a = Inr b \<and> ar_ares b = Some (ar_next (destroy_ares_channel demo_sys a))"
  "recreate_ares_channel demo_sys demo_ares (new_ares s) =
     Inr ((new_ares s)\<lparr>ar_ares := Some 0, ar_next := 1, ar_servers := Some YASIO_FALLBACK_NAME_SERVERS, ar_options := Some (5000, 5, True)\<rparr>)"
proof -
  have i: "ae_init demo_ares = ARES_SUCCESS" by (simp add: demo_ares_def ARES_SUCCESS_def)
  have d: "ar_ares a = None \<Longrightarrow> destroy_ares_channel demo_sys a = a" for a by (simp add: destroy_ares_channel_def)
  show "\<exists>b. recreate_ares_channel demo_sys demo_ares a = Inr b \<and> ar_ares b = Some (ar_next (destroy_ares_channel demo_sys a))"
    by (simp add: recreate_ares_channel_def i demo_config d Let_def)
  show "recreate_ares_channel demo_sys demo_ares (new_ares s) =
     Inr ((new_ares s)\<lparr>ar_ares := Some 0, ar_next := 1, ar_servers := Some YASIO_FALLBACK_NAME_SERVERS, ar_options := Some (5000, 5, True)\<rparr>)"
    by (simp add: recreate_ares_channel_def i demo_config d Let_def) (simp add: new_ares_def demo_ares_def to_int32_def)
qed

lemma ares_query_returns: "ar_ares a \<noteq> None \<Longrightarrow> \<exists>r a'. ares_query sy env i a = Inr (r, a')"
  by (auto simp: ares_query_def ares_start_query_def ares_work_started_def Let_def)

lemma demo_asking_reached: "ares_step\<^sup>*\<^sup>* (new_ares demo_names) demo_asking"
proof -
  let ?a = "(new_ares demo_names)\<lparr>ar_ares := Some 0, ar_next := 1, ar_servers := Some YASIO_FALLBACK_NAME_SERVERS, ar_options := Some (5000, 5, True)\<rparr>"
  let ?b = "demo_asking\<lparr>ar_service := start_query 1 demo_names\<rparr>"
  have "recreate_ares_channel demo_sys demo_ares (new_ares demo_names) = Inr ?a"
    by (rule demo_recreate(2))
  moreover have "format_u 80 = ''80''" by code_simp
  then have "ares_client_turn demo_sys demo_ares 1 ?a = Inr ?b"
    by (simp add: ares_client_turn_def ares_do_resolve_def ares_query_def ares_start_query_def ares_work_started_def new_ares_def demo_asking_def
        demo_names_def new_service_def start_query_def ctx_of_def set_ctx_def refresh_address_def ch_is_def testbits_def mask_defs new_channel_def
        IoTypes.set_last_errno_def demo_ares_def demo_sys_def EINPROGRESS_def)
  moreover have "demo_asking = ?b\<lparr>ar_service := (start_query 1 demo_names)\<lparr>sv_dns_dirty := True\<rparr>\<rparr>" by (simp add: demo_asking_def)
  then have "ares_step ?b demo_asking" using Ares_else [of ?b "(start_query 1 demo_names)\<lparr>sv_dns_dirty := True\<rparr>"] by simp
  ultimately have "ares_step (new_ares demo_names) ?a" "ares_step ?a ?b" "ares_step ?b demo_asking"
    using Ares_start Ares_turn by blast+
  then show ?thesis by (meson rtranclp.rtrancl_into_rtrancl rtranclp.rtrancl_refl)
qed


theorem ares_work_balanced_witness:
  "ar_work demo_asking = int (length (ar_queries demo_asking)) \<and> (\<exists>n w'. ares_get_fds demo_ares 900 demo_asking = Inr (n, w')) \<and>
    ar_work (ares_worker_exit demo_sys demo_asking) = 0"
  using ares_work_balanced [OF demo_asking_reached] by blast

lemmas demo_ares_eval = demo_asking_def demo_names_def new_service_def start_query_def ctx_of_def set_ctx_def refresh_address_def ch_is_def
  testbits_def mask_defs new_channel_def IoTypes.set_last_errno_def


theorem ares_wait_bounded_witness: "ares_get_fds demo_ares 900 demo_asking = Inr (1, 500) \<and> (0 :: int) \<le> 500 \<and> (500 :: int) \<le> 900"
proof -
  have "fds_loop demo_ares 0 16 = 1" by (simp add: eval_nat_numeral demo_ares_def)
  then have g: "ares_get_fds demo_ares 900 demo_asking = Inr (1, 500)"
    by (simp add: ares_get_fds_def demo_asking_def ARES_GETSOCK_MAXNUM_def) (simp add: demo_ares_def)
  show ?thesis using g ares_wait_bounded [OF _ _ g] by simp
qed

theorem dns_change_fails_pending_witness:
  "\<exists>r a' a''. ares_do_resolve demo_sys demo_ares 0 demo_asking = Inr (r, a') \<and> ares_client_turn demo_sys demo_ares 1 a' = Inr a'' \<and>
     io_state (ctx_of (ar_service a'') 1) = CLOSED \<and> (\<exists>e. fired (ar_service a'') = fired (ar_service a') @ [e] \<and> ev_status e = ERR_resolve_host_failed)"
proof -
  define b where "b = demo_asking\<lparr>ar_service := set_ctx 0 (refresh_address demo_sys (ctx_of (ar_service demo_asking) 0)) (ar_service demo_asking)\<rparr>"
  have "\<exists>c. ares_update_dns_status demo_sys demo_ares b = Inr c \<and> ar_ares c \<noteq> None"
  proof -
    obtain d where "recreate_ares_channel demo_sys demo_ares (b\<lparr>ar_service := (ar_service b)\<lparr>sv_dns_dirty := False\<rparr>\<rparr>) = Inr d" "ar_ares d \<noteq> None"
      using demo_recreate(1) by force
    moreover have "ar_ares b = Some 0" by (simp add: b_def demo_asking_def)
    ultimately show ?thesis by (cases "sv_dns_dirty (ar_service b)") (simp_all add: ares_update_dns_status_def Let_def)
  qed
  then obtain c where c: "ares_update_dns_status demo_sys demo_ares b = Inr c" "ar_ares c \<noteq> None" by blast
  have "ch_remote_eps (ctx_of (ar_service b) 0) \<noteq> []" by (simp add: b_def demo_ares_eval)
  then have "\<exists>r a'. ares_do_resolve demo_sys demo_ares 0 demo_asking = Inr (r, a')"
    using c(2) ares_query_returns by (simp add: ares_do_resolve_unfold [OF b_def] c(1) split: prod.split)
  then obtain r a' where r: "ares_do_resolve demo_sys demo_ares 0 demo_asking = Inr (r, a')" by blast
  have "\<exists>a''. ares_client_turn demo_sys demo_ares 1 a' = Inr a'' \<and> io_state (ctx_of (ar_service a'') 1) = CLOSED \<and>
      (\<exists>e. fired (ar_service a'') = fired (ar_service a') @ [e] \<and> ev_kind e = YEK_ON_OPEN \<and> ev_status e = ERR_resolve_host_failed)"
    by (rule dns_change_fails_pending [OF demo_asking_reached _ _ _ _ _ _ _ _ _ _ _ _ _ r]) (simp_all add: demo_ares_eval)
  then show ?thesis using r by blast
qed

theorem name_servers_fall_back_witness:
  "\<exists>a'. config_ares_name_servers demo_sys demo_ares (demo_asking\<lparr>ar_name_servers := ''127.0.0.1''\<rparr>) = Inr a' \<and>
     ar_servers a' = Some YASIO_FALLBACK_NAME_SERVERS"
proof -
  note c = demo_config [of "demo_asking\<lparr>ar_name_servers := ''127.0.0.1''\<rparr>"]
  show ?thesis using c name_servers_fall_back [OF _ c, of "\<lambda>_. 0" "[(AF_INET, [127, 0, 0, 1], 53)]"] demo_server_local
    by (simp add: demo_sys_def demo_ares_def)
qed

end
