(* ===== verification/ServiceLife.thy ===== *)
theory ServiceLife
  imports Tls ServiceFlow
begin

text \<open>
  The end of a service (\<open>finalize\<close>, \<open>destroy_channels\<close> in \<open>yasio/io_service.cpp\<close>), its default resolver and
  the texts of its errors.  The accounting of the transports' memory runs over every step of
  \<open>ServiceProtocol\<close>.
\<close>

section \<open>Finalizing\<close>

text \<open>
  \<open>destroy_channels\<close> and \<open>finalize\<close>; the second result of \<open>finalize\<close> are the addresses it hands to
  \<open>operator delete\<close>.  The timer of a channel has the channel's number.
\<close>

definition destroy_channels :: "service \<Rightarrow> service" where
  "destroy_channels s =
     (let s = s\<lparr>sv_channel_ops := []\<rparr>;
          s = fold (\<lambda>i s. snd (cleanup_io i True (cancel i s))) [0..<length (sv_channels s)] s
      in s\<lparr>sv_channels := []\<rparr>)"

definition service_finalize :: "service \<Rightarrow> service \<times> nat list" where
  "service_finalize s =
     (if sv_state s = IDLE
      then let s = destroy_channels s in (s\<lparr>sv_tpool := [], sv_state := UNINITIALIZED\<rparr>, sv_tpool s)
      else (s, []))"

section \<open>No transport is lost\<close>

text \<open>Addresses from \<open>operator new\<close> that are neither in the list of transports nor in the pool.\<close>

definition surplus :: "service \<Rightarrow> int" where
  "surplus s = int (sv_next_addr s) - int (length (sv_transports s)) - int (length (sv_tpool s))"

lemma quiet_surplus: "quiet s s' \<Longrightarrow> surplus s' = surplus s"
  by (simp add: quiet_def surplus_def)

lemma surplus_simps [simp]:
  "surplus (active_transport h s) = surplus s - 1"
  "surplus (s\<lparr>sv_map := m\<rparr>) = surplus s" "surplus (s\<lparr>sv_delivered := d\<rparr>) = surplus s"
  by (simp_all add: surplus_def active_transport_def)

lemma surplus_allocate: "allocate_transport i own fd s = (h, s') \<Longrightarrow> surplus s' = surplus s + 1"
  by (simp add: surplus_def allocate_eqs) (auto simp: Suc_leI)

lemma surplus_connect_succeed:
  assumes "handle_connect_succeed sy h s = Inr s'"
  shows "surplus s' = surplus s - 1"
proof -
  have "\<exists>t. quiet s t \<and> s' = active_transport h t"
    using assms unfolding handle_connect_succeed_def Let_def
    by (auto split: if_splits list.splits option.splits
        intro: quiet_trans [OF quiet_set_ctx quiet_configure_remote] quiet_set_ctx quiet_trans [OF quiet_set_ctx quiet_mod_event])
  then show ?thesis using quiet_surplus by auto
qed

lemmas quiet_ops = quiet_surplus [OF quiet_set_ctx] quiet_surplus [OF quiet_set_sock] quiet_surplus [OF quiet_mod_event]
  quiet_surplus [OF quiet_wakeup] quiet_surplus [OF quiet_schedule] quiet_surplus [OF quiet_cancel] quiet_surplus [OF quiet_cleanup_io]
  quiet_surplus [OF quiet_cleanup_channel] quiet_surplus [OF quiet_connect_failed] quiet_surplus [OF quiet_do_resolve]
  quiet_surplus [OF quiet_do_accept] quiet_surplus [OF quiet_query_finished] quiet_surplus [OF quiet_configure_remote]

lemma surplus_do_connect: "do_connect sy i s = Inr s' \<Longrightarrow> surplus s' = surplus s"
  unfolding do_connect_def Let_def
  by (auto split: list.splits sum.splits if_splits prod.splits simp: quiet_ops dest!: surplus_allocate surplus_connect_succeed)

lemma surplus_do_connect_completion: "do_connect_completion sy i s = Inr s' \<Longrightarrow> surplus s' = surplus s"
  unfolding do_connect_completion_def Let_def
  by (auto split: if_splits option.splits prod.splits simp: andthen_Inr_iff quiet_ops dest!: surplus_allocate surplus_connect_succeed)

lemma surplus_client_turn:
  assumes "client_turn sy i s = Inr s'"
  shows "surplus s' = surplus s"
proof -
  define s1 where "s1 = (if testbits (io_opmask (ctx_of s i)) YOPM_OPEN
    then set_ctx i ((ctx_of s i)\<lparr>io_opmask := clearbits (io_opmask (ctx_of s i)) YOPM_OPEN, io_state := RESOLVING\<rparr>) s else s)"
  have 1: "surplus s1 = surplus s" by (simp add: s1_def quiet_ops)
  obtain r s2 where r: "do_resolve sy i s1 = (r, s2)" by fastforce
  then have "surplus s2 = surplus s1" using quiet_surplus [OF quiet_do_resolve [of s1 sy i]] by simp
  with assms 1 show ?thesis unfolding client_turn_def Let_def s1_def [symmetric]
    by (auto simp: r quiet_ops split: if_splits dest!: surplus_do_connect surplus_do_connect_completion)
qed

lemma surplus_handle_input [simp]: "surplus (handle_input h d s) = surplus s"
  by (simp add: handle_input_def surplus_def Let_def)

lemma surplus_dgram_accept: "do_dgram_accept sy i peer s = Inr (h, s') \<Longrightarrow> surplus s' = surplus s"
  unfolding do_dgram_accept_def Let_def
  by (auto split: option.splits sum.splits if_splits prod.splits simp: andthen_Inr_iff quiet_ops dest!: surplus_allocate surplus_connect_succeed)

lemma surplus_accept_completion: "do_accept_completion sy i s = Inr s' \<Longrightarrow> surplus s' = surplus s"
  unfolding do_accept_completion_def Let_def
  by (auto split: if_splits sum.splits option.splits prod.splits simp: andthen_Inr_iff
      dest!: surplus_allocate surplus_connect_succeed surplus_dgram_accept)

lemma surplus_channel_turn: "channel_turn sy i s = Inr (f, s') \<Longrightarrow> surplus s' = surplus s"
  unfolding channel_turn_def server_turn_def Let_def
  by (auto split: if_splits simp: andthen_Inr_iff quiet_ops dest!: surplus_client_turn surplus_accept_completion)

lemma surplus_channels:
  assumes "process_channels sy s = Inr s'"
  shows "surplus s' = surplus s"
proof -
  have "channels_loop sy kept is t = Inr s' \<Longrightarrow> surplus s' = surplus t" for kept "is" t
  proof (induction "is" arbitrary: kept t)
    case (Cons i "is")
    then show ?case using surplus_channel_turn by (fastforce simp: andthen_Inr_iff)
  qed (auto simp: surplus_def)
  with assms show ?thesis by (simp add: process_channels_def)
qed


text \<open>The turns of the transports, where the list is replaced at the end of the phase.\<close>

definition gap :: "service \<Rightarrow> int" where
  "gap s = int (sv_next_addr s) - int (length (sv_tpool s))"

lemma gap_surplus: "surplus s = gap s - int (length (sv_transports s))"
  by (simp add: gap_def surplus_def)

lemma quiet_gap: "quiet s s' \<Longrightarrow> gap s' = gap s"
  by (simp add: quiet_def gap_def)

lemma gap_simps [simp]:
  "gap (set_tr h t s) = gap s" "gap (s\<lparr>sv_delivered := d\<rparr>) = gap s" "gap (s\<lparr>sv_completed := c\<rparr>) = gap s" "gap (s\<lparr>ts_wait := w\<rparr>) = gap s"
  "gap (s\<lparr>sv_map := m\<rparr>) = gap s" "gap (fire_event e s) = gap s" "gap (set_ctx i ctx s) = gap s" "gap (mod_event fd a r s) = gap s"
  "gap (deallocate_transport h s) = gap s - 1" "gap (cleanup_channel i clear s) = gap s"
  by (simp_all add: gap_def set_tr_def set_ctx_def mod_event_def deallocate_transport_def quiet_gap [unfolded gap_def])

lemma gap_fold_fire [simp]: "gap (foldl (\<lambda>s p. fire_event (f p) s) s ps) = gap s"
  by (induction ps arbitrary: s) simp_all

lemma gap_fold_mods [simp]: "gap (foldl (\<lambda>s (add, rem). mod_event fd add rem s) s ws) = gap s"
  by (induction ws arbitrary: s) (simp_all add: split_beta)

lemma gap_io: "transport_io sy h s = Inr (ok, s') \<Longrightarrow> gap s' = gap s"
  by (auto simp: transport_io_def after_read_def flush_def Let_def andthen_Inr_iff split: if_splits option.splits)

lemma gap_close: "gap (handle_close h s) = gap s - 1"
proof -
  have "gap (snd (cleanup_transport h t)) = gap t" for t
    by (simp add: cleanup_transport_def Let_def quiet_gap [OF quiet_close_sock])
  then show ?thesis by (simp add: handle_close_def connection_closed_def Let_def split: option.split)
qed

lemma gap_turn: "transport_turn sy h s = Inr (keep, s') \<Longrightarrow> gap s' = gap s - (if keep then 0 else 1)"
  by (auto simp: transport_turn_def Let_def andthen_Inr_iff gap_close split: if_splits dest!: gap_io)

lemma surplus_transports:
  assumes "process_transports sy s = Inr s'"
  shows "surplus s' = surplus s"
proof -
  have "transports_loop sy kept hs t = Inr s' \<Longrightarrow> surplus s' = gap t - int (length kept) - int (length hs)" for kept hs t
  proof (induction hs arbitrary: kept t)
    case (Cons h hs)
    from Cons.prems obtain keep t' where t': "transport_turn sy h t = Inr (keep, t')"
      "transports_loop sy (if keep then kept @ [h] else kept) hs t' = Inr s'" by (auto simp: andthen_Inr_iff)
    show ?case using Cons.IH [OF t'(2)] gap_turn [OF t'(1)] by simp
  qed (auto simp: surplus_def gap_def)
  from this [of "[]" "sv_transports s" s] assms show ?thesis by (simp add: process_transports_def gap_surplus)
qed

lemma surplus_stop [simp]: "surplus (handle_stop s) = surplus s"
proof -
  have d: "surplus (snd (dispatch n t)) = surplus t" for n t
    by (auto simp: dispatch_def surplus_def split: prod.splits)
  have q: "surplus (s\<lparr>sv_joinable := j\<rparr>) = surplus s" "surplus (t\<lparr>sv_events := e\<rparr>) = surplus t" "surplus (handle_worker_exit t) = surplus t" for j e t
    by (simp_all add: surplus_def handle_worker_exit_def)
  have c: "surplus (clear_transports t) = surplus t" for t
  proof -
    have "gap (snd (cleanup_transport h u)) = gap u" for h u
      by (simp add: cleanup_transport_def Let_def quiet_gap [OF quiet_close_sock])
    then have g: "gap (foldl (\<lambda>s h. let s = snd (cleanup_transport h s) in s\<lparr>sv_tpool := sv_tpool s @ [h]\<rparr>) u hs) = gap u - int (length hs)" for u hs
      by (induction hs arbitrary: u) (simp_all add: Let_def gap_def)
    show ?thesis using g [of "t\<lparr>sv_map := []\<rparr>" "sv_transports t"] by (simp add: clear_transports_def Let_def surplus_def gap_def)
  qed
  have e: "surplus (t\<lparr>ts_queue := [], sv_stop_flag := 0, sv_state := IDLE\<rparr>) = surplus t" for t by (simp add: surplus_def)
  show ?thesis by (simp add: handle_stop_def Let_def e c d q)
qed

lemma surplus_step: "service_step s s' \<Longrightarrow> surplus s' = surplus s"
proof (induction rule: service_step.induct)
  case (Write h s buf handler n t)
  then show ?case by (simp add: surplus_def set_tr_def wakeup_def)
next
  case (Start s)
  then show ?case by (simp add: surplus_def service_start_def)
next
  case (Exit s)
  then show ?case by (simp add: surplus_def handle_worker_exit_def)
qed (simp_all add: quiet_surplus quiets quiet_open quiet_close quiet_close_transport quiet_dispatch quiet_stop quiet_query_finished
    quiet_begin_frame quiet_deferred quiet_run_timers surplus_transports surplus_channels)

lemma surplus_reachable: "service_step\<^sup>*\<^sup>* (new_service eps) s \<Longrightarrow> surplus s = 0"
  by (induction rule: rtranclp_induct) (simp_all add: surplus_step, simp add: new_service_def surplus_def)


lemma addresses_all:
  assumes "service_step\<^sup>*\<^sup>* (new_service eps) s"
  shows "set (sv_transports s @ sv_tpool s) = {..<sv_next_addr s}"
proof -
  have inv: "distinct (sv_transports s @ sv_tpool s)" "set (sv_transports s @ sv_tpool s) \<subseteq> {..<sv_next_addr s}"
    using reachable_inv [OF assms] by (auto simp: service_inv_def service_ok_def live_ok_def)
  have "length (sv_transports s @ sv_tpool s) = sv_next_addr s" using surplus_reachable [OF assms] by (simp add: surplus_def)
  then have "card (set (sv_transports s @ sv_tpool s)) = card {..<sv_next_addr s}" using distinct_card [OF inv(1)] by simp
  with inv(2) show ?thesis by (intro card_subset_eq) simp_all
qed

section \<open>Destroying the channels\<close>

lemma cancel_service [simp]: "sv_channels (cancel i s) = sv_channels s" "sv_mods (cancel i s) = sv_mods s" "ctx_of (cancel i s) = ctx_of s" for s :: service
  by (auto simp: cancel_def remove_timer_def sort_timers_def wakeup_def ctx_of_def Let_def fun_eq_iff split: option.splits)

lemma cleanup_io_mods:
  assumes "i < length (sv_channels s)"
  shows "sv_mods (snd (cleanup_io i True s)) =
      sv_mods s @ (case io_socket (ctx_of s i) of Some fd \<Rightarrow> [(fd, 0, READWRITE)] | None \<Rightarrow> [])"
    and "k \<noteq> i \<Longrightarrow> io_socket (ctx_of (snd (cleanup_io i True s)) k) = io_socket (ctx_of s k)"
    and "length (sv_channels (snd (cleanup_io i True s))) = length (sv_channels s)"
  using assms
  by (auto simp: cleanup_io_def close_sock_def Let_def ctx_of_set_ctx ctx_of_set_sock split: option.splits)

lemma destroy_loop_mods:
  assumes "list_all (\<lambda>i. i < length (sv_channels s)) is" "distinct is" "i \<in> set is" "io_socket (ctx_of s i) = Some fd"
  shows "(fd, 0, READWRITE) \<in> set (sv_mods (fold (\<lambda>i s. snd (cleanup_io i True (cancel i s))) is s))"
proof -
  have mono: "list_all (\<lambda>i. i < length (sv_channels t)) js \<Longrightarrow> set (sv_mods t) \<subseteq> set (sv_mods (fold (\<lambda>i s. snd (cleanup_io i True (cancel i s))) js t))" for js t
  proof (induction js arbitrary: t)
    case (Cons j js)
    let ?t = "snd (cleanup_io j True (cancel j t))"
    have "list_all (\<lambda>i. i < length (sv_channels ?t)) js" "set (sv_mods t) \<subseteq> set (sv_mods ?t)"
      using Cons.prems cleanup_io_mods [of j "cancel j t"] by (auto simp: list_all_iff)
    then show ?case using Cons.IH [of ?t] by auto
  qed simp
  show ?thesis using assms
  proof (induction "is" arbitrary: s)
    case (Cons j js)
    let ?t = "snd (cleanup_io j True (cancel j s))"
    have l: "list_all (\<lambda>i. i < length (sv_channels ?t)) js" using Cons.prems(1) cleanup_io_mods(3) [of j "cancel j s"] by (simp add: list_all_iff)
    show ?case
    proof (cases "i = j")
      case True
      then have "(fd, 0, READWRITE) \<in> set (sv_mods ?t)" using Cons.prems(1,4) cleanup_io_mods(1) [of j "cancel j s"] by simp
      then show ?thesis using mono [OF l] by auto
    next
      case False
      then show ?thesis using Cons.IH [OF l] Cons.prems cleanup_io_mods(2) [of j "cancel j s" i] by simp
    qed
  qed simp
qed

text \<open>C4: Whatever calls and phases have run, every transport the service has ever allocated is in use
  or in the pool; when the stopped service is finalized each of them is given back exactly once, every
  socket of a channel that is open is taken from the watcher, and no channel is left.\<close>

theorem finalize_frees_once:
  assumes "service_step\<^sup>*\<^sup>* (new_service eps) s"
  shows "set (sv_transports s @ sv_tpool s) = {..<sv_next_addr s} \<and>
    (sv_state s = IDLE \<longrightarrow> (\<exists>s' freed. service_finalize s = (s', freed) \<and> distinct freed \<and> set freed = {..<sv_next_addr s} \<and>
       sv_state s' = UNINITIALIZED \<and> sv_channels s' = [] \<and> sv_tpool s' = [] \<and>
       (\<forall>i < length (sv_channels s). \<forall>fd. io_socket (ctx_of s i) = Some fd \<longrightarrow> (fd, 0, READWRITE) \<in> set (sv_mods s'))))"
proof -
  have all: "set (sv_transports s @ sv_tpool s) = {..<sv_next_addr s}" by (rule addresses_all [OF assms])
  have inv: "distinct (sv_transports s @ sv_tpool s)" "sv_state s \<noteq> RUNNING \<longrightarrow> sv_transports s = []"
    using reachable_inv [OF assms] by (auto simp: service_inv_def service_ok_def live_ok_def)
  have "\<exists>s' freed. service_finalize s = (s', freed) \<and> distinct freed \<and> set freed = {..<sv_next_addr s} \<and>
       sv_state s' = UNINITIALIZED \<and> sv_channels s' = [] \<and> sv_tpool s' = [] \<and>
       (\<forall>i < length (sv_channels s). \<forall>fd. io_socket (ctx_of s i) = Some fd \<longrightarrow> (fd, 0, READWRITE) \<in> set (sv_mods s'))" if idle: "sv_state s = IDLE"
  proof -
    let ?s = "s\<lparr>sv_channel_ops := []\<rparr>"
    let ?d = "fold (\<lambda>i s. snd (cleanup_io i True (cancel i s))) [0..<length (sv_channels s)] ?s"
    have "quiet t (fold (\<lambda>i s. snd (cleanup_io i True (cancel i s))) is t)" for "is" t
      by (induction "is" arbitrary: t) (auto intro: quiet_trans [OF quiet_trans [OF quiet_cancel quiet_cleanup_io]])
    from this [of ?s "[0..<length (sv_channels s)]"] have pool: "sv_tpool ?d = sv_tpool s" by (simp add: quiet_def)
    have c: "ctx_of ?s = ctx_of s" by (simp add: ctx_of_def fun_eq_iff)
    have mods: "(fd, 0, READWRITE) \<in> set (sv_mods ?d)" if "i < length (sv_channels s)" "io_socket (ctx_of s i) = Some fd" for i fd
      by (rule destroy_loop_mods [where i = i]) (use that in \<open>simp_all add: list_all_iff c\<close>)
    have "service_finalize s = (?d\<lparr>sv_channels := [], sv_tpool := [], sv_state := UNINITIALIZED\<rparr>, sv_tpool s)"
      using idle pool by (simp add: service_finalize_def destroy_channels_def Let_def)
    then show ?thesis using mods inv all idle by simp
  qed
  with all show ?thesis by blast
qed

theorem finalize_frees_once_witness:
  "(\<exists>s' freed. service_finalize (new_service [(''a'', 80)]) = (s', freed) \<and> freed = [] \<and> sv_channels s' = []) \<and>
   set (sv_transports demo_accepted @ sv_tpool demo_accepted) = {..<sv_next_addr demo_accepted}"
  using finalize_frees_once [OF rtranclp.rtrancl_refl, of "[(''a'', 80)]"] finalize_frees_once [OF demo_reachable]
  by (auto simp: new_service_def)


section \<open>The default resolver and the texts of errors\<close>

definition service_resolve :: "os \<Rightarrow> endpoint list \<Rightarrow> string \<Rightarrow> 16 word \<Rightarrow> world \<Rightarrow> (int \<times> endpoint list \<times> world) option" where
  "service_resolve os endpoints hostname port w =
     Option.bind (resolve_v4 os hostname port SOCK_STREAM endpoints w) (\<lambda>(r, endpoints, w).
       if r = 0 then Some (0, endpoints, w)
       else Option.bind (resolve_v6 os hostname port SOCK_STREAM endpoints w) (\<lambda>(r, endpoints, w).
         if r = 0 then Some (0, endpoints, w) else resolve_v4to6 os hostname port SOCK_STREAM endpoints w))"

definition ERR_read_timeout :: int where "ERR_read_timeout = -28"

definition service_strerror :: "(int \<Rightarrow> string) \<Rightarrow> int \<Rightarrow> string" where
  "service_strerror sys_text error =
     (if error = ERR_resolve_host_failed then ''Resolve host failed!''
      else if error = ERR_no_available_address then ''No available address!''
      else if error = ERR_shutdown_by_localhost then ''An existing connection was shutdown by local host!''
      else if error = ERR_invalid_packet then ''Invalid packet!''
      else if error = ERR_ssl_handshake_failed then ''SSL handshake failed!''
      else if error = ERR_ssl_write_failed then ''SSL write failed!''
      else if error = ERR_ssl_read_failed then ''SSL read failed!''
      else if error = ERR_read_timeout then ''The remote host did not respond after a period of time.''
      else if error = ERR_eof then ''End of file.''
      else if error = -1 then ''Unknown error!''
      else xx_strerror sys_text error)"

lemma resolve_i_emplace:
  "resolve_i os emplace_endpoint hostname port af flags socktype eps w =
     (let q = Sys_getaddrinfo hostname (if 0 < port then Some (format_u (unat port)) else None) flags af socktype;
          a = os (w_calls w) q
      in Some (an_ret a, eps @ map as_is_addrinfo (filter (\<lambda>ai. ai_family ai = AF_INET6 \<or> ai_family ai = AF_INET) (an_addrs a)), snd (sys os q w)))"
proof -
  have "resolve_loop emplace_endpoint ais eps w = Some (eps @ map as_is_addrinfo (filter (\<lambda>ai. ai_family ai = AF_INET6 \<or> ai_family ai = AF_INET) ais), w)" for ais eps w
    by (induction ais arbitrary: eps) (simp_all add: emplace_endpoint_def)
  then show ?thesis by (simp add: resolve_i_def sys_def Let_def)
qed

text \<open>A host is looked up as an IPv4 name first; the other two lookups follow only while nothing has answered.\<close>

lemma service_resolve_order:
  "\<exists>r eps' w'. service_resolve os eps hostname port w = Some (r, eps', w') \<and>
     (let q = \<lambda>af flags. Sys_getaddrinfo hostname (if 0 < port then Some (format_u (unat port)) else None) flags af SOCK_STREAM;
          asked = map fst (drop (length (w_calls w)) (w_calls w'))
      in (asked = [q AF_INET 0] \<or> asked = [q AF_INET 0, q AF_INET6 0]) \<and> r = 0 \<or> asked = [q AF_INET 0, q AF_INET6 0, q AF_INET6 AI_V4MAPPED])"
  by (simp add: service_resolve_def resolve_v4_def resolve_v6_def resolve_v4to6_def resolve_i_emplace Let_def sys_def)

end
