(* ===== verification/YasioNi.thy ===== *)
theory YasioNi
  imports SetOption Split Kcp
begin

text \<open>
  The native interface for other languages (\<open>yasio/bindings/yasio_ni.cpp\<close>): options whose arguments come
  as one text separated by semicolons, the events as the caller sees them, and the calls that take an
  opaque pointer to the service.
\<close>

section \<open>Options as text\<close>

text \<open>The options by their numbers; \<open>OPT_OTHER\<close> is any that \<open>yasio_set_option\<close> does not know.\<close>

datatype opt_code =
    OPT_S_NO_DISPATCH | OPT_S_CONNECT_TIMEOUT | OPT_S_DNS_CACHE_TIMEOUT | OPT_S_DNS_QUERIES_TIMEOUT | OPT_S_DNS_DIRTY
  | OPT_C_DISABLE_MCAST | OPT_S_DNS_LIST | OPT_C_MCAST_IF | OPT_C_REMOTE_HOST | OPT_C_LOCAL_HOST | OPT_C_UNPACK_STRIP
  | OPT_C_LOCAL_PORT | OPT_C_REMOTE_PORT | OPT_C_UNPACK_NO_BSWAP | OPT_C_ENABLE_MCAST | OPT_C_LOCAL_ENDPOINT
  | OPT_C_REMOTE_ENDPOINT | OPT_C_MOD_FLAGS | OPT_S_TCP_KEEPALIVE | OPT_C_UNPACK_PARAMS | OPT_C_KCP_CONV | OPT_C_KCP_MTU
  | OPT_C_KCP_RTO_MIN | OPT_C_KCP_WINDOW_SIZE | OPT_C_KCP_NODELAY | OPT_OTHER

text \<open>What \<open>set_option\<close> is called with.\<close>

datatype set_call = No_call | Set_io io_option | Set_kcp kcp_option | Set_dns_list string

definition YASIO_MAX_OPTION_ARGC :: nat where "YASIO_MAX_OPTION_ARGC = 5"

definition svtoi :: "string \<Rightarrow> int result" where
  "svtoi sv = (if sv \<noteq> [] then atoi sv else Inr 0)"

text \<open>
  The callback of \<open>split_if\<close>: the arguments so far.  The zero character it writes behind a part makes
  the view a C string; the search goes on behind it and no other part contains it.
\<close>

definition take_arg :: "string \<Rightarrow> string list part_callback" where
  "take_arg s start stop args =
     (let args = args @ [case stop of Some e \<Rightarrow> take (e - start) (drop start s) | None \<Rightarrow> c_string s start]
      in (length args < YASIO_MAX_OPTION_ARGC, args))"

definition arg :: "string list \<Rightarrow> nat \<Rightarrow> string" where
  "arg args k = (if k < length args then args ! k else [])"

definition with_int :: "string \<Rightarrow> (int \<Rightarrow> set_call result) \<Rightarrow> set_call result" where
  "with_int sv f = andthen (svtoi sv) f"

definition one_arg :: "opt_code \<Rightarrow> (int \<Rightarrow> io_option) option" where
  "one_arg opt =
     (case opt of
        OPT_S_NO_DISPATCH \<Rightarrow> Some YOPT_S_NO_DISPATCH
      | OPT_S_CONNECT_TIMEOUT \<Rightarrow> Some YOPT_S_CONNECT_TIMEOUT
      | OPT_S_DNS_CACHE_TIMEOUT \<Rightarrow> Some YOPT_S_DNS_CACHE_TIMEOUT
      | OPT_S_DNS_QUERIES_TIMEOUT \<Rightarrow> Some YOPT_S_DNS_QUERIES_TIMEOUT
      | OPT_S_DNS_DIRTY \<Rightarrow> Some (\<lambda>_. YOPT_S_DNS_DIRTY)
      | OPT_C_DISABLE_MCAST \<Rightarrow> Some YOPT_C_DISABLE_MCAST
      | _ \<Rightarrow> None)"

definition set_with_args :: "opt_code \<Rightarrow> string list \<Rightarrow> set_call result" where
  "set_with_args opt args =
     (let int1 = (\<lambda>f. with_int (arg args 0) (\<lambda>a. Inr (f a)));
          int2 = (\<lambda>f. with_int (arg args 0) (\<lambda>a. with_int (arg args 1) (\<lambda>b. Inr (f a b))));
          int3 = (\<lambda>f. with_int (arg args 0) (\<lambda>a. with_int (arg args 1) (\<lambda>b. with_int (arg args 2) (\<lambda>c. Inr (f a b c)))));
          int5 = (\<lambda>f. with_int (arg args 0) (\<lambda>a. with_int (arg args 1) (\<lambda>b. with_int (arg args 2) (\<lambda>c.
                        with_int (arg args 3) (\<lambda>d. with_int (arg args 4) (\<lambda>e. Inr (f a b c d e)))))))
      in case opt of
           OPT_S_DNS_LIST \<Rightarrow> Inr (Set_dns_list (arg args 1))
         | OPT_C_MCAST_IF \<Rightarrow> int1 (\<lambda>a. Set_io (YOPT_C_MCAST_IF a (Some (arg args 1))))
         | OPT_C_REMOTE_HOST \<Rightarrow> int1 (\<lambda>a. Set_io (YOPT_C_REMOTE_HOST a (arg args 1)))
         | OPT_C_LOCAL_HOST \<Rightarrow> int1 (\<lambda>a. Set_io (YOPT_C_LOCAL_HOST a (arg args 1)))
         | OPT_C_UNPACK_STRIP \<Rightarrow> int2 (\<lambda>a b. Set_io (YOPT_C_UNPACK_STRIP a b))
         | OPT_C_LOCAL_PORT \<Rightarrow> int2 (\<lambda>a b. Set_io (YOPT_C_LOCAL_PORT a b))
         | OPT_C_REMOTE_PORT \<Rightarrow> int2 (\<lambda>a b. Set_io (YOPT_C_REMOTE_PORT a b))
         | OPT_C_UNPACK_NO_BSWAP \<Rightarrow> int2 (\<lambda>a b. Set_io (YOPT_C_UNPACK_NO_BSWAP a b))
         | OPT_C_ENABLE_MCAST \<Rightarrow>
             with_int (arg args 0) (\<lambda>a. with_int (arg args 2) (\<lambda>c. Inr (Set_io (YOPT_C_ENABLE_MCAST a (Some (arg args 1)) c))))
         | OPT_C_LOCAL_ENDPOINT \<Rightarrow>
             with_int (arg args 0) (\<lambda>a. with_int (arg args 2) (\<lambda>c. Inr (Set_io (YOPT_C_LOCAL_ENDPOINT a (arg args 1) c))))
         | OPT_C_REMOTE_ENDPOINT \<Rightarrow>
             with_int (arg args 0) (\<lambda>a. with_int (arg args 2) (\<lambda>c. Inr (Set_io (YOPT_C_REMOTE_ENDPOINT a (arg args 1) c))))
         | OPT_C_MOD_FLAGS \<Rightarrow> int3 (\<lambda>a b c. Set_io (YOPT_C_MOD_FLAGS a b c))
         | OPT_S_TCP_KEEPALIVE \<Rightarrow>
             with_int (arg args 3) (\<lambda>_. int3 (\<lambda>a b c. Set_io (YOPT_S_TCP_KEEPALIVE a b c)))
         | OPT_C_UNPACK_PARAMS \<Rightarrow> int5 (\<lambda>a b c d e. Set_io (YOPT_C_UNPACK_PARAMS a b c d e))
         | OPT_C_KCP_CONV \<Rightarrow> int2 (\<lambda>a b. Set_kcp (YOPT_C_KCP_CONV a b))
         | OPT_C_KCP_MTU \<Rightarrow> int2 (\<lambda>a b. Set_kcp (YOPT_C_KCP_MTU a b))
         | OPT_C_KCP_RTO_MIN \<Rightarrow> int2 (\<lambda>a b. Set_kcp (YOPT_C_KCP_RTO_MIN a b))
         | OPT_C_KCP_WINDOW_SIZE \<Rightarrow> int3 (\<lambda>a b c. Set_kcp (YOPT_C_KCP_WINDOW_SIZE a b c))
         | OPT_C_KCP_NODELAY \<Rightarrow> int5 (\<lambda>a b c d e. Set_kcp (YOPT_C_KCP_NODELAY a b c d e))
         | _ \<Rightarrow> Inr No_call)"

text \<open>\<open>service\<close>: the pointer is not null.\<close>

definition yasio_set_option :: "bool \<Rightarrow> opt_code \<Rightarrow> string option \<Rightarrow> set_call result" where
  "yasio_set_option service opt pszArgs =
     (case pszArgs of
        None \<Rightarrow> Inr No_call
      | Some s \<Rightarrow>
          if \<not> service \<or> s = [] then Inr No_call
          else case one_arg opt of
                 Some f \<Rightarrow> andthen (atoi s) (\<lambda>v. Inr (Set_io (f v)))
               | None \<Rightarrow> (case split_if s CHR '';'' (take_arg s) [] of Some args \<Rightarrow> set_with_args opt args | None \<Rightarrow> Inl Undefined))"

section \<open>Events and packets\<close>

text \<open>The event as the caller sees it: the packet or nothing when it is empty, or the status.\<close>

record ni_event =
  ni_kind :: event_kind
  ni_channel :: nat
  ni_handle :: "nat option"
  ni_value :: "byte list option + int"

definition ni_event_of :: "(nat \<Rightarrow> nat option) \<Rightarrow> io_event \<Rightarrow> ni_event" where
  "ni_event_of handle e =
     \<lparr>ni_kind = ev_kind e, ni_channel = ev_cindex e, ni_handle = (if ev_writable e then handle (ev_source_id e) else None),
      ni_value = (if ev_kind e = YEK_ON_PACKET then Inl (if ev_packet e \<noteq> [] then Some (ev_packet e) else None) else Inr (ev_status e))\<rparr>"

definition yasio_unwrap_len :: "byte list \<Rightarrow> int \<Rightarrow> int" where
  "yasio_unwrap_len pkt offset = sint (of_nat (length pkt) - of_int offset :: 32 word)"

section \<open>Calls with a pointer to the service\<close>

text \<open>A service pointer that is null is \<open>None\<close>; the index of a channel is converted to \<open>size_t\<close>.\<close>

definition ni_index :: "int \<Rightarrow> nat" where
  "ni_index cindex = unat (of_int cindex :: 64 word)"

definition yasio_open :: "service option \<Rightarrow> int \<Rightarrow> int \<Rightarrow> service option" where
  "yasio_open sp cindex kind = map_option (\<lambda>s. snd (service_open (ni_index cindex) (of_int kind) s)) sp"

definition yasio_close :: "service option \<Rightarrow> int \<Rightarrow> service option" where
  "yasio_close sp cindex = map_option (service_close (ni_index cindex)) sp"

definition yasio_write :: "service option \<Rightarrow> io_transport option \<Rightarrow> byte list \<Rightarrow> int \<Rightarrow> (int \<times> io_transport option) result" where
  "yasio_write sp thandle bytes len =
     (if sp = None then Inr (-1, thandle)
      else if len < 0 \<or> int (length bytes) < len then Inl Undefined
      else Inr (service_write (take (nat len) bytes) None thandle))"

definition yasio_bytes_transferred :: "service option \<Rightarrow> int \<Rightarrow> int" where
  "yasio_bytes_transferred sp cindex =
     (case sp of
        Some s \<Rightarrow> if ni_index cindex < length (sv_channels s) then ch_bytes_transferred (ctx_of s (ni_index cindex)) else 0
      | None \<Rightarrow> 0)"

definition yasio_connect_id :: "service option \<Rightarrow> int \<Rightarrow> 32 word" where
  "yasio_connect_id sp cindex =
     (case sp of
        Some s \<Rightarrow> if ni_index cindex < length (sv_channels s) then ch_connect_id (ctx_of s (ni_index cindex)) else 0
      | None \<Rightarrow> 0)"

text \<open>An index below 0 names no channel: the calls leave the service as it is.\<close>

lemma ni_index_negative: "- (2 ^ 31) \<le> i \<Longrightarrow> i < 0 \<Longrightarrow> 2 ^ 63 \<le> ni_index i"
proof -
  assume i: "- (2 ^ 31) \<le> i" "i < 0"
  have "uint (of_int i :: 64 word) = i mod 2 ^ 64" by (simp add: take_bit_eq_mod unsigned_of_int)
  also have "\<dots> = (i + 2 ^ 64) mod 2 ^ 64" by simp
  also have "\<dots> = i + 2 ^ 64" by (rule mod_pos_pos_trivial) (use i in simp_all)
  finally have "int (ni_index i) = i + 2 ^ 64" by (simp add: ni_index_def of_nat_unat)
  then have "int (2 ^ 63) \<le> int (ni_index i)" using i by simp
  then show ?thesis by (simp only: of_nat_le_iff)
qed

lemma ni_negative_index:
  assumes "- (2 ^ 31) \<le> i" "i < 0" "length (sv_channels s) < 2 ^ 63"
  shows "yasio_open (Some s) i kind = Some s" "yasio_close (Some s) i = Some s"
    "yasio_bytes_transferred (Some s) i = 0" "yasio_connect_id (Some s) i = 0"
  using assms(3) ni_index_negative [OF assms(1,2)]
  by (simp_all add: yasio_open_def yasio_close_def yasio_bytes_transferred_def yasio_connect_id_def service_open_def service_close_def)

section \<open>The way back\<close>

text \<open>Numbers and texts as a caller writes them, separated by semicolons.\<close>

definition decimal :: "int \<Rightarrow> string" where
  "decimal i = (if i < 0 then CHR ''-'' # format_u (nat (- i)) else format_u (nat i))"

datatype ni_arg = Num int | Txt string

fun ni_text :: "ni_arg \<Rightarrow> string" where
  "ni_text (Num i) = decimal i"
| "ni_text (Txt s) = s"

fun ni_arg_ok :: "ni_arg \<Rightarrow> bool" where
  "ni_arg_ok (Num i) \<longleftrightarrow> - (2 ^ 31) \<le> i \<and> i < 2 ^ 31"
| "ni_arg_ok (Txt s) \<longleftrightarrow> CHR '';'' \<notin> set s \<and> CHR 0x00 \<notin> set s"

text \<open>The options with their arguments in order.\<close>

fun ni_args :: "set_call \<Rightarrow> (opt_code \<times> ni_arg list) option" where
  "ni_args (Set_io opt) =
     (case opt of
        YOPT_S_NO_DISPATCH v \<Rightarrow> Some (OPT_S_NO_DISPATCH, [Num v])
      | YOPT_S_CONNECT_TIMEOUT v \<Rightarrow> Some (OPT_S_CONNECT_TIMEOUT, [Num v])
      | YOPT_S_DNS_CACHE_TIMEOUT v \<Rightarrow> Some (OPT_S_DNS_CACHE_TIMEOUT, [Num v])
      | YOPT_S_DNS_QUERIES_TIMEOUT v \<Rightarrow> Some (OPT_S_DNS_QUERIES_TIMEOUT, [Num v])
      | YOPT_S_DNS_DIRTY \<Rightarrow> Some (OPT_S_DNS_DIRTY, [Num 1])
      | YOPT_C_DISABLE_MCAST i \<Rightarrow> Some (OPT_C_DISABLE_MCAST, [Num i])
      | YOPT_C_MCAST_IF i (Some a) \<Rightarrow> Some (OPT_C_MCAST_IF, [Num i, Txt a])
      | YOPT_C_REMOTE_HOST i h \<Rightarrow> Some (OPT_C_REMOTE_HOST, [Num i, Txt h])
      | YOPT_C_LOCAL_HOST i h \<Rightarrow> Some (OPT_C_LOCAL_HOST, [Num i, Txt h])
      | YOPT_C_UNPACK_STRIP i v \<Rightarrow> Some (OPT_C_UNPACK_STRIP, [Num i, Num v])
      | YOPT_C_LOCAL_PORT i v \<Rightarrow> Some (OPT_C_LOCAL_PORT, [Num i, Num v])
      | YOPT_C_REMOTE_PORT i v \<Rightarrow> Some (OPT_C_REMOTE_PORT, [Num i, Num v])
      | YOPT_C_UNPACK_NO_BSWAP i v \<Rightarrow> Some (OPT_C_UNPACK_NO_BSWAP, [Num i, Num v])
      | YOPT_C_ENABLE_MCAST i (Some a) l \<Rightarrow> Some (OPT_C_ENABLE_MCAST, [Num i, Txt a, Num l])
      | YOPT_C_LOCAL_ENDPOINT i h p \<Rightarrow> Some (OPT_C_LOCAL_ENDPOINT, [Num i, Txt h, Num p])
      | YOPT_C_REMOTE_ENDPOINT i h p \<Rightarrow> Some (OPT_C_REMOTE_ENDPOINT, [Num i, Txt h, Num p])
      | YOPT_C_MOD_FLAGS i a r \<Rightarrow> Some (OPT_C_MOD_FLAGS, [Num i, Num a, Num r])
      | YOPT_S_TCP_KEEPALIVE a b c \<Rightarrow> Some (OPT_S_TCP_KEEPALIVE, [Num a, Num b, Num c])
      | YOPT_C_UNPACK_PARAMS i a b c d \<Rightarrow> Some (OPT_C_UNPACK_PARAMS, [Num i, Num a, Num b, Num c, Num d])
      | _ \<Rightarrow> None)"
| "ni_args (Set_kcp opt) =
     (case opt of
        YOPT_C_KCP_CONV i v \<Rightarrow> Some (OPT_C_KCP_CONV, [Num i, Num v])
      | YOPT_C_KCP_MTU i v \<Rightarrow> Some (OPT_C_KCP_MTU, [Num i, Num v])
      | YOPT_C_KCP_RTO_MIN i v \<Rightarrow> Some (OPT_C_KCP_RTO_MIN, [Num i, Num v])
      | YOPT_C_KCP_WINDOW_SIZE i a b \<Rightarrow> Some (OPT_C_KCP_WINDOW_SIZE, [Num i, Num a, Num b])
      | YOPT_C_KCP_NODELAY i a b c d \<Rightarrow> Some (OPT_C_KCP_NODELAY, [Num i, Num a, Num b, Num c, Num d]))"
| "ni_args _ = None"

lemma atoi_decimal: "- (2 ^ 31) \<le> i \<Longrightarrow> i < 2 ^ 31 \<Longrightarrow> atoi (decimal i) = Inr i"
proof (cases "i < 0")
  case True
  assume i: "- (2 ^ 31) \<le> i"
  have "digits_value (format_u (nat (- i))) 0 = nat (- i)" using digits_value_format_u [of "nat (- i)"] by simp
  then show ?thesis using True i by (simp add: atoi_def decimal_def is_space_def Let_def)
next
  case False
  assume "i < 2 ^ 31"
  then show ?thesis using False atoi_format_u [of "nat i"] by (simp add: decimal_def nat_less_iff)
qed

lemma decimal_chars: "CHR '';'' \<notin> set (decimal i)" "CHR 0x00 \<notin> set (decimal i)" "decimal i \<noteq> []"
  by (auto simp: decimal_def format_u_not_Nil char_not_in_number is_digit_def)

lemma fields_join: "fs \<noteq> [] \<Longrightarrow> \<forall>f \<in> set fs. d \<notin> set f \<Longrightarrow> Split.fields d (join d fs) = fs"
proof (induction fs)
  case (Cons f fs)
  then show ?case by (cases "fs = []") (simp_all add: join_Cons fields_append)
qed simp

lemma set_join: "c \<in> set (join d fs) \<Longrightarrow> c = d \<or> (\<exists>f \<in> set fs. c \<in> set f)"
proof (induction fs)
  case (Cons f fs)
  then show ?case by (cases "fs = []") (auto simp: join_Cons)
qed simp

lemma visit_take_arg:
  assumes "CHR 0x00 \<notin> set s" "length args < 5"
  shows "\<forall>q \<in> set ps. part_in s q \<Longrightarrow> visit (take_arg s) ps args = args @ take (5 - length args) (map (part_text s) ps)"
  using assms(2)
proof (induction ps arbitrary: args)
  case (Cons q ps)
  obtain a b where q: "q = (a, b)" by (cases q)
  have "CHR 0x00 \<notin> set (drop a s)" using assms(1) by (meson in_set_dropD)
  then have c: "c_string s a = drop a s" by (auto simp: c_string_def intro!: takeWhile_eq_all_conv [THEN iffD2])
  have t: "take_arg s a b args = (Suc (length args) < 5, args @ [part_text s q])"
    by (simp add: take_arg_def part_text_def q c YASIO_MAX_OPTION_ARGC_def Let_def split: option.split)
  obtain n where n: "5 - length args = Suc n" using Cons.prems(2) by (cases "5 - length args") auto
  show ?case
  proof (cases "Suc (length args) < 5")
    case True
    moreover have "n = 4 - length args" using n by simp
    ultimately show ?thesis using Cons.IH [of "args @ [part_text s q]"] Cons.prems t n by (simp add: q)
  next
    case False
    moreover have "n = 0" using n False by simp
    ultimately show ?thesis using t n Cons.prems(2) by (simp add: q)
  qed
qed simp


lemma split_args:
  assumes "fs \<noteq> []" "length fs \<le> 5" "\<forall>f \<in> set fs. CHR '';'' \<notin> set f \<and> CHR 0x00 \<notin> set f"
  shows "split_if (join CHR '';'' fs) CHR '';'' (take_arg (join CHR '';'' fs)) [] = Some fs"
proof -
  let ?s = "join CHR '';'' fs"
  have z: "CHR 0x00 \<notin> set ?s" using set_join [of "CHR 0x00" "CHR '';''" fs] assms(3) by auto
  obtain ps where ps: "map (part_text ?s) ps = Split.fields CHR '';'' (drop 0 ?s)" "\<forall>q \<in> set ps. part_in ?s q"
    "\<forall>pred (st :: string list). split_if_loop ?s CHR '';'' pred 0 0 st = Some (visit pred ps st)"
    using split_if_loop_fields [of 0 ?s "CHR '';''"] z by auto
  have "Split.fields CHR '';'' ?s = fs" by (rule fields_join [OF assms(1)]) (use assms(3) in blast)
  then show ?thesis using ps visit_take_arg [OF z _ ps(2), of "[]"] assms(2) by (simp add: split_if_def)
qed

lemma ni_text_ok: "ni_arg_ok a \<Longrightarrow> CHR '';'' \<notin> set (ni_text a) \<and> CHR 0x00 \<notin> set (ni_text a)"
  by (cases a) (auto simp: decimal_chars)

lemma set_args:
  assumes "one_arg opt = None" "as \<noteq> []" "length as \<le> 5" "list_all ni_arg_ok as" "join CHR '';'' (map ni_text as) \<noteq> []"
  shows "yasio_set_option True opt (Some (join CHR '';'' (map ni_text as))) = set_with_args opt (map ni_text as)"
proof -
  have "split_if (join CHR '';'' (map ni_text as)) CHR '';'' (take_arg (join CHR '';'' (map ni_text as))) [] = Some (map ni_text as)"
    by (rule split_args) (use assms ni_text_ok in \<open>auto simp: list_all_iff\<close>)
  then show ?thesis using assms by (simp add: yasio_set_option_def)
qed

lemma with_int_decimal: "- (2 ^ 31) \<le> i \<Longrightarrow> i < 2 ^ 31 \<Longrightarrow> with_int (decimal i) f = f i"
  by (simp add: with_int_def svtoi_def decimal_chars atoi_decimal)

lemma with_int_none: "with_int [] f = f 0"
  by (simp add: with_int_def svtoi_def)

text \<open>C30: An option whose arguments are written in decimal and separated by semicolons is set with
  exactly these arguments: for every option the interface knows but one, every number of 32 bits and
  every text without a semicolon.\<close>

theorem ni_option_text:
  assumes "ni_args call = Some (opt, as)" "list_all ni_arg_ok as"
  shows "yasio_set_option True opt (Some (join CHR '';'' (map ni_text as))) = Inr call"
proof -
  have j: "\<exists>i bs. as = Num i # bs" "length as \<le> 5"
    using assms(1) by (cases call; auto split: io_option.splits kcp_option.splits option.splits)+
  then obtain i bs where as: "as = Num i # bs" by blast
  have ne: "join CHR '';'' (map ni_text as) \<noteq> []"
    by (cases bs) (simp_all add: as decimal_chars join_Cons)
  show ?thesis
  proof (cases "one_arg opt")
    case (Some f)
    then have "bs = []" "call = Set_io (f i)" using assms(1) as
      by (cases call; auto simp: one_arg_def split: io_option.splits kcp_option.splits option.splits)+
    then show ?thesis using Some assms(2) ne by (simp add: yasio_set_option_def as atoi_decimal)
  next
    case None
    have "set_with_args opt (map ni_text as) = Inr call"
      using assms None
      by (cases call; auto simp: one_arg_def set_with_args_def Let_def arg_def with_int_decimal with_int_none
          split: io_option.splits kcp_option.splits option.splits)
    then show ?thesis using set_args [OF None _ j(2) assms(2) ne] as by simp
  qed
qed

theorem ni_option_text_witness:
  "yasio_set_option True OPT_C_REMOTE_ENDPOINT (Some (join CHR '';'' [decimal 2, ''a.b'', decimal 80])) =
     Inr (Set_io (YOPT_C_REMOTE_ENDPOINT 2 ''a.b'' 80)) \<and>
   yasio_set_option True OPT_C_UNPACK_PARAMS (Some (join CHR '';'' (map decimal [0, 4096, -1, 4, 0]))) =
     Inr (Set_io (YOPT_C_UNPACK_PARAMS 0 4096 (-1) 4 0))"
  using ni_option_text [of "Set_io (YOPT_C_REMOTE_ENDPOINT 2 ''a.b'' 80)"] ni_option_text [of "Set_io (YOPT_C_UNPACK_PARAMS 0 4096 (-1) 4 0)"]
  by simp

text \<open>The list of name servers is taken from the second argument: a list as it is documented, which
  has no semicolon, is replaced by the empty list.\<close>

theorem ni_dns_list_lost:
  assumes "list \<noteq> []" "CHR '';'' \<notin> set list" "CHR 0x00 \<notin> set list"
  shows "yasio_set_option True OPT_S_DNS_LIST (Some list) = Inr (Set_dns_list [])"
  using set_args [of OPT_S_DNS_LIST "[Txt list]"] assms by (simp add: one_arg_def set_with_args_def arg_def)

theorem ni_dns_list_lost_witness: "yasio_set_option True OPT_S_DNS_LIST (Some ''8.8.8.8,1.1.1.1'') = Inr (Set_dns_list [])"
  by (rule ni_dns_list_lost) simp_all

end
