(* ===== verification/Spec2Isabelle.thy ===== *)
theory Spec2Isabelle
  imports IbStream Unpack SendQueue Timers IoWatcher SetOption SharedMutex ObjectPool StringView YString Split StrFmt XxSocket RefPtr Singleton Kcp Tls Ares ServiceLife YasioNi
begin

text \<open>
  A model of yasio, a C++ library for asynchronous socket I/O (\<open>src/yasio\<close>), and what makes it
  correct.

  \<^bold>\<open>The program.\<close>  A program creates an \<open>io_service\<close> with a fixed number of channels, starts its
  thread, and calls \<open>open\<close>, \<open>close\<close>, \<open>write\<close> and \<open>dispatch\<close> from its own threads.  The service's
  thread runs a loop: wait for readiness of descriptors (\<open>io_watcher\<close>), turn every connection
  (\<open>io_transport\<close>: read, cut what has arrived into packets, send what is queued), turn every active
  channel (\<open>io_channel\<close>: resolve, connect, listen, accept), run the timers, hand the events that are
  queued to the user.  Messages are built and taken apart with \<open>obstream\<close> and \<open>ibstream\<close>, which rest
  on \<open>endian_portable\<close> and \<open>pod_vector\<close>; addresses are \<open>ip::endpoint\<close>s, printed and parsed with
  \<open>inet_ntop\<close> and \<open>inet_pton\<close>.

  \<^bold>\<open>The theories.\<close>  Each names in its own header the file it models.
  \<^item> \<open>Prelude\<close>: results of operations that can throw, sizes at 64 bits, byte images of integers.
  \<^item> \<open>Endian\<close> (\<open>endian_portable.hpp\<close>), \<open>PodVector\<close> (\<open>pod_vector.hpp\<close>, \<open>buffer_alloc.hpp\<close>),
    \<open>ObStream\<close> (\<open>obstream.hpp\<close>), \<open>IbStream\<close> (\<open>ibstream.hpp\<close>): serialisation.  Round trips of every
    encoding, the growth policy and the operations of the vector as operations on lists.
  \<^item> \<open>ConcurrentQueue\<close> (\<open>impl/concurrent_queue.hpp\<close>): the queues of events and of send operations.
  \<^item> \<open>InetNtop\<close> (\<open>impl/inet_ntop.hpp\<close>), \<open>Endpoint\<close> (\<open>xxsocket.hpp\<close>): addresses and their texts.
  \<^item> \<open>IoTypes\<close> (\<open>io_service.hpp\<close>): masks, errors, the records of channels, transports and events.
  \<^item> \<open>Unpack\<close>: \<open>do_read\<close>, \<open>unpack\<close> and the length field decoder; a stream cut anywhere comes out as
    its frames.
  \<^item> \<open>SendQueue\<close>: \<open>write\<close>, \<open>write_to\<close> and \<open>do_write\<close>; what reaches the wire, and that it gets there.
  \<^item> \<open>Timers\<close>: the timer queue, the pass over the expired timers and the wait of the poll.
  \<^item> \<open>IoService\<close>: the service's state and every handler of \<open>io_service.cpp\<close> for TCP and UDP, one
    definition each, composed as \<open>run\<close> composes them (\<open>run_pass\<close>).
  \<^item> \<open>ServiceProtocol\<close>: the interleavings of calls and phases as an inductive relation, its invariant,
    and the order of events of a connection.
  \<^item> \<open>ServiceFlow\<close>: outcomes of connecting, closing and stopping.  \<open>ServiceLife\<close>: finalizing; every
    transport allocated is given back once.
  \<^item> \<open>SetOption\<close>: \<open>set_option\<close> and the multicast settings; what options keep of the framing parameters.
  \<^item> \<open>IoWatcher\<close> (\<open>impl/*_io_watcher.hpp\<close>, \<open>impl/*_select_interrupter.hpp\<close>): the back ends against one
    interface.
  \<^item> \<open>SharedMutex\<close> (\<open>shared_mutex.hpp\<close>): every call and every wake-up of a thread is a step; mutual
    exclusion, no lost wake-up, and the guards.
  \<^item> \<open>ObjectPool\<close> (\<open>impl/object_pool.hpp\<close>): chunks and the free list threaded through them, in a memory
    that maps addresses to words.
  \<^item> \<open>CharTraits\<close> (\<open>impl/char_traits.hpp\<close>), \<open>StringView\<close> (\<open>string_view.hpp\<close>), \<open>YString\<close>
    (\<open>string.hpp\<close>), \<open>Split\<close> (\<open>split.hpp\<close>), \<open>StrFmt\<close> (\<open>strfmt.hpp\<close>): searches against a reference, slices
    and comparisons, the growing string with its terminator, fields of a text, formatting by trial.
  \<^item> \<open>XxSocket\<close> (\<open>xxsocket.cpp\<close>): the wrappers of the system's sockets; whole transfers, ownership of
    descriptors, connecting by name.
  \<^item> \<open>RefPtr\<close> (\<open>ref_ptr.hpp\<close>), \<open>Singleton\<close> (\<open>singleton.hpp\<close>): reference counts, the double-checked lock.
  \<^item> \<open>Kcp\<close>: the KCP transport of \<open>io_service.cpp\<close>; messages refine a stream, and the deadlines of a
    32-bit clock.
  \<^item> \<open>Ares\<close>: resolving with c-ares; the count of queries, the descriptors and timeouts of the library in
    the loop, the name servers, and that this build refines the one with resolver threads.
  \<^item> \<open>Tls\<close> (\<open>impl/openssl.hpp\<close>, \<open>impl/mbedtls.hpp\<close>, \<open>io_transport_ssl\<close>): the wrappers of both libraries
    behind one interface, connections over them in the loop, and the contexts; the order of events, the
    stream of packets, when a peer is verified.
  \<^item> \<open>YasioNi\<close> (\<open>bindings/yasio_ni.cpp\<close>): the interface for other languages; options written as text come
    out as they were meant.

  \<^bold>\<open>State.\<close>  The members of a class are the fields of a record of the same name, updated and
  returned.  A socket is its native handle while it is open.  Transports are kept at the addresses
  the code allocates, so that handles, their pool and their reuse are visible.  Threads meet at the
  mutexes and at the loop: each call of a user and each phase of the loop is one step, and the
  theorems about the service hold for every order of steps.

  \<^bold>\<open>The system.\<close>  Sockets, clocks, resolvers, \<open>epoll\<close> and the like are parameters: their answers
  are arguments (\<open>recv_result\<close>, \<open>send_result\<close>, the record \<open>sys\<close>, \<open>net_env\<close>, \<open>pv_env\<close>) and nothing is
  assumed of them but what a theorem names.

  \<^bold>\<open>Errors.\<close>  An exception is a value of \<open>cxx_error\<close>; a point where the C++ has no defined
  behaviour is \<open>Undefined\<close>.  Several theorems state defects: they show what the code does where it
  does not do what it means to.

  \<^bold>\<open>Loops.\<close>  Loops over data are structural recursions or \<open>function\<close>s with a measure; the loops that
  may run on (timers, the interrupters) are \<open>partial_function (option)\<close>, and that they return is
  proved.

  \<^bold>\<open>Not modelled.\<close>  Unix-domain sockets, which are compiled in on request; the control calls and the
  shutdown of a TLS session, which only call the libraries; the other bindings, platform code, extensions and examples.  The
  event protocol leaves out datagrams that reach a server channel, whose session map can name a
  connection that is gone once the kind of the channel has changed.
\<close>

end
